(* ===== verification/Prelude.thy ===== *)
theory Prelude
  imports Main "HOL-Library.Word" "HOL-Library.Monad_Syntax"
begin

text \<open>
  Shared vocabulary of the development: C pointers as 64-bit words, memory as a partial
  map from pointers to the structure stored there, and the two memory accesses that every
  component uses. A pointer operation returns \<open>None\<close> where the C program has undefined
  behaviour (a NULL pointer or a pointer to nothing is dereferenced) and, for a loop, where
  it does not end; a theorem that it returns \<open>Some\<close> is therefore a statement of memory
  safety and of termination as well.
\<close>

unbundle bit_operations_syntax

section \<open>Pointers and memory\<close>

type_synonym ptr = "64 word"

abbreviation NULL :: ptr where
  "NULL \<equiv> 0"

type_synonym 'a heap = "ptr \<rightharpoonup> 'a"

text \<open>\<open>rd h p\<close> reads the structure at \<open>p\<close>; \<open>wr f p h\<close> updates it in place with \<open>f\<close>.\<close>

definition rd :: "'a heap \<Rightarrow> ptr \<Rightarrow> 'a option" where
  "rd h p = (if p = NULL then None else h p)"

definition wr :: "('a \<Rightarrow> 'a) \<Rightarrow> ptr \<Rightarrow> 'a heap \<Rightarrow> 'a heap option" where
  "wr f p h = (case rd h p of None \<Rightarrow> None | Some n \<Rightarrow> Some (h(p \<mapsto> f n)))"

named_theorems heap_simps \<open>symbolic execution of memory accesses\<close>

lemma rd_NULL [simp, heap_simps]: "rd h NULL = None"
  by (simp add: rd_def)

lemma rd_Some [heap_simps]: "p \<noteq> NULL \<Longrightarrow> rd h p = h p"
  by (simp add: rd_def)

lemma wr_Some [heap_simps]: "p \<noteq> NULL \<Longrightarrow> h p = Some n \<Longrightarrow> wr f p h = Some (h(p \<mapsto> f n))"
  by (simp add: wr_def rd_def)

lemma wr_NULL [simp]: "wr f NULL h = None"
  by (simp add: wr_def)

lemma rd_SomeD: "rd h p = Some n \<Longrightarrow> p \<noteq> NULL \<and> h p = Some n"
  by (simp add: rd_def split: if_splits)

lemma wr_SomeE:
  assumes "wr f p h = Some h'"
  obtains n where "p \<noteq> NULL" "h p = Some n" "h' = h(p \<mapsto> f n)"
  using assms by (auto simp: wr_def rd_def split: if_splits option.splits)

lemma dom_wr: "wr f p h = Some h' \<Longrightarrow> dom h' = dom h"
  by (auto elim!: wr_SomeE split: if_splits)

lemma bind_Some_conv:
  "Option.bind m f = Some y \<longleftrightarrow> (\<exists>x. m = Some x \<and> f x = Some y)"
  by (cases m) auto

text \<open>
  \<open>runs m Q\<close>: the computation \<open>m\<close> has no undefined behaviour, ends, and its result
  satisfies \<open>Q\<close> (total correctness).
\<close>

definition runs :: "'a option \<Rightarrow> ('a \<Rightarrow> bool) \<Rightarrow> bool" where
  "runs m Q \<longleftrightarrow> (\<exists>x. m = Some x \<and> Q x)"

named_theorems runs_simps \<open>decomposition of total-correctness statements\<close>

lemma runs_Some [simp, runs_simps]: "runs (Some x) Q = Q x"
  by (simp add: runs_def)

lemma runs_None [simp, runs_simps]: "\<not> runs None Q"
  by (simp add: runs_def)

lemma runs_bind [runs_simps]: "runs (Option.bind m f) Q = runs m (\<lambda>x. runs (f x) Q)"
  by (cases m) simp_all

lemma runs_if [runs_simps]: "runs (if b then m else m') Q = (if b then runs m Q else runs m' Q)"
  by simp

lemma runs_mono: "runs m P \<Longrightarrow> (\<And>x. P x \<Longrightarrow> Q x) \<Longrightarrow> runs m Q"
  by (auto simp: runs_def)

lemma runs_bindI: "runs m P \<Longrightarrow> (\<And>x. P x \<Longrightarrow> runs (f x) Q) \<Longrightarrow> runs (Option.bind m f) Q"
  by (auto simp: runs_def)

lemma runs_conj: "runs m P \<Longrightarrow> runs m Q \<Longrightarrow> runs m (\<lambda>x. P x \<and> Q x)"
  by (auto simp: runs_def)

lemma runs_rd: "p \<noteq> NULL \<Longrightarrow> h p = Some n \<Longrightarrow> runs (rd h p) Q = Q n"
  by (simp add: rd_def)

lemma runs_rd_bind:
  "p \<noteq> NULL \<Longrightarrow> h p = Some n \<Longrightarrow> runs (Option.bind (rd h p) f) Q = runs (f n) Q"
  by (simp add: rd_def)

lemma runs_wr: "p \<noteq> NULL \<Longrightarrow> h p = Some n \<Longrightarrow> runs (wr f p h) Q = Q (h(p \<mapsto> f n))"
  by (simp add: wr_def rd_def)

section \<open>Words\<close>

text \<open>A pointer whose two low bits are clear, as those of every aligned structure are.\<close>

definition aligned :: "ptr \<Rightarrow> bool" where
  "aligned p \<longleftrightarrow> p AND 3 = 0"

lemma aligned_NULL [simp]: "aligned NULL"
  by (simp add: aligned_def)

lemma and_not_eq_self:
  fixes p m :: "'a::len word"
  assumes "p AND m = 0"
  shows "p AND NOT m = p"
proof -
  have "p = (p AND m) OR (p AND NOT m)"
    by (simp flip: bit.conj_disj_distrib)
  with assms show ?thesis by simp
qed

lemma sint32_id: "- (2 ^ 31) \<le> x \<Longrightarrow> x < 2 ^ 31 \<Longrightarrow> sint (word_of_int x :: 32 word) = x"
  by (simp add: sint_sbintrunc' signed_take_bit_int_eq_self)

section \<open>Lists\<close>

lemma hd_append_if: "hd (xs @ ys) = (if xs = [] then hd ys else hd xs)"
  by simp

lemma last_append_if: "last (xs @ ys) = (if ys = [] then last xs else last ys)"
  by simp

section \<open>Strings in arrays\<close>

text \<open>
  The string in an array of characters, as \<^verbatim>\<open>printf\<close>, \<^verbatim>\<open>strlen\<close> and the constructor of \<^verbatim>\<open>std::string\<close> read it: it ends at the
  first NUL, and without one the end of the array is passed.
\<close>

definition buf_string :: "string \<Rightarrow> string option" where
  "buf_string buf = (if CHR 0x00 \<in> set buf then Some (takeWhile (\<lambda>c. c \<noteq> CHR 0x00) buf) else None)"

lemma takeWhile_stop: "x \<notin> set s \<Longrightarrow> takeWhile (\<lambda>c. c \<noteq> x) (s @ x # r) = s"
  by (induction s) auto

lemma buf_string_terminated: "CHR 0x00 \<notin> set s \<Longrightarrow> buf_string (s @ CHR 0x00 # r) = Some s"
  by (simp add: buf_string_def takeWhile_stop)

end
