(* ===== verification/ListHead.thy ===== *)
theory ListHead
  imports Prelude
begin

text \<open>
  The circular doubly linked list of \<^verbatim>\<open>network/wba_event/list.h\<close>. The operations are the
  C functions on a heap of \<^verbatim>\<open>struct list_head\<close>, statement by statement; the abstraction
  \<open>dlist h head xs\<close> says that the list anchored at \<open>head\<close> holds the entries \<open>xs\<close> in
  this order. Every operation is shown to be the list operation its comment promises, to
  leave all other lists alone and never to dereference a bad pointer.
\<close>

section \<open>The code\<close>

record list_head =
  nxt :: ptr
  prv :: ptr

type_synonym list_heap = "list_head heap"

abbreviation set_next :: "ptr \<Rightarrow> ptr \<Rightarrow> list_heap \<Rightarrow> list_heap option" where
  "set_next p v h \<equiv> wr (\<lambda>n. n\<lparr>nxt := v\<rparr>) p h"

abbreviation set_prev :: "ptr \<Rightarrow> ptr \<Rightarrow> list_heap \<Rightarrow> list_heap option" where
  "set_prev p v h \<equiv> wr (\<lambda>n. n\<lparr>prv := v\<rparr>) p h"

definition INIT_LIST_HEAD :: "ptr \<Rightarrow> list_heap \<Rightarrow> list_heap option" where
  "INIT_LIST_HEAD p h = do {
     h \<leftarrow> set_next p p h;
     set_prev p p h }"

text \<open>\<^verbatim>\<open>__list_add(new, prev, next)\<close>\<close>

definition list_add_between :: "ptr \<Rightarrow> ptr \<Rightarrow> ptr \<Rightarrow> list_heap \<Rightarrow> list_heap option" where
  "list_add_between new prev next' h = do {
     h \<leftarrow> set_prev next' new h;
     h \<leftarrow> set_next new next' h;
     h \<leftarrow> set_prev new prev h;
     set_next prev new h }"

definition list_add :: "ptr \<Rightarrow> ptr \<Rightarrow> list_heap \<Rightarrow> list_heap option" where
  "list_add new head h = do {
     hd' \<leftarrow> rd h head;
     list_add_between new head (nxt hd') h }"

definition list_add_tail :: "ptr \<Rightarrow> ptr \<Rightarrow> list_heap \<Rightarrow> list_heap option" where
  "list_add_tail new head h = do {
     hd' \<leftarrow> rd h head;
     list_add_between new (prv hd') head h }"

text \<open>\<^verbatim>\<open>__list_del(prev, next)\<close>\<close>

definition list_del_between :: "ptr \<Rightarrow> ptr \<Rightarrow> list_heap \<Rightarrow> list_heap option" where
  "list_del_between prev next' h = do {
     h \<leftarrow> set_prev next' prev h;
     set_next prev next' h }"

definition list_del :: "ptr \<Rightarrow> list_heap \<Rightarrow> list_heap option" where
  "list_del entry h = do {
     e \<leftarrow> rd h entry;
     h \<leftarrow> list_del_between (prv e) (nxt e) h;
     h \<leftarrow> set_next entry NULL h;
     set_prev entry NULL h }"

definition list_del_init :: "ptr \<Rightarrow> list_heap \<Rightarrow> list_heap option" where
  "list_del_init entry h = do {
     e \<leftarrow> rd h entry;
     h \<leftarrow> list_del_between (prv e) (nxt e) h;
     INIT_LIST_HEAD entry h }"

definition list_move :: "ptr \<Rightarrow> ptr \<Rightarrow> list_heap \<Rightarrow> list_heap option" where
  "list_move entry head h = do {
     e \<leftarrow> rd h entry;
     h \<leftarrow> list_del_between (prv e) (nxt e) h;
     list_add entry head h }"

definition list_move_tail :: "ptr \<Rightarrow> ptr \<Rightarrow> list_heap \<Rightarrow> list_heap option" where
  "list_move_tail entry head h = do {
     e \<leftarrow> rd h entry;
     h \<leftarrow> list_del_between (prv e) (nxt e) h;
     list_add_tail entry head h }"

definition list_empty :: "ptr \<Rightarrow> list_heap \<Rightarrow> bool option" where
  "list_empty head h = do {
     n \<leftarrow> rd h head;
     Some (nxt n = head) }"

text \<open>\<^verbatim>\<open>__list_splice(list, head)\<close>\<close>

definition list_splice_between :: "ptr \<Rightarrow> ptr \<Rightarrow> list_heap \<Rightarrow> list_heap option" where
  "list_splice_between lst head h = do {
     l \<leftarrow> rd h lst;
     hd' \<leftarrow> rd h head;
     let first = nxt l;
     let last' = prv l;
     let at = nxt hd';
     h \<leftarrow> set_prev first head h;
     h \<leftarrow> set_next head first h;
     h \<leftarrow> set_next last' at h;
     set_prev at last' h }"

definition list_splice :: "ptr \<Rightarrow> ptr \<Rightarrow> list_heap \<Rightarrow> list_heap option" where
  "list_splice lst head h = do {
     e \<leftarrow> list_empty lst h;
     if \<not> e then list_splice_between lst head h else Some h }"

definition list_splice_init :: "ptr \<Rightarrow> ptr \<Rightarrow> list_heap \<Rightarrow> list_heap option" where
  "list_splice_init lst head h = do {
     e \<leftarrow> list_empty lst h;
     if \<not> e then do {
       h \<leftarrow> list_splice_between lst head h;
       INIT_LIST_HEAD lst h }
     else Some h }"

text \<open>
  The iteration macros expand to a \<^verbatim>\<open>for\<close> loop around a body supplied by the caller. The
  body is a parameter; it may change the heap and a state of its own. \<open>list_entry\<close> is the
  identity here: an entry is named by the address of the structure that embeds it.
\<close>

partial_function (option) list_for_each_from ::
  "(ptr \<Rightarrow> list_heap \<times> 's \<Rightarrow> (list_heap \<times> 's) option) \<Rightarrow> ptr \<Rightarrow> ptr \<Rightarrow> list_heap \<times> 's \<Rightarrow> (list_heap \<times> 's) option"
where
  "list_for_each_from body head pos s =
     (if pos = head then Some s
      else do {
        s \<leftarrow> body pos s;
        n \<leftarrow> rd (fst s) pos;
        list_for_each_from body head (nxt n) s })"

definition list_for_each ::
  "(ptr \<Rightarrow> list_heap \<times> 's \<Rightarrow> (list_heap \<times> 's) option) \<Rightarrow> ptr \<Rightarrow> list_heap \<times> 's \<Rightarrow> (list_heap \<times> 's) option"
where
  "list_for_each body head s = do {
     n \<leftarrow> rd (fst s) head;
     list_for_each_from body head (nxt n) s }"

partial_function (option) list_for_each_prev_from ::
  "(ptr \<Rightarrow> list_heap \<times> 's \<Rightarrow> (list_heap \<times> 's) option) \<Rightarrow> ptr \<Rightarrow> ptr \<Rightarrow> list_heap \<times> 's \<Rightarrow> (list_heap \<times> 's) option"
where
  "list_for_each_prev_from body head pos s =
     (if pos = head then Some s
      else do {
        s \<leftarrow> body pos s;
        n \<leftarrow> rd (fst s) pos;
        list_for_each_prev_from body head (prv n) s })"

definition list_for_each_prev ::
  "(ptr \<Rightarrow> list_heap \<times> 's \<Rightarrow> (list_heap \<times> 's) option) \<Rightarrow> ptr \<Rightarrow> list_heap \<times> 's \<Rightarrow> (list_heap \<times> 's) option"
where
  "list_for_each_prev body head s = do {
     n \<leftarrow> rd (fst s) head;
     list_for_each_prev_from body head (prv n) s }"

text \<open>
  The \<^verbatim>\<open>_safe\<close> variant reads the successor of the current entry before the body runs, so the
  body may remove the entry it is given.
\<close>

partial_function (option) list_for_each_safe_from ::
  "(ptr \<Rightarrow> list_heap \<times> 's \<Rightarrow> (list_heap \<times> 's) option) \<Rightarrow> ptr \<Rightarrow> ptr \<Rightarrow> ptr \<Rightarrow> list_heap \<times> 's \<Rightarrow> (list_heap \<times> 's) option"
where
  "list_for_each_safe_from body head pos n s =
     (if pos = head then Some s
      else do {
        s \<leftarrow> body pos s;
        m \<leftarrow> rd (fst s) n;
        list_for_each_safe_from body head n (nxt m) s })"

definition list_for_each_safe ::
  "(ptr \<Rightarrow> list_heap \<times> 's \<Rightarrow> (list_heap \<times> 's) option) \<Rightarrow> ptr \<Rightarrow> list_heap \<times> 's \<Rightarrow> (list_heap \<times> 's) option"
where
  "list_for_each_safe body head s = do {
     hd' \<leftarrow> rd (fst s) head;
     n \<leftarrow> rd (fst s) (nxt hd');
     list_for_each_safe_from body head (nxt hd') (nxt n) s }"

section \<open>Abstraction\<close>

definition nx :: "list_heap \<Rightarrow> ptr \<rightharpoonup> ptr" where
  "nx h p = map_option nxt (h p)"

definition pv :: "list_heap \<Rightarrow> ptr \<rightharpoonup> ptr" where
  "pv h p = map_option prv (h p)"

text \<open>\<open>links N P zs\<close>: neighbours in \<open>zs\<close> point at each other.\<close>

fun links :: "(ptr \<rightharpoonup> ptr) \<Rightarrow> (ptr \<rightharpoonup> ptr) \<Rightarrow> ptr list \<Rightarrow> bool" where
  "links N P (a # b # zs) = (N a = Some b \<and> P b = Some a \<and> links N P (b # zs))"
| "links N P _ = True"

definition dlist :: "list_heap \<Rightarrow> ptr \<Rightarrow> ptr list \<Rightarrow> bool" where
  "dlist h head xs \<longleftrightarrow>
     distinct (head # xs) \<and> NULL \<notin> set (head # xs) \<and>
     links (nx h) (pv h) (head # xs @ [head])"


lemma links_join:
  assumes "us \<noteq> []" "vs \<noteq> []"
  shows "links N P (us @ vs) \<longleftrightarrow>
    links N P us \<and> links N P vs \<and> N (last us) = Some (hd vs) \<and> P (hd vs) = Some (last us)"
  using assms(1)
proof (induction us rule: list_nonempty_induct)
  case (single x)
  obtain v vs' where "vs = v # vs'" using assms(2) by (cases vs) simp_all
  then show ?case by (simp add: conj_ac)
next
  case (cons x xs)
  obtain y ys where "xs = y # ys" using cons.hyps by (cases xs) simp_all
  with cons.IH show ?case by (simp add: conj_ac)
qed

lemma links_next_upd: "a \<notin> set (butlast zs) \<Longrightarrow> links (N(a := v)) P zs = links N P zs"
  by (induction N P zs rule: links.induct) auto

lemma links_prev_upd: "a \<notin> set (tl zs) \<Longrightarrow> links N (P(a := v)) zs = links N P zs"
  by (induction N P zs rule: links.induct) auto

lemmas links_upd = links_next_upd links_prev_upd

lemma links_insert:
  assumes "us \<noteq> []" "vs \<noteq> []" "links N P (us @ vs)"
    and "last us \<notin> set (butlast us)" "last us \<notin> set (butlast vs)"
    and "hd vs \<notin> set (tl us)" "hd vs \<notin> set (tl vs)"
    and "new \<notin> set us" "new \<notin> set vs"
  shows "links (N(new \<mapsto> hd vs, last us \<mapsto> new)) (P(hd vs \<mapsto> new, new \<mapsto> last us)) (us @ new # vs)"
proof -
  have new: "new \<notin> set (butlast us)" "new \<notin> set (butlast vs)" "new \<notin> set (tl us)" "new \<notin> set (tl vs)"
    "last us \<noteq> new" "hd vs \<noteq> new"
    using assms by (auto dest: in_set_butlastD list.set_sel(2)[rotated])
  let ?N = "N(new \<mapsto> hd vs, last us \<mapsto> new)" and ?P = "P(hd vs \<mapsto> new, new \<mapsto> last us)"
  have "links ?N ?P us" "links ?N ?P vs"
    using assms new by (simp_all add: links_upd links_join)
  then have "links ?N ?P ([new] @ vs)"
    using assms(2) new by (subst links_join) simp_all
  with \<open>links ?N ?P us\<close> have "links ?N ?P (us @ ([new] @ vs))"
    using assms(1) new by (subst links_join) simp_all
  then show ?thesis by simp
qed

lemma links_remove:
  assumes "us \<noteq> []" "vs \<noteq> []" "links N P (us @ a # vs)"
    and "last us \<notin> set (butlast us)" "last us \<notin> set (butlast vs)"
    and "hd vs \<notin> set (tl us)" "hd vs \<notin> set (tl vs)"
  shows "links (N(last us \<mapsto> hd vs)) (P(hd vs \<mapsto> last us)) (us @ vs)"
proof -
  have "links N P us" "links N P ([a] @ vs)"
    using assms(1,3) links_join[of us "a # vs"] by simp_all
  moreover from this(2) have "links N P vs"
    using assms(2) links_join[of "[a]" vs] by simp
  ultimately show ?thesis
    using assms by (simp add: links_upd links_join)
qed

lemma links_cong:
  assumes "\<And>p. p \<in> set zs \<Longrightarrow> N p = N' p \<and> P p = P' p"
  shows "links N P zs = links N' P' zs"
  using assms by (induction N P zs rule: links.induct) auto

text \<open>The abstraction only looks at the anchor and the entries.\<close>

lemma dlist_frame:
  assumes "\<And>p. p \<in> set (head # xs) \<Longrightarrow> h' p = h p"
  shows "dlist h' head xs = dlist h head xs"
proof -
  have "links (nx h') (pv h') (head # xs @ [head]) = links (nx h) (pv h) (head # xs @ [head])"
    by (rule links_cong) (use assms in \<open>auto simp: nx_def pv_def\<close>)
  then show ?thesis by (simp add: dlist_def)
qed

lemma dlist_frameI:
  "dlist h head xs \<Longrightarrow> (\<And>p. p \<in> set (head # xs) \<Longrightarrow> h' p = h p) \<Longrightarrow> dlist h' head xs"
  using dlist_frame by blast

lemma nx_None_iff: "nx h p = None \<longleftrightarrow> p \<notin> dom h"
  by (auto simp: nx_def)

lemma nx_upd [simp]: "nx (h(p \<mapsto> n)) = (nx h)(p \<mapsto> nxt n)"
  by (auto simp: nx_def fun_eq_iff)

lemma pv_upd [simp]: "pv (h(p \<mapsto> n)) = (pv h)(p \<mapsto> prv n)"
  by (auto simp: pv_def fun_eq_iff)

lemma links_dom: "links (nx h) (pv h) (a # zs @ [b]) \<Longrightarrow> set (a # zs @ [b]) \<subseteq> dom h"
proof (induction zs arbitrary: a)
  case Nil
  then show ?case by (auto simp: nx_def pv_def)
next
  case (Cons z zs)
  then show ?case by (auto simp: nx_def)
qed

lemma dlist_dom: "dlist h head xs \<Longrightarrow> set (head # xs) \<subseteq> dom h"
  using links_dom[of h head xs head] by (auto simp: dlist_def)

lemma dlist_head_dom: "dlist h head xs \<Longrightarrow> \<exists>n. h head = Some n"
  using dlist_dom by fastforce

lemma dlist_entry_dom: "dlist h head xs \<Longrightarrow> a \<in> set xs \<Longrightarrow> \<exists>n. h a = Some n"
  using dlist_dom by fastforce

text \<open>The neighbours of the anchor and of an entry.\<close>

lemma dlist_split:
  "dlist h head (xs @ ys) \<longleftrightarrow>
     distinct (head # xs @ ys) \<and> NULL \<notin> set (head # xs @ ys) \<and>
     links (nx h) (pv h) (head # xs) \<and> links (nx h) (pv h) (ys @ [head]) \<and>
     nx h (last (head # xs)) = Some (hd (ys @ [head])) \<and>
     pv h (hd (ys @ [head])) = Some (last (head # xs))"
  using links_join[of "head # xs" "ys @ [head]" "nx h" "pv h"] by (auto simp: dlist_def)

text \<open>Facts on the two ends of the segments of a cycle, for updates at the seam.\<close>

lemma seam_notin:
  assumes "distinct (head # xs @ ys)"
  shows "last (head # xs) \<notin> set (butlast (head # xs))" "last (head # xs) \<notin> set (butlast (ys @ [head]))"
    "hd (ys @ [head]) \<notin> set (tl (head # xs))" "hd (ys @ [head]) \<notin> set (tl (ys @ [head]))"
proof -
  obtain us a where us: "head # xs = us @ [a]"
    by (metis append_butlast_last_id list.distinct(1))
  then have "distinct (us @ [a])" "set (us @ [a]) \<inter> set ys = {}"
    using assms by (metis append_Cons distinct_append)+
  then show "last (head # xs) \<notin> set (butlast (head # xs))"
    "last (head # xs) \<notin> set (butlast (ys @ [head]))"
    unfolding us by auto
  show "hd (ys @ [head]) \<notin> set (tl (head # xs))" "hd (ys @ [head]) \<notin> set (tl (ys @ [head]))"
    using assms by (cases ys; auto)+
qed

lemma seam_dom:
  assumes "dlist h head (xs @ ys)"
  shows "last (head # xs) \<in> dom h" "hd (ys @ [head]) \<in> dom h"
    "last (head # xs) \<noteq> NULL" "hd (ys @ [head]) \<noteq> NULL"
    "last (head # xs) \<in> set (head # xs)" "hd (ys @ [head]) \<in> set (head # ys)"
proof -
  show 1: "last (head # xs) \<in> set (head # xs)" by (rule last_in_set) simp
  show 2: "hd (ys @ [head]) \<in> set (head # ys)" by (cases ys) auto
  have "set (head # xs @ ys) \<subseteq> dom h" "NULL \<notin> set (head # xs @ ys)"
    using dlist_dom[OF assms] assms by (simp_all add: dlist_def)
  then show "last (head # xs) \<in> dom h" "hd (ys @ [head]) \<in> dom h"
    "last (head # xs) \<noteq> NULL" "hd (ys @ [head]) \<noteq> NULL"
    using 1 2 by auto
qed

section \<open>What each operation does\<close>

lemma runs_set_next:
  assumes "p \<noteq> NULL" "p \<in> dom h"
    and "\<And>h'. nx h' = (nx h)(p \<mapsto> v) \<Longrightarrow> pv h' = pv h \<Longrightarrow> dom h' = dom h \<Longrightarrow>
      (\<And>q. q \<noteq> p \<Longrightarrow> h' q = h q) \<Longrightarrow> Q h'"
  shows "runs (set_next p v h) Q"
proof -
  from assms(2) obtain n where n: "h p = Some n" by blast
  let ?h = "h(p \<mapsto> n\<lparr>nxt := v\<rparr>)"
  have "Q ?h"
    by (rule assms(3)) (use n in \<open>auto simp: pv_def fun_eq_iff\<close>)
  with n assms(1) show ?thesis by (simp add: runs_wr)
qed

lemma runs_set_prev:
  assumes "p \<noteq> NULL" "p \<in> dom h"
    and "\<And>h'. nx h' = nx h \<Longrightarrow> pv h' = (pv h)(p \<mapsto> v) \<Longrightarrow> dom h' = dom h \<Longrightarrow>
      (\<And>q. q \<noteq> p \<Longrightarrow> h' q = h q) \<Longrightarrow> Q h'"
  shows "runs (set_prev p v h) Q"
proof -
  from assms(2) obtain n where n: "h p = Some n" by blast
  let ?h = "h(p \<mapsto> n\<lparr>prv := v\<rparr>)"
  have "Q ?h"
    by (rule assms(3)) (use n in \<open>auto simp: nx_def fun_eq_iff\<close>)
  with n assms(1) show ?thesis by (simp add: runs_wr)
qed

lemma runs_list_add_between:
  assumes "new \<in> dom h" "prev \<in> dom h" "next' \<in> dom h"
    and "new \<noteq> NULL" "prev \<noteq> NULL" "next' \<noteq> NULL"
    and "\<And>h'. nx h' = (nx h)(new \<mapsto> next', prev \<mapsto> new) \<Longrightarrow>
      pv h' = (pv h)(next' \<mapsto> new, new \<mapsto> prev) \<Longrightarrow> dom h' = dom h \<Longrightarrow>
      (\<And>p. p \<notin> {new, prev, next'} \<Longrightarrow> h' p = h p) \<Longrightarrow> Q h'"
  shows "runs (list_add_between new prev next' h) Q"
  unfolding list_add_between_def runs_bind
  using assms by (auto intro!: runs_set_next runs_set_prev iff del: domIff)

lemma runs_list_del_between:
  assumes "prev \<in> dom h" "next' \<in> dom h" "prev \<noteq> NULL" "next' \<noteq> NULL"
    and "\<And>h'. nx h' = (nx h)(prev \<mapsto> next') \<Longrightarrow> pv h' = (pv h)(next' \<mapsto> prev) \<Longrightarrow>
      dom h' = dom h \<Longrightarrow> (\<And>p. p \<notin> {prev, next'} \<Longrightarrow> h' p = h p) \<Longrightarrow> Q h'"
  shows "runs (list_del_between prev next' h) Q"
  unfolding list_del_between_def runs_bind
  using assms by (auto intro!: runs_set_next runs_set_prev iff del: domIff)

lemma runs_INIT_LIST_HEAD:
  assumes "p \<noteq> NULL" "p \<in> dom h"
    and "\<And>h'. nx h' = (nx h)(p \<mapsto> p) \<Longrightarrow> pv h' = (pv h)(p \<mapsto> p) \<Longrightarrow> dom h' = dom h \<Longrightarrow>
      (\<And>q. q \<noteq> p \<Longrightarrow> h' q = h q) \<Longrightarrow> Q h'"
  shows "runs (INIT_LIST_HEAD p h) Q"
  unfolding INIT_LIST_HEAD_def runs_bind
  using assms by (auto intro!: runs_set_next runs_set_prev iff del: domIff)

text \<open>
  The effect on the abstraction: \<^verbatim>\<open>list_add\<close> puts the entry at the front,
  \<^verbatim>\<open>list_add_tail\<close> at the back.
\<close>

lemma dlist_insert:
  assumes d: "dlist h head (xs @ ys)"
    and new: "new \<noteq> NULL" "new \<in> dom h" "new \<notin> set (head # xs @ ys)"
  shows "runs (list_add_between new (last (head # xs)) (hd (ys @ [head])) h) (\<lambda>h'.
    dlist h' head (xs @ new # ys) \<and> dom h' = dom h \<and>
    (\<forall>p. p \<notin> set (new # head # xs @ ys) \<longrightarrow> h' p = h p))" (is "runs _ ?Q")
proof -
  let ?a = "last (head # xs)" and ?b = "hd (ys @ [head])"
  note dom = seam_dom[OF d]
  from d have dist: "distinct (head # xs @ ys)" by (simp add: dlist_def)
  have lk: "links (nx h) (pv h) ((head # xs) @ (ys @ [head]))"
    using d by (simp add: dlist_def)
  show ?thesis
  proof (rule runs_list_add_between)
    fix h'
    assume N: "nx h' = (nx h)(new \<mapsto> ?b, ?a \<mapsto> new)" and P: "pv h' = (pv h)(?b \<mapsto> new, new \<mapsto> ?a)"
      and D: "dom h' = dom h" and F: "\<And>p. p \<notin> {new, ?a, ?b} \<Longrightarrow> h' p = h p"
    have "links (nx h') (pv h') ((head # xs) @ new # (ys @ [head]))"
      unfolding N P using new(3) by (intro links_insert lk seam_notin[OF dist]) auto
    then have "dlist h' head (xs @ new # ys)"
      using d new by (auto simp: dlist_def)
    moreover have "h' p = h p" if "p \<notin> set (new # head # xs @ ys)" for p
      using that dom(5,6) by (intro F) auto
    ultimately show "?Q h'" using D by simp
  qed (use new dom in auto)
qed

lemma dlist_remove:
  assumes d: "dlist h head (xs @ a # ys)"
  shows "runs (list_del_between (last (head # xs)) (hd (ys @ [head])) h) (\<lambda>h'.
    dlist h' head (xs @ ys) \<and> dom h' = dom h \<and> h' a = h a \<and>
    (\<forall>p. p \<notin> set (head # xs @ ys) \<longrightarrow> h' p = h p))" (is "runs _ ?Q")
proof -
  let ?a = "last (head # xs)" and ?b = "hd (ys @ [head])"
  have dom: "?a \<in> dom h" "?a \<noteq> NULL" "?a \<in> set (head # xs)"
    using seam_dom[OF d] by simp_all
  from d have "dlist h head ((xs @ [a]) @ ys)" by simp
  from seam_dom[OF this] have dom': "?b \<in> dom h" "?b \<noteq> NULL" "?b \<in> set (head # ys)"
    by simp_all
  from d have dist: "distinct (head # xs @ ys)" and a: "a \<notin> set (head # xs @ ys)"
    by (auto simp: dlist_def)
  have lk: "links (nx h) (pv h) ((head # xs) @ a # (ys @ [head]))"
    using d by (simp add: dlist_def)
  show ?thesis
  proof (rule runs_list_del_between)
    fix h'
    assume N: "nx h' = (nx h)(?a \<mapsto> ?b)" and P: "pv h' = (pv h)(?b \<mapsto> ?a)"
      and D: "dom h' = dom h" and F: "\<And>p. p \<notin> {?a, ?b} \<Longrightarrow> h' p = h p"
    have "links (nx h') (pv h') ((head # xs) @ (ys @ [head]))"
      unfolding N P by (intro links_remove[OF _ _ lk] seam_notin[OF dist]) simp_all
    then have "dlist h' head (xs @ ys)"
      using d by (auto simp: dlist_def)
    moreover have "h' p = h p" if "p \<notin> set (head # xs @ ys)" for p
      using that dom(3) dom'(3) by (intro F) auto
    ultimately show "?Q h'" using D a by simp
  qed (use dom dom' in auto)
qed

text \<open>The fields of the anchor and of an entry, as the code reads them.\<close>

lemma dlist_head_fields:
  assumes "dlist h head xs" "h head = Some n"
  shows "nxt n = hd (xs @ [head])" "prv n = last (head # xs)"
  using assms dlist_split[of h head "[]" xs] dlist_split[of h head xs "[]"]
  by (simp_all add: nx_def pv_def)

lemma dlist_entry_fields:
  assumes "dlist h head (xs @ a # ys)" "h a = Some n"
  shows "nxt n = hd (ys @ [head])" "prv n = last (head # xs)"
  using assms dlist_split[of h head "xs @ [a]" ys] dlist_split[of h head xs "a # ys"]
  by (simp_all add: nx_def pv_def)

lemma dlist_head_nonnull: "dlist h head xs \<Longrightarrow> head \<noteq> NULL"
  by (auto simp: dlist_def)

lemma dlist_entry_nonnull: "dlist h head xs \<Longrightarrow> a \<in> set xs \<Longrightarrow> a \<noteq> NULL"
  by (auto simp: dlist_def)

lemma runs_list_add:
  assumes d: "dlist h head xs" and new: "new \<noteq> NULL" "new \<in> dom h" "new \<notin> set (head # xs)"
  shows "runs (list_add new head h) (\<lambda>h'. dlist h' head (new # xs) \<and> dom h' = dom h \<and>
    (\<forall>p. p \<notin> set (new # head # xs) \<longrightarrow> h' p = h p))"
proof -
  obtain n where "h head = Some n" using dlist_head_dom[OF d] by blast
  then show ?thesis
    using dlist_insert[of h head "[]" xs new] assms dlist_head_nonnull[OF d]
    by (simp add: list_add_def runs_bind runs_rd dlist_head_fields[OF d])
qed

lemma runs_list_add_tail:
  assumes d: "dlist h head xs" and new: "new \<noteq> NULL" "new \<in> dom h" "new \<notin> set (head # xs)"
  shows "runs (list_add_tail new head h) (\<lambda>h'. dlist h' head (xs @ [new]) \<and> dom h' = dom h \<and>
    (\<forall>p. p \<notin> set (new # head # xs) \<longrightarrow> h' p = h p))"
proof -
  obtain n where "h head = Some n" using dlist_head_dom[OF d] by blast
  then show ?thesis
    using dlist_insert[of h head xs "[]" new] assms dlist_head_nonnull[OF d]
    by (simp add: list_add_tail_def runs_bind runs_rd dlist_head_fields[OF d])
qed

text \<open>Unlinking an entry, the part that the deletions and the moves share.\<close>

lemma runs_unlink:
  assumes d: "dlist h head (xs @ a # ys)"
  obtains n where "a \<noteq> NULL" "h a = Some n"
    "runs (list_del_between (prv n) (nxt n) h) (\<lambda>h'. dlist h' head (xs @ ys) \<and> dom h' = dom h \<and>
      a \<in> dom h' \<and> a \<notin> set (head # xs @ ys) \<and> (\<forall>p. p \<notin> set (head # xs @ ys) \<longrightarrow> h' p = h p))"
proof -
  obtain n where n: "h a = Some n" using dlist_entry_dom[OF d, of a] by auto
  have "a \<notin> set (head # xs @ ys)" using d by (auto simp: dlist_def)
  then have "runs (list_del_between (prv n) (nxt n) h) (\<lambda>h'. dlist h' head (xs @ ys) \<and> dom h' = dom h \<and>
      a \<in> dom h' \<and> a \<notin> set (head # xs @ ys) \<and> (\<forall>p. p \<notin> set (head # xs @ ys) \<longrightarrow> h' p = h p))"
    using runs_mono[OF dlist_remove[OF d]] n by (simp add: dlist_entry_fields[OF d n] domIff)
  moreover have "a \<noteq> NULL" using dlist_entry_nonnull[OF d] by simp
  ultimately show thesis using that n by blast
qed

lemma runs_list_del_init:
  assumes d: "dlist h head (xs @ a # ys)"
  shows "runs (list_del_init a h) (\<lambda>h'. dlist h' head (xs @ ys) \<and> dlist h' a [] \<and> dom h' = dom h \<and>
    (\<forall>p. p \<notin> set (head # xs @ a # ys) \<longrightarrow> h' p = h p))" (is "runs _ ?Q")
proof (rule runs_unlink[OF d])
  fix n
  assume a: "a \<noteq> NULL" "h a = Some n"
    and r: "runs (list_del_between (prv n) (nxt n) h) (\<lambda>h'. dlist h' head (xs @ ys) \<and> dom h' = dom h \<and>
      a \<in> dom h' \<and> a \<notin> set (head # xs @ ys) \<and> (\<forall>p. p \<notin> set (head # xs @ ys) \<longrightarrow> h' p = h p))"
      (is "runs _ ?P")
  have "runs (INIT_LIST_HEAD a h1) ?Q" if h1: "?P h1" for h1
  proof (rule runs_INIT_LIST_HEAD)
    fix h'
    assume "nx h' = (nx h1)(a \<mapsto> a)" "pv h' = (pv h1)(a \<mapsto> a)" "dom h' = dom h1"
      and F: "\<And>q. q \<noteq> a \<Longrightarrow> h' q = h1 q"
    moreover from this have "dlist h' a []" using a by (simp add: dlist_def)
    moreover have "dlist h' head (xs @ ys)"
      by (rule dlist_frameI[of h1], use h1 in simp) (rule F, use h1 in auto)
    ultimately show "?Q h'" using h1 by auto
  qed (use a h1 in auto)
  then show ?thesis
    unfolding list_del_init_def runs_bind runs_rd[of a h n, OF a] by (rule runs_mono[OF r])
qed

lemma runs_list_del:
  assumes d: "dlist h head (xs @ a # ys)"
  shows "runs (list_del a h) (\<lambda>h'. dlist h' head (xs @ ys) \<and> dom h' = dom h \<and>
    h' a = Some \<lparr>nxt = NULL, prv = NULL\<rparr> \<and>
    (\<forall>p. p \<notin> set (head # xs @ a # ys) \<longrightarrow> h' p = h p))" (is "runs _ ?Q")
proof (rule runs_unlink[OF d])
  fix n
  assume a: "a \<noteq> NULL" "h a = Some n"
    and r: "runs (list_del_between (prv n) (nxt n) h) (\<lambda>h'. dlist h' head (xs @ ys) \<and> dom h' = dom h \<and>
      a \<in> dom h' \<and> a \<notin> set (head # xs @ ys) \<and> (\<forall>p. p \<notin> set (head # xs @ ys) \<longrightarrow> h' p = h p))"
      (is "runs _ ?P")
  have upd: "?Q (h1(a \<mapsto> \<lparr>nxt = NULL, prv = NULL\<rparr>))" if h1: "?P h1" for h1
  proof -
    have "dlist (h1(a \<mapsto> \<lparr>nxt = NULL, prv = NULL\<rparr>)) head (xs @ ys)"
      by (rule dlist_frameI[of h1]) (use h1 in auto)
    then show ?thesis using h1 by auto
  qed
  have "runs (set_next a NULL h1) (\<lambda>h. runs (set_prev a NULL h) ?Q)" if h1: "?P h1" for h1
  proof -
    have eq: "runs (set_next a NULL h1) (\<lambda>h. runs (set_prev a NULL h) Q) =
      Q (h1(a \<mapsto> \<lparr>nxt = NULL, prv = NULL\<rparr>))" for Q
      using h1 a by (cases "the (h1 a)") (auto simp: runs_wr)
    show ?thesis unfolding eq by (rule upd) (rule h1)
  qed
  then show ?thesis
    unfolding list_del_def runs_bind runs_rd[of a h n, OF a] by (rule runs_mono[OF r])
qed

text \<open>
  \<^verbatim>\<open>list_move\<close> and \<^verbatim>\<open>list_move_tail\<close> take an entry out of one list and put it at the front
  or the back of another one.
\<close>

lemma runs_list_move:
  assumes d: "dlist h src (xs @ a # ys)" and e: "dlist h head zs"
    and disj: "set (src # xs @ a # ys) \<inter> set (head # zs) = {}"
  shows "runs (list_move a head h) (\<lambda>h'. dlist h' src (xs @ ys) \<and> dlist h' head (a # zs) \<and>
    dom h' = dom h \<and> (\<forall>p. p \<notin> set (src # xs @ a # ys) \<union> set (head # zs) \<longrightarrow> h' p = h p))"
    (is "runs _ ?Q")
proof (rule runs_unlink[OF d])
  fix n
  assume a: "a \<noteq> NULL" "h a = Some n"
    and r: "runs (list_del_between (prv n) (nxt n) h) (\<lambda>h'. dlist h' src (xs @ ys) \<and> dom h' = dom h \<and>
      a \<in> dom h' \<and> a \<notin> set (src # xs @ ys) \<and> (\<forall>p. p \<notin> set (src # xs @ ys) \<longrightarrow> h' p = h p))"
      (is "runs _ ?P")
  have "runs (list_add a head h1) ?Q" if h1: "?P h1" for h1
  proof (rule runs_mono[OF runs_list_add])
    show "dlist h1 head zs"
    proof (rule dlist_frameI[OF e])
      fix p assume "p \<in> set (head # zs)"
      with disj have "p \<notin> set (src # xs @ ys)" by auto
      with h1 show "h1 p = h p" by blast
    qed
    fix h' assume Q: "dlist h' head (a # zs) \<and> dom h' = dom h1 \<and> (\<forall>p. p \<notin> set (a # head # zs) \<longrightarrow> h' p = h1 p)"
    have "dlist h' src (xs @ ys)"
      by (rule dlist_frameI[of h1], use h1 in simp) (use Q h1 disj in auto)
    with Q h1 show "?Q h'" by simp
  qed (use a h1 disj in auto)
  then show ?thesis
    unfolding list_move_def runs_bind runs_rd[of a h n, OF a] by (rule runs_mono[OF r])
qed

lemma runs_list_move_tail:
  assumes d: "dlist h src (xs @ a # ys)" and e: "dlist h head zs"
    and disj: "set (src # xs @ a # ys) \<inter> set (head # zs) = {}"
  shows "runs (list_move_tail a head h) (\<lambda>h'. dlist h' src (xs @ ys) \<and> dlist h' head (zs @ [a]) \<and>
    dom h' = dom h \<and> (\<forall>p. p \<notin> set (src # xs @ a # ys) \<union> set (head # zs) \<longrightarrow> h' p = h p))"
    (is "runs _ ?Q")
proof (rule runs_unlink[OF d])
  fix n
  assume a: "a \<noteq> NULL" "h a = Some n"
    and r: "runs (list_del_between (prv n) (nxt n) h) (\<lambda>h'. dlist h' src (xs @ ys) \<and> dom h' = dom h \<and>
      a \<in> dom h' \<and> a \<notin> set (src # xs @ ys) \<and> (\<forall>p. p \<notin> set (src # xs @ ys) \<longrightarrow> h' p = h p))"
      (is "runs _ ?P")
  have "runs (list_add_tail a head h1) ?Q" if h1: "?P h1" for h1
  proof (rule runs_mono[OF runs_list_add_tail])
    show "dlist h1 head zs"
    proof (rule dlist_frameI[OF e])
      fix p assume "p \<in> set (head # zs)"
      with disj have "p \<notin> set (src # xs @ ys)" by auto
      with h1 show "h1 p = h p" by blast
    qed
    fix h' assume Q: "dlist h' head (zs @ [a]) \<and> dom h' = dom h1 \<and> (\<forall>p. p \<notin> set (a # head # zs) \<longrightarrow> h' p = h1 p)"
    have "dlist h' src (xs @ ys)"
      by (rule dlist_frameI[of h1], use h1 in simp) (use Q h1 disj in auto)
    with Q h1 show "?Q h'" by simp
  qed (use a h1 disj in auto)
  then show ?thesis
    unfolding list_move_tail_def runs_bind runs_rd[of a h n, OF a] by (rule runs_mono[OF r])
qed

lemma list_empty_iff:
  assumes d: "dlist h head xs"
  shows "list_empty head h = Some (xs = [])"
proof -
  obtain n where n: "h head = Some n" using dlist_head_dom[OF d] by blast
  have "(hd (xs @ [head]) = head) = (xs = [])" using d by (cases xs) (auto simp: dlist_def)
  then show ?thesis
    using n dlist_head_nonnull[OF d] dlist_head_fields(1)[OF d n] by (simp add: list_empty_def rd_def)
qed

lemma runs_list_splice_between:
  assumes d: "dlist h lst xs" and e: "dlist h head zs" and ne: "xs \<noteq> []"
    and disj: "set (lst # xs) \<inter> set (head # zs) = {}"
  shows "runs (list_splice_between lst head h) (\<lambda>h'. dlist h' head (xs @ zs) \<and> dom h' = dom h \<and>
    (\<forall>p. p \<notin> set (head # xs @ zs) \<longrightarrow> h' p = h p))" (is "runs _ ?Q")
proof -
  let ?f = "hd xs" and ?l = "last xs" and ?at = "hd (zs @ [head])"
  obtain n m where n: "h lst = Some n" and m: "h head = Some m"
    using dlist_head_dom d e by blast
  have fields: "nxt n = ?f" "prv n = ?l" "nxt m = ?at"
    using dlist_head_fields[OF d n] dlist_head_fields[OF e m] ne by simp_all
  have dom: "?f \<in> dom h" "?l \<in> dom h" "head \<in> dom h" "?at \<in> dom h"
    "?f \<noteq> NULL" "?l \<noteq> NULL" "head \<noteq> NULL" "?at \<noteq> NULL" "lst \<noteq> NULL"
    using d e ne m seam_dom[of h lst "[]" xs] seam_dom[of h lst xs "[]"] seam_dom[of h head "[]" zs]
      dlist_head_nonnull by simp_all
  have dist: "distinct xs" "distinct (head # zs)" using d e by (auto simp: dlist_def)
  have mem: "?f \<in> set xs" "?l \<in> set xs" "?at \<in> set (head # zs)"
    using ne by (simp_all, cases zs) auto
  have lk: "links (nx h) (pv h) xs" "links (nx h) (pv h) (zs @ [head])"
    using d e dlist_split[of h lst xs "[]"] dlist_split[of h lst "[]" xs] dlist_split[of h head "[]" zs]
      links_join[of xs "[lst]"] ne by simp_all
  have notin: "?l \<notin> set (butlast xs)" "?f \<notin> set (tl xs)" "?at \<notin> set (tl (zs @ [head]))"
    using dist ne by (metis append_butlast_last_id distinct_append disjoint_iff list.set_intros(1))
      (metis dist(1) distinct.simps(2) list.collapse ne, use dist in \<open>cases zs; auto\<close>)
  show ?thesis
    unfolding list_splice_between_def runs_bind runs_rd[of lst h n, OF dom(9) n]
      runs_rd[of head h m, OF dom(7) m] Let_def fields
  proof (intro runs_set_prev runs_set_next)
    fix h1 h2 h3 h4
    assume h: "nx h1 = nx h" "nx h2 = (nx h1)(head \<mapsto> ?f)" "nx h3 = (nx h2)(?l \<mapsto> ?at)" "nx h4 = nx h3"
      "pv h1 = (pv h)(?f \<mapsto> head)" "pv h2 = pv h1" "pv h3 = pv h2" "pv h4 = (pv h3)(?at \<mapsto> ?l)"
      and D: "dom h1 = dom h" "dom h2 = dom h1" "dom h3 = dom h2" "dom h4 = dom h3"
      and F: "\<And>q. q \<noteq> ?f \<Longrightarrow> h1 q = h q" "\<And>q. q \<noteq> head \<Longrightarrow> h2 q = h1 q"
        "\<And>q. q \<noteq> ?l \<Longrightarrow> h3 q = h2 q" "\<And>q. q \<noteq> ?at \<Longrightarrow> h4 q = h3 q"
    have N: "nx h4 = (nx h)(head \<mapsto> ?f, ?l \<mapsto> ?at)" and P: "pv h4 = (pv h)(?f \<mapsto> head, ?at \<mapsto> ?l)"
      using h by simp_all
    have sets: "head \<notin> set (butlast xs)" "head \<notin> set (butlast (zs @ [head]))" "?l \<notin> set (butlast (zs @ [head]))"
      "?at \<notin> set (tl xs)" "?f \<notin> set (tl (zs @ [head]))" "head \<noteq> ?l" "?f \<noteq> ?at"
      using disj mem dist by (auto dest: in_set_butlastD list.set_sel(2)[rotated] simp: tl_append split: list.splits)
    have "links (nx h4) (pv h4) xs" "links (nx h4) (pv h4) (zs @ [head])"
      unfolding N P using lk notin sets by (simp_all add: links_upd)
    then have "links (nx h4) (pv h4) (xs @ (zs @ [head]))"
      unfolding N P using ne sets by (subst links_join) simp_all
    then have "links (nx h4) (pv h4) ([head] @ (xs @ (zs @ [head])))"
      unfolding N P using ne sets by (subst links_join) simp_all
    then have "dlist h4 head (xs @ zs)" using d e disj by (auto simp: dlist_def)
    moreover have "h4 p = h p" if "p \<notin> set (head # xs @ zs)" for p
    proof -
      have "p \<noteq> ?f" "p \<noteq> ?l" "p \<noteq> ?at" "p \<noteq> head" using that mem by auto
      then show ?thesis by (simp add: F)
    qed
    ultimately show "?Q h4" using D by simp
  qed (use dom in simp_all)
qed

lemma runs_list_splice:
  assumes d: "dlist h lst xs" and e: "dlist h head zs" and disj: "set (lst # xs) \<inter> set (head # zs) = {}"
  shows "runs (list_splice lst head h) (\<lambda>h'. dlist h' head (xs @ zs) \<and> dom h' = dom h \<and>
    (\<forall>p. p \<notin> set (head # xs @ zs) \<longrightarrow> h' p = h p))"
  using e runs_list_splice_between[OF d e _ disj]
  by (simp add: list_splice_def list_empty_iff[OF d])

lemma runs_list_splice_init:
  assumes d: "dlist h lst xs" and e: "dlist h head zs" and disj: "set (lst # xs) \<inter> set (head # zs) = {}"
  shows "runs (list_splice_init lst head h) (\<lambda>h'. dlist h' head (xs @ zs) \<and> dlist h' lst [] \<and>
    dom h' = dom h \<and> (\<forall>p. p \<notin> set (lst # head # xs @ zs) \<longrightarrow> h' p = h p))" (is "runs _ ?Q")
proof (cases "xs = []")
  case True
  with d e show ?thesis by (simp add: list_splice_init_def list_empty_iff[OF d])
next
  case False
  have lst: "lst \<noteq> NULL" "lst \<in> dom h" "lst \<notin> set (head # xs @ zs)"
    using dlist_head_nonnull[OF d] dlist_head_dom[OF d] d disj by (auto simp: dlist_def)
  have "runs (INIT_LIST_HEAD lst h1) ?Q" if h1: "dlist h1 head (xs @ zs) \<and> dom h1 = dom h \<and>
    (\<forall>p. p \<notin> set (head # xs @ zs) \<longrightarrow> h1 p = h p)" for h1
  proof (rule runs_INIT_LIST_HEAD)
    fix h' assume N: "nx h' = (nx h1)(lst \<mapsto> lst)" "pv h' = (pv h1)(lst \<mapsto> lst)" "dom h' = dom h1"
      and F: "\<And>q. q \<noteq> lst \<Longrightarrow> h' q = h1 q"
    have "dlist h' head (xs @ zs)"
      by (rule dlist_frameI[of h1], use h1 in simp) (rule F, use lst in auto)
    moreover have "dlist h' lst []" using N lst by (simp add: dlist_def)
    ultimately show "?Q h'" using h1 N F by simp
  qed (use lst h1 in simp_all)
  then have "runs (list_splice_between lst head h) (\<lambda>h. runs (INIT_LIST_HEAD lst h) ?Q)"
    by (rule runs_mono[OF runs_list_splice_between[OF d e False disj]])
  then show ?thesis
    using False by (simp add: list_splice_init_def list_empty_iff[OF d] runs_bind)
qed

section \<open>Iteration\<close>

text \<open>
  The rule for \<^verbatim>\<open>list_for_each\<close>: a body that keeps the list is run on the entries in order.
  \<open>I ys s\<close> is the loop invariant after the entries \<open>ys\<close>.
\<close>

lemma runs_list_for_each:
  assumes list: "\<And>ys s. I ys s \<Longrightarrow> dlist (fst s) head xs"
    and body: "\<And>ys a zs s. xs = ys @ a # zs \<Longrightarrow> I ys s \<Longrightarrow> runs (body a s) (I (ys @ [a]))"
    and init: "I [] s"
  shows "runs (list_for_each body head s) (I xs)"
proof -
  have loop: "runs (list_for_each_from body head (hd (zs @ [head])) s) (I xs)"
    if "xs = ys @ zs" "I ys s" for ys zs s
    using that
  proof (induction zs arbitrary: ys s)
    case Nil
    then show ?case by (simp add: list_for_each_from.simps)
  next
    case (Cons a zs)
    have a: "a \<noteq> head" "a \<noteq> NULL" using list[OF Cons.prems(2)] Cons.prems(1) by (auto simp: dlist_def)
    have next': "runs (Option.bind (rd (fst s') a) (\<lambda>n. list_for_each_from body head (nxt n) s')) (I xs)"
      if s': "I (ys @ [a]) s'" for s'
    proof -
      have d: "dlist (fst s') head (ys @ a # zs)" using list[OF s'] Cons.prems(1) by simp
      obtain n where n: "fst s' a = Some n" using dlist_entry_dom[OF d, of a] by auto
      show ?thesis
        using Cons.IH[of "ys @ [a]" s'] s' Cons.prems(1) a n dlist_entry_fields(1)[OF d n]
        by (simp add: rd_def)
    qed
    show ?case
      using a runs_mono[OF body[OF Cons.prems] next'] by (subst list_for_each_from.simps) (simp add: runs_bind)
  qed
  have d: "dlist (fst s) head xs" using list[OF init] .
  obtain n where n: "fst s head = Some n" using dlist_head_dom[OF d] by blast
  show ?thesis
    using loop[of "[]" xs s] init n dlist_head_nonnull[OF d] dlist_head_fields(1)[OF d n]
    by (simp add: list_for_each_def rd_def)
qed

text \<open>The backward iteration visits the entries from the last to the first.\<close>

lemma runs_list_for_each_prev:
  assumes list: "\<And>ys s. I ys s \<Longrightarrow> dlist (fst s) head xs"
    and body: "\<And>ys a zs s. xs = zs @ a # ys \<Longrightarrow> I ys s \<Longrightarrow> runs (body a s) (I (a # ys))"
    and init: "I [] s"
  shows "runs (list_for_each_prev body head s) (I xs)"
proof -
  have loop: "runs (list_for_each_prev_from body head (last (head # zs)) s) (I xs)"
    if "xs = zs @ ys" "I ys s" for ys zs s
    using that
  proof (induction zs arbitrary: ys s rule: rev_induct)
    case Nil
    then show ?case by (simp add: list_for_each_prev_from.simps)
  next
    case (snoc a zs)
    have a: "a \<noteq> head" "a \<noteq> NULL" using list[OF snoc.prems(2)] snoc.prems(1) by (auto simp: dlist_def)
    have next': "runs (Option.bind (rd (fst s') a) (\<lambda>n. list_for_each_prev_from body head (prv n) s')) (I xs)"
      if s': "I (a # ys) s'" for s'
    proof -
      have d: "dlist (fst s') head (zs @ a # ys)" using list[OF s'] snoc.prems(1) by simp
      obtain n where n: "fst s' a = Some n" using dlist_entry_dom[OF d, of a] by auto
      show ?thesis
        using snoc.IH[of "a # ys" s'] s' snoc.prems(1) a n dlist_entry_fields(2)[OF d n]
        by (simp add: rd_def)
    qed
    have "runs (body a s) (I (a # ys))" by (rule body[of zs]) (use snoc.prems in simp_all)
    from runs_mono[OF this next'] show ?case
      using a by (subst list_for_each_prev_from.simps) (simp add: runs_bind)
  qed
  have d: "dlist (fst s) head xs" using list[OF init] .
  obtain n where n: "fst s head = Some n" using dlist_head_dom[OF d] by blast
  show ?thesis
    using loop[of xs "[]" s] init n dlist_head_nonnull[OF d] dlist_head_fields(2)[OF d n]
    by (simp add: list_for_each_prev_def rd_def)
qed

text \<open>
  The rule for the safe iteration: \<open>I zs s\<close> holds when the entries \<open>zs\<close> are still to come.
  The body may remove the entry it is given, as long as the rest of the list stays in place.
\<close>

lemma runs_list_for_each_safe:
  assumes list: "\<And>zs s. I zs s \<Longrightarrow> \<exists>us. dlist (fst s) head (us @ zs)"
    and body: "\<And>a zs s. I (a # zs) s \<Longrightarrow> runs (body a s) (I zs)"
    and init: "I xs s" and start: "dlist (fst s) head xs"
  shows "runs (list_for_each_safe body head s) (I [])"
proof -
  define after :: "ptr list \<Rightarrow> ptr \<Rightarrow> ptr" where
    "after zs x = (case zs of [] \<Rightarrow> x | z # zs' \<Rightarrow> hd (zs' @ [head]))" for zs x
  have read: "\<exists>n. hd (zs @ [head]) \<noteq> NULL \<and> fst s (hd (zs @ [head])) = Some n \<and> nxt n = after zs (nxt n)"
    if I: "I zs s" for zs s
  proof (cases zs)
    case Nil
    obtain us where "dlist (fst s) head us" using list[OF I] Nil by auto
    then show ?thesis using Nil dlist_head_dom dlist_head_nonnull by (fastforce simp: after_def)
  next
    case (Cons a zs')
    then obtain us where d: "dlist (fst s) head (us @ a # zs')" using list[OF I] by auto
    then obtain n where "fst s a = Some n" using dlist_entry_dom[OF d, of a] by auto
    then show ?thesis
      using Cons dlist_entry_fields(1)[OF d] dlist_entry_nonnull[OF d, of a] by (simp add: after_def)
  qed
  have loop: "runs (list_for_each_safe_from body head (hd (zs @ [head])) (after zs x) s) (I [])"
    if "I zs s" for zs s x
    using that
  proof (induction zs arbitrary: s x)
    case Nil
    then show ?case by (simp add: list_for_each_safe_from.simps)
  next
    case (Cons a zs)
    obtain us where d: "dlist (fst s) head (us @ a # zs)" using list[OF Cons.prems] by auto
    then have a: "a \<noteq> head" by (auto simp: dlist_def)
    have next': "runs (Option.bind (rd (fst s') (hd (zs @ [head])))
        (\<lambda>m. list_for_each_safe_from body head (hd (zs @ [head])) (nxt m) s')) (I [])"
      if s': "I zs s'" for s'
    proof -
      obtain n where n: "hd (zs @ [head]) \<noteq> NULL" "fst s' (hd (zs @ [head])) = Some n" "nxt n = after zs (nxt n)"
        using read[OF s'] by blast
      show ?thesis using Cons.IH[OF s', of "nxt n"] n by (simp add: rd_def)
    qed
    show ?case
      using a runs_mono[OF body[OF Cons.prems] next']
      by (subst list_for_each_safe_from.simps) (simp add: runs_bind after_def)
  qed
  obtain n where n: "fst s head = Some n" using dlist_head_dom[OF start] by blast
  obtain m where m: "hd (xs @ [head]) \<noteq> NULL" "fst s (hd (xs @ [head])) = Some m" "nxt m = after xs (nxt m)"
    using read[OF init] by blast
  show ?thesis
    using loop[OF init, of "nxt m"] n m dlist_head_nonnull[OF start] dlist_head_fields(1)[OF start n]
    by (simp add: list_for_each_safe_def rd_def)
qed

section \<open>The interface: a family of disjoint lists\<close>

text \<open>
  What a client that keeps its objects on several lists relies on. The event loop keeps
  one list per slot of its event map; it only ever appends an entry and unlinks one.
  \<open>lists_rep rep h H L\<close>: the anchors \<open>H\<close> hold the pairwise disjoint lists \<open>L\<close>.
\<close>

definition lists_rep :: "('h \<Rightarrow> ptr \<Rightarrow> ptr list \<Rightarrow> bool) \<Rightarrow> 'h \<Rightarrow> ptr set \<Rightarrow> (ptr \<Rightarrow> ptr list) \<Rightarrow> bool" where
  "lists_rep rep h H L \<longleftrightarrow>
     (\<forall>x\<in>H. rep h x (L x)) \<and>
     (\<forall>x\<in>H. \<forall>y\<in>H. x \<noteq> y \<longrightarrow> set (x # L x) \<inter> set (y # L y) = {})"

definition entries_of :: "ptr set \<Rightarrow> (ptr \<Rightarrow> ptr list) \<Rightarrow> ptr set" where
  "entries_of H L = (\<Union>x\<in>H. set (x # L x))"

lemma lists_rep_disjoint:
  "lists_rep rep h H L \<Longrightarrow> x \<in> H \<Longrightarrow> set (x # L x) \<inter> entries_of (H - {x}) L = {}"
  unfolding lists_rep_def entries_of_def by blast

lemma entries_of_mono: "H \<subseteq> H' \<Longrightarrow> entries_of H L \<subseteq> entries_of H' L"
  unfolding entries_of_def by blast

locale intrusive_lists =
  fixes rep :: "'h \<Rightarrow> ptr \<Rightarrow> ptr list \<Rightarrow> bool"
    and agree :: "ptr set \<Rightarrow> 'h \<Rightarrow> 'h \<Rightarrow> bool"
    and live :: "'h \<Rightarrow> ptr set"
    and add_tail :: "ptr \<Rightarrow> ptr \<Rightarrow> 'h \<Rightarrow> 'h option"
    and unlink :: "ptr \<Rightarrow> 'h \<Rightarrow> 'h option"
  assumes rep_distinct: "rep h x xs \<Longrightarrow> distinct (x # xs)"
    and rep_agree: "rep h x xs \<Longrightarrow> agree (set (x # xs)) h h' \<Longrightarrow> rep h' x xs"
    and agree_mono: "agree A h h' \<Longrightarrow> B \<subseteq> A \<Longrightarrow> agree B h h'"
    and add_tail_law: "rep h x xs \<Longrightarrow> a \<noteq> NULL \<Longrightarrow> a \<in> live h \<Longrightarrow> a \<notin> set (x # xs) \<Longrightarrow>
      runs (add_tail a x h) (\<lambda>h'. rep h' x (xs @ [a]) \<and> live h' = live h \<and> agree (- set (a # x # xs)) h h')"
    and unlink_law: "rep h x (xs @ a # ys) \<Longrightarrow>
      runs (unlink a h) (\<lambda>h'. rep h' x (xs @ ys) \<and> live h' = live h \<and> agree (- set (x # xs @ a # ys)) h h')"
begin

lemma others_kept:
  assumes "lists_rep rep h H L" "x \<in> H" "agree (- S) h h'" "S \<inter> entries_of (H - {x}) L = {}"
    and "y \<in> H" "y \<noteq> x"
  shows "rep h' y (L y)"
proof (rule rep_agree)
  show "rep h y (L y)" using assms by (simp add: lists_rep_def)
  show "agree (set (y # L y)) h h'"
    using assms by (intro agree_mono[OF assms(3)]) (auto simp: entries_of_def)
qed

lemma family_add_tail:
  assumes fam: "lists_rep rep h H L" and x: "x \<in> H"
    and a: "a \<noteq> NULL" "a \<in> live h" "a \<notin> entries_of H L"
  shows "runs (add_tail a x h) (\<lambda>h'. lists_rep rep h' H (L(x := L x @ [a])) \<and> live h' = live h)"
proof (rule runs_mono[OF add_tail_law[of h x "L x" a]])
  fix h' assume h': "rep h' x (L x @ [a]) \<and> live h' = live h \<and> agree (- set (a # x # L x)) h h'"
  have "rep h' y (L y)" if "y \<in> H" "y \<noteq> x" for y
  proof (rule others_kept[OF fam x])
    show "set (a # x # L x) \<inter> entries_of (H - {x}) L = {}"
      using lists_rep_disjoint[OF fam x] a entries_of_mono[of "H - {x}" H L] by auto
  qed (use h' that in auto)
  then show "lists_rep rep h' H (L(x := L x @ [a])) \<and> live h' = live h"
    using fam x a h' by (auto simp: lists_rep_def entries_of_def)
qed (use fam x a in \<open>auto simp: lists_rep_def entries_of_def\<close>)

lemma family_unlink:
  assumes fam: "lists_rep rep h H L" and x: "x \<in> H" and a: "a \<in> set (L x)"
  shows "runs (unlink a h) (\<lambda>h'. lists_rep rep h' H (L(x := remove1 a (L x))) \<and> live h' = live h)"
proof -
  obtain xs ys where L: "L x = xs @ a # ys" using a by (meson split_list)
  have rep: "rep h x (xs @ a # ys)" using fam x L by (metis lists_rep_def)
  have r: "remove1 a (L x) = xs @ ys"
    using rep_distinct[OF rep] by (simp add: L remove1_append)
  show ?thesis
  proof (rule runs_mono[OF unlink_law[OF rep]])
    fix h' assume h': "rep h' x (xs @ ys) \<and> live h' = live h \<and> agree (- set (x # xs @ a # ys)) h h'"
    have "rep h' y (L y)" if "y \<in> H" "y \<noteq> x" for y
      by (rule others_kept[OF fam x _ lists_rep_disjoint[OF fam x]]) (use h' that L in auto)
    moreover have "set (L x) \<inter> set (y # L y) = {}" if "y \<in> H" "y \<noteq> x" for y
      using fam x that by (auto simp: lists_rep_def)
    ultimately show "lists_rep rep h' H (L(x := remove1 a (L x))) \<and> live h' = live h"
      unfolding r using fam x h' L by (auto simp: lists_rep_def)
  qed
qed

end

definition heap_agree :: "ptr set \<Rightarrow> list_heap \<Rightarrow> list_heap \<Rightarrow> bool" where
  "heap_agree A h h' \<longleftrightarrow> (\<forall>p\<in>A. h' p = h p)"

interpretation dl: intrusive_lists dlist heap_agree dom list_add_tail list_del_init
proof
  fix h h' :: list_heap and x a xs ys and A B :: "ptr set"
  show "dlist h x xs \<Longrightarrow> distinct (x # xs)" by (simp add: dlist_def)
  show "dlist h x xs \<Longrightarrow> heap_agree (set (x # xs)) h h' \<Longrightarrow> dlist h' x xs"
    by (metis dlist_frameI heap_agree_def)
  show "heap_agree A h h' \<Longrightarrow> B \<subseteq> A \<Longrightarrow> heap_agree B h h'" by (auto simp: heap_agree_def)
  show "dlist h x xs \<Longrightarrow> a \<noteq> NULL \<Longrightarrow> a \<in> dom h \<Longrightarrow> a \<notin> set (x # xs) \<Longrightarrow>
    runs (list_add_tail a x h) (\<lambda>h'. dlist h' x (xs @ [a]) \<and> dom h' = dom h \<and> heap_agree (- set (a # x # xs)) h h')"
    by (rule runs_mono[OF runs_list_add_tail]) (auto simp: heap_agree_def)
  show "dlist h x (xs @ a # ys) \<Longrightarrow>
    runs (list_del_init a h) (\<lambda>h'. dlist h' x (xs @ ys) \<and> dom h' = dom h \<and> heap_agree (- set (x # xs @ a # ys)) h h')"
    by (rule runs_mono[OF runs_list_del_init]) (auto simp: heap_agree_def)
qed

section \<open>Properties\<close>

text \<open>Two lists and a free entry, on which the properties are tried.\<close>

definition demo_lists_heap :: list_heap where
  "demo_lists_heap = [
      8 \<mapsto> \<lparr>nxt = 16, prv = 24\<rparr>, 16 \<mapsto> \<lparr>nxt = 24, prv = 8\<rparr>, 24 \<mapsto> \<lparr>nxt = 8, prv = 16\<rparr>,
      40 \<mapsto> \<lparr>nxt = 48, prv = 48\<rparr>, 48 \<mapsto> \<lparr>nxt = 40, prv = 40\<rparr>, 56 \<mapsto> \<lparr>nxt = 0, prv = 0\<rparr>]"

lemma demo_dlists: "dlist demo_lists_heap 8 [16, 24]" "dlist demo_lists_heap 40 [48]" "56 \<in> dom demo_lists_heap"
  by (simp_all add: demo_lists_heap_def dlist_def nx_def pv_def)

text \<open>
  On a list in memory, \<^verbatim>\<open>list_add\<close> puts a new entry in front and \<^verbatim>\<open>list_add_tail\<close> at the
  end; neither has a bad memory access or touches memory outside the list and the entry.
\<close>

theorem list_add_ends:
  assumes "dlist h head xs" "new \<noteq> NULL" "new \<in> dom h" "new \<notin> set (head # xs)"
  shows "runs (list_add new head h) (\<lambda>h'. dlist h' head (new # xs) \<and> dom h' = dom h \<and>
      (\<forall>p. p \<notin> set (new # head # xs) \<longrightarrow> h' p = h p)) \<and>
    runs (list_add_tail new head h) (\<lambda>h'. dlist h' head (xs @ [new]) \<and> dom h' = dom h \<and>
      (\<forall>p. p \<notin> set (new # head # xs) \<longrightarrow> h' p = h p))"
  using runs_list_add[OF assms] runs_list_add_tail[OF assms] by simp

theorem list_add_ends_witness:
  "runs (list_add 56 8 demo_lists_heap) (\<lambda>h. dlist h 8 [56, 16, 24]) \<and>
   runs (list_add_tail 56 8 demo_lists_heap) (\<lambda>h. dlist h 8 [16, 24, 56])"
proof -
  have "runs (list_add 56 8 demo_lists_heap) (\<lambda>h'. dlist h' 8 (56 # [16, 24]) \<and> dom h' = dom demo_lists_heap \<and>
      (\<forall>p. p \<notin> set (56 # 8 # [16, 24]) \<longrightarrow> h' p = demo_lists_heap p)) \<and>
    runs (list_add_tail 56 8 demo_lists_heap) (\<lambda>h'. dlist h' 8 ([16, 24] @ [56]) \<and> dom h' = dom demo_lists_heap \<and>
      (\<forall>p. p \<notin> set (56 # 8 # [16, 24]) \<longrightarrow> h' p = demo_lists_heap p))"
    by (rule list_add_ends) (use demo_dlists in simp_all)
  then show ?thesis by (auto elim!: runs_mono)
qed

text \<open>
  \<^verbatim>\<open>list_move\<close> and \<^verbatim>\<open>list_move_tail\<close> take an entry out of one list and put it at the
  front or the end of another one; both lists are otherwise as before.
\<close>

theorem list_move_between:
  assumes "dlist h src (xs @ a # ys)" "dlist h head zs" "set (src # xs @ a # ys) \<inter> set (head # zs) = {}"
  shows "runs (list_move a head h) (\<lambda>h'. dlist h' src (xs @ ys) \<and> dlist h' head (a # zs)) \<and>
    runs (list_move_tail a head h) (\<lambda>h'. dlist h' src (xs @ ys) \<and> dlist h' head (zs @ [a]))"
  using runs_list_move[OF assms] runs_list_move_tail[OF assms] by (auto elim!: runs_mono)

theorem list_move_between_witness:
  "runs (list_move 16 40 demo_lists_heap) (\<lambda>h. dlist h 8 ([] @ [24]) \<and> dlist h 40 (16 # [48])) \<and>
   runs (list_move_tail 16 40 demo_lists_heap) (\<lambda>h. dlist h 8 ([] @ [24]) \<and> dlist h 40 ([48] @ [16]))"
  by (rule list_move_between) (use demo_dlists in simp_all)

text \<open>
  \<^verbatim>\<open>list_splice_init\<close> puts all entries of one list, in order, in front of those of
  another and leaves the first one empty; \<^verbatim>\<open>list_empty\<close> then says so.
\<close>

theorem list_splice_init_joins:
  assumes "dlist h lst xs" "dlist h head zs" "set (lst # xs) \<inter> set (head # zs) = {}"
  shows "runs (list_splice_init lst head h) (\<lambda>h'. dlist h' head (xs @ zs) \<and> dlist h' lst [] \<and>
    list_empty lst h' = Some True \<and> (\<forall>p. p \<notin> set (lst # head # xs @ zs) \<longrightarrow> h' p = h p))"
  by (rule runs_mono[OF runs_list_splice_init[OF assms]]) (auto dest: list_empty_iff)

theorem list_splice_init_joins_witness:
  "runs (list_splice_init 8 40 demo_lists_heap) (\<lambda>h'. dlist h' 40 ([16, 24] @ [48]) \<and> dlist h' 8 [] \<and>
    list_empty 8 h' = Some True \<and> (\<forall>p. p \<notin> set (8 # 40 # [16, 24] @ [48]) \<longrightarrow> h' p = demo_lists_heap p))"
  by (rule list_splice_init_joins) (use demo_dlists in simp_all)

text \<open>
  (C5) The iteration macros end. \<^verbatim>\<open>list_for_each\<close> runs its body on the entries in order,
  \<^verbatim>\<open>list_for_each_prev\<close> in the reverse order, and \<^verbatim>\<open>list_for_each_safe\<close> survives a body that
  unlinks the entry it is given: it still visits every entry, and the list ends empty.
\<close>

theorem list_iteration:
  assumes "dlist h head xs"
  shows "list_for_each (\<lambda>a (h, seen). Some (h, seen @ [a])) head (h, []) = Some (h, xs) \<and>
    list_for_each_prev (\<lambda>a (h, seen). Some (h, seen @ [a])) head (h, []) = Some (h, rev xs) \<and>
    runs (list_for_each_safe (\<lambda>a (h, seen). do { h \<leftarrow> list_del_init a h; Some (h, seen @ [a]) }) head (h, []))
      (\<lambda>(h', seen). dlist h' head [] \<and> seen = xs)"
proof (intro conjI)
  have "runs (list_for_each (\<lambda>a (h, seen). Some (h, seen @ [a])) head (h, [])) (\<lambda>s. s = (h, xs))"
    using runs_list_for_each[of "\<lambda>ys s. s = (h, ys)" head xs] assms by auto
  then show "list_for_each (\<lambda>a (h, seen). Some (h, seen @ [a])) head (h, []) = Some (h, xs)"
    by (simp add: runs_def)
  have "runs (list_for_each_prev (\<lambda>a (h, seen). Some (h, seen @ [a])) head (h, [])) (\<lambda>s. s = (h, rev xs))"
    using runs_list_for_each_prev[of "\<lambda>ys s. s = (h, rev ys)" head xs] assms by auto
  then show "list_for_each_prev (\<lambda>a (h, seen). Some (h, seen @ [a])) head (h, []) = Some (h, rev xs)"
    by (simp add: runs_def)
  let ?I = "\<lambda>zs (h, seen). dlist h head zs \<and> seen @ zs = xs"
  have "runs (list_for_each_safe (\<lambda>a (h, seen). do { h \<leftarrow> list_del_init a h; Some (h, seen @ [a]) }) head (h, [])) (?I [])"
  proof (rule runs_list_for_each_safe)
    fix zs s assume "?I zs s"
    then have "dlist (fst s) head ([] @ zs)" by auto
    then show "\<exists>us. dlist (fst s) head (us @ zs)" by blast
  next
    fix a zs s assume "?I (a # zs) s"
    then show "runs (case s of (h, seen) \<Rightarrow> do { h \<leftarrow> list_del_init a h; Some (h, seen @ [a]) }) (?I zs)"
      using runs_list_del_init[of "fst s" head "[]" a zs] by (auto simp: runs_bind elim!: runs_mono)
  qed (use assms in auto)
  then show "runs (list_for_each_safe (\<lambda>a (h, seen). do { h \<leftarrow> list_del_init a h; Some (h, seen @ [a]) }) head (h, []))
      (\<lambda>(h', seen). dlist h' head [] \<and> seen = xs)" by (auto elim!: runs_mono)
qed

theorem list_iteration_witness:
  "list_for_each (\<lambda>a (h, seen). Some (h, seen @ [a])) 8 (demo_lists_heap, []) = Some (demo_lists_heap, [16, 24])"
  using list_iteration[OF demo_dlists(1)] by simp

end
