(* ===== verification/RbTree.thy ===== *)
theory RbTree
  imports Prelude
begin

text \<open>
  The code of \<^verbatim>\<open>network/wba_event/rbtree.h\<close> and \<^verbatim>\<open>rbtree.c\<close>: intrusive red-black trees with
  parent pointers, the colour packed into the low bit of the parent word. The state is the
  memory of the nodes and the root pointer (\<^verbatim>\<open>struct rb_root\<close>). All functions are written
  statement by statement; the proofs are in the theories that import this one.
\<close>

section \<open>Nodes: rbtree.h\<close>

record rb_node =
  rb_parent_color :: "64 word"
  rb_right :: ptr
  rb_left :: ptr

definition RB_RED :: "64 word" where
  "RB_RED = 0"

definition RB_BLACK :: "64 word" where
  "RB_BLACK = 1"

definition rb_parent :: "rb_node \<Rightarrow> ptr" where
  "rb_parent r = rb_parent_color r AND NOT 3"

definition rb_color :: "rb_node \<Rightarrow> 64 word" where
  "rb_color r = rb_parent_color r AND 1"

definition rb_is_red :: "rb_node \<Rightarrow> bool" where
  "rb_is_red r \<longleftrightarrow> rb_color r = 0"

definition rb_is_black :: "rb_node \<Rightarrow> bool" where
  "rb_is_black r \<longleftrightarrow> rb_color r \<noteq> 0"

definition rb_set_red_node :: "rb_node \<Rightarrow> rb_node" where
  "rb_set_red_node r = r\<lparr>rb_parent_color := rb_parent_color r AND NOT 1\<rparr>"

definition rb_set_black_node :: "rb_node \<Rightarrow> rb_node" where
  "rb_set_black_node r = r\<lparr>rb_parent_color := rb_parent_color r OR 1\<rparr>"

definition rb_set_parent_node :: "ptr \<Rightarrow> rb_node \<Rightarrow> rb_node" where
  "rb_set_parent_node p r = r\<lparr>rb_parent_color := (rb_parent_color r AND 3) OR p\<rparr>"

definition rb_set_color_node :: "64 word \<Rightarrow> rb_node \<Rightarrow> rb_node" where
  "rb_set_color_node c r = r\<lparr>rb_parent_color := (rb_parent_color r AND NOT 1) OR c\<rparr>"

text \<open>The memory and the root.\<close>

record rb_mem =
  nodes :: "rb_node heap"
  root :: ptr

definition RB_ROOT :: ptr where
  "RB_ROOT = NULL"

abbreviation deref :: "rb_mem \<Rightarrow> ptr \<Rightarrow> rb_node option" where
  "deref s p \<equiv> rd (nodes s) p"

definition upd_node :: "(rb_node \<Rightarrow> rb_node) \<Rightarrow> ptr \<Rightarrow> rb_mem \<Rightarrow> rb_mem option" where
  "upd_node f p s = do { h \<leftarrow> wr f p (nodes s); Some (s\<lparr>nodes := h\<rparr>) }"

abbreviation rb_set_red :: "ptr \<Rightarrow> rb_mem \<Rightarrow> rb_mem option" where
  "rb_set_red p s \<equiv> upd_node rb_set_red_node p s"

abbreviation rb_set_black :: "ptr \<Rightarrow> rb_mem \<Rightarrow> rb_mem option" where
  "rb_set_black p s \<equiv> upd_node rb_set_black_node p s"

abbreviation rb_set_parent :: "ptr \<Rightarrow> ptr \<Rightarrow> rb_mem \<Rightarrow> rb_mem option" where
  "rb_set_parent p q s \<equiv> upd_node (rb_set_parent_node q) p s"

abbreviation rb_set_color :: "ptr \<Rightarrow> 64 word \<Rightarrow> rb_mem \<Rightarrow> rb_mem option" where
  "rb_set_color p c s \<equiv> upd_node (rb_set_color_node c) p s"

abbreviation set_left :: "ptr \<Rightarrow> ptr \<Rightarrow> rb_mem \<Rightarrow> rb_mem option" where
  "set_left p q s \<equiv> upd_node (\<lambda>n. n\<lparr>rb_left := q\<rparr>) p s"

abbreviation set_right :: "ptr \<Rightarrow> ptr \<Rightarrow> rb_mem \<Rightarrow> rb_mem option" where
  "set_right p q s \<equiv> upd_node (\<lambda>n. n\<lparr>rb_right := q\<rparr>) p s"

definition RB_EMPTY_ROOT :: "rb_mem \<Rightarrow> bool" where
  "RB_EMPTY_ROOT s \<longleftrightarrow> root s = NULL"

definition RB_EMPTY_NODE :: "ptr \<Rightarrow> rb_mem \<Rightarrow> bool option" where
  "RB_EMPTY_NODE p s = do { n \<leftarrow> deref s p; Some (rb_parent n = p) }"

definition RB_CLEAR_NODE :: "ptr \<Rightarrow> rb_mem \<Rightarrow> rb_mem option" where
  "RB_CLEAR_NODE p s = rb_set_parent p p s"

definition rb_init_node :: "ptr \<Rightarrow> rb_mem \<Rightarrow> rb_mem option" where
  "rb_init_node rb s = do {
     s \<leftarrow> upd_node (\<lambda>n. n\<lparr>rb_parent_color := 0\<rparr>) rb s;
     s \<leftarrow> set_right rb NULL s;
     s \<leftarrow> set_left rb NULL s;
     RB_CLEAR_NODE rb s }"

text \<open>
  The third argument of \<^verbatim>\<open>rb_link_node\<close> is the address of the pointer to be set: the root
  pointer or one of the two child fields of a node.
\<close>

datatype rb_link = RootLink | LeftLink ptr | RightLink ptr

definition store_link :: "rb_link \<Rightarrow> ptr \<Rightarrow> rb_mem \<Rightarrow> rb_mem option" where
  "store_link l p s = (case l of
     RootLink \<Rightarrow> Some (s\<lparr>root := p\<rparr>)
   | LeftLink q \<Rightarrow> set_left q p s
   | RightLink q \<Rightarrow> set_right q p s)"

definition load_link :: "rb_link \<Rightarrow> rb_mem \<Rightarrow> ptr option" where
  "load_link l s = (case l of
     RootLink \<Rightarrow> Some (root s)
   | LeftLink q \<Rightarrow> do { n \<leftarrow> deref s q; Some (rb_left n) }
   | RightLink q \<Rightarrow> do { n \<leftarrow> deref s q; Some (rb_right n) })"

definition rb_link_node :: "ptr \<Rightarrow> ptr \<Rightarrow> rb_link \<Rightarrow> rb_mem \<Rightarrow> rb_mem option" where
  "rb_link_node node parent l s = do {
     s \<leftarrow> upd_node (\<lambda>n. n\<lparr>rb_parent_color := parent\<rparr>) node s;
     s \<leftarrow> set_right node NULL s;
     s \<leftarrow> set_left node NULL s;
     store_link l node s }"

section \<open>Rotations and insertion\<close>

text \<open>
  Two blocks that several functions repeat: \<^verbatim>\<open>if (child) rb_set_parent(child, parent);\<close> and
  redirecting the pointer to \<open>old\<close>, a child of \<open>parent\<close> or the root, to \<open>new\<close>. The mirrored
  rotation tests the right child first.
\<close>

definition set_parent_if :: "ptr \<Rightarrow> ptr \<Rightarrow> rb_mem \<Rightarrow> rb_mem option" where
  "set_parent_if child parent s = (if child \<noteq> NULL then rb_set_parent child parent s else Some s)"

definition rb_replace_child :: "ptr \<Rightarrow> ptr \<Rightarrow> ptr \<Rightarrow> rb_mem \<Rightarrow> rb_mem option" where
  "rb_replace_child parent old new s =
     (if parent \<noteq> NULL then do {
        p \<leftarrow> deref s parent;
        if rb_left p = old then set_left parent new s else set_right parent new s }
      else Some (s\<lparr>root := new\<rparr>))"

definition rb_replace_child_right :: "ptr \<Rightarrow> ptr \<Rightarrow> ptr \<Rightarrow> rb_mem \<Rightarrow> rb_mem option" where
  "rb_replace_child_right parent old new s =
     (if parent \<noteq> NULL then do {
        p \<leftarrow> deref s parent;
        if rb_right p = old then set_right parent new s else set_left parent new s }
      else Some (s\<lparr>root := new\<rparr>))"

definition rb_rotate_left :: "ptr \<Rightarrow> rb_mem \<Rightarrow> rb_mem option" where
  "rb_rotate_left node s = do {
     n \<leftarrow> deref s node;
     let right = rb_right n;
     let parent = rb_parent n;
     r \<leftarrow> deref s right;
     s \<leftarrow> set_right node (rb_left r) s;
     s \<leftarrow> set_parent_if (rb_left r) node s;
     s \<leftarrow> set_left right node s;
     s \<leftarrow> rb_set_parent right parent s;
     s \<leftarrow> rb_replace_child parent node right s;
     rb_set_parent node right s }"

definition rb_rotate_right :: "ptr \<Rightarrow> rb_mem \<Rightarrow> rb_mem option" where
  "rb_rotate_right node s = do {
     n \<leftarrow> deref s node;
     let left = rb_left n;
     let parent = rb_parent n;
     l \<leftarrow> deref s left;
     s \<leftarrow> set_left node (rb_right l) s;
     s \<leftarrow> set_parent_if (rb_right l) node s;
     s \<leftarrow> set_right left node s;
     s \<leftarrow> rb_set_parent left parent s;
     s \<leftarrow> rb_replace_child_right parent node left s;
     rb_set_parent node left s }"

text \<open>Whether a possibly NULL child is red; \<^verbatim>\<open>uncle && rb_is_red(uncle)\<close>.\<close>

definition is_red_child :: "ptr \<Rightarrow> rb_mem \<Rightarrow> bool option" where
  "is_red_child p s = (if p = NULL then Some False else do { n \<leftarrow> deref s p; Some (rb_is_red n) })"

text \<open>The loop of \<^verbatim>\<open>rb_insert_color\<close>.\<close>

partial_function (option) rb_insert_loop :: "ptr \<Rightarrow> rb_mem \<Rightarrow> rb_mem option" where
  "rb_insert_loop node s = do {
     n \<leftarrow> deref s node;
     let parent = rb_parent n;
     red \<leftarrow> is_red_child parent s;
     if \<not> red then Some s
     else do {
       p \<leftarrow> deref s parent;
       let gparent = rb_parent p;
       g \<leftarrow> deref s gparent;
       if parent = rb_left g then do {
         let uncle = rb_right g;
         ured \<leftarrow> is_red_child uncle s;
         if ured then do {
           s \<leftarrow> rb_set_black uncle s;
           s \<leftarrow> rb_set_black parent s;
           s \<leftarrow> rb_set_red gparent s;
           rb_insert_loop gparent s }
         else if rb_right p = node then do {
           s \<leftarrow> rb_rotate_left parent s;
           s \<leftarrow> rb_set_black node s;
           s \<leftarrow> rb_set_red gparent s;
           s \<leftarrow> rb_rotate_right gparent s;
           rb_insert_loop parent s }
         else do {
           s \<leftarrow> rb_set_black parent s;
           s \<leftarrow> rb_set_red gparent s;
           s \<leftarrow> rb_rotate_right gparent s;
           rb_insert_loop node s }}
       else do {
         let uncle = rb_left g;
         ured \<leftarrow> is_red_child uncle s;
         if ured then do {
           s \<leftarrow> rb_set_black uncle s;
           s \<leftarrow> rb_set_black parent s;
           s \<leftarrow> rb_set_red gparent s;
           rb_insert_loop gparent s }
         else if rb_left p = node then do {
           s \<leftarrow> rb_rotate_right parent s;
           s \<leftarrow> rb_set_black node s;
           s \<leftarrow> rb_set_red gparent s;
           s \<leftarrow> rb_rotate_left gparent s;
           rb_insert_loop parent s }
         else do {
           s \<leftarrow> rb_set_black parent s;
           s \<leftarrow> rb_set_red gparent s;
           s \<leftarrow> rb_rotate_left gparent s;
           rb_insert_loop node s }}}}"

definition rb_insert_color :: "ptr \<Rightarrow> rb_mem \<Rightarrow> rb_mem option" where
  "rb_insert_color node s = do {
     s \<leftarrow> rb_insert_loop node s;
     rb_set_black (root s) s }"

section \<open>Removal\<close>

text \<open>\<^verbatim>\<open>!n || rb_is_black(n)\<close>\<close>

definition is_black_child :: "ptr \<Rightarrow> rb_mem \<Rightarrow> bool option" where
  "is_black_child p s = (if p = NULL then Some True else do { n \<leftarrow> deref s p; Some (rb_is_black n) })"

text \<open>
  The loop of \<^verbatim>\<open>__rb_erase_color\<close>. It returns the value of \<^verbatim>\<open>node\<close> after the loop with the
  memory. \<open>rb_erase_recolor_left\<close> and \<open>_right\<close> are the first block of the two branches (a red
  sibling is rotated away and the sibling read again), \<open>rb_erase_rotate_left\<close> and \<open>_right\<close>
  the last block (the rotations that end the loop).
\<close>

definition rb_erase_recolor_left :: "ptr \<Rightarrow> rb_mem \<Rightarrow> (ptr \<times> rb_mem) option" where
  "rb_erase_recolor_left parent s = do {
     p \<leftarrow> deref s parent;
     let other = rb_right p;
     o' \<leftarrow> deref s other;
     if rb_is_red o' then do {
       s \<leftarrow> rb_set_black other s;
       s \<leftarrow> rb_set_red parent s;
       s \<leftarrow> rb_rotate_left parent s;
       p \<leftarrow> deref s parent;
       Some (rb_right p, s) }
     else Some (other, s) }"

definition rb_erase_recolor_right :: "ptr \<Rightarrow> rb_mem \<Rightarrow> (ptr \<times> rb_mem) option" where
  "rb_erase_recolor_right parent s = do {
     p \<leftarrow> deref s parent;
     let other = rb_left p;
     o' \<leftarrow> deref s other;
     if rb_is_red o' then do {
       s \<leftarrow> rb_set_black other s;
       s \<leftarrow> rb_set_red parent s;
       s \<leftarrow> rb_rotate_right parent s;
       p \<leftarrow> deref s parent;
       Some (rb_left p, s) }
     else Some (other, s) }"

definition rb_erase_rotate_left :: "ptr \<Rightarrow> ptr \<Rightarrow> rb_mem \<Rightarrow> rb_mem option" where
  "rb_erase_rotate_left parent other s = do {
     o' \<leftarrow> deref s other;
     rb \<leftarrow> is_black_child (rb_right o') s;
     (other, s) \<leftarrow> (if rb then do {
         s \<leftarrow> rb_set_black (rb_left o') s;
         s \<leftarrow> rb_set_red other s;
         s \<leftarrow> rb_rotate_right other s;
         p \<leftarrow> deref s parent;
         Some (rb_right p, s) }
       else Some (other, s));
     p \<leftarrow> deref s parent;
     s \<leftarrow> rb_set_color other (rb_color p) s;
     s \<leftarrow> rb_set_black parent s;
     o' \<leftarrow> deref s other;
     s \<leftarrow> rb_set_black (rb_right o') s;
     rb_rotate_left parent s }"

definition rb_erase_rotate_right :: "ptr \<Rightarrow> ptr \<Rightarrow> rb_mem \<Rightarrow> rb_mem option" where
  "rb_erase_rotate_right parent other s = do {
     o' \<leftarrow> deref s other;
     lb \<leftarrow> is_black_child (rb_left o') s;
     (other, s) \<leftarrow> (if lb then do {
         s \<leftarrow> rb_set_black (rb_right o') s;
         s \<leftarrow> rb_set_red other s;
         s \<leftarrow> rb_rotate_left other s;
         p \<leftarrow> deref s parent;
         Some (rb_left p, s) }
       else Some (other, s));
     p \<leftarrow> deref s parent;
     s \<leftarrow> rb_set_color other (rb_color p) s;
     s \<leftarrow> rb_set_black parent s;
     o' \<leftarrow> deref s other;
     s \<leftarrow> rb_set_black (rb_left o') s;
     rb_rotate_right parent s }"

partial_function (option) rb_erase_loop :: "ptr \<Rightarrow> ptr \<Rightarrow> rb_mem \<Rightarrow> (ptr \<times> rb_mem) option" where
  "rb_erase_loop node parent s = do {
     b \<leftarrow> is_black_child node s;
     if b \<and> node \<noteq> root s then do {
       p \<leftarrow> deref s parent;
       if rb_left p = node then do {
         (other, s) \<leftarrow> rb_erase_recolor_left parent s;
         o' \<leftarrow> deref s other;
         lb \<leftarrow> is_black_child (rb_left o') s;
         rb \<leftarrow> (if lb then is_black_child (rb_right o') s else Some False);
         if lb \<and> rb then do {
           s \<leftarrow> rb_set_red other s;
           p \<leftarrow> deref s parent;
           rb_erase_loop parent (rb_parent p) s }
         else do {
           s \<leftarrow> rb_erase_rotate_left parent other s;
           Some (root s, s) }}
       else do {
         (other, s) \<leftarrow> rb_erase_recolor_right parent s;
         o' \<leftarrow> deref s other;
         lb \<leftarrow> is_black_child (rb_left o') s;
         rb \<leftarrow> (if lb then is_black_child (rb_right o') s else Some False);
         if lb \<and> rb then do {
           s \<leftarrow> rb_set_red other s;
           p \<leftarrow> deref s parent;
           rb_erase_loop parent (rb_parent p) s }
         else do {
           s \<leftarrow> rb_erase_rotate_right parent other s;
           Some (root s, s) }}}
     else Some (node, s) }"

definition rb_erase_color :: "ptr \<Rightarrow> ptr \<Rightarrow> rb_mem \<Rightarrow> rb_mem option" where
  "rb_erase_color node parent s = do {
     (node, s) \<leftarrow> rb_erase_loop node parent s;
     if node \<noteq> NULL then rb_set_black node s else Some s }"

text \<open>\<^verbatim>\<open>while ((left = node->rb_left) != NULL) node = left;\<close> and its mirror image\<close>

partial_function (option) rb_leftmost :: "ptr \<Rightarrow> rb_mem \<Rightarrow> ptr option" where
  "rb_leftmost node s = do {
     n \<leftarrow> deref s node;
     if rb_left n \<noteq> NULL then rb_leftmost (rb_left n) s else Some node }"

partial_function (option) rb_rightmost :: "ptr \<Rightarrow> rb_mem \<Rightarrow> ptr option" where
  "rb_rightmost node s = do {
     n \<leftarrow> deref s node;
     if rb_right n \<noteq> NULL then rb_rightmost (rb_right n) s else Some node }"

text \<open>
  The two ways \<^verbatim>\<open>rb_erase\<close> takes the node out: a node with at most one child is replaced by
  the child, a node with two children by its successor. Both return what the rebalancing
  needs: \<^verbatim>\<open>child\<close>, \<^verbatim>\<open>parent\<close> and \<^verbatim>\<open>color\<close>.
\<close>

definition rb_erase_single :: "ptr \<Rightarrow> ptr \<Rightarrow> rb_mem \<Rightarrow> (ptr \<times> ptr \<times> 64 word \<times> rb_mem) option" where
  "rb_erase_single node child s = do {
     n \<leftarrow> deref s node;
     let parent = rb_parent n;
     let color = rb_color n;
     s \<leftarrow> set_parent_if child parent s;
     s \<leftarrow> rb_replace_child parent node child s;
     Some (child, parent, color, s) }"

definition rb_erase_double :: "ptr \<Rightarrow> rb_mem \<Rightarrow> (ptr \<times> ptr \<times> 64 word \<times> rb_mem) option" where
  "rb_erase_double old s = do {
     o' \<leftarrow> deref s old;
     node \<leftarrow> rb_leftmost (rb_right o') s;
     s \<leftarrow> rb_replace_child (rb_parent o') old node s;
     n \<leftarrow> deref s node;
     let child = rb_right n;
     let parent = rb_parent n;
     let color = rb_color n;
     (parent, s) \<leftarrow> (if parent = old then Some (node, s)
       else do {
         s \<leftarrow> set_parent_if child parent s;
         s \<leftarrow> set_left parent child s;
         o' \<leftarrow> deref s old;
         s \<leftarrow> set_right node (rb_right o') s;
         s \<leftarrow> rb_set_parent (rb_right o') node s;
         Some (parent, s) });
     o' \<leftarrow> deref s old;
     s \<leftarrow> upd_node (\<lambda>n. n\<lparr>rb_parent_color := rb_parent_color o'\<rparr>) node s;
     s \<leftarrow> set_left node (rb_left o') s;
     s \<leftarrow> rb_set_parent (rb_left o') node s;
     Some (child, parent, color, s) }"

definition rb_erase :: "ptr \<Rightarrow> rb_mem \<Rightarrow> rb_mem option" where
  "rb_erase node s = do {
     n \<leftarrow> deref s node;
     (child, parent, color, s) \<leftarrow>
       (if rb_left n = NULL then rb_erase_single node (rb_right n) s
        else if rb_right n = NULL then rb_erase_single node (rb_left n) s
        else rb_erase_double node s);
     if color = RB_BLACK then rb_erase_color child parent s else Some s }"

section \<open>Augmented trees\<close>

text \<open>
  The callback \<^verbatim>\<open>func(node, data)\<close> is a parameter; it works on data of its own and does not
  touch the links of the tree.
\<close>

partial_function (option) rb_augment_path :: "(ptr \<Rightarrow> 'd \<Rightarrow> 'd) \<Rightarrow> rb_mem \<Rightarrow> ptr \<Rightarrow> 'd \<Rightarrow> 'd option" where
  "rb_augment_path func s node d = do {
     let d = func node d;
     n \<leftarrow> deref s node;
     let parent = rb_parent n;
     if parent = NULL then Some d
     else do {
       p \<leftarrow> deref s parent;
       let d = (if node = rb_left p \<and> rb_right p \<noteq> NULL then func (rb_right p) d
                else if rb_left p \<noteq> NULL then func (rb_left p) d else d);
       rb_augment_path func s parent d }}"

definition rb_augment_insert :: "(ptr \<Rightarrow> 'd \<Rightarrow> 'd) \<Rightarrow> rb_mem \<Rightarrow> ptr \<Rightarrow> 'd \<Rightarrow> 'd option" where
  "rb_augment_insert func s node d = do {
     n \<leftarrow> deref s node;
     let node = (if rb_left n \<noteq> NULL then rb_left n else if rb_right n \<noteq> NULL then rb_right n else node);
     rb_augment_path func s node d }"

section \<open>Traversal and replacement\<close>

definition rb_first :: "rb_mem \<Rightarrow> ptr option" where
  "rb_first s = (if root s = NULL then Some NULL else rb_leftmost (root s) s)"

definition rb_last :: "rb_mem \<Rightarrow> ptr option" where
  "rb_last s = (if root s = NULL then Some NULL else rb_rightmost (root s) s)"

text \<open>\<^verbatim>\<open>while ((parent = rb_parent(node)) && node == parent->rb_right) node = parent;\<close>\<close>

partial_function (option) rb_climb_right :: "ptr \<Rightarrow> rb_mem \<Rightarrow> ptr option" where
  "rb_climb_right node s = do {
     n \<leftarrow> deref s node;
     let parent = rb_parent n;
     if parent = NULL then Some parent
     else do {
       p \<leftarrow> deref s parent;
       if node = rb_right p then rb_climb_right parent s else Some parent }}"

partial_function (option) rb_climb_left :: "ptr \<Rightarrow> rb_mem \<Rightarrow> ptr option" where
  "rb_climb_left node s = do {
     n \<leftarrow> deref s node;
     let parent = rb_parent n;
     if parent = NULL then Some parent
     else do {
       p \<leftarrow> deref s parent;
       if node = rb_left p then rb_climb_left parent s else Some parent }}"

definition rb_next :: "ptr \<Rightarrow> rb_mem \<Rightarrow> ptr option" where
  "rb_next node s = do {
     n \<leftarrow> deref s node;
     if rb_parent n = node then Some NULL
     else if rb_right n \<noteq> NULL then rb_leftmost (rb_right n) s
     else rb_climb_right node s }"

definition rb_prev :: "ptr \<Rightarrow> rb_mem \<Rightarrow> ptr option" where
  "rb_prev node s = do {
     n \<leftarrow> deref s node;
     if rb_parent n = node then Some NULL
     else if rb_left n \<noteq> NULL then rb_rightmost (rb_left n) s
     else rb_climb_left node s }"

definition rb_augment_erase_begin :: "ptr \<Rightarrow> rb_mem \<Rightarrow> ptr option" where
  "rb_augment_erase_begin node s = do {
     n \<leftarrow> deref s node;
     if rb_right n = NULL \<and> rb_left n = NULL then Some (rb_parent n)
     else if rb_right n = NULL then Some (rb_left n)
     else if rb_left n = NULL then Some (rb_right n)
     else do {
       deepest \<leftarrow> rb_next node s;
       d \<leftarrow> deref s deepest;
       if rb_right d \<noteq> NULL then Some (rb_right d)
       else if rb_parent d \<noteq> node then Some (rb_parent d)
       else Some deepest }}"

definition rb_augment_erase_end :: "(ptr \<Rightarrow> 'd \<Rightarrow> 'd) \<Rightarrow> rb_mem \<Rightarrow> ptr \<Rightarrow> 'd \<Rightarrow> 'd option" where
  "rb_augment_erase_end func s node d = (if node \<noteq> NULL then rb_augment_path func s node d else Some d)"

definition rb_replace_node :: "ptr \<Rightarrow> ptr \<Rightarrow> rb_mem \<Rightarrow> rb_mem option" where
  "rb_replace_node victim new s = do {
     v \<leftarrow> deref s victim;
     s \<leftarrow> rb_replace_child (rb_parent v) victim new s;
     v \<leftarrow> deref s victim;
     s \<leftarrow> set_parent_if (rb_left v) new s;
     s \<leftarrow> set_parent_if (rb_right v) new s;
     v \<leftarrow> deref s victim;
     upd_node (\<lambda>_. v) new s }"

end
