(* ===== verification/RbRep.thy ===== *)
theory RbRep
  imports RbTree
begin

text \<open>
  The abstraction of red-black trees: coloured binary trees labelled with node addresses,
  the predicate that ties such a tree to the memory (children, parent words, colours), and
  contexts (zippers) for the place in the tree where an operation works. The rotations are
  shown here to rotate the abstract tree at any place.
\<close>

section \<open>The packed parent word\<close>

datatype color = Red | Black

definition col :: "rb_node \<Rightarrow> color" where
  "col n = (if rb_is_red n then Red else Black)"

lemma low_bits_parent:
  fixes w p :: ptr
  assumes "aligned p"
  shows "((w AND 3) OR p) AND NOT 3 = p" "((w AND 3) OR p) AND 1 = w AND 1"
proof -
  have p: "p AND NOT 3 = p" "p AND 3 = 0"
    using assms by (auto simp only: aligned_def intro: and_not_eq_self)
  have "(w AND 3) AND NOT 3 = w AND (3 AND NOT 3)" by (simp only: and.assoc)
  then have "(w AND 3) AND NOT 3 = 0" by simp
  then show "((w AND 3) OR p) AND NOT 3 = p"
    using p(1) by (simp add: bit.conj_disj_distrib2)
  have "p AND 1 = (p AND 3) AND 1" by (simp add: and.assoc)
  then have "p AND 1 = 0" using p(2) by simp
  moreover have "(w AND 3) AND 1 = w AND 1" by (simp add: and.assoc)
  ultimately show "((w AND 3) OR p) AND 1 = w AND 1"
    by (simp add: bit.conj_disj_distrib2)
qed

lemma color_bit_parent:
  fixes w c :: ptr
  shows "(w AND NOT 1) AND NOT 3 = w AND NOT 3" "(w OR 1) AND NOT 3 = w AND NOT 3"
    "(w AND NOT 1) AND 1 = 0" "(w OR 1) AND 1 = 1"
proof -
  have "NOT 1 AND NOT 3 = (NOT 3 :: ptr)" by (simp flip: bit.de_Morgan_disj)
  then show "(w AND NOT 1) AND NOT 3 = w AND NOT 3" by (simp only: and.assoc)
  have "1 AND NOT 3 = (0 :: ptr)" by simp
  then show "(w OR 1) AND NOT 3 = w AND NOT 3" by (simp add: bit.conj_disj_distrib2)
  have "NOT 1 AND 1 = (0 :: ptr)" by simp
  then show "(w AND NOT 1) AND 1 = 0" by (simp only: and.assoc and_zero_eq)
  show "(w OR 1) AND 1 = 1" by (simp add: bit.conj_disj_distrib2 and.commute)
qed

lemma bit1_cases: "(w :: ptr) AND 1 = 0 \<or> w AND 1 = 1"
  by (simp add: and_one_eq mod_2_eq_odd)

text \<open>Reading back what the accessors write.\<close>

lemma parent_color_upd:
  "rb_parent_color (n\<lparr>rb_parent_color := v\<rparr>) = v"
  "rb_parent_color (n\<lparr>rb_left := q\<rparr>) = rb_parent_color n"
  "rb_parent_color (n\<lparr>rb_right := q\<rparr>) = rb_parent_color n"
  by simp_all

lemmas node_word_defs = rb_parent_def col_def rb_is_red_def rb_color_def rb_set_parent_node_def
  rb_set_red_node_def rb_set_black_node_def rb_set_color_node_def parent_color_upd

lemma node_parent [simp]:
  "aligned p \<Longrightarrow> rb_parent (rb_set_parent_node p n) = p"
  "rb_parent (rb_set_red_node n) = rb_parent n"
  "rb_parent (rb_set_black_node n) = rb_parent n"
  "rb_parent (n\<lparr>rb_left := q\<rparr>) = rb_parent n"
  "rb_parent (n\<lparr>rb_right := q\<rparr>) = rb_parent n"
  by (simp_all only: node_word_defs low_bits_parent color_bit_parent)

lemma node_col [simp]:
  "aligned p \<Longrightarrow> col (rb_set_parent_node p n) = col n"
  "col (rb_set_red_node n) = Red"
  "col (rb_set_black_node n) = Black"
  "col (n\<lparr>rb_left := q\<rparr>) = col n"
  "col (n\<lparr>rb_right := q\<rparr>) = col n"
  by (simp_all only: node_word_defs low_bits_parent color_bit_parent one_neq_zero if_True if_False simp_thms)

lemma node_set_color [simp]:
  "rb_parent (rb_set_color_node (rb_color m) n) = rb_parent n"
  "col (rb_set_color_node (rb_color m) n) = col m"
proof -
  have "rb_parent_color m AND 1 = 0 \<or> rb_parent_color m AND 1 = 1" by (rule bit1_cases)
  then show "rb_parent (rb_set_color_node (rb_color m) n) = rb_parent n"
    "col (rb_set_color_node (rb_color m) n) = col m"
    by (elim disjE; simp only: node_word_defs color_bit_parent or.right_neutral one_neq_zero if_True
        if_False simp_thms)+
qed

text \<open>\<^verbatim>\<open>rb_link_node\<close> stores a bare parent pointer: the node is red.\<close>

lemma node_linked [simp]:
  "aligned p \<Longrightarrow> rb_parent (n\<lparr>rb_parent_color := p\<rparr>) = p"
  "aligned p \<Longrightarrow> col (n\<lparr>rb_parent_color := p\<rparr>) = Red"
  "rb_parent (n\<lparr>rb_parent_color := rb_parent_color m\<rparr>) = rb_parent m"
  "col (n\<lparr>rb_parent_color := rb_parent_color m\<rparr>) = col m"
  using low_bits_parent[of p 0] by (simp_all only: node_word_defs and_zero_eq zero_and_eq
      or.left_neutral simp_thms if_True)

lemma node_links [simp]:
  "rb_left (rb_set_parent_node p n) = rb_left n" "rb_right (rb_set_parent_node p n) = rb_right n"
  "rb_left (rb_set_red_node n) = rb_left n" "rb_right (rb_set_red_node n) = rb_right n"
  "rb_left (rb_set_black_node n) = rb_left n" "rb_right (rb_set_black_node n) = rb_right n"
  "rb_left (rb_set_color_node c n) = rb_left n" "rb_right (rb_set_color_node c n) = rb_right n"
  by (simp_all add: rb_set_parent_node_def rb_set_red_node_def rb_set_black_node_def rb_set_color_node_def)

lemma rb_is_black_iff [simp]: "rb_is_black n \<longleftrightarrow> col n = Black"
  by (simp add: col_def rb_is_black_def rb_is_red_def)

lemma rb_color_black_iff: "rb_color n = RB_BLACK \<longleftrightarrow> col n = Black"
  using bit1_cases[of "rb_parent_color n"]
  by (auto simp: col_def rb_is_red_def rb_color_def RB_BLACK_def)

lemma rb_is_red_iff [simp]: "rb_is_red n \<longleftrightarrow> col n = Red"
  by (simp add: col_def)

section \<open>Abstract trees and their representation\<close>

datatype rbt = Lf | Nd color rbt ptr rbt

fun rootp :: "rbt \<Rightarrow> ptr" where
  "rootp Lf = NULL"
| "rootp (Nd c l a r) = a"

fun inorder :: "rbt \<Rightarrow> ptr list" where
  "inorder Lf = []"
| "inorder (Nd c l a r) = inorder l @ a # inorder r"

abbreviation addrs :: "rbt \<Rightarrow> ptr set" where
  "addrs t \<equiv> set (inorder t)"

definition node_at :: "rb_node heap \<Rightarrow> ptr \<Rightarrow> ptr \<Rightarrow> color \<Rightarrow> ptr \<Rightarrow> ptr \<Rightarrow> bool" where
  "node_at h a par c l r \<longleftrightarrow> a \<noteq> NULL \<and> aligned a \<and>
     (\<exists>n. h a = Some n \<and> rb_parent n = par \<and> col n = c \<and> rb_left n = l \<and> rb_right n = r)"

fun tree_at :: "rb_node heap \<Rightarrow> ptr \<Rightarrow> rbt \<Rightarrow> bool" where
  "tree_at h par Lf = True"
| "tree_at h par (Nd c l a r) =
     (node_at h a par c (rootp l) (rootp r) \<and> tree_at h a l \<and> tree_at h a r)"

definition rb_rep :: "rb_mem \<Rightarrow> rbt \<Rightarrow> bool" where
  "rb_rep s t \<longleftrightarrow> root s = rootp t \<and> distinct (inorder t) \<and> tree_at (nodes s) NULL t"

text \<open>
  A context is the path from a place in the tree up to the root. \<open>InL c a r\<close> is a node
  \<open>a\<close> of colour \<open>c\<close> whose left child is the place and whose right subtree is \<open>r\<close>.
\<close>

datatype frame = InL color ptr rbt | InR color ptr rbt

type_synonym ctx = "frame list"

fun plug1 :: "frame \<Rightarrow> rbt \<Rightarrow> rbt" where
  "plug1 (InL c a r) t = Nd c t a r"
| "plug1 (InR c a l) t = Nd c l a t"

fun plug :: "ctx \<Rightarrow> rbt \<Rightarrow> rbt" where
  "plug [] t = t"
| "plug (f # k) t = plug k (plug1 f t)"

fun frame_addr :: "frame \<Rightarrow> ptr" where
  "frame_addr (InL c a r) = a"
| "frame_addr (InR c a l) = a"

fun ctx_par :: "ctx \<Rightarrow> ptr" where
  "ctx_par [] = NULL"
| "ctx_par (f # k) = frame_addr f"

fun before :: "ctx \<Rightarrow> ptr list" where
  "before [] = []"
| "before (InL c a r # k) = before k"
| "before (InR c a l # k) = before k @ inorder l @ [a]"

fun after :: "ctx \<Rightarrow> ptr list" where
  "after [] = []"
| "after (InL c a r # k) = a # inorder r @ after k"
| "after (InR c a l # k) = after k"

lemma inorder_plug: "inorder (plug k t) = before k @ inorder t @ after k"
proof (induction k arbitrary: t)
  case Nil
  then show ?case by simp
next
  case (Cons f k)
  then show ?case by (cases f) simp_all
qed

lemma plug_append: "plug (k @ k') t = plug k' (plug k t)"
  by (induction k arbitrary: t) simp_all

definition ctx_addrs :: "ctx \<Rightarrow> ptr set" where
  "ctx_addrs k = set (before k) \<union> set (after k)"

text \<open>\<open>ctx_at h k x\<close>: the context is in memory and the place in it holds the pointer \<open>x\<close>.\<close>

fun ctx_at :: "rb_node heap \<Rightarrow> ctx \<Rightarrow> ptr \<Rightarrow> bool" where
  "ctx_at h [] x = True"
| "ctx_at h (InL c a r # k) x =
     (node_at h a (ctx_par k) c x (rootp r) \<and> tree_at h a r \<and> ctx_at h k a)"
| "ctx_at h (InR c a l # k) x =
     (node_at h a (ctx_par k) c (rootp l) x \<and> tree_at h a l \<and> ctx_at h k a)"

lemma tree_at_plug: "tree_at h NULL (plug k t) \<longleftrightarrow> ctx_at h k (rootp t) \<and> tree_at h (ctx_par k) t"
proof (induction k arbitrary: t)
  case Nil
  then show ?case by simp
next
  case (Cons f k)
  then show ?case by (cases f) auto
qed

fun ctx_root :: "ctx \<Rightarrow> ptr \<Rightarrow> ptr" where
  "ctx_root [] x = x"
| "ctx_root (f # k) x = ctx_root k (frame_addr f)"

lemma rootp_plug: "rootp (plug k t) = ctx_root k (rootp t)"
proof (induction k arbitrary: t)
  case (Cons f k)
  then show ?case by (cases f) simp_all
qed simp

text \<open>The zipper view of the representation.\<close>

lemma rb_rep_plug:
  "rb_rep s (plug k t) \<longleftrightarrow> root s = ctx_root k (rootp t) \<and>
     distinct (before k @ inorder t @ after k) \<and>
     ctx_at (nodes s) k (rootp t) \<and> tree_at (nodes s) (ctx_par k) t"
  by (simp add: rb_rep_def rootp_plug inorder_plug tree_at_plug)

text \<open>Memory outside a subtree or context does not matter to it.\<close>

lemma node_at_cong: "h' a = h a \<Longrightarrow> node_at h' a par c l r = node_at h a par c l r"
  by (simp add: node_at_def)

lemma tree_at_cong: "(\<And>a. a \<in> addrs t \<Longrightarrow> h' a = h a) \<Longrightarrow> tree_at h' par t = tree_at h par t"
proof (induction t arbitrary: par)
  case (Nd c l a r)
  then show ?case using node_at_cong[of h' a h] by simp
qed simp

lemma ctx_addrs_simps [simp]:
  "ctx_addrs [] = {}"
  "ctx_addrs (InL c a r # k) = insert a (addrs r \<union> ctx_addrs k)"
  "ctx_addrs (InR c a l # k) = insert a (addrs l \<union> ctx_addrs k)"
  by (auto simp: ctx_addrs_def)

lemma ctx_at_cong: "(\<And>a. a \<in> ctx_addrs k \<Longrightarrow> h' a = h a) \<Longrightarrow> ctx_at h' k x = ctx_at h k x"
proof (induction k arbitrary: x)
  case (Cons f k)
  then show ?case
    by (cases f) (simp_all add: node_at_cong[of h' _ h] tree_at_cong[of _ h' h])
qed simp

lemma tree_at_congI:
  "tree_at h par t \<Longrightarrow> (\<And>a. a \<in> addrs t \<Longrightarrow> h' a = h a) \<Longrightarrow> tree_at h' par t"
  using tree_at_cong by blast

lemma ctx_at_congI:
  "ctx_at h k x \<Longrightarrow> (\<And>a. a \<in> ctx_addrs k \<Longrightarrow> h' a = h a) \<Longrightarrow> ctx_at h' k x"
  using ctx_at_cong by blast

lemma node_at_upd: "a \<noteq> b \<Longrightarrow> node_at (h(b := v)) a par c l r = node_at h a par c l r"
  by (rule node_at_cong) simp

lemma tree_at_upd: "b \<notin> addrs t \<Longrightarrow> tree_at (h(b := v)) par t = tree_at h par t"
  by (rule tree_at_cong) auto

lemma ctx_at_upd: "b \<notin> ctx_addrs k \<Longrightarrow> ctx_at (h(b := v)) k x = ctx_at h k x"
  by (rule ctx_at_cong) auto

lemmas frame_upd = node_at_upd tree_at_upd ctx_at_upd

lemma tree_at_root: "tree_at h par t \<Longrightarrow> t \<noteq> Lf \<Longrightarrow> rootp t \<in> addrs t \<and> rootp t \<noteq> NULL"
  by (cases t) (auto simp: node_at_def)

lemma tree_at_nonnull: "tree_at h par t \<Longrightarrow> a \<in> addrs t \<Longrightarrow> a \<noteq> NULL \<and> aligned a \<and> a \<in> dom h"
  by (induction t arbitrary: par) (auto simp: node_at_def)

lemma rootp_NULL: "tree_at h par t \<Longrightarrow> rootp t = NULL \<longleftrightarrow> t = Lf"
  by (cases t) (auto simp: node_at_def)

lemma ctx_at_par: "ctx_at h k x \<Longrightarrow> ctx_par k \<noteq> NULL \<longleftrightarrow> k \<noteq> []"
  by (cases k rule: ctx_par.cases; auto simp: node_at_def elim: frame_addr.elims)

section \<open>Symbolic execution\<close>

lemma upd_node_exec: "p \<noteq> NULL \<Longrightarrow> nodes s p = Some n \<Longrightarrow>
  upd_node f p s = Some (s\<lparr>nodes := (nodes s)(p \<mapsto> f n)\<rparr>)"
  by (simp add: upd_node_def wr_def rd_def)

lemma deref_exec: "p \<noteq> NULL \<Longrightarrow> deref s p = nodes s p"
  by (simp add: rd_def)

lemmas exec = upd_node_exec deref_exec

lemma node_atE:
  assumes "node_at h a par c l r"
  obtains n where "a \<noteq> NULL" "aligned a" "h a = Some n" "rb_parent n = par" "col n = c"
    "rb_left n = l" "rb_right n = r"
  using assms by (auto simp: node_at_def)

text \<open>
  The two small steps that the rotations and the removal share: giving a possibly empty
  subtree a new parent, and redirecting the pointer that a context holds.
\<close>

lemma runs_reparent:
  assumes "tree_at (nodes s) par t" "distinct (inorder t)" "aligned q"
  shows "runs (set_parent_if (rootp t) q s) (\<lambda>s'.
    tree_at (nodes s') q t \<and> root s' = root s \<and> (\<forall>p. p \<notin> addrs t \<longrightarrow> nodes s' p = nodes s p))"
proof (cases t)
  case Lf
  then show ?thesis by (simp add: set_parent_if_def)
next
  case (Nd c l a r)
  then obtain n where n: "a \<noteq> NULL" "aligned a" "nodes s a = Some n" "col n = c"
    "rb_left n = rootp l" "rb_right n = rootp r" "tree_at (nodes s) a l" "tree_at (nodes s) a r"
    using assms(1) by (auto elim: node_atE)
  with Nd assms show ?thesis by (auto simp: set_parent_if_def exec frame_upd) (auto simp: node_at_def)
qed

definition redirects :: "ctx \<Rightarrow> ptr \<Rightarrow> rb_mem \<Rightarrow> rb_mem \<Rightarrow> bool" where
  "redirects k b s s' \<longleftrightarrow> ctx_at (nodes s') k b \<and> root s' = ctx_root k b \<and>
     (\<forall>p. p \<notin> ctx_addrs k \<longrightarrow> nodes s' p = nodes s p)"

lemma distinct_ctx: "distinct (before k @ xs @ after k) \<Longrightarrow> distinct (before k @ after k)"
  by auto

lemma redirect_cases:
  assumes k: "ctx_at (nodes s) k a" "distinct (before k @ after k)" "root s = ctx_root k a"
    and a: "a \<notin> ctx_addrs k" "a \<noteq> NULL"
  obtains (top) "k = []"
  | (left) c p r k' n where "k = InL c p r # k'" "p \<noteq> NULL" "nodes s p = Some n" "rb_left n = a" "rb_right n \<noteq> a"
      "\<And>b. redirects k b s (s\<lparr>nodes := (nodes s)(p \<mapsto> n\<lparr>rb_left := b\<rparr>)\<rparr>)"
  | (right) c p l k' n where "k = InR c p l # k'" "p \<noteq> NULL" "nodes s p = Some n" "rb_right n = a" "rb_left n \<noteq> a"
      "\<And>b. redirects k b s (s\<lparr>nodes := (nodes s)(p \<mapsto> n\<lparr>rb_right := b\<rparr>)\<rparr>)"
proof (cases k)
  case Nil
  then show thesis by (rule top)
next
  case (Cons f k')
  show thesis
  proof (cases f)
    case (InL c p r)
    obtain n where n: "p \<noteq> NULL" "aligned p" "nodes s p = Some n" "rb_parent n = ctx_par k'" "col n = c"
      "rb_left n = a" "rb_right n = rootp r"
      using k(1) Cons InL by (auto elim: node_atE)
    have "rb_right n \<noteq> a"
      using n a k(1) Cons InL by (cases r) auto
    moreover have "redirects k b s (s\<lparr>nodes := (nodes s)(p \<mapsto> n\<lparr>rb_left := b\<rparr>)\<rparr>)" for b
      using k n Cons InL by (auto simp: redirects_def frame_upd ctx_addrs_def) (simp add: node_at_def)
    ultimately show thesis using left[of c p r k' n] n Cons InL by simp
  next
    case (InR c p l)
    obtain n where n: "p \<noteq> NULL" "aligned p" "nodes s p = Some n" "rb_parent n = ctx_par k'" "col n = c"
      "rb_left n = rootp l" "rb_right n = a"
      using k(1) Cons InR by (auto elim: node_atE)
    have "rb_left n \<noteq> a"
      using n a k(1) Cons InR by (cases l) auto
    moreover have "redirects k b s (s\<lparr>nodes := (nodes s)(p \<mapsto> n\<lparr>rb_right := b\<rparr>)\<rparr>)" for b
      using k n Cons InR by (auto simp: redirects_def frame_upd ctx_addrs_def) (simp add: node_at_def)
    ultimately show thesis using right[of c p l k' n] n Cons InR by simp
  qed
qed

lemma runs_replace_child:
  assumes k: "ctx_at (nodes s) k a" "distinct (before k @ after k)" "root s = ctx_root k a"
    and a: "a \<notin> ctx_addrs k" "a \<noteq> NULL"
  shows "runs (rb_replace_child (ctx_par k) a b s) (redirects k b s)"
    and "runs (rb_replace_child_right (ctx_par k) a b s) (redirects k b s)"
proof -
  have "runs (rb_replace_child (ctx_par k) a b s) (redirects k b s) \<and>
    runs (rb_replace_child_right (ctx_par k) a b s) (redirects k b s)"
  proof (cases rule: redirect_cases[OF k a, case_names top left right])
    case top
    then show ?thesis by (simp add: redirects_def rb_replace_child_def rb_replace_child_right_def)
  next
    case (left c p r k' n)
    then show ?thesis by (simp add: exec rb_replace_child_def rb_replace_child_right_def)
  next
    case (right c p l k' n)
    then show ?thesis by (simp add: exec rb_replace_child_def rb_replace_child_right_def)
  qed
  then show "runs (rb_replace_child (ctx_par k) a b s) (redirects k b s)"
    and "runs (rb_replace_child_right (ctx_par k) a b s) (redirects k b s)" by simp_all
qed

lemma ctx_par_aligned: "ctx_at h k x \<Longrightarrow> aligned (ctx_par k)"
proof (cases k)
  case (Cons f k')
  then show "ctx_at h k x \<Longrightarrow> aligned (ctx_par k)" by (cases f) (auto simp: node_at_def)
qed simp

lemma rotate_left_rep:
  assumes rep: "rb_rep s (plug k (Nd c l a (Nd c' m b r)))"
  shows "runs (rb_rotate_left a s) (\<lambda>s'. rb_rep s' (plug k (Nd c' (Nd c l a m) b r)) \<and>
    (\<forall>p. p \<notin> addrs (plug k (Nd c l a (Nd c' m b r))) \<longrightarrow> nodes s' p = nodes s p))" (is "runs _ ?Q")
proof -
  let ?t = "Nd c l a (Nd c' m b r)"
  from rep have root: "root s = ctx_root k a" and dist: "distinct (before k @ inorder ?t @ after k)"
    and ctx: "ctx_at (nodes s) k a" and tree: "tree_at (nodes s) (ctx_par k) ?t"
    by (simp_all add: rb_rep_plug)
  obtain na where a: "a \<noteq> NULL" "aligned a" "nodes s a = Some na" "rb_parent na = ctx_par k"
    "col na = c" "rb_left na = rootp l" "rb_right na = b" and l: "tree_at (nodes s) a l"
    using tree by (auto elim: node_atE)
  obtain nb where b: "b \<noteq> NULL" "aligned b" "nodes s b = Some nb" "rb_parent nb = a"
    "col nb = c'" "rb_left nb = rootp m" "rb_right nb = rootp r"
    and mr: "tree_at (nodes s) b m" "tree_at (nodes s) b r"
    using tree by (auto elim: node_atE)
  from dist have D: "a \<noteq> b" "a \<notin> addrs m" "b \<notin> addrs m" "a \<notin> addrs l" "a \<notin> addrs r" "b \<notin> addrs l"
    "b \<notin> addrs r" "a \<notin> ctx_addrs k" "b \<notin> ctx_addrs k" "addrs l \<inter> ctx_addrs k = {}"
    "addrs m \<inter> ctx_addrs k = {}" "addrs r \<inter> ctx_addrs k = {}" "addrs l \<inter> addrs m = {}"
    "addrs m \<inter> addrs r = {}" "distinct (inorder m)" "distinct (before k @ after k)"
    by (auto simp: ctx_addrs_def)
  let ?s1 = "s\<lparr>nodes := (nodes s)(a \<mapsto> na\<lparr>rb_right := rootp m\<rparr>)\<rparr>"
  let ?ctx = "\<lambda>s. Option.bind (rb_replace_child (ctx_par k) a b s) (rb_set_parent a b)"
  let ?rest = "\<lambda>s. do { s \<leftarrow> set_left b a s; s \<leftarrow> rb_set_parent b (ctx_par k) s; ?ctx s }"
  have r1: "runs (set_parent_if (rootp m) a ?s1) (\<lambda>s'.
    tree_at (nodes s') a m \<and> root s' = root ?s1 \<and> (\<forall>p. p \<notin> addrs m \<longrightarrow> nodes s' p = nodes ?s1 p))"
    (is "runs _ ?R1")
    by (rule runs_reparent) (use mr D a in \<open>simp_all add: frame_upd\<close>)
  have step2: "runs (?rest s1) ?Q" if s1: "?R1 s1" for s1
  proof -
    have nb1: "nodes s1 b = Some nb" and na1: "nodes s1 a = Some (na\<lparr>rb_right := rootp m\<rparr>)"
      using s1 D b by simp_all
    let ?s2 = "s1\<lparr>nodes := (nodes s1)(b \<mapsto> rb_set_parent_node (ctx_par k) (nb\<lparr>rb_left := a\<rparr>))\<rparr>"
    have ctx2: "ctx_at (nodes ?s2) k a"
      by (rule ctx_at_congI[OF ctx]) (use s1 D in \<open>auto simp: disjoint_iff\<close>)
    have r2: "runs (rb_replace_child (ctx_par k) a b ?s2) (redirects k b ?s2)"
      by (rule runs_replace_child) (use ctx2 D a root s1 in simp_all)
    have fin: "runs (rb_set_parent a b s3) ?Q" if s3: "redirects k b ?s2 s3" for s3
    proof -
      have na3: "nodes s3 a = Some (na\<lparr>rb_right := rootp m\<rparr>)"
        using s3 D na1 by (simp add: redirects_def)
      let ?h = "(nodes s3)(a \<mapsto> rb_set_parent_node b (na\<lparr>rb_right := rootp m\<rparr>))"
      have H: "?h p = nodes s p" if "p \<notin> ctx_addrs k" "p \<notin> addrs m" "p \<noteq> a" "p \<noteq> b" for p
        using that s1 s3 by (simp add: redirects_def)
      have "tree_at ?h a l" by (rule tree_at_congI[OF l], rule H) (use D in auto)
      moreover have "tree_at ?h b r" by (rule tree_at_congI[OF mr(2)], rule H) (use D in auto)
      moreover have "tree_at ?h a m"
        by (rule tree_at_congI[of "nodes s1"]) (use s1 s3 D in \<open>auto simp: disjoint_iff redirects_def\<close>)
      moreover have "ctx_at ?h k b" using s3 D by (simp add: redirects_def ctx_at_upd)
      moreover have "node_at ?h b (ctx_par k) c' a (rootp r)"
        using s3 D b ctx_par_aligned[OF ctx] by (simp add: redirects_def node_at_def)
      moreover have "node_at ?h a b c (rootp l) (rootp m)"
        using a b by (simp add: node_at_def)
      ultimately have "rb_rep (s3\<lparr>nodes := ?h\<rparr>) (plug k (Nd c' (Nd c l a m) b r))"
        using dist s3 by (simp add: rb_rep_plug redirects_def)
      moreover have "?h p = nodes s p" if "p \<notin> addrs (plug k ?t)" for p
        using that by (intro H) (auto simp: inorder_plug ctx_addrs_def)
      ultimately show ?thesis using na3 a by (simp add: exec)
    qed
    have "?rest s1 = ?ctx ?s2" using b nb1 by (simp add: exec)
    moreover have "runs (?ctx ?s2) ?Q" by (rule runs_bindI[OF r2]) (rule fin)
    ultimately show ?thesis by (simp only:)
  qed
  have "rb_rotate_left a s = Option.bind (set_parent_if (rootp m) a ?s1) ?rest"
    using a b by (simp add: rb_rotate_left_def exec Let_def)
  moreover have "runs (Option.bind (set_parent_if (rootp m) a ?s1) ?rest) ?Q"
    by (rule runs_bindI[OF r1]) (rule step2)
  ultimately show ?thesis by (simp only:)
qed

section \<open>Mirror images\<close>

text \<open>
  The code treats the two sides of a tree by mirrored branches. Exchanging the child fields
  of all nodes maps one branch to the other, so each fact is proved for one side only.
\<close>

named_theorems mirror_simps \<open>code run on the mirrored memory\<close>

definition mirn :: "rb_node \<Rightarrow> rb_node" where
  "mirn n = \<lparr>rb_parent_color = rb_parent_color n, rb_right = rb_left n, rb_left = rb_right n\<rparr>"

definition mir :: "rb_mem \<Rightarrow> rb_mem" where
  "mir s = s\<lparr>nodes := (\<lambda>p. map_option mirn (nodes s p))\<rparr>"

fun mirror :: "rbt \<Rightarrow> rbt" where
  "mirror Lf = Lf"
| "mirror (Nd c l a r) = Nd c (mirror r) a (mirror l)"

fun mirf :: "frame \<Rightarrow> frame" where
  "mirf (InL c a r) = InR c a (mirror r)"
| "mirf (InR c a l) = InL c a (mirror l)"

lemma mirn_fields [simp]:
  "rb_left (mirn n) = rb_right n" "rb_right (mirn n) = rb_left n" "rb_parent (mirn n) = rb_parent n"
  "col (mirn n) = col n" "rb_parent_color (mirn n) = rb_parent_color n" "rb_color (mirn n) = rb_color n"
  "mirn (mirn n) = n"
  by (simp_all add: mirn_def rb_parent_def col_def rb_is_red_def rb_color_def del: rb_is_red_iff)

lemma mirn_updates:
  "(mirn n)\<lparr>rb_left := q\<rparr> = mirn (n\<lparr>rb_right := q\<rparr>)" "(mirn n)\<lparr>rb_right := q\<rparr> = mirn (n\<lparr>rb_left := q\<rparr>)"
  "rb_set_parent_node p (mirn n) = mirn (rb_set_parent_node p n)"
  "rb_set_red_node (mirn n) = mirn (rb_set_red_node n)"
  "rb_set_black_node (mirn n) = mirn (rb_set_black_node n)"
  "rb_set_color_node c (mirn n) = mirn (rb_set_color_node c n)"
  by (simp_all add: mirn_def rb_set_parent_node_def rb_set_red_node_def rb_set_black_node_def
      rb_set_color_node_def)

lemma mir_mir [simp]: "mir (mir s) = s"
  by (simp add: mir_def option.map_comp comp_def option.map_ident)

lemma nodes_mir: "nodes (mir s) p = map_option mirn (nodes s p)"
  by (simp add: mir_def)

lemma root_mir [simp]: "root (mir s) = root s" "mir (s\<lparr>root := p\<rparr>) = (mir s)\<lparr>root := p\<rparr>"
  by (simp_all add: mir_def)

lemma deref_mir [mirror_simps]: "deref (mir s) p = map_option mirn (deref s p)"
  by (simp add: rd_def nodes_mir)

lemma upd_node_mir:
  assumes "\<And>n. f (mirn n) = mirn (g n)"
  shows "upd_node f p (mir s) = map_option mir (upd_node g p s)"
proof (cases "rd (nodes s) p")
  case None
  then show ?thesis by (simp add: upd_node_def wr_def deref_mir)
next
  case (Some n)
  then show ?thesis using assms by (simp add: upd_node_def wr_def deref_mir) (simp add: mir_def fun_eq_iff)
qed

lemma upd_mir [mirror_simps]:
  "set_left p q (mir s) = map_option mir (set_right p q s)"
  "set_right p q (mir s) = map_option mir (set_left p q s)"
  "rb_set_parent p q (mir s) = map_option mir (rb_set_parent p q s)"
  "rb_set_red p (mir s) = map_option mir (rb_set_red p s)"
  "rb_set_black p (mir s) = map_option mir (rb_set_black p s)"
  "rb_set_color p c (mir s) = map_option mir (rb_set_color p c s)"
  by (rule upd_node_mir, simp add: mirn_updates)+

lemma bind_map_option [mirror_simps]: "Option.bind (map_option g m) f = Option.bind m (\<lambda>x. f (g x))"
  by (cases m) simp_all

lemma map_option_bind' [mirror_simps]: "map_option g (Option.bind m h) = Option.bind m (\<lambda>x. map_option g (h x))"
  by (cases m) simp_all

lemma blocks_mir [mirror_simps]:
  "set_parent_if c p (mir s) = map_option mir (set_parent_if c p s)"
  "rb_replace_child p a b (mir s) = map_option mir (rb_replace_child_right p a b s)"
  "rb_replace_child_right p a b (mir s) = map_option mir (rb_replace_child p a b s)"
  "is_red_child p (mir s) = is_red_child p s"
  "is_black_child p (mir s) = is_black_child p s"
  by (simp_all add: set_parent_if_def rb_replace_child_def rb_replace_child_right_def mirror_simps
      is_red_child_def is_black_child_def if_distrib[of "map_option mir"] cong: if_cong)

lemma rotate_mir [mirror_simps]:
  "rb_rotate_left a (mir s) = map_option mir (rb_rotate_right a s)"
  "rb_rotate_right a (mir s) = map_option mir (rb_rotate_left a s)"
  by (simp_all add: rb_rotate_left_def rb_rotate_right_def mirror_simps Let_def)

lemma mirror_mirror [simp]: "mirror (mirror t) = t"
  by (induction t) simp_all

lemma rootp_mirror [simp]: "rootp (mirror t) = rootp t"
  by (cases t) simp_all

lemma inorder_mirror [simp]: "inorder (mirror t) = rev (inorder t)"
  by (induction t) simp_all

lemma mirror_plug: "mirror (plug k t) = plug (map mirf k) (mirror t)"
proof (induction k arbitrary: t)
  case (Cons f k)
  then show ?case by (cases f) simp_all
qed simp

lemma node_at_mir: "node_at (nodes (mir s)) a par c l r = node_at (nodes s) a par c r l"
  by (auto simp: node_at_def nodes_mir)

lemma tree_at_mir: "tree_at (nodes (mir s)) par (mirror t) = tree_at (nodes s) par t"
  by (induction t arbitrary: par) (auto simp: node_at_mir)

lemma rb_rep_mir: "rb_rep (mir s) (mirror t) = rb_rep s t"
  by (simp add: rb_rep_def tree_at_mir)

lemma runs_map_option: "runs (map_option g m) Q = runs m (\<lambda>x. Q (g x))"
  by (cases m) simp_all

lemma map_option_mirn_inj: "map_option mirn x = map_option mirn y \<longleftrightarrow> x = y"
proof -
  have "inj mirn" by (rule inj_on_inverseI[of _ mirn]) simp
  then show ?thesis by (simp add: inj_eq option.inj_map)
qed

lemma rotate_right_rep:
  assumes rep: "rb_rep s (plug k (Nd c (Nd c' l b m) a r))"
  shows "runs (rb_rotate_right a s) (\<lambda>s'. rb_rep s' (plug k (Nd c' l b (Nd c m a r))) \<and>
    (\<forall>p. p \<notin> addrs (plug k (Nd c (Nd c' l b m) a r)) \<longrightarrow> nodes s' p = nodes s p))"
proof -
  have "rb_rep (mir s) (plug (map mirf k) (Nd c (mirror r) a (Nd c' (mirror m) b (mirror l))))"
    using rep rb_rep_mir[of s "plug k (Nd c (Nd c' l b m) a r)"] by (simp add: mirror_plug)
  from rotate_left_rep[OF this] show ?thesis
    using rb_rep_mir[of _ "plug k (Nd c' l b (Nd c m a r))"]
      inorder_mirror[of "plug k (Nd c (Nd c' l b m) a r)"]
    by (simp add: mirror_simps runs_map_option mirror_plug nodes_mir map_option_mirn_inj)
qed

section \<open>Steps on the represented tree\<close>

text \<open>
  \<open>evolves s t s'\<close>: memory \<open>s'\<close> holds the tree \<open>t\<close> and differs from \<open>s\<close> only in nodes of \<open>t\<close>.
\<close>

definition evolves :: "rb_mem \<Rightarrow> rbt \<Rightarrow> rb_mem \<Rightarrow> bool" where
  "evolves s t s' \<longleftrightarrow> rb_rep s' t \<and> (\<forall>p. p \<notin> addrs t \<longrightarrow> nodes s' p = nodes s p)"

lemma evolves_refl: "rb_rep s t \<Longrightarrow> evolves s t s"
  by (simp add: evolves_def)

lemma evolves_rep: "evolves s t s' \<Longrightarrow> rb_rep s' t"
  by (simp add: evolves_def)

lemma evolves_bind:
  assumes "runs m (evolves s t)" "addrs t' = addrs t"
    and "\<And>s'. rb_rep s' t \<Longrightarrow> runs (f s') (evolves s' t')"
  shows "runs (Option.bind m f) (evolves s t')"
proof (rule runs_bindI[OF assms(1)])
  fix s' assume s': "evolves s t s'"
  show "runs (f s') (evolves s t')"
    by (rule runs_mono[OF assms(3)]) (use s' assms(2) in \<open>auto simp: evolves_def\<close>)
qed

lemma addrs_plug: "addrs (plug k t) = ctx_addrs k \<union> addrs t"
  by (auto simp: inorder_plug ctx_addrs_def)

lemma evolves_rotate_left:
  "rb_rep s (plug k (Nd c l a (Nd c' m b r))) \<Longrightarrow>
   runs (rb_rotate_left a s) (evolves s (plug k (Nd c' (Nd c l a m) b r)))"
  by (rule runs_mono[OF rotate_left_rep]) (auto simp: evolves_def addrs_plug)

lemma evolves_rotate_right:
  "rb_rep s (plug k (Nd c (Nd c' l b m) a r)) \<Longrightarrow>
   runs (rb_rotate_right a s) (evolves s (plug k (Nd c' l b (Nd c m a r))))"
  by (rule runs_mono[OF rotate_right_rep]) (auto simp: evolves_def addrs_plug)

text \<open>What the code reads at a place.\<close>

lemma rep_node:
  assumes "rb_rep s (plug k (Nd c l a r))"
  obtains n where "a \<noteq> NULL" "aligned a" "nodes s a = Some n" "rb_parent n = ctx_par k" "col n = c"
    "rb_left n = rootp l" "rb_right n = rootp r"
  using assms by (auto simp: rb_rep_plug elim: node_atE)

lemma recolor:
  assumes rep: "rb_rep s (plug k (Nd c l a r))"
    and f: "\<And>n. nodes s a = Some n \<Longrightarrow> rb_parent (f n) = rb_parent n \<and> rb_left (f n) = rb_left n \<and>
      rb_right (f n) = rb_right n \<and> col (f n) = c'"
  shows "runs (upd_node f a s) (evolves s (plug k (Nd c' l a r)))"
proof -
  obtain n where n: "a \<noteq> NULL" "aligned a" "nodes s a = Some n" "rb_parent n = ctx_par k" "col n = c"
    "rb_left n = rootp l" "rb_right n = rootp r"
    using rep by (rule rep_node)
  have D: "a \<notin> addrs l" "a \<notin> addrs r" "a \<notin> ctx_addrs k"
    using rep by (auto simp: rb_rep_plug ctx_addrs_def)
  have "node_at ((nodes s)(a \<mapsto> f n)) a (ctx_par k) c' (rootp l) (rootp r)"
    using n f[OF n(3)] by (simp add: node_at_def)
  then have "rb_rep (s\<lparr>nodes := (nodes s)(a \<mapsto> f n)\<rparr>) (plug k (Nd c' l a r))"
    using rep D by (simp add: rb_rep_plug frame_upd)
  then show ?thesis using n by (auto simp: evolves_def exec addrs_plug)
qed

lemma evolves_set_red:
  "rb_rep s (plug k (Nd c l a r)) \<Longrightarrow> runs (rb_set_red a s) (evolves s (plug k (Nd Red l a r)))"
  by (rule recolor) simp_all

lemma evolves_set_black:
  "rb_rep s (plug k (Nd c l a r)) \<Longrightarrow> runs (rb_set_black a s) (evolves s (plug k (Nd Black l a r)))"
  by (rule recolor) simp_all

fun tcol :: "rbt \<Rightarrow> color" where
  "tcol Lf = Black"
| "tcol (Nd c l a r) = c"

fun paint :: "color \<Rightarrow> rbt \<Rightarrow> rbt" where
  "paint c Lf = Lf"
| "paint c (Nd c' l a r) = Nd c l a r"

lemma inorder_paint [simp]: "inorder (paint c t) = inorder t"
  by (cases t) simp_all

lemma rootp_paint [simp]: "rootp (paint c t) = rootp t"
  by (cases t) simp_all

lemma is_red_child_eq: "tree_at (nodes s) par t \<Longrightarrow> is_red_child (rootp t) s = Some (tcol t = Red)"
  by (cases t) (auto simp: is_red_child_def exec node_at_def)

lemma is_black_child_eq: "tree_at (nodes s) par t \<Longrightarrow> is_black_child (rootp t) s = Some (tcol t = Black)"
  by (cases t) (auto simp: is_black_child_def exec node_at_def)

fun fcol :: "frame \<Rightarrow> color" where
  "fcol (InL c a r) = c"
| "fcol (InR c a l) = c"

lemma color_not [simp]: "c \<noteq> Red \<longleftrightarrow> c = Black" "c \<noteq> Black \<longleftrightarrow> c = Red"
  by (cases c; simp)+

end
