(* ===== verification/RbInsert.thy ===== *)
theory RbInsert
  imports RbRep
begin

text \<open>
  Correctness of \<^verbatim>\<open>rb_insert_color\<close>. The loop is shown to compute the functional repair
  \<open>ins_fix\<close> on the zipper of the inserted node (a simulation, without bad memory accesses and
  ending always); the repair keeps the order of the nodes and restores the red-black
  invariant.
\<close>

section \<open>The red-black invariant\<close>

fun bheight :: "rbt \<Rightarrow> nat" where
  "bheight Lf = 0"
| "bheight (Nd c l a r) = (if c = Black then Suc (bheight l) else bheight l)"

fun invc :: "rbt \<Rightarrow> bool" where
  "invc Lf = True"
| "invc (Nd c l a r) = ((c = Red \<longrightarrow> tcol l = Black \<and> tcol r = Black) \<and> invc l \<and> invc r)"

fun invh :: "rbt \<Rightarrow> bool" where
  "invh Lf = True"
| "invh (Nd c l a r) = (bheight l = bheight r \<and> invh l \<and> invh r)"

definition rb_ok :: "rbt \<Rightarrow> bool" where
  "rb_ok t \<longleftrightarrow> tcol t = Black \<and> invc t \<and> invh t"

fun sib :: "frame \<Rightarrow> rbt" where
  "sib (InL c a r) = r"
| "sib (InR c a l) = l"

fun kcol :: "ctx \<Rightarrow> color" where
  "kcol [] = Black"
| "kcol (f # k) = fcol f"

text \<open>
  \<open>ctx_inv k n\<close>: a subtree of black height \<open>n\<close> fits into the context, up to the colour of
  its root.
\<close>

fun ctx_inv :: "ctx \<Rightarrow> nat \<Rightarrow> bool" where
  "ctx_inv [] n = True"
| "ctx_inv (f # k) n = (invc (sib f) \<and> invh (sib f) \<and> bheight (sib f) = n \<and>
     (fcol f = Red \<longrightarrow> tcol (sib f) = Black \<and> kcol k = Black) \<and>
     ctx_inv k (if fcol f = Black then Suc n else n))"

definition top_black :: "ctx \<Rightarrow> bool" where
  "top_black k \<longleftrightarrow> (k \<noteq> [] \<longrightarrow> fcol (last k) = Black)"

lemma top_black_simps [simp]:
  "top_black []" "top_black (f # k) \<longleftrightarrow> (if k = [] then fcol f = Black else top_black k)"
  by (simp_all add: top_black_def)

lemma tcol_plug: "tcol (plug k t) = (if k = [] then tcol t else fcol (last k))"
proof (induction k arbitrary: t)
  case (Cons f k)
  then show ?case by (cases f) simp_all
qed simp

lemma inv_plug:
  "invc (plug k t) \<and> invh (plug k t) \<longleftrightarrow>
     ctx_inv k (bheight t) \<and> invc t \<and> invh t \<and> (kcol k = Red \<longrightarrow> tcol t = Black)"
proof (induction k arbitrary: t)
  case (Cons f k)
  show ?case
  proof (cases f)
    case (InL c a r)
    then show ?thesis using Cons[of "Nd c t a r"] by auto
  next
    case (InR c a l)
    then show ?thesis using Cons[of "Nd c l a t"] by auto
  qed
qed simp

lemma rb_ok_plug:
  "rb_ok (plug k t) \<longleftrightarrow> ctx_inv k (bheight t) \<and> invc t \<and> invh t \<and> (kcol k = Red \<longrightarrow> tcol t = Black) \<and>
     top_black k \<and> (k = [] \<longrightarrow> tcol t = Black)"
  using inv_plug[of k t] by (auto simp: rb_ok_def tcol_plug top_black_def)

section \<open>The functional repair\<close>

fun ins_fix :: "ctx \<Rightarrow> rbt \<Rightarrow> rbt" where
  "ins_fix (InL Red p r # InL cg g u # k) t =
     (if tcol u = Red then ins_fix k (Nd Red (Nd Black t p r) g (paint Black u))
      else plug k (Nd Black t p (Nd Red r g u)))"
| "ins_fix (InR Red p l # InL cg g u # k) (Nd c t1 n t2) =
     (if tcol u = Red then ins_fix k (Nd Red (Nd Black l p (Nd c t1 n t2)) g (paint Black u))
      else plug k (Nd Black (Nd Red l p t1) n (Nd Red t2 g u)))"
| "ins_fix (InR Red p l # InR cg g u # k) t =
     (if tcol u = Red then ins_fix k (Nd Red (paint Black u) g (Nd Black l p t))
      else plug k (Nd Black (Nd Red u g l) p t))"
| "ins_fix (InL Red p r # InR cg g u # k) (Nd c t1 n t2) =
     (if tcol u = Red then ins_fix k (Nd Red (paint Black u) g (Nd Black (Nd c t1 n t2) p r))
      else plug k (Nd Black (Nd Red u g t1) n (Nd Red t2 p r)))"
| "ins_fix k t = plug k t"

lemma inorder_ins_fix: "inorder (ins_fix k t) = inorder (plug k t)"
  by (induction k t rule: ins_fix.induct) (auto simp: inorder_plug)

lemma invc_paint_Black: "invc t \<Longrightarrow> invc (paint Black t)"
  by (cases t) auto

lemma invh_paint: "invh t \<Longrightarrow> invh (paint c t)"
  by (cases t) auto

lemma bheight_paint_Black: "tcol t = Red \<Longrightarrow> bheight (paint Black t) = Suc (bheight t)"
  by (cases t) auto

lemma tcol_paint: "tcol (paint Black t) = Black"
  by (cases t) auto

lemmas paint_simps = invc_paint_Black invh_paint bheight_paint_Black tcol_paint

lemma top_black_tl: "top_black (f # k) \<Longrightarrow> top_black k"
  by (auto simp: top_black_def)

lemma rb_ok_plug_Black:
  "ctx_inv k n \<Longrightarrow> top_black k \<Longrightarrow> bheight t = n \<Longrightarrow> invc t \<Longrightarrow> invh t \<Longrightarrow> tcol t = Black \<Longrightarrow>
   rb_ok (paint Black (plug k t))"
proof -
  assume *: "ctx_inv k n" "top_black k" "bheight t = n" "invc t" "invh t" "tcol t = Black"
  then have "rb_ok (plug k t)" by (simp add: rb_ok_plug)
  then show ?thesis by (cases "plug k t") (auto simp: rb_ok_def)
qed

lemma rb_ok_paint_plug:
  assumes "ctx_inv k (bheight t)" "invc t" "invh t" "kcol k = Black"
  shows "rb_ok (paint Black (plug k t))"
  using assms inv_plug[of k t] by (auto simp: rb_ok_def paint_simps)

text \<open>The situation at the head of the loop: a red node in a context that fits otherwise.\<close>

definition zip_ok :: "ctx \<Rightarrow> rbt \<Rightarrow> bool" where
  "zip_ok k t \<longleftrightarrow> ctx_inv k (bheight t) \<and> invc t \<and> invh t \<and> tcol t = Red \<and> top_black k"

lemma zip_ok_recolor:
  "zip_ok (InL Red p r # InL cg g u # k) t \<Longrightarrow> tcol u = Red \<Longrightarrow>
    zip_ok k (Nd Red (Nd Black t p r) g (paint Black u))"
  "zip_ok (InR Red p l # InL cg g u # k) t \<Longrightarrow> tcol u = Red \<Longrightarrow>
    zip_ok k (Nd Red (Nd Black l p t) g (paint Black u))"
  "zip_ok (InR Red p l # InR cg g u # k) t \<Longrightarrow> tcol u = Red \<Longrightarrow>
    zip_ok k (Nd Red (paint Black u) g (Nd Black l p t))"
  "zip_ok (InL Red p r # InR cg g u # k) t \<Longrightarrow> tcol u = Red \<Longrightarrow>
    zip_ok k (Nd Red (paint Black u) g (Nd Black t p r))"
  by (auto simp: zip_ok_def paint_simps dest: top_black_tl split: if_splits)

lemma zip_ok_rotate:
  "zip_ok (InL Red p r # InL cg g u # k) t \<Longrightarrow> tcol u = Black \<Longrightarrow>
    rb_ok (paint Black (plug k (Nd Black t p (Nd Red r g u))))"
  "zip_ok (InR Red p l # InL cg g u # k) (Nd c t1 n t2) \<Longrightarrow> tcol u = Black \<Longrightarrow>
    rb_ok (paint Black (plug k (Nd Black (Nd Red l p t1) n (Nd Red t2 g u))))"
  "zip_ok (InR Red p l # InR cg g u # k) t \<Longrightarrow> tcol u = Black \<Longrightarrow>
    rb_ok (paint Black (plug k (Nd Black (Nd Red u g l) p t)))"
  "zip_ok (InL Red p r # InR cg g u # k) (Nd c t1 n t2) \<Longrightarrow> tcol u = Black \<Longrightarrow>
    rb_ok (paint Black (plug k (Nd Black (Nd Red u g t1) n (Nd Red t2 p r))))"
  by (rule rb_ok_plug_Black; auto simp: zip_ok_def dest: top_black_tl split: if_splits)+

lemma ins_fix_ok: "zip_ok k t \<Longrightarrow> rb_ok (paint Black (ins_fix k t))"
proof (induction k t rule: ins_fix.induct)
  case 1
  then show ?case using zip_ok_recolor(1)[OF "1.prems"] zip_ok_rotate(1)[OF "1.prems"] by simp
next
  case 2
  then show ?case using zip_ok_recolor(2)[OF "2.prems"] zip_ok_rotate(2)[OF "2.prems"] by simp
next
  case 3
  then show ?case using zip_ok_recolor(3)[OF "3.prems"] zip_ok_rotate(3)[OF "3.prems"] by simp
next
  case 4
  then show ?case using zip_ok_recolor(4)[OF "4.prems"] zip_ok_rotate(4)[OF "4.prems"] by simp
qed (simp only: ins_fix.simps, rule rb_ok_paint_plug; auto simp: zip_ok_def)+

section \<open>The loop computes the repair\<close>

lemma insert_loop_stop:
  assumes "rb_rep s (plug k (Nd c l a r))" "kcol k = Black"
  shows "rb_insert_loop a s = Some s"
proof -
  obtain n where n: "a \<noteq> NULL" "nodes s a = Some n" "rb_parent n = ctx_par k"
    using assms(1) by (rule rep_node)
  have "is_red_child (ctx_par k) s = Some False"
  proof (cases k)
    case (Cons f k')
    then show ?thesis
      using assms by (cases f) (auto simp: rb_rep_plug is_red_child_def exec node_at_def)
  qed (simp add: is_red_child_def)
  with n show ?thesis by (subst rb_insert_loop.simps) (simp add: exec)
qed

lemma rep_sub:
  assumes "rb_rep s (plug k (Nd c l a r))"
  shows "tree_at (nodes s) a l" "tree_at (nodes s) a r"
  using assms by (simp_all add: rb_rep_plug)

lemma rep_roots_distinct:
  assumes "rb_rep s (plug k (Nd c l a r))"
  shows "r \<noteq> Lf \<Longrightarrow> rootp l \<noteq> rootp r" "l \<noteq> Lf \<Longrightarrow> rootp l \<noteq> rootp r"
proof -
  have *: "rootp l \<noteq> rootp r \<or> (l = Lf \<and> r = Lf)"
    using assms rep_sub[OF assms] by (cases l; cases r) (auto simp: rb_rep_plug node_at_def)
  then show "r \<noteq> Lf \<Longrightarrow> rootp l \<noteq> rootp r" "l \<noteq> Lf \<Longrightarrow> rootp l \<noteq> rootp r" by auto
qed

lemma child_node:
  assumes "tree_at h p t" "t \<noteq> Lf"
  obtains n where "rootp t \<noteq> NULL" "h (rootp t) = Some n" "rb_parent n = p" "col n = tcol t"
  using assms by (cases t) (auto simp: node_at_def)

text \<open>The recolouring step, on either side.\<close>

lemma evolves_paint:
  assumes "rb_rep s (plug k t)" "t \<noteq> Lf"
  shows "runs (rb_set_black (rootp t) s) (evolves s (plug k (paint Black t)))"
  using assms evolves_set_black by (cases t) auto

lemma evolves_recolor_left:
  assumes rep: "rb_rep s (plug k (Nd cg (Nd cp l p r) g u))" and u: "u \<noteq> Lf"
  shows "runs (do { s \<leftarrow> rb_set_black (rootp u) s; s \<leftarrow> rb_set_black p s; rb_set_red g s })
    (evolves s (plug k (Nd Red (Nd Black l p r) g (paint Black u))))"
proof (rule evolves_bind)
  show "runs (rb_set_black (rootp u) s) (evolves s (plug k (Nd cg (Nd cp l p r) g (paint Black u))))"
    using evolves_paint[of s "InR cg g (Nd cp l p r) # k" u] rep u by simp
  fix s1 assume s1: "rb_rep s1 (plug k (Nd cg (Nd cp l p r) g (paint Black u)))"
  show "runs (do { s \<leftarrow> rb_set_black p s1; rb_set_red g s })
    (evolves s1 (plug k (Nd Red (Nd Black l p r) g (paint Black u))))"
  proof (rule evolves_bind)
    show "runs (rb_set_black p s1) (evolves s1 (plug k (Nd cg (Nd Black l p r) g (paint Black u))))"
      using evolves_set_black[of s1 "InL cg g (paint Black u) # k" cp l p r] s1 by simp
    fix s2 assume "rb_rep s2 (plug k (Nd cg (Nd Black l p r) g (paint Black u)))"
    then show "runs (rb_set_red g s2) (evolves s2 (plug k (Nd Red (Nd Black l p r) g (paint Black u))))"
      by (rule evolves_set_red)
  qed (simp add: addrs_plug)
qed (simp add: addrs_plug)


text \<open>One iteration, when the parent is a red left child.\<close>

lemma insert_loop_left:
  assumes rep: "rb_rep s (plug k (Nd cg (Nd Red l p r) g u))"
    and t: "t = l \<or> t = r" "t \<noteq> Lf"
  shows "rb_insert_loop (rootp t) s =
    (if tcol u = Red then do {
       s \<leftarrow> rb_set_black (rootp u) s;
       s \<leftarrow> rb_set_black p s;
       s \<leftarrow> rb_set_red g s;
       rb_insert_loop g s }
     else if t = r then do {
       s \<leftarrow> rb_rotate_left p s;
       s \<leftarrow> rb_set_black (rootp t) s;
       s \<leftarrow> rb_set_red g s;
       s \<leftarrow> rb_rotate_right g s;
       rb_insert_loop p s }
     else do {
       s \<leftarrow> rb_set_black p s;
       s \<leftarrow> rb_set_red g s;
       s \<leftarrow> rb_rotate_right g s;
       rb_insert_loop (rootp t) s })"
proof -
  have repp: "rb_rep s (plug (InL cg g u # k) (Nd Red l p r))" using rep by simp
  obtain ng where g: "g \<noteq> NULL" "nodes s g = Some ng" "rb_left ng = p" "rb_right ng = rootp u"
    using rep by (rule rep_node) simp
  obtain np where p: "p \<noteq> NULL" "nodes s p = Some np" "rb_parent np = g" "col np = Red" "rb_right np = rootp r"
    using repp by (rule rep_node) simp
  obtain n where n: "rootp t \<noteq> NULL" "nodes s (rootp t) = Some n" "rb_parent n = p"
    using t rep_sub[OF repp] by (metis child_node)
  have tr: "rootp r = rootp t \<longleftrightarrow> t = r"
    using rep_roots_distinct[OF repp] t by metis
  show ?thesis
    using g p n tr is_red_child_eq[OF rep_sub(2)[OF rep]]
    by (subst rb_insert_loop.simps) (simp add: exec is_red_child_def Let_def)
qed

lemma insert_loop_right:
  assumes rep: "rb_rep s (plug k (Nd cg u g (Nd Red l p r)))"
    and t: "t = l \<or> t = r" "t \<noteq> Lf"
  shows "rb_insert_loop (rootp t) s =
    (if tcol u = Red then do {
       s \<leftarrow> rb_set_black (rootp u) s;
       s \<leftarrow> rb_set_black p s;
       s \<leftarrow> rb_set_red g s;
       rb_insert_loop g s }
     else if t = l then do {
       s \<leftarrow> rb_rotate_right p s;
       s \<leftarrow> rb_set_black (rootp t) s;
       s \<leftarrow> rb_set_red g s;
       s \<leftarrow> rb_rotate_left g s;
       rb_insert_loop p s }
     else do {
       s \<leftarrow> rb_set_black p s;
       s \<leftarrow> rb_set_red g s;
       s \<leftarrow> rb_rotate_left g s;
       rb_insert_loop (rootp t) s })"
proof -
  have repp: "rb_rep s (plug (InR cg g u # k) (Nd Red l p r))" using rep by simp
  obtain ng where g: "g \<noteq> NULL" "nodes s g = Some ng" "rb_left ng = rootp u" "rb_right ng = p"
    using rep by (rule rep_node) simp
  obtain np where p: "p \<noteq> NULL" "nodes s p = Some np" "rb_parent np = g" "col np = Red" "rb_left np = rootp l"
    using repp by (rule rep_node) simp
  obtain n where n: "rootp t \<noteq> NULL" "nodes s (rootp t) = Some n" "rb_parent n = p"
    using t rep_sub[OF repp] by (metis child_node)
  have tr: "rootp l = rootp t \<longleftrightarrow> t = l" and up: "p \<noteq> rootp u"
    using rep_roots_distinct[OF repp] rep_roots_distinct(1)[OF rep] t by (metis, auto)
  show ?thesis
    using g p n tr up is_red_child_eq[OF rep_sub(1)[OF rep]]
    by (subst rb_insert_loop.simps) (simp add: exec is_red_child_def Let_def)
qed


lemma evolves_recolor_right:
  assumes rep: "rb_rep s (plug k (Nd cg u g (Nd cp l p r)))" and u: "u \<noteq> Lf"
  shows "runs (do { s \<leftarrow> rb_set_black (rootp u) s; s \<leftarrow> rb_set_black p s; rb_set_red g s })
    (evolves s (plug k (Nd Red (paint Black u) g (Nd Black l p r))))"
proof (rule evolves_bind)
  show "runs (rb_set_black (rootp u) s) (evolves s (plug k (Nd cg (paint Black u) g (Nd cp l p r))))"
    using evolves_paint[of s "InL cg g (Nd cp l p r) # k" u] rep u by simp
  fix s1 assume s1: "rb_rep s1 (plug k (Nd cg (paint Black u) g (Nd cp l p r)))"
  show "runs (do { s \<leftarrow> rb_set_black p s1; rb_set_red g s })
    (evolves s1 (plug k (Nd Red (paint Black u) g (Nd Black l p r))))"
  proof (rule evolves_bind)
    show "runs (rb_set_black p s1) (evolves s1 (plug k (Nd cg (paint Black u) g (Nd Black l p r))))"
      using evolves_set_black[of s1 "InR cg g (paint Black u) # k" cp l p r] s1 by simp
    fix s2 assume "rb_rep s2 (plug k (Nd cg (paint Black u) g (Nd Black l p r)))"
    then show "runs (rb_set_red g s2) (evolves s2 (plug k (Nd Red (paint Black u) g (Nd Black l p r))))"
      by (rule evolves_set_red)
  qed (simp add: addrs_plug)
qed (simp add: addrs_plug)

text \<open>The rotations that end the loop.\<close>

lemma evolves_rotate_out_right:
  assumes rep: "rb_rep s (plug k (Nd cg (Nd cp l p r) g u))"
  shows "runs (do { s \<leftarrow> rb_set_black p s; s \<leftarrow> rb_set_red g s; rb_rotate_right g s })
    (evolves s (plug k (Nd Black l p (Nd Red r g u))))"
proof (rule evolves_bind)
  show "runs (rb_set_black p s) (evolves s (plug k (Nd cg (Nd Black l p r) g u)))"
    using evolves_set_black[of s "InL cg g u # k"] rep by simp
  fix s1 assume s1: "rb_rep s1 (plug k (Nd cg (Nd Black l p r) g u))"
  show "runs (do { s \<leftarrow> rb_set_red g s1; rb_rotate_right g s }) (evolves s1 (plug k (Nd Black l p (Nd Red r g u))))"
    by (rule evolves_bind[OF evolves_set_red[OF s1]]) (auto simp: addrs_plug intro: evolves_rotate_right)
qed (auto simp: addrs_plug)

lemma evolves_rotate_out_left:
  assumes rep: "rb_rep s (plug k (Nd cg u g (Nd cp l p r)))"
  shows "runs (do { s \<leftarrow> rb_set_black p s; s \<leftarrow> rb_set_red g s; rb_rotate_left g s })
    (evolves s (plug k (Nd Black (Nd Red u g l) p r)))"
proof (rule evolves_bind)
  show "runs (rb_set_black p s) (evolves s (plug k (Nd cg u g (Nd Black l p r))))"
    using evolves_set_black[of s "InR cg g u # k"] rep by simp
  fix s1 assume s1: "rb_rep s1 (plug k (Nd cg u g (Nd Black l p r)))"
  show "runs (do { s \<leftarrow> rb_set_red g s1; rb_rotate_left g s }) (evolves s1 (plug k (Nd Black (Nd Red u g l) p r)))"
    by (rule evolves_bind[OF evolves_set_red[OF s1]]) (auto simp: addrs_plug intro: evolves_rotate_left)
qed (auto simp: addrs_plug)

lemma evolves_rotate_in_left:
  assumes rep: "rb_rep s (plug k (Nd cg (Nd cp l p (Nd c t1 n t2)) g u))"
  shows "runs (do { s \<leftarrow> rb_rotate_left p s; s \<leftarrow> rb_set_black n s; s \<leftarrow> rb_set_red g s; rb_rotate_right g s })
    (evolves s (plug k (Nd Black (Nd cp l p t1) n (Nd Red t2 g u))))"
proof (rule evolves_bind)
  show "runs (rb_rotate_left p s) (evolves s (plug k (Nd cg (Nd c (Nd cp l p t1) n t2) g u)))"
    using evolves_rotate_left[of s "InL cg g u # k"] rep by simp
qed (auto simp: addrs_plug intro: evolves_rotate_out_right)

lemma evolves_rotate_in_right:
  assumes rep: "rb_rep s (plug k (Nd cg u g (Nd cp (Nd c t1 n t2) p r)))"
  shows "runs (do { s \<leftarrow> rb_rotate_right p s; s \<leftarrow> rb_set_black n s; s \<leftarrow> rb_set_red g s; rb_rotate_left g s })
    (evolves s (plug k (Nd Black (Nd Red u g t1) n (Nd cp t2 p r))))"
proof (rule evolves_bind)
  show "runs (rb_rotate_right p s) (evolves s (plug k (Nd cg u g (Nd c t1 n (Nd cp t2 p r)))))"
    using evolves_rotate_right[of s "InR cg g u # k"] rep by simp
qed (auto simp: addrs_plug intro: evolves_rotate_out_left)

text \<open>After the rotations the loop test fails.\<close>

lemma loop_stop_evolves:
  assumes "rb_rep s (plug k (plug1 f (Nd c l a r)))" "fcol f = Black"
  shows "runs (rb_insert_loop a s) (evolves s (plug k (plug1 f (Nd c l a r))))"
  using insert_loop_stop[of s "f # k" c l a r] assms by (simp add: evolves_refl)

lemma loop_stop_sim:
  assumes "rb_rep s (plug k t)" "tcol t = Red" "kcol k = Black"
  shows "runs (rb_insert_loop (rootp t) s) (evolves s (plug k t))"
  using assms insert_loop_stop by (cases t) (auto simp: evolves_refl)

text \<open>The four ways an iteration goes, with what follows it as a hypothesis.\<close>

lemma iterate_left:
  assumes rep: "rb_rep s (plug k (Nd cg (Nd Red l p r) g u))" and t: "t = l \<or> t = r" "t \<noteq> Lf"
    and u: "tcol u = Red"
    and IH: "\<And>s. rb_rep s (plug k (Nd Red (Nd Black l p r) g (paint Black u))) \<Longrightarrow>
      runs (rb_insert_loop g s) (evolves s T)" and T: "addrs T = addrs (plug k (Nd cg (Nd Red l p r) g u))"
  shows "runs (rb_insert_loop (rootp t) s) (evolves s T)"
proof -
  have "u \<noteq> Lf" using u by auto
  have "runs (Option.bind (do { s \<leftarrow> rb_set_black (rootp u) s; s \<leftarrow> rb_set_black p s; rb_set_red g s })
    (rb_insert_loop g)) (evolves s T)"
    by (rule evolves_bind[OF evolves_recolor_left[OF rep \<open>u \<noteq> Lf\<close>] _ IH]) (simp_all add: T addrs_plug)
  then show ?thesis using u insert_loop_left[OF rep t] by (simp add: Option.bind_assoc)
qed

lemma iterate_right:
  assumes rep: "rb_rep s (plug k (Nd cg u g (Nd Red l p r)))" and t: "t = l \<or> t = r" "t \<noteq> Lf"
    and u: "tcol u = Red"
    and IH: "\<And>s. rb_rep s (plug k (Nd Red (paint Black u) g (Nd Black l p r))) \<Longrightarrow>
      runs (rb_insert_loop g s) (evolves s T)" and T: "addrs T = addrs (plug k (Nd cg u g (Nd Red l p r)))"
  shows "runs (rb_insert_loop (rootp t) s) (evolves s T)"
proof -
  have "u \<noteq> Lf" using u by auto
  have "runs (Option.bind (do { s \<leftarrow> rb_set_black (rootp u) s; s \<leftarrow> rb_set_black p s; rb_set_red g s })
    (rb_insert_loop g)) (evolves s T)"
    by (rule evolves_bind[OF evolves_recolor_right[OF rep \<open>u \<noteq> Lf\<close>] _ IH]) (simp_all add: T addrs_plug)
  then show ?thesis using u insert_loop_right[OF rep t] by (simp add: Option.bind_assoc)
qed

lemma finish_left_outer:
  assumes rep: "rb_rep s (plug k (Nd cg (Nd Red t p r) g u))" and t: "t \<noteq> Lf" and u: "tcol u = Black"
  shows "runs (rb_insert_loop (rootp t) s) (evolves s (plug k (Nd Black t p (Nd Red r g u))))"
proof -
  have tr: "t \<noteq> r" using rep_roots_distinct(2)[of s "InL cg g u # k" Red t p r] rep t by auto
  obtain c t1 n t2 where nd: "t = Nd c t1 n t2" using t by (cases t) auto
  have "runs (Option.bind (do { s \<leftarrow> rb_set_black p s; s \<leftarrow> rb_set_red g s; rb_rotate_right g s })
    (rb_insert_loop n)) (evolves s (plug k (Nd Black t p (Nd Red r g u))))"
    by (rule evolves_bind[OF evolves_rotate_out_right[OF rep]])
      (use loop_stop_evolves[of _ k "InL Black p (Nd Red r g u)"] nd in simp_all)
  then show ?thesis using u insert_loop_left[OF rep, of t] tr nd by (simp add: Option.bind_assoc)
qed

lemma finish_right_outer:
  assumes rep: "rb_rep s (plug k (Nd cg u g (Nd Red l p t)))" and t: "t \<noteq> Lf" and u: "tcol u = Black"
  shows "runs (rb_insert_loop (rootp t) s) (evolves s (plug k (Nd Black (Nd Red u g l) p t)))"
proof -
  have tr: "t \<noteq> l" using rep_roots_distinct(1)[of s "InR cg g u # k" Red l p t] rep t by auto
  obtain c t1 n t2 where nd: "t = Nd c t1 n t2" using t by (cases t) auto
  have "runs (Option.bind (do { s \<leftarrow> rb_set_black p s; s \<leftarrow> rb_set_red g s; rb_rotate_left g s })
    (rb_insert_loop n)) (evolves s (plug k (Nd Black (Nd Red u g l) p t)))"
    by (rule evolves_bind[OF evolves_rotate_out_left[OF rep]])
      (use loop_stop_evolves[of _ k "InR Black p (Nd Red u g l)"] nd in simp_all)
  then show ?thesis using u insert_loop_right[OF rep, of t] tr nd by (simp add: Option.bind_assoc)
qed

lemma finish_left_inner:
  assumes rep: "rb_rep s (plug k (Nd cg (Nd Red l p (Nd c t1 n t2)) g u))" and u: "tcol u = Black"
  shows "runs (rb_insert_loop n s) (evolves s (plug k (Nd Black (Nd Red l p t1) n (Nd Red t2 g u))))"
proof -
  have "runs (Option.bind (do { s \<leftarrow> rb_rotate_left p s; s \<leftarrow> rb_set_black n s; s \<leftarrow> rb_set_red g s; rb_rotate_right g s })
    (rb_insert_loop p)) (evolves s (plug k (Nd Black (Nd Red l p t1) n (Nd Red t2 g u))))"
    by (rule evolves_bind[OF evolves_rotate_in_left[OF rep]])
      (use loop_stop_evolves[of _ k "InL Black n (Nd Red t2 g u)"] in simp_all)
  then show ?thesis using u insert_loop_left[OF rep, of "Nd c t1 n t2"] by (simp add: Option.bind_assoc)
qed

lemma finish_right_inner:
  assumes rep: "rb_rep s (plug k (Nd cg u g (Nd Red (Nd c t1 n t2) p r)))" and u: "tcol u = Black"
  shows "runs (rb_insert_loop n s) (evolves s (plug k (Nd Black (Nd Red u g t1) n (Nd Red t2 p r))))"
proof -
  have "runs (Option.bind (do { s \<leftarrow> rb_rotate_right p s; s \<leftarrow> rb_set_black n s; s \<leftarrow> rb_set_red g s; rb_rotate_left g s })
    (rb_insert_loop p)) (evolves s (plug k (Nd Black (Nd Red u g t1) n (Nd Red t2 p r))))"
    by (rule evolves_bind[OF evolves_rotate_in_right[OF rep]])
      (use loop_stop_evolves[of _ k "InR Black n (Nd Red u g t1)"] in simp_all)
  then show ?thesis using u insert_loop_right[OF rep, of "Nd c t1 n t2"] by (simp add: Option.bind_assoc)
qed

lemma insert_loop_sim:
  assumes "rb_rep s (plug k t)" "tcol t = Red" "top_black k"
  shows "runs (rb_insert_loop (rootp t) s) (evolves s (ins_fix k t))"
  using assms
proof (induction k t arbitrary: s rule: ins_fix.induct)
  case (1 p r cg g u k t)
  have rep: "rb_rep s (plug k (Nd cg (Nd Red t p r) g u))" and t: "t \<noteq> Lf" using "1.prems" by auto
  have k: "top_black k" using "1.prems"(3) by (simp split: if_splits)
  show ?case
  proof (cases "tcol u = Red")
    case True
    show ?thesis
      by (rule iterate_left[OF rep _ t True]) (use "1.IH"[OF True] k True in \<open>auto simp: inorder_ins_fix addrs_plug\<close>)
  qed (use finish_left_outer[OF rep t] in simp)
next
  case (2 p l cg g u k c t1 n t2)
  have rep: "rb_rep s (plug k (Nd cg (Nd Red l p (Nd c t1 n t2)) g u))" using "2.prems" by auto
  have k: "top_black k" using "2.prems"(3) by (simp split: if_splits)
  show ?case
  proof (cases "tcol u = Red")
    case True
    show ?thesis
      by (rule iterate_left[OF rep _ _ True]) (use "2.IH"[OF True] k True in \<open>auto simp: inorder_ins_fix addrs_plug\<close>)
  qed (use finish_left_inner[OF rep] in simp)
next
  case (3 p l cg g u k t)
  have rep: "rb_rep s (plug k (Nd cg u g (Nd Red l p t)))" and t: "t \<noteq> Lf" using "3.prems" by auto
  have k: "top_black k" using "3.prems"(3) by (simp split: if_splits)
  show ?case
  proof (cases "tcol u = Red")
    case True
    show ?thesis
      by (rule iterate_right[OF rep _ t True]) (use "3.IH"[OF True] k True in \<open>auto simp: inorder_ins_fix addrs_plug\<close>)
  qed (use finish_right_outer[OF rep t] in simp)
next
  case (4 p r cg g u k c t1 n t2)
  have rep: "rb_rep s (plug k (Nd cg u g (Nd Red (Nd c t1 n t2) p r)))" using "4.prems" by auto
  have k: "top_black k" using "4.prems"(3) by (simp split: if_splits)
  show ?case
  proof (cases "tcol u = Red")
    case True
    show ?thesis
      by (rule iterate_right[OF rep _ _ True]) (use "4.IH"[OF True] k True in \<open>auto simp: inorder_ins_fix addrs_plug\<close>)
  qed (use finish_right_inner[OF rep] in simp)
qed (simp only: ins_fix.simps, rule loop_stop_sim; auto)+

section \<open>Linking a node and repairing the colours\<close>

text \<open>The address of the pointer that a context holds.\<close>

fun ctx_link :: "ctx \<Rightarrow> rb_link" where
  "ctx_link [] = RootLink"
| "ctx_link (InL c a r # k) = LeftLink a"
| "ctx_link (InR c a l # k) = RightLink a"

lemma runs_store_link:
  assumes "ctx_at (nodes s) k x" "distinct (before k @ after k)" "root s = ctx_root k x"
  shows "runs (store_link (ctx_link k) b s) (redirects k b s)"
proof (cases k rule: ctx_link.cases)
  case 1
  then show ?thesis by (simp add: store_link_def redirects_def)
next
  case (2 c p r k')
  then show ?thesis using assms
    by (auto simp: store_link_def exec redirects_def frame_upd ctx_addrs_def elim!: node_atE)
      (auto simp: node_at_def)
next
  case (3 c p l k')
  then show ?thesis using assms
    by (auto simp: store_link_def exec redirects_def frame_upd ctx_addrs_def elim!: node_atE)
      (auto simp: node_at_def)
qed

lemma link_node_evolves:
  assumes rep: "rb_rep s (plug k Lf)"
    and a: "a \<noteq> NULL" "aligned a" "a \<notin> addrs (plug k Lf)" "a \<in> dom (nodes s)"
  shows "runs (rb_link_node a (ctx_par k) (ctx_link k) s) (evolves s (plug k (Nd Red Lf a Lf)))"
proof -
  from a(4) obtain n where n: "nodes s a = Some n" by auto
  have ak: "a \<notin> ctx_addrs k" using a(3) by (simp add: addrs_plug)
  let ?n = "n\<lparr>rb_parent_color := ctx_par k, rb_right := NULL, rb_left := NULL\<rparr>"
  let ?s = "s\<lparr>nodes := (nodes s)(a \<mapsto> ?n)\<rparr>"
  have ctx: "ctx_at (nodes s) k NULL" "distinct (before k @ after k)" "root s = ctx_root k NULL"
    using rep by (simp_all add: rb_rep_plug)
  have al: "aligned (ctx_par k)" using ctx(1) by (rule ctx_par_aligned)
  have 1: "runs (store_link (ctx_link k) a ?s) (redirects k a ?s)"
    by (rule runs_store_link[where x = NULL]) (use ctx ak in \<open>simp_all add: ctx_at_upd\<close>)
  have 2: "evolves s (plug k (Nd Red Lf a Lf)) s'" if "redirects k a ?s s'" for s'
  proof -
    have "nodes s' a = Some ?n" using that ak by (simp add: redirects_def)
    then have "node_at (nodes s') a (ctx_par k) Red NULL NULL" using a al by (simp add: node_at_def)
    then show ?thesis
      using that ctx(2) ak by (auto simp: evolves_def rb_rep_plug redirects_def addrs_plug ctx_addrs_def)
  qed
  have "rb_link_node a (ctx_par k) (ctx_link k) s = store_link (ctx_link k) a ?s"
    using n a(1) by (simp add: rb_link_node_def exec)
  with runs_mono[OF 1 2] show ?thesis by simp
qed

lemma rb_set_black_root:
  assumes "rb_rep s t" "t \<noteq> Lf"
  shows "runs (rb_set_black (root s) s) (evolves s (paint Black t))"
  using evolves_paint[of s "[]" t] assms by (simp add: rb_rep_def)

lemma ins_fix_not_Lf: "t \<noteq> Lf \<Longrightarrow> ins_fix k t \<noteq> Lf"
  using inorder_ins_fix[of k t] by (cases t) (auto simp: inorder_plug)

lemma insert_color_evolves:
  assumes "rb_rep s (plug k t)" "zip_ok k t"
  shows "runs (rb_insert_color (rootp t) s) (evolves s (paint Black (ins_fix k t)))"
proof -
  have t: "tcol t = Red" "t \<noteq> Lf" "top_black k" using assms(2) by (auto simp: zip_ok_def)
  show ?thesis unfolding rb_insert_color_def
    by (rule evolves_bind[OF insert_loop_sim[OF assms(1) t(1,3)]])
      (use rb_set_black_root ins_fix_not_Lf t in auto)
qed

lemma zip_ok_leaf: "rb_ok (plug k Lf) \<Longrightarrow> zip_ok k (Nd Red Lf a Lf)"
  by (simp add: zip_ok_def rb_ok_plug)

theorem link_insert_color:
  assumes "rb_rep s (plug k Lf)" "rb_ok (plug k Lf)"
    and "a \<noteq> NULL" "aligned a" "a \<notin> addrs (plug k Lf)" "a \<in> dom (nodes s)"
  shows "runs (do { s \<leftarrow> rb_link_node a (ctx_par k) (ctx_link k) s; rb_insert_color a s })
    (\<lambda>s'. \<exists>t. rb_ok t \<and> inorder t = before k @ a # after k \<and> evolves s t s')"
proof -
  let ?t = "paint Black (ins_fix k (Nd Red Lf a Lf))"
  have io: "inorder ?t = before k @ a # after k" by (simp add: inorder_ins_fix inorder_plug)
  have "runs (do { s \<leftarrow> rb_link_node a (ctx_par k) (ctx_link k) s; rb_insert_color a s }) (evolves s ?t)"
  proof (rule evolves_bind[OF link_node_evolves])
    show "addrs ?t = addrs (plug k (Nd Red Lf a Lf))" by (simp add: inorder_ins_fix)
    fix s' assume "rb_rep s' (plug k (Nd Red Lf a Lf))"
    from insert_color_evolves[OF this zip_ok_leaf[OF assms(2)]]
    show "runs (rb_insert_color a s') (evolves s' ?t)" by simp
  qed (use assms in auto)
  then show ?thesis
    by (rule runs_mono) (use io ins_fix_ok[OF zip_ok_leaf[OF assms(2)]] in blast)
qed

end
