(* ===== verification/RbErase.thy ===== *)
theory RbErase
  imports RbInsert
begin

text \<open>
  Correctness of \<^verbatim>\<open>rb_erase\<close>. As for insertion, the loop of \<^verbatim>\<open>__rb_erase_color\<close> is shown to
  compute a functional repair \<open>del_fix\<close> on the zipper of the place that lost a black node;
  the repair keeps the order of the nodes and restores the red-black invariant. The two ways
  of unlinking a node are then shown to remove it from the represented tree.
\<close>

section \<open>The functional repair\<close>

text \<open>One iteration: the repair either moves up to the parent or ends with a rotation.\<close>

datatype step = Up rbt | Done rbt

fun sib_step :: "frame \<Rightarrow> rbt \<Rightarrow> step" where
  "sib_step (InL c p (Nd cw a w b)) t =
     (if tcol a = Black \<and> tcol b = Black then Up (Nd c t p (Nd Red a w b))
      else if tcol b = Black then Done (case a of Lf \<Rightarrow> Lf
        | Nd ca a1 x a2 \<Rightarrow> Nd c (Nd Black t p a1) x (Nd Black a2 w b))
      else Done (Nd c (Nd Black t p a) w (paint Black b)))"
| "sib_step (InR c p (Nd cw a w b)) t =
     (if tcol a = Black \<and> tcol b = Black then Up (Nd c (Nd Red a w b) p t)
      else if tcol a = Black then Done (case b of Lf \<Rightarrow> Lf
        | Nd cb b1 x b2 \<Rightarrow> Nd c (Nd Black a w b1) x (Nd Black b2 p t))
      else Done (Nd c (paint Black a) w (Nd Black b p t)))"
| "sib_step f t = Done Lf"

text \<open>A red sibling is rotated above the parent first, which exposes a black sibling.\<close>

fun expose :: "frame \<Rightarrow> ctx" where
  "expose (InL c p (Nd Red w q b)) = [InL Red p w, InL Black q b]"
| "expose (InR c p (Nd Red b q w)) = [InR Red p w, InR Black q b]"
| "expose f = [f]"

fun del_fix :: "ctx \<Rightarrow> rbt \<Rightarrow> rbt" where
  "del_fix [] t = paint Black t"
| "del_fix (f # k) t =
     (if tcol t = Red then plug (f # k) (paint Black t)
      else let k' = tl (expose f) @ k in
        case sib_step (hd (expose f)) t of
          Up u \<Rightarrow> if tcol u = Red then plug k' (paint Black u) else del_fix k u
        | Done u \<Rightarrow> paint Black (plug k' u))"

text \<open>The situation at the head of the loop: the place holds a tree that lacks one black node.\<close>

definition short_ok :: "ctx \<Rightarrow> rbt \<Rightarrow> bool" where
  "short_ok k t \<longleftrightarrow> ctx_inv k (Suc (bheight t)) \<and> invc (paint Black t) \<and> invh t \<and> top_black k"

lemma bheight_pos: "bheight t = Suc n \<Longrightarrow> tcol t = Black \<Longrightarrow> \<exists>l a r. t = Nd Black l a r"
  by (cases t) auto

lemma paint_Black_id: "tcol t = Black \<Longrightarrow> paint Black t = t"
  by (cases t) auto

lemma rb_ok_plug_paint:
  assumes "short_ok k t" "tcol t = Red \<or> k = []"
  shows "rb_ok (plug k (paint Black t))"
  using assms by (auto simp: short_ok_def rb_ok_plug paint_simps)

text \<open>The sibling of a short place is a node, and after \<open>expose\<close> it is a black one.\<close>

lemma short_expose:
  assumes "short_ok (f # k) t" "tcol t = Black"
  obtains g k0 a w b where "expose f = g # k0" "sib g = Nd Black a w b" "short_ok (g # k0 @ k) t"
    "k0 \<noteq> [] \<Longrightarrow> fcol g = Red"
proof (cases f rule: expose.cases)
  case (1 c p w q b)
  with assms have "tcol w = Black" "bheight w = Suc (bheight t)" by (auto simp: short_ok_def split: if_splits)
  then obtain l a r where "w = Nd Black l a r" using bheight_pos by blast
  with 1 assms show thesis by (intro that[of "InL Red p w" "[InL Black q b]"]) (auto simp: short_ok_def split: if_splits)
next
  case (2 c p b q w)
  with assms have "tcol w = Black" "bheight w = Suc (bheight t)" by (auto simp: short_ok_def split: if_splits)
  then obtain l a r where "w = Nd Black l a r" using bheight_pos by blast
  with 2 assms show thesis by (intro that[of "InR Red p w" "[InR Black q b]"]) (auto simp: short_ok_def split: if_splits)
qed (use assms that[of f "[]"] in \<open>auto simp: short_ok_def\<close>)

lemma inorder_expose: "inorder (plug (expose f @ k) t) = inorder (plug (f # k) t)"
  by (cases f rule: expose.cases) (auto simp: inorder_plug)

text \<open>What one iteration keeps.\<close>

lemma sib_step_Up:
  assumes "short_ok (g # k) t" "tcol t = Black" "sib g = Nd Black a w b" "sib_step g t = Up u"
  shows "short_ok k u" "inorder (plug k u) = inorder (plug (g # k) t)" "tcol u = fcol g"
proof -
  obtain c p where g: "g = InL c p (Nd Black a w b) \<and> u = Nd c t p (Nd Red a w b) \<or>
      g = InR c p (Nd Black a w b) \<and> u = Nd c (Nd Red a w b) p t" and ab: "tcol a = Black" "tcol b = Black"
    using assms(3,4) by (cases "(g, t)" rule: sib_step.cases) (auto split: if_splits)
  have k: "top_black k" using assms(1) by (simp add: short_ok_def split: if_splits)
  show "short_ok k u" using g ab assms(1,2) k
    by (elim disjE) (auto simp: short_ok_def paint_Black_id simp del: top_black_simps split: if_splits)
  show "inorder (plug k u) = inorder (plug (g # k) t)" "tcol u = fcol g"
    using g by (auto simp: inorder_plug)
qed

text \<open>The tree that ends the repair fits where the parent was.\<close>

lemma sib_step_Done:
  assumes "short_ok (g # k) t" "tcol t = Black" "sib g = Nd Black a w b" "sib_step g t = Done u"
  shows "bheight u = (if fcol g = Black then Suc (Suc (bheight t)) else Suc (bheight t))"
    "invc u" "invh u" "tcol u = fcol g" "inorder u = inorder (plug1 g t)"
proof -
  obtain c p where g: "g = InL c p (Nd Black a w b) \<or> g = InR c p (Nd Black a w b)"
    using assms(3) by (cases g) auto
  have I: "invc t" "invh t" "invc a" "invh a" "invc b" "invh b" "bheight a = bheight t" "bheight b = bheight t"
    using assms(1,2) g by (auto simp: short_ok_def paint_Black_id)
  show "bheight u = (if fcol g = Black then Suc (Suc (bheight t)) else Suc (bheight t))"
    "invc u" "invh u" "tcol u = fcol g" "inorder u = inorder (plug1 g t)"
    using I assms(2,4) g by (cases a; cases b; auto simp: paint_simps split: if_splits)+
qed

lemma sib_step_Done_ok:
  assumes "short_ok (g # k) t" "tcol t = Black" "sib g = Nd Black a w b" "sib_step g t = Done u"
  shows "rb_ok (plug k u)" "inorder (plug k u) = inorder (plug (g # k) t)"
proof -
  show "inorder (plug k u) = inorder (plug (g # k) t)"
    using sib_step_Done(5)[OF assms] by (simp add: inorder_plug)
  show "rb_ok (plug k u)"
    using sib_step_Done(1-4)[OF assms] assms(1) by (auto simp: rb_ok_plug short_ok_def split: if_splits)
qed

lemma inorder_del_fix: "short_ok k t \<Longrightarrow> inorder (del_fix k t) = inorder (plug k t)"
proof (induction k arbitrary: t)
  case (Cons f k)
  show ?case
  proof (cases "tcol t = Black")
    case True
    obtain g k0 a w b where g: "expose f = g # k0" "sib g = Nd Black a w b" "short_ok (g # k0 @ k) t"
      "k0 \<noteq> [] \<Longrightarrow> fcol g = Red"
      using short_expose[OF Cons.prems True] by metis
    have io: "inorder (plug (g # k0 @ k) t) = inorder (plug (f # k) t)"
      using inorder_expose[of f k t] g(1) by simp
    show ?thesis
    proof (cases "sib_step g t")
      case (Up u)
      note U = sib_step_Up[OF g(3) True g(2) Up]
      have "k0 = []" if "tcol u = Black" using g(4) U(3) that by auto
      then show ?thesis using True g(1) Up U io Cons.IH[of u] by (auto simp: inorder_plug)
    next
      case (Done u)
      then show ?thesis using True g(1) sib_step_Done_ok(2)[OF g(3) True g(2) Done] io by simp
    qed
  qed (cases f; simp add: inorder_plug)
qed simp

lemma del_fix_ok: "short_ok k t \<Longrightarrow> rb_ok (del_fix k t)"
proof (induction k arbitrary: t)
  case Nil
  then show ?case using rb_ok_plug_paint[of "[]" t] by simp
next
  case (Cons f k)
  show ?case
  proof (cases "tcol t = Black")
    case True
    obtain g k0 a w b where g: "expose f = g # k0" "sib g = Nd Black a w b" "short_ok (g # k0 @ k) t"
      "k0 \<noteq> [] \<Longrightarrow> fcol g = Red"
      using short_expose[OF Cons.prems True] by metis
    show ?thesis
    proof (cases "sib_step g t")
      case (Up u)
      note U = sib_step_Up[OF g(3) True g(2) Up]
      have "k0 = []" if "tcol u = Black" using g(4) U(3) that by auto
      then show ?thesis
        using True g(1) Up U rb_ok_plug_paint[OF U(1)] Cons.IH[of u] by auto
    next
      case (Done u)
      note D = sib_step_Done_ok(1)[OF g(3) True g(2) Done]
      then have "paint Black (plug (k0 @ k) u) = plug (k0 @ k) u" by (simp add: rb_ok_def paint_Black_id)
      with D show ?thesis using True g(1) Done by simp
    qed
  qed (use Cons.prems rb_ok_plug_paint[of "f # k" t] in simp)
qed

section \<open>The blocks of an iteration\<close>

text \<open>A red sibling is rotated above the parent.\<close>

lemma evolves_expose_left:
  assumes rep: "rb_rep s (plug k (Nd c t p (Nd co w q b)))"
  shows "runs (do { s \<leftarrow> rb_set_black q s; s \<leftarrow> rb_set_red p s; rb_rotate_left p s })
    (evolves s (plug k (Nd Black (Nd Red t p w) q b)))"
proof (rule evolves_bind)
  show "runs (rb_set_black q s) (evolves s (plug k (Nd c t p (Nd Black w q b))))"
    using evolves_set_black[of s "InR c p t # k"] rep by simp
  fix s1 assume s1: "rb_rep s1 (plug k (Nd c t p (Nd Black w q b)))"
  show "runs (do { s \<leftarrow> rb_set_red p s1; rb_rotate_left p s })
    (evolves s1 (plug k (Nd Black (Nd Red t p w) q b)))"
    by (rule evolves_bind[OF evolves_set_red[OF s1]]) (auto simp: addrs_plug intro: evolves_rotate_left)
qed (auto simp: addrs_plug)

lemma recolor_left_expose:
  assumes rep: "rb_rep s (plug k (Nd c t p x))" and x: "x \<noteq> Lf"
  shows "runs (rb_erase_recolor_left p s) (\<lambda>(w, s').
    w = rootp (sib (hd (expose (InL c p x)))) \<and> evolves s (plug (expose (InL c p x) @ k) t) s')"
proof -
  obtain co w q b where X: "x = Nd co w q b" using x by (cases x) auto
  obtain np where p: "p \<noteq> NULL" "nodes s p = Some np" "rb_right np = q"
    using rep by (rule rep_node) (simp add: X)
  have repq: "rb_rep s (plug (InR c p t # k) (Nd co w q b))" using rep X by simp
  obtain nq where q: "q \<noteq> NULL" "nodes s q = Some nq" "col nq = co"
    using repq by (rule rep_node)
  show ?thesis
  proof (cases co)
    case Red
    let ?m = "do { s \<leftarrow> rb_set_black q s; s \<leftarrow> rb_set_red p s; rb_rotate_left p s }"
    let ?f = "\<lambda>s. do { p \<leftarrow> deref s p; Some (rb_right p, s) }"
    let ?Q = "\<lambda>(w', s'). w' = rootp w \<and> evolves s (plug k (Nd Black (Nd Red t p w) q b)) s'"
    have "runs (?f s') ?Q" if s': "evolves s (plug k (Nd Black (Nd Red t p w) q b)) s'" for s'
    proof -
      have "rb_rep s' (plug (InL Black q b # k) (Nd Red t p w))" using evolves_rep[OF s'] by simp
      then obtain n where "p \<noteq> NULL" "nodes s' p = Some n" "rb_right n = rootp w" by (rule rep_node)
      then show ?thesis using s' by (simp add: exec)
    qed
    then have "runs (Option.bind ?m ?f) ?Q"
      by (rule runs_bindI[OF evolves_expose_left[OF rep[unfolded X]]])
    then show ?thesis using p q Red X by (simp add: rb_erase_recolor_left_def exec Option.bind_assoc)
  next
    case Black
    then show ?thesis using p q X rep by (simp add: rb_erase_recolor_left_def exec evolves_refl)
  qed
qed

text \<open>The rotations that end the loop: the first makes the outer nephew red.\<close>

lemma evolves_inner:
  assumes rep: "rb_rep s (plug k (Nd c t p (Nd cw (Nd ca a1 x a2) w b)))"
  shows "runs (do { s \<leftarrow> rb_set_black x s; s \<leftarrow> rb_set_red w s; rb_rotate_right w s })
    (evolves s (plug k (Nd c t p (Nd Black a1 x (Nd Red a2 w b)))))"
proof (rule evolves_bind)
  show "runs (rb_set_black x s) (evolves s (plug k (Nd c t p (Nd cw (Nd Black a1 x a2) w b))))"
    using evolves_set_black[of s "InL cw w b # InR c p t # k"] rep by simp
  fix s1 assume s1: "rb_rep s1 (plug k (Nd c t p (Nd cw (Nd Black a1 x a2) w b)))"
  show "runs (do { s \<leftarrow> rb_set_red w s1; rb_rotate_right w s })
    (evolves s1 (plug k (Nd c t p (Nd Black a1 x (Nd Red a2 w b)))))"
  proof (rule evolves_bind)
    show "runs (rb_set_red w s1) (evolves s1 (plug k (Nd c t p (Nd Red (Nd Black a1 x a2) w b))))"
      using evolves_set_red[of s1 "InR c p t # k"] s1 by simp
    show "runs (rb_rotate_right w s2) (evolves s2 (plug k (Nd c t p (Nd Black a1 x (Nd Red a2 w b)))))"
      if "rb_rep s2 (plug k (Nd c t p (Nd Red (Nd Black a1 x a2) w b)))" for s2
      using evolves_rotate_right[of s2 "InR c p t # k" Red] that by simp
  qed (auto simp: addrs_plug)
qed (auto simp: addrs_plug)

definition outer_rotation :: "ptr \<Rightarrow> ptr \<Rightarrow> rb_mem \<Rightarrow> rb_mem option" where
  "outer_rotation parent other s = do {
     p \<leftarrow> deref s parent;
     s \<leftarrow> rb_set_color other (rb_color p) s;
     s \<leftarrow> rb_set_black parent s;
     o' \<leftarrow> deref s other;
     s \<leftarrow> rb_set_black (rb_right o') s;
     rb_rotate_left parent s }"

lemma evolves_set_color:
  assumes "rb_rep s (plug k (Nd c l a r))"
  shows "runs (rb_set_color a (rb_color m) s) (evolves s (plug k (Nd (col m) l a r)))"
  by (rule recolor[OF assms]) simp

lemma evolves_outer:
  assumes rep: "rb_rep s (plug k (Nd c t p (Nd cw a w b)))" and b: "b \<noteq> Lf"
  shows "runs (outer_rotation p w s) (evolves s (plug k (Nd c (Nd Black t p a) w (paint Black b))))"
proof -
  obtain np where p: "p \<noteq> NULL" "nodes s p = Some np" "col np = c" using rep by (rule rep_node) simp
  let ?T = "plug k (Nd c (Nd Black t p a) w (paint Black b))"
  have 1: "runs (rb_set_color w (rb_color np) s) (evolves s (plug k (Nd c t p (Nd c a w b))))"
    using evolves_set_color[of s "InR c p t # k" cw a w b np] rep p by simp
  have 2: "runs (do { s \<leftarrow> rb_set_black p s1; o' \<leftarrow> deref s w; s \<leftarrow> rb_set_black (rb_right o') s; rb_rotate_left p s })
    (evolves s1 ?T)" if s1: "rb_rep s1 (plug k (Nd c t p (Nd c a w b)))" for s1
  proof (rule evolves_bind[OF evolves_set_black[OF s1]])
    fix s2 assume s2: "rb_rep s2 (plug k (Nd Black t p (Nd c a w b)))"
    have repw: "rb_rep s2 (plug (InR Black p t # k) (Nd c a w b))" using s2 by simp
    obtain nw where w: "w \<noteq> NULL" "nodes s2 w = Some nw" "rb_right nw = rootp b"
      using repw by (rule rep_node)
    have "runs (do { s \<leftarrow> rb_set_black (rootp b) s2; rb_rotate_left p s }) (evolves s2 ?T)"
    proof (rule evolves_bind)
      show "runs (rb_set_black (rootp b) s2) (evolves s2 (plug k (Nd Black t p (Nd c a w (paint Black b)))))"
        using evolves_paint[of s2 "InR c w a # InR Black p t # k"] s2 b by simp
    qed (auto simp: addrs_plug intro: evolves_rotate_left)
    then show "runs (do { o' \<leftarrow> deref s2 w; s \<leftarrow> rb_set_black (rb_right o') s2; rb_rotate_left p s }) (evolves s2 ?T)"
      using w by (simp add: exec)
  qed (simp add: addrs_plug)
  have "runs (Option.bind (rb_set_color w (rb_color np) s) (\<lambda>s1. do { s \<leftarrow> rb_set_black p s1; o' \<leftarrow> deref s w;
      s \<leftarrow> rb_set_black (rb_right o') s; rb_rotate_left p s })) (evolves s ?T)"
    by (rule evolves_bind[OF 1 _ 2]) (auto simp: addrs_plug)
  then show ?thesis using p by (simp add: outer_rotation_def exec)
qed

lemma rotate_left_sim:
  assumes rep: "rb_rep s (plug k (Nd c t p (Nd cw a w b)))" and u: "sib_step (InL c p (Nd cw a w b)) t = Done u"
  shows "runs (rb_erase_rotate_left p w s) (evolves s (plug k u))"
proof -
  have repw: "rb_rep s (plug (InR c p t # k) (Nd cw a w b))" using rep by simp
  obtain nw where w: "w \<noteq> NULL" "nodes s w = Some nw" "rb_left nw = rootp a" "rb_right nw = rootp b"
    using repw by (rule rep_node) simp
  note bb = is_black_child_eq[OF rep_sub(2)[OF repw]]
  show ?thesis
  proof (cases "tcol b = Black")
    case True
    with u have "tcol a = Red" by (auto split: if_splits)
    then obtain ca a1 x a2 where a: "a = Nd ca a1 x a2" by (cases a) auto
    with u True \<open>tcol a = Red\<close> have U: "u = Nd c (Nd Black t p a1) x (Nd Black a2 w b)" by (auto split: if_splits)
    have "runs (do { p' \<leftarrow> deref s1 p; outer_rotation p (rb_right p') s1 }) (evolves s1 (plug k u))"
      if s1: "rb_rep s1 (plug k (Nd c t p (Nd Black a1 x (Nd Red a2 w b))))" for s1
    proof -
      obtain np where "p \<noteq> NULL" "nodes s1 p = Some np" "rb_right np = x" using s1 by (rule rep_node) simp
      with evolves_outer[OF s1] U show ?thesis by (simp add: exec)
    qed
    from evolves_bind[OF evolves_inner[OF rep[unfolded a]] _ this]
    show ?thesis using w bb True a U by (simp add: rb_erase_rotate_left_def outer_rotation_def exec Option.bind_assoc addrs_plug Un_ac)
  next
    case False
    then have "b \<noteq> Lf" by auto
    with False u have "u = Nd c (Nd Black t p a) w (paint Black b)" by (auto split: if_splits)
    with evolves_outer[OF rep \<open>b \<noteq> Lf\<close>] show ?thesis
      using w bb False by (simp add: rb_erase_rotate_left_def outer_rotation_def exec)
  qed
qed


text \<open>The mirrored blocks.\<close>

fun mirs :: "step \<Rightarrow> step" where
  "mirs (Up u) = Up (mirror u)"
| "mirs (Done u) = Done (mirror u)"

lemma mirror_misc [simp]:
  "tcol (mirror t) = tcol t" "paint c (mirror t) = mirror (paint c t)" "mirror t = Lf \<longleftrightarrow> t = Lf"
  "sib (mirf f) = mirror (sib f)" "expose (mirf f) = map mirf (expose f)" "mirf (mirf f) = f"
proof -
  show "tcol (mirror t) = tcol t" "paint c (mirror t) = mirror (paint c t)" "mirror t = Lf \<longleftrightarrow> t = Lf"
    by (cases t; simp)+
  show "sib (mirf f) = mirror (sib f)" "mirf (mirf f) = f" by (cases f; simp)+
  show "expose (mirf f) = map mirf (expose f)" by (cases f rule: expose.cases) simp_all
qed

lemma sib_step_mirror: "sib_step (mirf f) (mirror t) = mirs (sib_step f t)"
  by (cases "(f, t)" rule: sib_step.cases) (auto split: rbt.splits)

lemma hd_expose: "hd (map mirf (expose f)) = mirf (hd (expose f))"
  by (cases f rule: expose.cases) simp_all

lemma evolves_mir: "evolves (mir s) (mirror t) (mir s') = evolves s t s'"
  by (simp add: evolves_def rb_rep_mir nodes_mir map_option_mirn_inj)

lemma bind_if: "Option.bind (if b then m else m') f = (if b then Option.bind m f else Option.bind m' f)"
  by simp

lemma erase_blocks_mir [mirror_simps]:
  "rb_erase_recolor_left p (mir s) = map_option (map_prod id mir) (rb_erase_recolor_right p s)"
  "rb_erase_rotate_left p w (mir s) = map_option mir (rb_erase_rotate_right p w s)"
  by (simp_all add: rb_erase_recolor_left_def rb_erase_recolor_right_def rb_erase_rotate_left_def
      rb_erase_rotate_right_def mirror_simps Let_def bind_if Option.bind_assoc if_distrib[of "map_option _"] cong: if_cong)

lemma recolor_right_expose:
  assumes rep: "rb_rep s (plug k (Nd c x p t))" and x: "x \<noteq> Lf"
  shows "runs (rb_erase_recolor_right p s) (\<lambda>(w, s').
    w = rootp (sib (hd (expose (InR c p x)))) \<and> evolves s (plug (expose (InR c p x) @ k) t) s')"
proof -
  have rep': "rb_rep (mir s) (plug (map mirf k) (Nd c (mirror t) p (mirror x)))"
    using rep rb_rep_mir[of s "plug k (Nd c x p t)"] by (simp add: mirror_plug)
  have f: "InL c p (mirror x) = mirf (InR c p x)" by simp
  have "plug (map mirf (expose (InR c p x)) @ map mirf k) (mirror t) = mirror (plug (expose (InR c p x) @ k) t)"
    by (simp only: mirror_plug map_append)
  with recolor_left_expose[OF rep'] x show ?thesis
    by (simp add: f hd_expose mirror_simps runs_map_option case_prod_unfold evolves_mir del: mirf.simps)
qed

lemma rotate_right_sim:
  assumes rep: "rb_rep s (plug k (Nd c (Nd cw a w b) p t))" and u: "sib_step (InR c p (Nd cw a w b)) t = Done u"
  shows "runs (rb_erase_rotate_right p w s) (evolves s (plug k u))"
proof -
  have rep': "rb_rep (mir s) (plug (map mirf k) (Nd c (mirror t) p (Nd cw (mirror b) w (mirror a))))"
    using rep rb_rep_mir[of s "plug k (Nd c (Nd cw a w b) p t)"] by (simp add: mirror_plug)
  have "sib_step (InL c p (Nd cw (mirror b) w (mirror a))) (mirror t) = Done (mirror u)"
    using sib_step_mirror[of "InR c p (Nd cw a w b)" t] unfolding u by simp
  from rotate_left_sim[OF rep' this] show ?thesis
    by (simp add: mirror_simps runs_map_option evolves_mir flip: mirror_plug)
qed

section \<open>The loop computes the repair\<close>

lemma erase_color_stop:
  assumes rep: "rb_rep s (plug k t)" and t: "tcol t = Red \<or> k = []"
  shows "runs (rb_erase_color (rootp t) q s) (evolves s (plug k (paint Black t)))"
proof -
  have tree: "tree_at (nodes s) (ctx_par k) t" and "root s = ctx_root k (rootp t)"
    using rep by (simp_all add: rb_rep_plug)
  then have loop: "rb_erase_loop (rootp t) q s = Some (rootp t, s)"
    using is_black_child_eq[OF tree] t by (subst rb_erase_loop.simps) auto
  show ?thesis
  proof (cases "t = Lf")
    case True
    then show ?thesis using rep loop by (simp add: rb_erase_color_def evolves_refl)
  next
    case False
    then show ?thesis using evolves_paint[OF rep False] loop rootp_NULL[OF tree]
      by (simp add: rb_erase_color_def)
  qed
qed

text \<open>
  The rest of an iteration after the sibling has been exposed, for either side: \<open>rot\<close> is
  the final rotation block of that side.
\<close>

definition erase_after :: "(ptr \<Rightarrow> ptr \<Rightarrow> rb_mem \<Rightarrow> rb_mem option) \<Rightarrow> ptr \<Rightarrow> ptr \<Rightarrow> rb_mem \<Rightarrow> rb_mem option" where
  "erase_after rot parent other s = do {
     o' \<leftarrow> deref s other;
     lb \<leftarrow> is_black_child (rb_left o') s;
     rb \<leftarrow> (if lb then is_black_child (rb_right o') s else Some False);
     if lb \<and> rb then do {
       s \<leftarrow> rb_set_red other s;
       p \<leftarrow> deref s parent;
       rb_erase_color parent (rb_parent p) s }
     else do {
       s \<leftarrow> rot parent other s;
       if root s \<noteq> NULL then rb_set_black (root s) s else Some s }}"

lemma erase_color_unfold:
  "rb_erase_color node parent s = do {
     b \<leftarrow> is_black_child node s;
     if b \<and> node \<noteq> root s then do {
       p \<leftarrow> deref s parent;
       if rb_left p = node then do {
         (other, s) \<leftarrow> rb_erase_recolor_left parent s;
         erase_after rb_erase_rotate_left parent other s }
       else do {
         (other, s) \<leftarrow> rb_erase_recolor_right parent s;
         erase_after rb_erase_rotate_right parent other s }}
     else if node \<noteq> NULL then rb_set_black node s else Some s }"
  unfolding rb_erase_color_def[of node parent]
  apply (subst rb_erase_loop.simps)
  apply (simp add: erase_after_def rb_erase_color_def case_prod_unfold bind_if Option.bind_assoc if_distrib[of "\<lambda>m. Option.bind m _"]
      cong: if_cong)
  done

lemma plug_not_Lf: "t \<noteq> Lf \<or> k \<noteq> [] \<Longrightarrow> plug k t \<noteq> Lf"
proof (induction k arbitrary: t)
  case (Cons f k)
  show ?case using Cons.IH[of "plug1 f t"] by (cases f) auto
qed simp

lemma ctx_root_in: "ctx_root k a = a \<or> ctx_root k a \<in> ctx_addrs k"
proof (induction k arbitrary: a)
  case (Cons f k)
  show ?case using Cons.IH[of "frame_addr f"] by (cases f) auto
qed simp

lemma not_root:
  assumes "rb_rep s (plug (f # k) t)"
  shows "rootp t \<noteq> root s"
proof (cases "t = Lf")
  case True
  have "plug (f # k) t \<noteq> Lf" by (rule plug_not_Lf) simp
  then show ?thesis using True assms rootp_NULL by (auto simp: rb_rep_def simp del: plug.simps)
next
  case False
  have "root s = ctx_root k (frame_addr f)" using assms unfolding rb_rep_plug by simp
  then have "root s \<in> ctx_addrs (f # k)" using ctx_root_in[of k "frame_addr f"] by (cases f) auto
  then show ?thesis
    using False assms unfolding rb_rep_plug by (cases t) (auto simp: ctx_addrs_def)
qed

lemma erase_color_left:
  assumes rep: "rb_rep s (plug k (Nd c t p x))" and "tcol t = Black"
  shows "rb_erase_color (rootp t) p s = do {
         (other, s) \<leftarrow> rb_erase_recolor_left p s;
         erase_after rb_erase_rotate_left p other s }"
proof -
  obtain np where "p \<noteq> NULL" "nodes s p = Some np" "rb_left np = rootp t" using rep by (rule rep_node)
  moreover have "rootp t \<noteq> root s" using not_root[of s "InL c p x" k t] rep by simp
  ultimately show ?thesis
    using is_black_child_eq[OF rep_sub(1)[OF rep]] assms(2) by (subst erase_color_unfold) (simp add: exec)
qed

lemma erase_color_right:
  assumes rep: "rb_rep s (plug k (Nd c x p t))" and "tcol t = Black" "x \<noteq> Lf"
  shows "rb_erase_color (rootp t) p s = do {
         (other, s) \<leftarrow> rb_erase_recolor_right p s;
         erase_after rb_erase_rotate_right p other s }"
proof -
  obtain np where "p \<noteq> NULL" "nodes s p = Some np" "rb_left np = rootp x" using rep by (rule rep_node)
  moreover have "rootp t \<noteq> root s" using not_root[of s "InR c p x" k t] rep by simp
  ultimately show ?thesis
    using is_black_child_eq[OF rep_sub(2)[OF rep]] assms(2) rep_roots_distinct(2)[OF rep assms(3)]
    by (subst erase_color_unfold) (simp add: exec)
qed

text \<open>The same node seen from its other child.\<close>

fun turn :: "frame \<Rightarrow> rbt \<Rightarrow> frame" where
  "turn (InL c p x) t = InR c p t"
| "turn (InR c p x) t = InL c p t"

lemma turn_simps [simp]:
  "plug1 (turn g t) (sib g) = plug1 g t" "frame_addr (turn g t) = frame_addr g"
  by (cases g; simp)+

lemma sib_step_turn:
  assumes "sib g = Nd cw a w b"
  shows "sib_step g t = Up u \<Longrightarrow> u = plug1 (turn g t) (Nd Red a w b) \<and> tcol a = Black \<and> tcol b = Black"
    "sib_step g t = Done u \<Longrightarrow> \<not> (tcol a = Black \<and> tcol b = Black)"
  using assms by (cases g; auto split: if_splits)+

lemma plug1_node: "\<exists>c l r. plug1 f t = Nd c l (frame_addr f) r"
  by (cases f) auto

lemma erase_after_sim:
  assumes rep: "rb_rep s (plug (g # k) t)" and g: "sib g = Nd cw a w b"
    and rot: "\<And>u. sib_step g t = Done u \<Longrightarrow> runs (rot (frame_addr g) w s) (evolves s (plug k u))"
    and up: "\<And>u s'. sib_step g t = Up u \<Longrightarrow> rb_rep s' (plug k u) \<Longrightarrow>
      runs (rb_erase_color (frame_addr g) (ctx_par k) s') (evolves s' T)"
    and T: "\<And>u. sib_step g t = Up u \<Longrightarrow> addrs T = addrs (plug k u)"
      "\<And>u. sib_step g t = Done u \<Longrightarrow> u \<noteq> Lf \<and> T = paint Black (plug k u)"
  shows "runs (erase_after rot (frame_addr g) w s) (evolves s T)"
proof -
  have repw: "rb_rep s (plug (turn g t # k) (Nd cw a w b))" using rep by (simp flip: g)
  obtain nw where w: "w \<noteq> NULL" "nodes s w = Some nw" "rb_left nw = rootp a" "rb_right nw = rootp b"
    using repw by (rule rep_node)
  note test = w is_black_child_eq[OF rep_sub(1)[OF repw]] is_black_child_eq[OF rep_sub(2)[OF repw]]
  show ?thesis
  proof (cases "sib_step g t")
    case (Up u)
    have "runs (do { s \<leftarrow> rb_set_red w s; p' \<leftarrow> deref s (frame_addr g); rb_erase_color (frame_addr g) (rb_parent p') s })
      (evolves s T)"
    proof (rule evolves_bind)
      show "runs (rb_set_red w s) (evolves s (plug k u))"
        using evolves_set_red[OF repw] sib_step_turn(1)[OF g Up] by simp
      show "addrs T = addrs (plug k u)"
        by (rule T(1)[OF Up])
      fix s' assume s': "rb_rep s' (plug k u)"
      obtain cu l r where "u = Nd cu l (frame_addr g) r"
        using sib_step_turn(1)[OF g Up] plug1_node[of "turn g t" "Nd Red a w b"] by auto
      then have "rb_rep s' (plug k (Nd cu l (frame_addr g) r))" using s' by simp
      then obtain n where "frame_addr g \<noteq> NULL" "nodes s' (frame_addr g) = Some n" "rb_parent n = ctx_par k"
        by (rule rep_node)
      then show "runs (do { p' \<leftarrow> deref s' (frame_addr g); rb_erase_color (frame_addr g) (rb_parent p') s' }) (evolves s' T)"
        using up[OF Up s'] by (simp add: exec)
    qed
    then show ?thesis using test sib_step_turn(1)[OF g Up] by (simp add: erase_after_def exec)
  next
    case (Done u)
    have "runs (do { s \<leftarrow> rot (frame_addr g) w s; if root s \<noteq> NULL then rb_set_black (root s) s else Some s })
      (evolves s T)"
    proof (rule evolves_bind[OF rot[OF Done]])
      show "addrs T = addrs (plug k u)" using T(2)[OF Done] by simp
      fix s' assume s': "rb_rep s' (plug k u)"
      have "plug k u \<noteq> Lf" using T(2)[OF Done] plug_not_Lf by blast
      then show "runs (if root s' \<noteq> NULL then rb_set_black (root s') s' else Some s') (evolves s' T)"
        using rb_set_black_root[OF s'] T(2)[OF Done] rootp_NULL[of "nodes s'"] s' by (auto simp: rb_rep_def)
    qed
    then show ?thesis using test sib_step_turn(2)[OF g Done] by (cases "tcol a") (simp_all add: erase_after_def exec)
  qed
qed

lemma evolves_bind_pair:
  assumes "runs m (\<lambda>(w', s'). w' = w \<and> evolves s t s')" "addrs t' = addrs t"
    and "\<And>s'. rb_rep s' t \<Longrightarrow> runs (f w s') (evolves s' t')"
  shows "runs (do { (w, s') \<leftarrow> m; f w s' }) (evolves s t')"
proof -
  have "m = map_option (\<lambda>s'. (w, s')) (map_option snd m)" "runs (map_option snd m) (evolves s t)"
    using assms(1) by (cases m; auto)+
  then have "runs (Option.bind (map_option snd m) (f w)) (evolves s t')"
    using assms(2,3) by (intro evolves_bind)
  then show ?thesis by (subst \<open>m = _\<close>) (simp add: mirror_simps)
qed

lemma expose_addr: "expose f = g # k0 \<Longrightarrow> frame_addr g = frame_addr f"
  by (cases f rule: expose.cases) auto

lemma expose_side: "expose (InL c p x) = g # k0 \<Longrightarrow> \<exists>c y. g = InL c p y"
    "expose (InR c p x) = g # k0 \<Longrightarrow> \<exists>c y. g = InR c p y"
  by (cases x; cases "tcol x"; auto)+

text \<open>The rest of the iteration after \<open>expose\<close>, given that the loop above does its work.\<close>

lemma iteration_sim:
  assumes ok: "short_ok (f # k) t" "tcol t = Black"
    and g: "expose f = g # k0" "sib g = Nd Black a w b" "short_ok (g # k0 @ k) t" "k0 \<noteq> [] \<Longrightarrow> fcol g = Red"
    and rep: "rb_rep s (plug (g # k0 @ k) t)"
    and rot: "\<And>u. sib_step g t = Done u \<Longrightarrow> runs (rot (frame_addr g) w s) (evolves s (plug (k0 @ k) u))"
    and IH: "\<And>u s. rb_rep s (plug k u) \<Longrightarrow> short_ok k u \<Longrightarrow>
      runs (rb_erase_color (rootp u) (ctx_par k) s) (evolves s (del_fix k u))"
  shows "runs (erase_after rot (frame_addr g) w s) (evolves s (del_fix (f # k) t))"
proof (rule erase_after_sim[where rot = rot, OF rep g(2) rot])
  fix u assume u: "sib_step g t = Up u"
  note U = sib_step_Up[OF g(3) ok(2) g(2) u]
  show "addrs (del_fix (f # k) t) = addrs (plug (k0 @ k) u)"
    using inorder_del_fix[OF ok(1)] inorder_expose[of f k t] U(2) g(1) by simp
  fix s' assume s': "rb_rep s' (plug (k0 @ k) u)"
  have root: "rootp u = frame_addr g"
    using sib_step_turn(1)[OF g(2) u] plug1_node[of "turn g t" "Nd Red a w b"] by auto
  have "k0 = []" if "tcol u = Black" using g(4) U(3) that by auto
  then show "runs (rb_erase_color (frame_addr g) (ctx_par (k0 @ k)) s') (evolves s' (del_fix (f # k) t))"
    using erase_color_stop[OF s'] IH[of s' u] s' U(1) ok(2) g(1) u root by auto
next
  fix u assume u: "sib_step g t = Done u"
  have "inorder u \<noteq> []" using sib_step_Done(5)[OF g(3) ok(2) g(2) u] by (cases g) auto
  then show "u \<noteq> Lf \<and> del_fix (f # k) t = paint Black (plug (k0 @ k) u)"
    using u ok(2) g(1) by auto
qed

lemma erase_color_sim:
  assumes "rb_rep s (plug k t)" "short_ok k t"
  shows "runs (rb_erase_color (rootp t) (ctx_par k) s) (evolves s (del_fix k t))"
  using assms
proof (induction k arbitrary: s t)
  case Nil
  then show ?case using erase_color_stop[of s "[]" t] by simp
next
  case (Cons f k)
  show ?case
  proof (cases "tcol t = Black")
    case True
    obtain g k0 a w b where g: "expose f = g # k0" "sib g = Nd Black a w b" "short_ok (g # k0 @ k) t"
      "k0 \<noteq> [] \<Longrightarrow> fcol g = Red"
      using short_expose[OF Cons.prems(2) True] by metis
    have x: "sib f \<noteq> Lf" using g by (cases f rule: expose.cases) auto
    have addrs: "addrs (del_fix (f # k) t) = addrs (plug (g # k0 @ k) t)"
      using inorder_del_fix[OF Cons.prems(2)] inorder_expose[of f k t] g(1) by simp
    note iter = iteration_sim[OF Cons.prems(2) True g _ _ Cons.IH]
    show ?thesis
    proof (cases f)
      case (InL c p x)
      have rep: "rb_rep s (plug k (Nd c t p x))" using Cons.prems(1) InL by simp
      obtain c' where G: "g = InL c' p (Nd Black a w b)" using expose_side(1) g(1,2) InL by fastforce
      have 1: "runs (rb_erase_recolor_left p s) (\<lambda>(w', s'). w' = w \<and> evolves s (plug (g # k0 @ k) t) s')"
        using recolor_left_expose[OF rep] x InL g(1,2) by simp
      have "runs (do { (w, s') \<leftarrow> rb_erase_recolor_left p s; erase_after rb_erase_rotate_left p w s' })
        (evolves s (del_fix (f # k) t))"
        by (rule evolves_bind_pair[OF 1 addrs])
          (use iter[of _ rb_erase_rotate_left] rotate_left_sim[of _ _ c' t p Black a w b] G in auto)
      then show ?thesis using erase_color_left[OF rep True] InL by simp
    next
      case (InR c p x)
      have rep: "rb_rep s (plug k (Nd c x p t))" using Cons.prems(1) InR by simp
      obtain c' where G: "g = InR c' p (Nd Black a w b)" using expose_side(2) g(1,2) InR by fastforce
      have 1: "runs (rb_erase_recolor_right p s) (\<lambda>(w', s'). w' = w \<and> evolves s (plug (g # k0 @ k) t) s')"
        using recolor_right_expose[OF rep] x InR g(1,2) by simp
      have "runs (do { (w, s') \<leftarrow> rb_erase_recolor_right p s; erase_after rb_erase_rotate_right p w s' })
        (evolves s (del_fix (f # k) t))"
        by (rule evolves_bind_pair[OF 1 addrs])
          (use iter[of _ rb_erase_rotate_right] rotate_right_sim[of _ _ c' Black a w b p t] G in auto)
      then show ?thesis using erase_color_right[OF rep True] x InR by simp
    qed
  qed (use Cons.prems erase_color_stop[of s "f # k" t] in simp)
qed

section \<open>Unlinking the node\<close>

text \<open>Replacing a subtree that keeps its root pointer, and the leftmost node of a tree.\<close>

lemma tree_at_replace:
  assumes "tree_at h q (plug k t)" "rootp t' = rootp t" "\<And>q. tree_at h q t \<Longrightarrow> tree_at h' q t'"
    "\<And>a. a \<in> ctx_addrs k \<Longrightarrow> h' a = h a"
  shows "tree_at h' q (plug k t')"
  using assms
proof (induction k arbitrary: t t')
  case (Cons f k)
  have same: "h' a = h a" if "a \<in> ctx_addrs [f]" for a using Cons.prems(4) that by (cases f) auto
  have "tree_at h' q (plug1 f t')" if "tree_at h q (plug1 f t)" for q
    using that Cons.prems(2) Cons.prems(3) same
    by (cases f) (auto intro: tree_at_congI simp: node_at_def)
  moreover have "rootp (plug1 f t') = rootp (plug1 f t)" by (cases f) auto
  ultimately show ?case using Cons.IH[of "plug1 f t" "plug1 f t'"] Cons.prems(1,4) by (cases f) auto
qed simp

fun is_InL :: "frame \<Rightarrow> bool" where
  "is_InL (InL c a r) = True"
| "is_InL (InR c a r) = False"

lemma rb_leftmost_spine:
  assumes "tree_at (nodes s) q t" "t \<noteq> Lf"
  obtains k c x r where "t = plug k (Nd c Lf x r)" "list_all is_InL k" "rb_leftmost (rootp t) s = Some x"
  using assms
proof (induction t arbitrary: q thesis)
  case (Nd c l a r)
  then obtain n where n: "a \<noteq> NULL" "nodes s a = Some n" "rb_left n = rootp l" by (auto elim: node_atE)
  show ?case
  proof (cases "l = Lf")
    case True
    with n have "rb_leftmost a s = Some a" by (subst rb_leftmost.simps) (simp add: exec)
    with True show thesis using Nd.prems(1)[of "[]"] by simp
  next
    case False
    have l: "tree_at (nodes s) a l" using Nd.prems(2) by simp
    obtain k c' x r' where k: "l = plug k (Nd c' Lf x r')" "list_all is_InL k" "rb_leftmost (rootp l) s = Some x"
      using Nd.IH(1)[OF _ l False] by metis
    have "rb_leftmost a s = Some x"
      using n k(3) rootp_NULL[OF l] False by (subst rb_leftmost.simps) (simp add: exec)
    with k show thesis using Nd.prems(1)[of "k @ [InL c a r]"] by (simp add: plug_append)
  qed
qed simp

lemma erase_single_evolves:
  assumes rep: "rb_rep s (plug k (Nd c l a r))" and t: "l = Lf \<and> t = r \<or> r = Lf \<and> t = l"
  shows "runs (rb_erase_single a (rootp t) s) (\<lambda>(ch, p, co, s'). ch = rootp t \<and> p = ctx_par k \<and>
    (co = RB_BLACK \<longleftrightarrow> c = Black) \<and> evolves s (plug k t) s')"
proof -
  obtain n where n: "a \<noteq> NULL" "nodes s a = Some n" "rb_parent n = ctx_par k" "col n = c"
    using rep by (rule rep_node)
  from rep have root: "root s = ctx_root k a" and dist: "distinct (before k @ inorder (Nd c l a r) @ after k)"
    and ctx: "ctx_at (nodes s) k a" by (simp_all add: rb_rep_plug)
  have tree: "tree_at (nodes s) a t" and dt: "distinct (inorder t)" "a \<notin> addrs t" "a \<notin> ctx_addrs k"
    "addrs t \<inter> ctx_addrs k = {}" "distinct (before k @ inorder t @ after k)"
    using rep_sub[OF rep] t dist by (auto simp: ctx_addrs_def)
  have "runs (do { s \<leftarrow> set_parent_if (rootp t) (ctx_par k) s; rb_replace_child (ctx_par k) a (rootp t) s })
     (evolves s (plug k t))"
  proof (rule runs_bindI[OF runs_reparent[OF tree dt(1) ctx_par_aligned[OF ctx]]], elim conjE)
    fix s1 :: rb_mem
    assume s1: "tree_at (nodes s1) (ctx_par k) t" "root s1 = root s"
      "\<forall>p. p \<notin> addrs t \<longrightarrow> nodes s1 p = nodes s p"
    have ctx1: "ctx_at (nodes s1) k a"
      by (rule ctx_at_congI[OF ctx]) (use s1(3) dt in auto)
    have 2: "runs (rb_replace_child (ctx_par k) a (rootp t) s1) (redirects k (rootp t) s1)"
      by (rule runs_replace_child) (use ctx1 dt root n s1 in auto)
    show "runs (rb_replace_child (ctx_par k) a (rootp t) s1) (evolves s (plug k t))"
    proof (rule runs_mono[OF 2])
      fix s2 assume s2: "redirects k (rootp t) s1 s2"
      have "tree_at (nodes s2) (ctx_par k) t"
        by (rule tree_at_congI[OF s1(1)]) (use s2 dt in \<open>auto simp: redirects_def\<close>)
      then show "evolves s (plug k t) s2"
        using s2 s1(3) dt by (auto simp: evolves_def rb_rep_plug redirects_def addrs_plug)
    qed
  qed
  then show ?thesis using n
    by (auto simp: rb_erase_single_def exec Let_def runs_bind rb_color_black_iff elim!: runs_mono)
qed

lemma tree_at_sub: "tree_at h q (plug k t) \<Longrightarrow> \<exists>q'. tree_at h q' t"
proof (induction k arbitrary: t)
  case (Cons f k)
  show ?case using Cons.IH[of "plug1 f t"] Cons.prems by (cases f) auto
qed auto

text \<open>The successor is taken out of the right subtree.\<close>

lemma runs_remove_min:
  fixes s :: rb_mem
  assumes tree: "tree_at (nodes s) q (plug (InL cp p rp # k) (Nd cx Lf x rx))"
    and dist: "distinct (inorder (plug (InL cp p rp # k) (Nd cx Lf x rx)))"
  shows "runs (do { s \<leftarrow> set_parent_if (rootp rx) p s; set_left p (rootp rx) s }) (\<lambda>s'.
    tree_at (nodes s') q (plug (InL cp p rp # k) rx) \<and> root s' = root s \<and>
    (\<forall>b. b \<notin> addrs (plug (InL cp p rp # k) rx) \<longrightarrow> nodes s' b = nodes s b))"
proof -
  obtain q' where sub: "tree_at (nodes s) q' (Nd cp (Nd cx Lf x rx) p rp)"
    using tree_at_sub[of "nodes s" q k] tree by (metis plug.simps(2) plug1.simps(1))
  obtain np where p: "p \<noteq> NULL" "aligned p" "nodes s p = Some np" "rb_right np = rootp rp" "col np = cp"
    using sub by (auto elim: node_atE)
  have rx: "tree_at (nodes s) x rx" and rp: "tree_at (nodes s) p rp" using sub by simp_all
  have D: "p \<notin> addrs rx" "distinct (inorder rx)" "addrs rx \<inter> addrs rp = {}" "p \<notin> addrs rp"
    "p \<notin> ctx_addrs k" "addrs rx \<inter> ctx_addrs k = {}"
    using dist by (auto simp: inorder_plug ctx_addrs_def)
  show ?thesis
  proof (rule runs_bindI[OF runs_reparent[OF rx D(2) p(2)]], elim conjE)
    fix s1 :: rb_mem
    assume s1: "tree_at (nodes s1) p rx" "root s1 = root s" "\<forall>b. b \<notin> addrs rx \<longrightarrow> nodes s1 b = nodes s b"
    let ?h = "(nodes s1)(p \<mapsto> np\<lparr>rb_left := rootp rx\<rparr>)"
    have h: "?h b = nodes s b" if "b \<notin> addrs rx" "b \<noteq> p" for b using s1(3) that by simp
    have "tree_at ?h q' (Nd cp rx p rp)" if t: "tree_at (nodes s) q' (Nd cp (Nd cx Lf x rx) p rp)" for q'
    proof -
      have "tree_at ?h p rp" by (rule tree_at_congI[OF rp], rule h) (use D in auto)
      moreover have "tree_at ?h p rx" using s1(1) D(1) by (simp add: frame_upd)
      moreover have "node_at ?h p q' cp (rootp rx) (rootp rp)" using t p by (simp add: node_at_def)
      ultimately show ?thesis by simp
    qed
    then have "tree_at ?h q (plug k (Nd cp rx p rp))"
      using tree by (rule_tac tree_at_replace[of "nodes s"]) (use h D in auto)
    moreover have "nodes s1 p = Some np" using s1(3) D p by simp
    ultimately show "runs (set_left p (rootp rx) s1) (\<lambda>s'.
        tree_at (nodes s') q (plug (InL cp p rp # k) rx) \<and> root s' = root s \<and>
        (\<forall>b. b \<notin> addrs (plug (InL cp p rp # k) rx) \<longrightarrow> nodes s' b = nodes s b))"
      using s1 p h by (auto simp: exec addrs_plug)
  qed
qed

text \<open>The successor takes the place of the node.\<close>

lemma runs_take_place:
  assumes ctx: "ctx_at (nodes s) k x" "root s = ctx_root k x"
    and a: "a \<noteq> NULL" "nodes s a = Some na" "rb_parent na = ctx_par k" "col na = c" "rb_left na = rootp l"
    and l: "tree_at (nodes s) a l" "l \<noteq> Lf" and r: "tree_at (nodes s) x r"
    and x: "x \<noteq> NULL" "aligned x" "nodes s x = Some nx" "rb_right nx = rootp r" "x \<noteq> a"
    and dist: "distinct (before k @ inorder (Nd c l x r) @ after k)"
  shows "runs (do { o' \<leftarrow> deref s a;
      s \<leftarrow> upd_node (\<lambda>n. n\<lparr>rb_parent_color := rb_parent_color o'\<rparr>) x s;
      s \<leftarrow> set_left x (rb_left o') s;
      rb_set_parent (rb_left o') x s })
    (\<lambda>s'. rb_rep s' (plug k (Nd c l x r)) \<and> (\<forall>b. b \<notin> insert x (addrs l) \<longrightarrow> nodes s' b = nodes s b))"
    (is "runs ?m ?Q")
proof -
  have D: "x \<notin> addrs l" "x \<notin> addrs r" "x \<notin> ctx_addrs k" "distinct (inorder l)" "addrs l \<inter> addrs r = {}"
    "addrs l \<inter> ctx_addrs k = {}"
    using dist by (auto simp: ctx_addrs_def)
  let ?nx = "nx\<lparr>rb_parent_color := rb_parent_color na, rb_left := rootp l\<rparr>"
  let ?s = "s\<lparr>nodes := (nodes s)(x \<mapsto> ?nx)\<rparr>"
  have l1: "tree_at (nodes ?s) a l" using l(1) D(1) by (simp add: frame_upd)
  have "rootp l \<noteq> NULL" using l rootp_NULL by blast
  then have m: "?m = set_parent_if (rootp l) x ?s" using a x by (simp add: exec set_parent_if_def)
  have nx: "node_at (nodes s2) x (ctx_par k) c (rootp l) (rootp r)"
    if "nodes s2 x = Some ?nx" for s2 :: rb_mem using that x a by (simp add: node_at_def)
  show ?thesis unfolding m
  proof (rule runs_mono[OF runs_reparent[OF l1 D(4) x(2)]], elim conjE)
    fix s2 :: rb_mem
    assume s2: "tree_at (nodes s2) x l" "root s2 = root ?s" "\<forall>p. p \<notin> addrs l \<longrightarrow> nodes s2 p = nodes ?s p"
    have "ctx_at (nodes s2) k x" by (rule ctx_at_congI[OF ctx(1)]) (use s2 D in auto)
    moreover have "tree_at (nodes s2) x r" by (rule tree_at_congI[OF r]) (use s2 D in auto)
    moreover have "node_at (nodes s2) x (ctx_par k) c (rootp l) (rootp r)" by (rule nx) (use s2(3) D in simp)
    ultimately show "?Q s2" using s2 ctx(2) dist by (auto simp: rb_rep_plug)
  qed
qed

text \<open>
  The second half of \<^verbatim>\<open>rb_erase_double\<close>, and the state it starts from: the context already
  points to the successor \<open>x\<close> instead of \<open>a\<close>.
\<close>

definition erase_swap :: "ptr \<Rightarrow> ptr \<Rightarrow> rb_mem \<Rightarrow> (ptr \<times> ptr \<times> 64 word \<times> rb_mem) option" where
  "erase_swap old node s = do {
     n \<leftarrow> deref s node;
     let child = rb_right n;
     let parent = rb_parent n;
     let color = rb_color n;
     (parent, s) \<leftarrow> (if parent = old then Some (node, s)
       else do {
         s \<leftarrow> set_parent_if child parent s;
         s \<leftarrow> set_left parent child s;
         o' \<leftarrow> deref s old;
         s \<leftarrow> set_right node (rb_right o') s;
         s \<leftarrow> rb_set_parent (rb_right o') node s;
         Some (parent, s) });
     s \<leftarrow> do { o' \<leftarrow> deref s old;
       s \<leftarrow> upd_node (\<lambda>n. n\<lparr>rb_parent_color := rb_parent_color o'\<rparr>) node s;
       s \<leftarrow> set_left node (rb_left o') s;
       rb_set_parent (rb_left o') node s };
     Some (child, parent, color, s) }"

definition swapping :: "ctx \<Rightarrow> color \<Rightarrow> rbt \<Rightarrow> ptr \<Rightarrow> rbt \<Rightarrow> ptr \<Rightarrow> rb_mem \<Rightarrow> bool" where
  "swapping k c l a r x s \<longleftrightarrow> ctx_at (nodes s) k x \<and> root s = ctx_root k x \<and>
     tree_at (nodes s) (ctx_par k) (Nd c l a r) \<and> distinct (before k @ inorder (Nd c l a r) @ after k)"

lemma swap_near:
  assumes sw: "swapping k c l a (Nd cx Lf x rx) x s" and l: "l \<noteq> Lf"
  shows "runs (erase_swap a x s) (\<lambda>(ch, p, co, s'). ch = rootp rx \<and> p = x \<and> (co = RB_BLACK \<longleftrightarrow> cx = Black) \<and>
    evolves s (plug k (Nd c l x rx)) s')"
proof -
  obtain na where a: "a \<noteq> NULL" "nodes s a = Some na" "rb_parent na = ctx_par k" "col na = c"
    "rb_left na = rootp l"
    using sw by (auto simp: swapping_def elim!: node_atE)
  obtain nx where x: "x \<noteq> NULL" "aligned x" "nodes s x = Some nx" "rb_right nx = rootp rx"
    and nx: "rb_parent nx = a" "col nx = cx"
    using sw by (auto simp: swapping_def elim!: node_atE)
  have sub: "ctx_at (nodes s) k x" "root s = ctx_root k x" "tree_at (nodes s) a l" "tree_at (nodes s) x rx"
    "x \<noteq> a" "distinct (before k @ inorder (Nd c l x rx) @ after k)"
    using sw by (auto simp: swapping_def)
  from runs_take_place[OF sub(1,2) a sub(3) l sub(4) x sub(5,6)] show ?thesis
    using x nx unfolding erase_swap_def
    by (auto simp: exec Let_def evolves_def addrs_plug rb_color_black_iff runs_bind elim!: runs_mono)
qed

text \<open>When the successor is further down, the right subtree without it moves below it.\<close>

lemma runs_move_subtree:
  assumes sw: "swapping k c l a (plug (InL cp p rp # kl) (Nd cx Lf x rx)) x s"
  shows "runs (do {
      s \<leftarrow> set_parent_if (rootp rx) p s;
      s \<leftarrow> set_left p (rootp rx) s;
      o' \<leftarrow> deref s a;
      s \<leftarrow> set_right x (rb_right o') s;
      rb_set_parent (rb_right o') x s })
    (\<lambda>s'. tree_at (nodes s') x (plug (InL cp p rp # kl) rx) \<and> root s' = root s \<and>
      (\<exists>n. nodes s' x = Some n \<and> rb_right n = rootp (plug (InL cp p rp # kl) rx)) \<and>
      (\<forall>b. b \<notin> insert x (addrs (plug (InL cp p rp # kl) rx)) \<longrightarrow> nodes s' b = nodes s b))"
    (is "runs _ ?Q")
proof -
  let ?R = "plug (InL cp p rp # kl) (Nd cx Lf x rx)" and ?R' = "plug (InL cp p rp # kl) rx"
  have R: "tree_at (nodes s) a ?R" "distinct (inorder ?R)" "a \<notin> addrs ?R" using sw by (auto simp: swapping_def)
  have D: "x \<notin> addrs ?R'" "distinct (inorder ?R')" "a \<notin> addrs ?R'" "x \<in> addrs ?R"
    using R(2,3) by (auto simp: inorder_plug)
  obtain na where a: "a \<noteq> NULL" "nodes s a = Some na" "rb_right na = rootp ?R'"
    using sw by (auto simp: swapping_def rootp_plug elim!: node_atE)
  obtain nx where x: "x \<noteq> NULL" "aligned x" "nodes s x = Some nx"
    using tree_at_nonnull[OF R(1) D(4)] by auto
  have "runs (do { s \<leftarrow> do { s \<leftarrow> set_parent_if (rootp rx) p s; set_left p (rootp rx) s };
      o' \<leftarrow> deref s a; s \<leftarrow> set_right x (rb_right o') s; rb_set_parent (rb_right o') x s }) ?Q"
  proof (rule runs_bindI[OF runs_remove_min[OF R(1,2)]], elim conjE)
    fix s1 :: rb_mem
    assume s1: "tree_at (nodes s1) a ?R'" "root s1 = root s" "\<forall>b. b \<notin> addrs ?R' \<longrightarrow> nodes s1 b = nodes s b"
    let ?s = "s1\<lparr>nodes := (nodes s1)(x \<mapsto> nx\<lparr>rb_right := rootp ?R'\<rparr>)\<rparr>"
    have t: "tree_at (nodes ?s) a ?R'" using s1(1) D(1) by (simp add: frame_upd del: plug.simps)
    have "rootp ?R' \<noteq> NULL" using rootp_NULL[OF s1(1)] plug_not_Lf by blast
    then have "do { o' \<leftarrow> deref s1 a; s \<leftarrow> set_right x (rb_right o') s1; rb_set_parent (rb_right o') x s } =
        set_parent_if (rootp ?R') x ?s"
      using s1(3) D a x by (simp add: exec set_parent_if_def del: plug.simps)
    moreover have "runs (set_parent_if (rootp ?R') x ?s) ?Q"
      by (rule runs_mono[OF runs_reparent[OF t D(2) x(2)]]) (use s1 D in \<open>auto simp del: plug.simps\<close>)
    ultimately show "runs (do { o' \<leftarrow> deref s1 a; s \<leftarrow> set_right x (rb_right o') s1; rb_set_parent (rb_right o') x s }) ?Q"
      by (simp only:)
  qed
  then show ?thesis by (simp only: Option.bind_assoc)
qed

lemma swap_far:
  assumes sw: "swapping k c l a (plug (InL cp p rp # kl) (Nd cx Lf x rx)) x s" and l: "l \<noteq> Lf"
  shows "runs (erase_swap a x s) (\<lambda>(ch, p', co, s'). ch = rootp rx \<and> p' = p \<and> (co = RB_BLACK \<longleftrightarrow> cx = Black) \<and>
    evolves s (plug k (Nd c l x (plug (InL cp p rp # kl) rx))) s')" (is "runs _ ?Q")
proof -
  let ?R = "plug (InL cp p rp # kl) (Nd cx Lf x rx)" and ?R' = "plug (InL cp p rp # kl) rx"
  obtain na where a: "a \<noteq> NULL" "nodes s a = Some na" "rb_parent na = ctx_par k" "col na = c" "rb_left na = rootp l"
    using sw by (auto simp: swapping_def elim!: node_atE)
  have sub: "ctx_at (nodes s) k x" "root s = ctx_root k x" "tree_at (nodes s) a l" "tree_at (nodes s) a ?R"
    using sw by (auto simp: swapping_def)
  have dist: "distinct (before k @ inorder (Nd c l x ?R') @ after k)" "a \<notin> addrs ?R" "a \<notin> addrs l"
    "x \<in> addrs ?R" "p \<in> addrs ?R" "a \<notin> ctx_addrs k" "addrs ?R' \<subseteq> addrs ?R"
    using sw by (auto simp: swapping_def inorder_plug ctx_addrs_def)
  obtain q nx where x: "x \<noteq> NULL" "aligned x" "nodes s x = Some nx" "rb_right nx = rootp rx" "rb_parent nx = p"
    "col nx = cx"
    using tree_at_sub[of "nodes s" a kl "Nd cp (Nd cx Lf x rx) p rp"] sub(4) by (auto elim!: node_atE)
  have far: "x \<noteq> a" "p \<noteq> a" using dist by auto
  have rest: "runs (do { s \<leftarrow> do { o' \<leftarrow> deref s1 a;
       s \<leftarrow> upd_node (\<lambda>n. n\<lparr>rb_parent_color := rb_parent_color o'\<rparr>) x s1;
       s \<leftarrow> set_left x (rb_left o') s;
       rb_set_parent (rb_left o') x s };
     Some (rootp rx, p, rb_color nx, s) }) ?Q"
    if s1: "tree_at (nodes s1) x ?R'" "root s1 = root s" "nodes s1 x = Some n1" "rb_right n1 = rootp ?R'"
      "\<forall>b. b \<notin> insert x (addrs ?R') \<longrightarrow> nodes s1 b = nodes s b" for s1 :: rb_mem and n1
  proof -
    have "nodes s1 a = Some na" using s1(5) dist a(2) far by auto
    moreover have "ctx_at (nodes s1) k x"
      by (rule ctx_at_congI[OF sub(1)]) (use s1(5) dist(1) in \<open>auto simp: ctx_addrs_def simp del: plug.simps\<close>)
    moreover have "tree_at (nodes s1) a l"
      by (rule tree_at_congI[OF sub(3)]) (use s1(5) dist(1) in \<open>auto simp del: plug.simps\<close>)
    moreover have "root s1 = ctx_root k x" using s1(2) sub(2) by simp
    ultimately have *: "runs (do { o' \<leftarrow> deref s1 a;
       s \<leftarrow> upd_node (\<lambda>n. n\<lparr>rb_parent_color := rb_parent_color o'\<rparr>) x s1;
       s \<leftarrow> set_left x (rb_left o') s;
       rb_set_parent (rb_left o') x s }) (\<lambda>s'. rb_rep s' (plug k (Nd c l x ?R')) \<and>
         (\<forall>b. b \<notin> insert x (addrs l) \<longrightarrow> nodes s' b = nodes s1 b))"
      using runs_take_place[of s1 k x a na c l ?R' n1] a l s1 x(1,2) far dist(1) by blast
    show ?thesis
      by (rule runs_bindI[OF *]) (use s1(5) x(6) in \<open>auto simp: evolves_def addrs_plug rb_color_black_iff\<close>)
  qed
  have "runs (do { s \<leftarrow> do { s \<leftarrow> set_parent_if (rootp rx) p s; s \<leftarrow> set_left p (rootp rx) s; o' \<leftarrow> deref s a;
      s \<leftarrow> set_right x (rb_right o') s; rb_set_parent (rb_right o') x s };
      s \<leftarrow> do { o' \<leftarrow> deref s a;
       s \<leftarrow> upd_node (\<lambda>n. n\<lparr>rb_parent_color := rb_parent_color o'\<rparr>) x s;
       s \<leftarrow> set_left x (rb_left o') s;
       rb_set_parent (rb_left o') x s };
     Some (rootp rx, p, rb_color nx, s) }) ?Q"
    by (rule runs_bindI[OF runs_move_subtree[OF sw]], elim conjE exE) (rule rest)
  then show ?thesis using x far by (simp add: erase_swap_def exec Let_def Option.bind_assoc)
qed

lemma erase_double_evolves:
  assumes rep: "rb_rep s (plug k (Nd c l a (plug kl (Nd cx Lf x rx))))" and l: "l \<noteq> Lf"
    and kl: "list_all is_InL kl" and min: "rb_leftmost (rootp (plug kl (Nd cx Lf x rx))) s = Some x"
  shows "runs (rb_erase_double a s) (\<lambda>(ch, p, co, s'). ch = rootp rx \<and> p = ctx_par (kl @ InR c x l # k) \<and>
    (co = RB_BLACK \<longleftrightarrow> cx = Black) \<and> evolves s (plug (kl @ InR c x l # k) rx) s')"
    (is "runs _ ?Q")
proof -
  let ?r = "plug kl (Nd cx Lf x rx)"
  obtain na where a: "a \<noteq> NULL" "nodes s a = Some na" "rb_parent na = ctx_par k" "rb_right na = rootp ?r"
    using rep by (rule rep_node)
  from rep have root: "root s = ctx_root k a" and dist: "distinct (before k @ inorder (Nd c l a ?r) @ after k)"
    and ctx: "ctx_at (nodes s) k a" and tree: "tree_at (nodes s) (ctx_par k) (Nd c l a ?r)"
    by (simp_all add: rb_rep_plug)
  have r1: "runs (rb_replace_child (ctx_par k) a x s) (redirects k x s)"
    by (rule runs_replace_child) (use ctx dist root a in \<open>auto simp: ctx_addrs_def\<close>)
  have eq: "rb_erase_double a s = Option.bind (rb_replace_child (ctx_par k) a x s) (\<lambda>s. erase_swap a x s)"
    using a min by (simp add: rb_erase_double_def erase_swap_def exec Let_def case_prod_unfold Option.bind_assoc)
  show ?thesis unfolding eq
  proof (rule runs_bindI[OF r1])
    fix s1 :: rb_mem assume s1: "redirects k x s s1"
    have "tree_at (nodes s1) (ctx_par k) (Nd c l a ?r)"
      by (rule tree_at_congI[OF tree]) (use s1 dist in \<open>auto simp: redirects_def ctx_addrs_def\<close>)
    then have sw: "swapping k c l a ?r x s1" using s1 dist by (simp add: swapping_def redirects_def)
    have ev: "evolves s (plug (kl @ InR c x l # k) rx) s2" if "evolves s1 (plug (kl @ InR c x l # k) rx) s2" for s2
      using that s1 by (auto simp: evolves_def redirects_def addrs_plug plug_append)
    show "runs (erase_swap a x s1) ?Q"
    proof (cases kl)
      case Nil
      then show ?thesis using swap_near[of k c l a cx x rx s1] sw l ev by (auto elim!: runs_mono)
    next
      case (Cons f kl')
      then obtain cp p rp where "f = InL cp p rp" using kl by (cases f) auto
      then show ?thesis using swap_far[of k c l a cp p rp kl' cx x rx s1] sw l ev Cons
        by (auto simp: plug_append elim!: runs_mono)
    qed
  qed
qed


section \<open>Removal\<close>

lemma in_plug: "a \<in> addrs t \<Longrightarrow> \<exists>k c l r. t = plug k (Nd c l a r)"
proof (induction t)
  case (Nd c l b r)
  consider "a = b" | "a \<in> addrs l" | "a \<in> addrs r" using Nd.prems by auto
  then show ?case
  proof cases
    case 1
    then show ?thesis using plug.simps(1)[of "Nd c l b r", symmetric] by blast
  next
    case 2
    then obtain k c' l' r' where "l = plug k (Nd c' l' a r')" using Nd.IH by blast
    then have "Nd c l b r = plug (k @ [InL c b r]) (Nd c' l' a r')" by (simp add: plug_append)
    then show ?thesis by blast
  next
    case 3
    then obtain k c' l' r' where "r = plug k (Nd c' l' a r')" using Nd.IH by blast
    then have "Nd c l b r = plug (k @ [InR c b l]) (Nd c' l' a r')" by (simp add: plug_append)
    then show ?thesis by blast
  qed
qed simp

lemma rb_ok_rename: "rb_ok (plug k (Nd c l a r)) = rb_ok (plug k (Nd c l b r))"
  by (simp add: rb_ok_plug)

text \<open>What is left when a node with at most one child goes.\<close>

lemma rb_ok_unlink:
  assumes "rb_ok (plug k (Nd c l a r))" "l = Lf \<and> t = r \<or> r = Lf \<and> t = l"
  shows "c = Black \<Longrightarrow> short_ok k t" "c = Red \<Longrightarrow> rb_ok (plug k t)"
  using assms by (auto simp: rb_ok_plug short_ok_def paint_simps)

lemma erase_fix:
  assumes "evolves s (plug k t) s'" "co = RB_BLACK \<longleftrightarrow> c = Black"
    and "c = Black \<Longrightarrow> short_ok k t" "c = Red \<Longrightarrow> rb_ok (plug k t)"
  shows "runs (if co = RB_BLACK then rb_erase_color (rootp t) (ctx_par k) s' else Some s')
    (\<lambda>s''. \<exists>t'. rb_ok t' \<and> inorder t' = inorder (plug k t) \<and> evolves s t' s'')"
proof (cases "c = Black")
  case True
  note sh = assms(3)[OF True]
  have "runs (rb_erase_color (rootp t) (ctx_par k) s') (evolves s' (del_fix k t))"
    using erase_color_sim[OF evolves_rep[OF assms(1)] sh] .
  then have "runs (rb_erase_color (rootp t) (ctx_par k) s') (evolves s (del_fix k t))"
    by (rule runs_mono) (use assms(1) inorder_del_fix[OF sh] in \<open>auto simp: evolves_def\<close>)
  then show ?thesis using True assms(2) del_fix_ok[OF sh] inorder_del_fix[OF sh] by (auto elim!: runs_mono)
next
  case False
  then show ?thesis using assms by auto
qed

lemma erase_fix_bind:
  assumes m: "runs m (\<lambda>(ch, p, co, s'). ch = rootp t \<and> p = ctx_par k \<and> (co = RB_BLACK \<longleftrightarrow> c = Black) \<and>
      evolves s (plug k t) s')"
    and c: "c = Black \<Longrightarrow> short_ok k t" "c = Red \<Longrightarrow> rb_ok (plug k t)"
  shows "runs (do { (ch, p, co, s) \<leftarrow> m; if co = RB_BLACK then rb_erase_color ch p s else Some s })
    (\<lambda>s'. \<exists>t'. rb_ok t' \<and> inorder t' = inorder (plug k t) \<and> evolves s t' s')"
  by (rule runs_bindI[OF m], clarify, rule erase_fix[OF _ _ c]) simp_all

lemma rb_erase_node:
  assumes rep: "rb_rep s (plug k (Nd c l a r))" and ok: "rb_ok (plug k (Nd c l a r))"
  shows "runs (rb_erase a s) (\<lambda>s'. \<exists>t'. rb_ok t' \<and>
    inorder t' = before k @ inorder l @ inorder r @ after k \<and> evolves s t' s')"
proof -
  obtain n where n: "a \<noteq> NULL" "nodes s a = Some n" "rb_left n = rootp l" "rb_right n = rootp r"
    using rep by (rule rep_node)
  have lr: "rb_left n = NULL \<longleftrightarrow> l = Lf" "rb_right n = NULL \<longleftrightarrow> r = Lf"
    using n rootp_NULL[OF rep_sub(1)[OF rep]] rootp_NULL[OF rep_sub(2)[OF rep]] by simp_all
  show ?thesis
  proof (cases "l = Lf \<or> r = Lf")
    case True
    define t where "t = (if l = Lf then r else l)"
    have t: "l = Lf \<and> t = r \<or> r = Lf \<and> t = l" using True by (auto simp: t_def)
    have "rb_erase a s = do { (ch, p, co, s) \<leftarrow> rb_erase_single a (rootp t) s;
        if co = RB_BLACK then rb_erase_color ch p s else Some s }"
      using n lr True by (auto simp: rb_erase_def exec t_def)
    moreover have "inorder (plug k t) = before k @ inorder l @ inorder r @ after k"
      using t by (auto simp: inorder_plug)
    ultimately show ?thesis
      using erase_fix_bind[OF erase_single_evolves[OF rep t] rb_ok_unlink[OF ok t]] by simp
  next
    case False
    then have "r \<noteq> Lf" by simp
    from rb_leftmost_spine[OF rep_sub(2)[OF rep] this] obtain kl cx x rx where
      r: "r = plug kl (Nd cx Lf x rx)" "list_all is_InL kl" "rb_leftmost (rootp r) s = Some x" by metis
    let ?k = "kl @ InR c x l # k"
    have "rb_ok (plug ?k (Nd cx Lf x rx))"
      using ok rb_ok_rename[of k c l a r x] by (simp add: r(1) plug_append)
    note U = rb_ok_unlink[OF this]
    have "before kl = []" using r(2) by (induction kl rule: before.induct) auto
    then have "inorder (plug ?k rx) = before k @ inorder l @ inorder r @ after k"
      by (simp add: plug_append inorder_plug r(1))
    moreover have "rb_erase a s = do { (ch, p, co, s) \<leftarrow> rb_erase_double a s;
        if co = RB_BLACK then rb_erase_color ch p s else Some s }"
      using n lr False by (simp add: rb_erase_def exec)
    ultimately show ?thesis
      using erase_fix_bind[OF erase_double_evolves[OF rep[unfolded r(1)] _ r(2)] U] False r(1,3) by simp
  qed
qed

theorem rb_erase_removes:
  assumes "rb_rep s t" "rb_ok t" "a \<in> addrs t"
  shows "runs (rb_erase a s) (\<lambda>s'. \<exists>t'. rb_ok t' \<and> inorder t' = remove1 a (inorder t) \<and> evolves s t' s')"
proof -
  obtain k c l r where t: "t = plug k (Nd c l a r)" using in_plug[OF assms(3)] by blast
  have "distinct (inorder t)" using assms(1) by (simp add: rb_rep_def)
  then have "remove1 a (inorder t) = before k @ inorder l @ inorder r @ after k"
    by (auto simp: t inorder_plug remove1_append)
  with rb_erase_node[of s k c l a r] assms t show ?thesis by simp
qed

end
