(* ===== verification/RbWalk.thy ===== *)
theory RbWalk
  imports RbErase
begin

text \<open>
  Traversal of a represented tree in order, replacement of a node by another one, and the
  path that the augmentation callbacks see.
\<close>

section \<open>First and last\<close>

lemma hd_spine: "list_all is_InL k \<Longrightarrow> inorder (plug k (Nd c Lf x r)) = x # inorder r @ after k"
proof -
  assume "list_all is_InL k"
  then have "before k = []" by (induction k rule: before.induct) auto
  then show ?thesis by (simp add: inorder_plug)
qed

lemma rb_leftmost_hd:
  assumes "tree_at (nodes s) q t" "t \<noteq> Lf"
  shows "rb_leftmost (rootp t) s = Some (hd (inorder t))"
proof -
  obtain k c x r where "t = plug k (Nd c Lf x r)" "list_all is_InL k" "rb_leftmost (rootp t) s = Some x"
    using rb_leftmost_spine[OF assms] by metis
  then show ?thesis by (simp add: hd_spine)
qed

text \<open>\<open>rb_rightmost\<close> is \<open>rb_leftmost\<close> on the mirrored memory; both loops are induced on the tree.\<close>

lemma rb_rightmost_last:
  assumes "tree_at (nodes s) q t" "t \<noteq> Lf"
  shows "rb_rightmost (rootp t) s = Some (last (inorder t))"
  using assms
proof (induction t arbitrary: q)
  case (Nd c l a r)
  then obtain n where n: "a \<noteq> NULL" "nodes s a = Some n" "rb_right n = rootp r" by (auto elim: node_atE)
  have r: "tree_at (nodes s) a r" using Nd.prems by simp
  then show ?case using n Nd.IH(2)[OF r] rootp_NULL[OF r]
    by (subst rb_rightmost.simps) (cases "r = Lf"; cases r; simp add: exec)
qed simp

lemma rb_first_hd:
  assumes "rb_rep s t"
  shows "rb_first s = Some (if inorder t = [] then NULL else hd (inorder t))"
  using assms rb_leftmost_hd[of s NULL t] rootp_NULL[of "nodes s" NULL t]
  by (cases t) (auto simp: rb_first_def rb_rep_def)

lemma rb_last_last:
  assumes "rb_rep s t"
  shows "rb_last s = Some (if inorder t = [] then NULL else last (inorder t))"
  using assms rb_rightmost_last[of s NULL t] rootp_NULL[of "nodes s" NULL t]
  by (cases t) (auto simp: rb_last_def rb_rep_def)

section \<open>Successor and predecessor\<close>

text \<open>Climbing from a place ends at the next node after it, or at NULL.\<close>

definition hd_or_null :: "ptr list \<Rightarrow> ptr" where
  "hd_or_null xs = (case xs of [] \<Rightarrow> NULL | x # _ \<Rightarrow> x)"

lemma hd_or_null_simps [simp]: "hd_or_null [] = NULL" "hd_or_null (x # xs) = x"
  by (simp_all add: hd_or_null_def)

lemma climb_right:
  assumes "rb_rep s (plug k (Nd c l a r))"
  shows "rb_climb_right a s = Some (hd_or_null (after k))"
  using assms
proof (induction k arbitrary: c l a r)
  case Nil
  then obtain n where "a \<noteq> NULL" "nodes s a = Some n" "rb_parent n = NULL"
    by (metis rep_node ctx_par.simps(1))
  then show ?case by (subst rb_climb_right.simps) (simp add: exec)
next
  case (Cons f k)
  obtain n where n: "a \<noteq> NULL" "nodes s a = Some n" "rb_parent n = frame_addr f"
    using Cons.prems by (rule rep_node) simp
  show ?case
  proof (cases f)
    case (InL cp p x)
    have rep: "rb_rep s (plug k (Nd cp (Nd c l a r) p x))" using Cons.prems InL by simp
    obtain np where "p \<noteq> NULL" "nodes s p = Some np" "rb_right np = rootp x" using rep by (rule rep_node)
    moreover have "rootp x \<noteq> a" using rep_roots_distinct(2)[OF rep] by auto
    ultimately show ?thesis using n InL by (subst rb_climb_right.simps) (simp add: exec)
  next
    case (InR cp p x)
    have rep: "rb_rep s (plug k (Nd cp x p (Nd c l a r)))" using Cons.prems InR by simp
    obtain np where "p \<noteq> NULL" "nodes s p = Some np" "rb_right np = a" using rep by (rule rep_node) simp
    then show ?thesis using n InR Cons.IH[OF rep] by (subst rb_climb_right.simps) (simp add: exec)
  qed
qed

lemma climb_left:
  assumes "rb_rep s (plug k (Nd c l a r))"
  shows "rb_climb_left a s = Some (hd_or_null (rev (before k)))"
  using assms
proof (induction k arbitrary: c l a r)
  case Nil
  then obtain n where "a \<noteq> NULL" "nodes s a = Some n" "rb_parent n = NULL"
    by (metis rep_node ctx_par.simps(1))
  then show ?case by (subst rb_climb_left.simps) (simp add: exec)
next
  case (Cons f k)
  obtain n where n: "a \<noteq> NULL" "nodes s a = Some n" "rb_parent n = frame_addr f"
    using Cons.prems by (rule rep_node) simp
  show ?case
  proof (cases f)
    case (InL cp p x)
    have rep: "rb_rep s (plug k (Nd cp (Nd c l a r) p x))" using Cons.prems InL by simp
    obtain np where "p \<noteq> NULL" "nodes s p = Some np" "rb_left np = a" using rep by (rule rep_node) simp
    then show ?thesis using n InL Cons.IH[OF rep] by (subst rb_climb_left.simps) (simp add: exec)
  next
    case (InR cp p x)
    have rep: "rb_rep s (plug k (Nd cp x p (Nd c l a r)))" using Cons.prems InR by simp
    obtain np where "p \<noteq> NULL" "nodes s p = Some np" "rb_left np = rootp x" using rep by (rule rep_node)
    moreover have "rootp x \<noteq> a" using rep_roots_distinct(1)[OF rep] by auto
    ultimately show ?thesis using n InR by (subst rb_climb_left.simps) (simp add: exec)
  qed
qed

lemma ctx_par_neq:
  assumes "rb_rep s (plug k (Nd c l a r))"
  shows "ctx_par k \<noteq> a"
  using assms unfolding rb_rep_plug by (cases k rule: before.cases) (auto simp: node_at_def)

lemma rb_next_node:
  assumes rep: "rb_rep s (plug k (Nd c l a r))"
  shows "rb_next a s = Some (hd_or_null (inorder r @ after k))"
proof -
  obtain n where n: "a \<noteq> NULL" "nodes s a = Some n" "rb_parent n = ctx_par k" "rb_right n = rootp r"
    using rep by (rule rep_node)
  note par = ctx_par_neq[OF rep]
  show ?thesis
  proof (cases "r = Lf")
    case True
    then show ?thesis using n par climb_right[OF rep] by (simp add: rb_next_def exec)
  next
    case False
    then have "inorder r \<noteq> []" by (cases r) auto
    then have "hd_or_null (inorder r @ after k) = hd (inorder r)" by (cases "inorder r") auto
    then show ?thesis
      using n par rb_leftmost_hd[OF rep_sub(2)[OF rep] False] rootp_NULL[OF rep_sub(2)[OF rep]] False
      by (simp add: rb_next_def exec)
  qed
qed

lemma rb_prev_node:
  assumes rep: "rb_rep s (plug k (Nd c l a r))"
  shows "rb_prev a s = Some (hd_or_null (rev (before k @ inorder l)))"
proof -
  obtain n where n: "a \<noteq> NULL" "nodes s a = Some n" "rb_parent n = ctx_par k" "rb_left n = rootp l"
    using rep by (rule rep_node)
  note par = ctx_par_neq[OF rep]
  show ?thesis
  proof (cases "l = Lf")
    case True
    then show ?thesis using n par climb_left[OF rep] by (simp add: rb_prev_def exec)
  next
    case False
    then have "inorder l \<noteq> []" by (cases l) auto
    then have "hd_or_null (rev (before k @ inorder l)) = last (inorder l)"
      by (cases "inorder l" rule: rev_cases) auto
    then show ?thesis
      using n par rb_rightmost_last[OF rep_sub(1)[OF rep] False] rootp_NULL[OF rep_sub(1)[OF rep]] False
      by (simp add: rb_prev_def exec)
  qed
qed

lemma split_inorder:
  assumes "rb_rep s t" "inorder t = xs @ a # ys"
  obtains k c l r where "t = plug k (Nd c l a r)" "xs = before k @ inorder l" "ys = inorder r @ after k"
proof -
  obtain k c l r where t: "t = plug k (Nd c l a r)" using in_plug[of a t] assms(2) by auto
  have "distinct (inorder t)" using assms(1) by (simp add: rb_rep_def)
  then have "a \<notin> set (before k @ inorder l)" "a \<notin> set (inorder r @ after k)"
    by (auto simp: t inorder_plug)
  moreover have "(before k @ inorder l) @ a # inorder r @ after k = xs @ a # ys"
    using assms(2) by (simp add: t inorder_plug)
  ultimately have "xs = before k @ inorder l" "ys = inorder r @ after k"
    using append_Cons_eq_iff[of a "before k @ inorder l" "inorder r @ after k" xs ys] by metis+
  with t show thesis by (rule that)
qed

lemma rb_next_succ:
  assumes "rb_rep s t" "inorder t = xs @ a # ys"
  shows "rb_next a s = Some (hd_or_null ys)"
  using split_inorder[OF assms] rb_next_node assms(1) by metis

lemma rb_prev_pred:
  assumes "rb_rep s t" "inorder t = xs @ a # ys"
  shows "rb_prev a s = Some (hd_or_null (rev xs))"
  using split_inorder[OF assms] rb_prev_node assms(1) by metis

section \<open>Replacing a node\<close>

lemma runs_reparent_both:
  assumes l: "tree_at (nodes s) q l" "distinct (inorder l)" and r: "tree_at (nodes s) q r" "distinct (inorder r)"
    and D: "addrs l \<inter> addrs r = {}" and b: "aligned b"
  shows "runs (do { s \<leftarrow> set_parent_if (rootp l) b s; set_parent_if (rootp r) b s }) (\<lambda>s'.
    tree_at (nodes s') b l \<and> tree_at (nodes s') b r \<and> root s' = root s \<and>
    (\<forall>p. p \<notin> addrs l \<union> addrs r \<longrightarrow> nodes s' p = nodes s p))" (is "runs _ ?Q")
proof (rule runs_bindI[OF runs_reparent[OF l b]], elim conjE)
  fix s1 :: rb_mem
  assume s1: "tree_at (nodes s1) b l" "root s1 = root s" "\<forall>p. p \<notin> addrs l \<longrightarrow> nodes s1 p = nodes s p"
  have r1: "tree_at (nodes s1) q r" by (rule tree_at_congI[OF r(1)]) (use s1(3) D in auto)
  have "tree_at (nodes s2) b l" if "\<forall>p. p \<notin> addrs r \<longrightarrow> nodes s2 p = nodes s1 p" for s2 :: rb_mem
    by (rule tree_at_congI[OF s1(1)]) (use that D in auto)
  then show "runs (set_parent_if (rootp r) b s1) ?Q"
    by (rule_tac runs_mono[OF runs_reparent[OF r1 r(2) b]]) (use s1 in auto)
qed

lemma rb_replace_node_rep:
  assumes rep: "rb_rep s (plug k (Nd c l a r))"
    and b: "b \<noteq> NULL" "aligned b" "b \<notin> addrs (plug k (Nd c l a r))" "b \<in> dom (nodes s)"
  shows "runs (rb_replace_node a b s) (evolves s (plug k (Nd c l b r)))"
proof -
  obtain na where a: "a \<noteq> NULL" "nodes s a = Some na" "rb_parent na = ctx_par k" "col na = c"
    "rb_left na = rootp l" "rb_right na = rootp r"
    using rep by (rule rep_node)
  from rep have root: "root s = ctx_root k a" and dist: "distinct (before k @ inorder (Nd c l a r) @ after k)"
    and ctx: "ctx_at (nodes s) k a" and sub: "tree_at (nodes s) a l" "tree_at (nodes s) a r"
    by (simp_all add: rb_rep_plug)
  have D: "a \<notin> addrs l" "a \<notin> addrs r" "a \<notin> ctx_addrs k" "addrs l \<inter> ctx_addrs k = {}"
    "addrs r \<inter> ctx_addrs k = {}" "b \<notin> addrs l" "b \<notin> addrs r" "b \<notin> ctx_addrs k" "b \<noteq> a"
    "distinct (before k @ after k)" "distinct (before k @ inorder (Nd c l b r) @ after k)"
    and DL: "distinct (inorder l)" and DR: "distinct (inorder r)" and DLR: "addrs l \<inter> addrs r = {}"
    using dist b(3) by (auto simp: ctx_addrs_def addrs_plug)
  let ?T = "plug k (Nd c l b r)"
  have "runs (do { s \<leftarrow> rb_replace_child (ctx_par k) a b s;
      v \<leftarrow> deref s a; s \<leftarrow> do { s \<leftarrow> set_parent_if (rb_left v) b s; set_parent_if (rb_right v) b s };
      v \<leftarrow> deref s a; upd_node (\<lambda>_. v) b s }) (evolves s ?T)"
  proof (rule runs_bindI)
    show "runs (rb_replace_child (ctx_par k) a b s) (redirects k b s)"
      by (rule runs_replace_child) (use ctx D root a in auto)
    fix s1 assume s1: "redirects k b s s1"
    have l1: "tree_at (nodes s1) a l" by (rule tree_at_congI[OF sub(1)]) (use s1 D in \<open>auto simp: redirects_def\<close>)
    have r1: "tree_at (nodes s1) a r" by (rule tree_at_congI[OF sub(2)]) (use s1 D in \<open>auto simp: redirects_def\<close>)
    have a1: "nodes s1 a = Some na" using s1 D a by (simp add: redirects_def)
    have "runs (do { s \<leftarrow> do { s \<leftarrow> set_parent_if (rootp l) b s1; set_parent_if (rootp r) b s };
      v \<leftarrow> deref s a; upd_node (\<lambda>_. v) b s }) (evolves s ?T)"
    proof (rule runs_bindI[OF runs_reparent_both[OF l1 DL r1 DR DLR b(2)]], elim conjE)
      fix s2 :: rb_mem
      assume s2: "tree_at (nodes s2) b l" "tree_at (nodes s2) b r" "root s2 = root s1"
        "\<forall>p. p \<notin> addrs l \<union> addrs r \<longrightarrow> nodes s2 p = nodes s1 p"
      obtain nb where nb: "nodes s2 b = Some nb" using b(4) s1 s2(4) D by (auto simp: redirects_def)
      have "ctx_at (nodes s2) k b"
        by (rule ctx_at_congI[of "nodes s1"]) (use s1 s2(4) D in \<open>auto simp: redirects_def\<close>)
      moreover have "node_at ((nodes s2)(b \<mapsto> na)) b (ctx_par k) c (rootp l) (rootp r)"
        using a b by (simp add: node_at_def)
      ultimately have "rb_rep (s2\<lparr>nodes := (nodes s2)(b \<mapsto> na)\<rparr>) ?T"
        using s1 s2 D by (simp add: rb_rep_plug redirects_def frame_upd)
      then show "runs (do { v \<leftarrow> deref s2 a; upd_node (\<lambda>_. v) b s2 }) (evolves s ?T)"
        using a a1 s1 s2(4) nb b D by (auto simp: exec evolves_def addrs_plug redirects_def)
    qed
    then show "runs (do { v \<leftarrow> deref s1 a;
      s \<leftarrow> do { s \<leftarrow> set_parent_if (rb_left v) b s1; set_parent_if (rb_right v) b s };
      v \<leftarrow> deref s a; upd_node (\<lambda>_. v) b s }) (evolves s ?T)"
      using a1 a by (simp add: exec)
  qed
  then show ?thesis using a by (simp add: rb_replace_node_def exec Option.bind_assoc)
qed

lemma rb_ok_replace: "rb_ok (plug k (Nd c l a r)) \<Longrightarrow> rb_ok (plug k (Nd c l b r))"
  using rb_ok_rename by blast

section \<open>Augmentation\<close>

text \<open>
  The nodes for which \<^verbatim>\<open>rb_augment_path\<close> calls the callback, in order: the node, its sibling,
  the parent, and so on up to the root. (A left child without sibling is visited twice.)
\<close>

fun aug_visits :: "ctx \<Rightarrow> ptr \<Rightarrow> ptr list" where
  "aug_visits [] a = [a]"
| "aug_visits (InL c p r # k) a = a # (if r \<noteq> Lf then rootp r else a) # aug_visits k p"
| "aug_visits (InR c p l # k) a = a # (if l \<noteq> Lf then [rootp l] else []) @ aug_visits k p"

lemma augment_path_visits:
  assumes "rb_rep s (plug k (Nd c l a r))"
  shows "rb_augment_path func s a d = Some (fold func (aug_visits k a) d)"
  using assms
proof (induction k arbitrary: c l a r d)
  case Nil
  then obtain n where "a \<noteq> NULL" "nodes s a = Some n" "rb_parent n = NULL"
    by (metis rep_node ctx_par.simps(1))
  then show ?case by (subst rb_augment_path.simps) (simp add: exec)
next
  case (Cons f k)
  obtain n where n: "a \<noteq> NULL" "nodes s a = Some n" "rb_parent n = frame_addr f"
    using Cons.prems by (rule rep_node) simp
  show ?case
  proof (cases f)
    case (InL cp p x)
    have rep: "rb_rep s (plug k (Nd cp (Nd c l a r) p x))" using Cons.prems InL by simp
    obtain np where "p \<noteq> NULL" "nodes s p = Some np" "rb_left np = a" "rb_right np = rootp x"
      using rep by (rule rep_node) simp
    then show ?thesis using n InL Cons.IH[OF rep] rootp_NULL[OF rep_sub(2)[OF rep]]
      by (subst rb_augment_path.simps) (simp add: exec)
  next
    case (InR cp p x)
    have rep: "rb_rep s (plug k (Nd cp x p (Nd c l a r)))" using Cons.prems InR by simp
    obtain np where "p \<noteq> NULL" "nodes s p = Some np" "rb_left np = rootp x" "rb_right np = a"
      using rep by (rule rep_node) simp
    moreover have "rootp x \<noteq> a" using rep_roots_distinct(1)[OF rep] by auto
    ultimately show ?thesis using n InR Cons.IH[OF rep] rootp_NULL[OF rep_sub(1)[OF rep]]
      by (subst rb_augment_path.simps) (simp add: exec)
  qed
qed

end
