(* ===== verification/RbSpec.thy ===== *)
theory RbSpec
  imports RbWalk
begin

text \<open>
  What the red-black tree promises to its clients: it holds a sequence of nodes from which
  a node can be removed, which can be walked in both directions, and whose depth is
  logarithmic. The interface is the locale \<open>ordered_index\<close>, interpreted on the code of
  \<^verbatim>\<open>network/wba_event/rbtree.c\<close>; the properties of the tree operations are stated at the end.
\<close>

section \<open>The interface\<close>

text \<open>\<open>rb_seq s xs\<close>: the memory holds a red-black tree whose nodes are \<open>xs\<close> in order.\<close>

definition rb_seq :: "rb_mem \<Rightarrow> ptr list \<Rightarrow> bool" where
  "rb_seq s xs \<longleftrightarrow> (\<exists>t. rb_rep s t \<and> rb_ok t \<and> inorder t = xs)"

definition same_outside :: "ptr set \<Rightarrow> rb_mem \<Rightarrow> rb_mem \<Rightarrow> bool" where
  "same_outside A s s' \<longleftrightarrow> (\<forall>p. p \<notin> A \<longrightarrow> nodes s' p = nodes s p)"

locale ordered_index =
  fixes seq :: "'s \<Rightarrow> ptr list \<Rightarrow> bool"
    and first :: "'s \<Rightarrow> ptr option"
    and succ :: "ptr \<Rightarrow> 's \<Rightarrow> ptr option"
    and erase :: "ptr \<Rightarrow> 's \<Rightarrow> 's option"
  assumes seq_distinct: "seq s xs \<Longrightarrow> distinct xs"
    and seq_nonnull: "seq s xs \<Longrightarrow> NULL \<notin> set xs"
    and first_law: "seq s xs \<Longrightarrow> first s = Some (hd_or_null xs)"
    and succ_law: "seq s (xs @ a # ys) \<Longrightarrow> succ a s = Some (hd_or_null ys)"
    and erase_law: "seq s xs \<Longrightarrow> a \<in> set xs \<Longrightarrow> runs (erase a s) (\<lambda>s'. seq s' (remove1 a xs))"
begin

text \<open>Reading the successor before the removal is safe: it is the first node afterwards.\<close>

lemma next_then_erase:
  assumes "seq s (a # xs)"
  shows "runs (do { n \<leftarrow> succ a s; s' \<leftarrow> erase a s; Some (n, s') })
    (\<lambda>(n, s'). n = hd_or_null xs \<and> seq s' xs \<and> first s' = Some n)"
proof -
  have "succ a s = Some (hd_or_null xs)" using succ_law[of s "[]" a xs] assms by simp
  moreover have "runs (erase a s) (\<lambda>s'. seq s' xs)" using erase_law[OF assms, of a] by simp
  ultimately show ?thesis using first_law by (auto simp: runs_def)
qed

lemma first_null_iff: "seq s xs \<Longrightarrow> first s = Some NULL \<longleftrightarrow> xs = []"
  using first_law[of s xs] seq_nonnull[of s xs] by (cases xs) auto

end

lemma rb_seq_erase:
  assumes "rb_seq s xs" "a \<in> set xs"
  shows "runs (rb_erase a s) (\<lambda>s'. rb_seq s' (remove1 a xs))"
proof -
  obtain t where t: "rb_rep s t" "rb_ok t" "inorder t = xs" using assms(1) by (auto simp: rb_seq_def)
  have "a \<in> addrs t" using t(3) assms(2) by simp
  from rb_erase_removes[OF t(1,2) this] show ?thesis
    unfolding t(3) by (rule runs_mono) (auto simp: rb_seq_def dest: evolves_rep)
qed

interpretation rb: ordered_index rb_seq rb_first rb_next rb_erase
proof
  fix s xs a ys
  show "rb_seq s xs \<Longrightarrow> distinct xs" by (auto simp: rb_seq_def rb_rep_def)
  show "rb_seq s xs \<Longrightarrow> NULL \<notin> set xs"
    using tree_at_nonnull by (fastforce simp: rb_seq_def rb_rep_def)
  show "rb_seq s xs \<Longrightarrow> rb_first s = Some (hd_or_null xs)"
    using rb_first_hd by (auto simp: rb_seq_def hd_or_null_def split: list.splits)
  show "rb_seq s (xs @ a # ys) \<Longrightarrow> rb_next a s = Some (hd_or_null ys)"
    using rb_next_succ by (auto simp: rb_seq_def)
  show "rb_seq s xs \<Longrightarrow> a \<in> set xs \<Longrightarrow> runs (rb_erase a s) (\<lambda>s'. rb_seq s' (remove1 a xs))"
    by (rule rb_seq_erase)
qed

section \<open>Depth\<close>

lemma bheight_size: "invh t \<Longrightarrow> 2 ^ bheight t \<le> Suc (length (inorder t))"
proof (induction t)
  case (Nd c l a r)
  then have "2 ^ bheight l \<le> Suc (length (inorder l))" "2 ^ bheight l \<le> Suc (length (inorder r))" by simp_all
  then show ?case by simp
qed simp

fun depth :: "rbt \<Rightarrow> nat" where
  "depth Lf = 0"
| "depth (Nd c l a r) = Suc (max (depth l) (depth r))"

lemma depth_bheight: "invc t \<Longrightarrow> invh t \<Longrightarrow> depth t \<le> 2 * bheight t + (if tcol t = Red then 1 else 0)"
  by (induction t) (auto split: if_splits)

lemma depth_plug: "length k + depth t \<le> depth (plug k t)"
proof (induction k arbitrary: t)
  case (Cons f k)
  have "Suc (depth t) \<le> depth (plug1 f t)" by (cases f) auto
  with Cons.IH[of "plug1 f t"] show ?case by simp
qed simp

lemma rb_ok_depth:
  assumes "rb_ok t"
  shows "2 ^ depth t \<le> (length (inorder t) + 1) ^ 2"
proof -
  have "depth t \<le> 2 * bheight t" using depth_bheight[of t] assms by (simp add: rb_ok_def)
  then have "(2::nat) ^ depth t \<le> 2 ^ (2 * bheight t)" by simp
  also have "\<dots> = (2 ^ bheight t) ^ 2" by (simp add: power_mult mult.commute)
  also have "\<dots> \<le> (length (inorder t) + 1) ^ 2"
    using bheight_size[of t] assms by (intro power_mono) (simp_all add: rb_ok_def)
  finally show ?thesis .
qed

section \<open>Properties\<close>

text \<open>A tree of three nodes and a node that is not linked yet, on which the properties are tried.\<close>

definition demo_mem :: rb_mem where
  "demo_mem = \<lparr>nodes = [
      16 \<mapsto> \<lparr>rb_parent_color = 1, rb_right = 24, rb_left = 8\<rparr>,
      8 \<mapsto> \<lparr>rb_parent_color = 16, rb_right = 0, rb_left = 0\<rparr>,
      24 \<mapsto> \<lparr>rb_parent_color = 16, rb_right = 0, rb_left = 0\<rparr>,
      32 \<mapsto> \<lparr>rb_parent_color = 0, rb_right = 0, rb_left = 0\<rparr>], root = 16\<rparr>"

definition demo_tree :: rbt where
  "demo_tree = Nd Black (Nd Red Lf 8 Lf) 16 (Nd Red Lf 24 Lf)"

definition demo_place :: ctx where
  "demo_place = [InR Red 24 Lf, InR Black 16 (Nd Red Lf 8 Lf)]"

lemma demo_rep: "rb_rep demo_mem demo_tree" "rb_ok demo_tree" "plug demo_place Lf = demo_tree"
  by (simp_all add: demo_mem_def demo_tree_def demo_place_def rb_rep_def node_at_def aligned_def col_def
      rb_is_red_def rb_color_def rb_parent_def rb_ok_def del: rb_is_red_iff)

lemma demo_lists: "inorder demo_tree = [8, 16, 24]" "before demo_place = [8, 16, 24]" "after demo_place = []"
  "ctx_par demo_place = 24" "ctx_link demo_place = RightLink 24" "32 \<in> dom (nodes demo_mem)" "aligned 32"
  by (simp_all add: demo_tree_def demo_place_def demo_mem_def aligned_def)

text \<open>
  (C2) Linking a node into an empty place of a red-black tree with \<^verbatim>\<open>rb_link_node\<close> and then
  calling \<^verbatim>\<open>rb_insert_color\<close> returns without a bad memory access; the memory then holds a
  red-black tree with the node at that place of the order, of at most twice the logarithm of
  its size in depth, and no memory outside the tree has changed.
\<close>

theorem rb_insert_color_correct:
  assumes "rb_rep s (plug k Lf)" "rb_ok (plug k Lf)"
    and "a \<noteq> NULL" "aligned a" "a \<notin> addrs (plug k Lf)" "a \<in> dom (nodes s)"
  shows "runs (do { s \<leftarrow> rb_link_node a (ctx_par k) (ctx_link k) s; rb_insert_color a s })
    (\<lambda>s'. \<exists>t. rb_rep s' t \<and> rb_ok t \<and> inorder t = before k @ a # after k \<and>
      2 ^ depth t \<le> (length (inorder t) + 1) ^ 2 \<and> (\<forall>p. p \<notin> addrs t \<longrightarrow> nodes s' p = nodes s p))"
  by (rule runs_mono[OF link_insert_color[OF assms]]) (use rb_ok_depth in \<open>auto simp: evolves_def\<close>)

theorem rb_insert_color_correct_witness:
  "runs (do { s \<leftarrow> rb_link_node 32 24 (RightLink 24) demo_mem; rb_insert_color 32 s })
    (\<lambda>s'. \<exists>t. rb_rep s' t \<and> rb_ok t \<and> inorder t = [8, 16, 24, 32] \<and>
      2 ^ depth t \<le> (length (inorder t) + 1) ^ 2 \<and> (\<forall>p. p \<notin> addrs t \<longrightarrow> nodes s' p = nodes demo_mem p))"
  using rb_insert_color_correct[of demo_mem demo_place 32] demo_rep by (simp add: demo_lists)

text \<open>
  (C1) \<^verbatim>\<open>rb_erase\<close> of a node of a red-black tree returns without a bad memory access; the
  memory then holds a red-black tree with exactly the other nodes in the same order, of
  logarithmic depth, and no memory outside that tree, the removed node included, has changed.
\<close>

theorem rb_erase_correct:
  assumes "rb_rep s t" "rb_ok t" "a \<in> addrs t"
  shows "runs (rb_erase a s) (\<lambda>s'. \<exists>t'. rb_rep s' t' \<and> rb_ok t' \<and> inorder t' = remove1 a (inorder t) \<and>
    2 ^ depth t' \<le> (length (inorder t') + 1) ^ 2 \<and> (\<forall>p. p \<notin> addrs t' \<longrightarrow> nodes s' p = nodes s p))"
  by (rule runs_mono[OF rb_erase_removes[OF assms]]) (use rb_ok_depth in \<open>auto simp: evolves_def\<close>)

theorem rb_erase_correct_witness:
  "runs (rb_erase 16 demo_mem) (\<lambda>s'. \<exists>t'. rb_rep s' t' \<and> rb_ok t' \<and> inorder t' = [8, 24] \<and>
    2 ^ depth t' \<le> (length (inorder t') + 1) ^ 2 \<and> (\<forall>p. p \<notin> addrs t' \<longrightarrow> nodes s' p = nodes demo_mem p))"
  using rb_erase_correct[of demo_mem demo_tree 16] demo_rep by (simp add: demo_lists)

text \<open>
  (C3) \<^verbatim>\<open>rb_first\<close>, \<^verbatim>\<open>rb_last\<close>, \<^verbatim>\<open>rb_next\<close> and \<^verbatim>\<open>rb_prev\<close> on a represented tree return: the ends
  of the order, and the neighbours of a node in it, or NULL where there is none.
\<close>

theorem rb_walk_correct:
  assumes "rb_rep s t" "inorder t = xs @ a # ys"
  shows "rb_first s = Some (hd (xs @ [a])) \<and> rb_last s = Some (last (a # ys)) \<and>
    rb_next a s = Some (case ys of [] \<Rightarrow> NULL | y # _ \<Rightarrow> y) \<and>
    rb_prev a s = Some (case rev xs of [] \<Rightarrow> NULL | x # _ \<Rightarrow> x)"
  using rb_first_hd[OF assms(1)] rb_last_last[OF assms(1)] rb_next_succ[OF assms] rb_prev_pred[OF assms] assms(2)
  by (simp add: hd_or_null_def hd_append split: list.splits)

theorem rb_walk_correct_witness:
  "rb_first demo_mem = Some 8 \<and> rb_last demo_mem = Some 24 \<and> rb_next 16 demo_mem = Some 24 \<and>
   rb_prev 16 demo_mem = Some 8"
  using rb_walk_correct[of demo_mem demo_tree "[8]" 16 "[24]"] demo_rep by (simp add: demo_lists)

text \<open>
  \<^verbatim>\<open>rb_replace_node\<close> puts a node that is not in the tree in the place of one that is: the
  memory then holds a red-black tree with the same order except for that node, and the
  replaced node and everything outside the tree is unchanged.
\<close>

theorem rb_replace_node_correct:
  assumes "rb_rep s t" "rb_ok t" "inorder t = xs @ a # ys"
    and "b \<noteq> NULL" "aligned b" "b \<notin> addrs t" "b \<in> dom (nodes s)"
  shows "runs (rb_replace_node a b s) (\<lambda>s'. \<exists>t'. rb_rep s' t' \<and> rb_ok t' \<and> inorder t' = xs @ b # ys \<and>
    (\<forall>p. p \<notin> addrs t' \<longrightarrow> nodes s' p = nodes s p))"
proof -
  obtain k c l r where t: "t = plug k (Nd c l a r)" "xs = before k @ inorder l" "ys = inorder r @ after k"
    using split_inorder[OF assms(1,3)] .
  have "rb_ok (plug k (Nd c l b r))" "inorder (plug k (Nd c l b r)) = xs @ b # ys"
    using assms(2) t rb_ok_replace[of k c l a r b] by (auto simp: inorder_plug)
  moreover have "runs (rb_replace_node a b s) (evolves s (plug k (Nd c l b r)))"
    using rb_replace_node_rep assms t by blast
  ultimately show ?thesis by (auto simp: evolves_def elim!: runs_mono)
qed

theorem rb_replace_node_correct_witness:
  "runs (rb_replace_node 16 32 demo_mem) (\<lambda>s'. \<exists>t'. rb_rep s' t' \<and> rb_ok t' \<and> inorder t' = [8] @ 32 # [24] \<and>
    (\<forall>p. p \<notin> addrs t' \<longrightarrow> nodes s' p = nodes demo_mem p))"
  by (rule rb_replace_node_correct[of demo_mem demo_tree "[8]" 16 "[24]" 32])
    (simp_all add: demo_rep demo_lists)

text \<open>
  Reading the successor of the first node before removing that node is safe against the
  removal, as the traversals of the event loop assume: the value read is the first node of
  the tree that is left.
\<close>

theorem rb_next_safe_against_removal:
  assumes "rb_seq s (a # xs)"
  shows "runs (do { n \<leftarrow> rb_next a s; s' \<leftarrow> rb_erase a s; Some (n, s') })
    (\<lambda>(n, s'). rb_seq s' xs \<and> rb_first s' = Some n)"
  by (rule runs_mono[OF rb.next_then_erase[OF assms]]) auto

theorem rb_next_safe_against_removal_witness:
  "runs (do { n \<leftarrow> rb_next 8 demo_mem; s' \<leftarrow> rb_erase 8 demo_mem; Some (n, s') })
    (\<lambda>(n, s'). rb_seq s' [16, 24] \<and> rb_first s' = Some n)"
  by (rule rb_next_safe_against_removal) (use demo_rep demo_lists in \<open>auto simp: rb_seq_def\<close>)

text \<open>
  (C4) The parent pointer and the colour share one word. Setting one of them leaves the
  other, for a parent address whose two low bits are clear, and a node linked by
  \<^verbatim>\<open>rb_link_node\<close> (a bare parent pointer) is red.
\<close>

theorem parent_color_packing:
  assumes "aligned p"
  shows "rb_parent (rb_set_parent_node p n) = p \<and> rb_is_red (rb_set_parent_node p n) = rb_is_red n \<and>
    rb_parent (rb_set_red_node n) = rb_parent n \<and> rb_is_red (rb_set_red_node n) \<and>
    rb_parent (rb_set_black_node n) = rb_parent n \<and> rb_is_black (rb_set_black_node n) \<and>
    rb_parent (n\<lparr>rb_parent_color := p\<rparr>) = p \<and> rb_is_red (n\<lparr>rb_parent_color := p\<rparr>)"
  using assms by simp

theorem parent_color_packing_witness:
  "rb_parent (rb_set_parent_node 64 \<lparr>rb_parent_color = 17, rb_right = 0, rb_left = 0\<rparr>) = 64"
  using parent_color_packing[of 64] by (simp add: aligned_def)

text \<open>
  \<^verbatim>\<open>rb_augment_path\<close> ends, and calls the callback for the node, its sibling, its parent,
  the sibling of the parent, and so on up to the root, in this order.
\<close>

theorem rb_augment_path_visits:
  assumes "rb_rep s (plug k (Nd c l a r))"
  shows "rb_augment_path func s a d = Some (fold func (aug_visits k a) d)"
  using assms by (rule augment_path_visits)

theorem rb_augment_path_visits_witness:
  "rb_augment_path (\<lambda>p ps. ps @ [p]) demo_mem 24 [] = Some [24, 8, 16]"
  using rb_augment_path_visits[of demo_mem "[InR Black 16 (Nd Red Lf 8 Lf)]" Red Lf 24 Lf "\<lambda>p ps. ps @ [p]" "[]"]
    demo_rep(1) by (simp add: demo_tree_def)

end
