(* ===== verification/EvTime.thy ===== *)
theory EvTime
  imports Prelude "HOL-Library.Signed_Division"
begin

text \<open>
  The time values of \<^verbatim>\<open>network/wba_event/wba_evloop.c\<close>: \<^verbatim>\<open>struct timeval\<close> and the static
  functions that add, subtract and compare them. The order of the type is the one that
  \<^verbatim>\<open>event_timecmp\<close> computes, so that the library's notions of sortedness speak about the code.
  The fields are the C type \<^verbatim>\<open>long\<close>; the bounds under which no operation leaves its range are
  proved below.
\<close>

section \<open>The code\<close>

datatype timeval = Timeval (tv_sec: int) (tv_usec: int)

datatype timespec = Timespec (ts_sec: int) (ts_nsec: int)

text \<open>The conversion in \<^verbatim>\<open>event_timeget\<close> (C division truncates).\<close>

definition timeval_of_timespec :: "timespec \<Rightarrow> timeval" where
  "timeval_of_timespec ts = Timeval (ts_sec ts) (ts_nsec ts sdiv 1000)"

definition event_timeadd :: "timeval \<Rightarrow> timeval \<Rightarrow> timeval" where
  "event_timeadd a b =
     (let sec = tv_sec a + tv_sec b; usec = tv_usec a + tv_usec b in
      if usec \<ge> 1000000 then Timeval (sec + 1) (usec - 1000000) else Timeval sec usec)"

definition event_timesub :: "timeval \<Rightarrow> timeval \<Rightarrow> timeval" where
  "event_timesub a b =
     (let sec = tv_sec a - tv_sec b; usec = tv_usec a - tv_usec b in
      if usec < 0 then Timeval (sec - 1) (usec + 1000000) else Timeval sec usec)"

definition event_timecmp :: "timeval \<Rightarrow> timeval \<Rightarrow> int" where
  "event_timecmp a b =
     (if tv_sec a \<noteq> tv_sec b then (if tv_sec a > tv_sec b then 1 else -1)
      else if tv_usec a \<noteq> tv_usec b then (if tv_usec a > tv_usec b then 1 else -1)
      else 0)"

section \<open>The order of time values\<close>

instantiation timeval :: linorder
begin

definition less_eq_timeval :: "timeval \<Rightarrow> timeval \<Rightarrow> bool" where
  "less_eq_timeval a b \<longleftrightarrow> event_timecmp a b \<le> 0"

definition less_timeval :: "timeval \<Rightarrow> timeval \<Rightarrow> bool" where
  "less_timeval a b \<longleftrightarrow> event_timecmp a b < 0"

instance
  by standard
    (auto simp: less_eq_timeval_def less_timeval_def event_timecmp_def timeval.expand split: if_splits)

end

lemma timecmp_simps:
  "event_timecmp a b < 0 \<longleftrightarrow> a < b" "event_timecmp a b \<le> 0 \<longleftrightarrow> a \<le> b"
  "event_timecmp a b > 0 \<longleftrightarrow> b < a" "event_timecmp a b = 0 \<longleftrightarrow> a = b"
  by (auto simp: less_eq_timeval_def less_timeval_def event_timecmp_def timeval.expand split: if_splits)

section \<open>Arithmetic\<close>

text \<open>A normalised time value, as the kernel delivers it, and its length in microseconds.\<close>

definition tv_ok :: "timeval \<Rightarrow> bool" where
  "tv_ok a \<longleftrightarrow> 0 \<le> tv_usec a \<and> tv_usec a < 1000000"

definition tv_us :: "timeval \<Rightarrow> int" where
  "tv_us a = tv_sec a * 1000000 + tv_usec a"

lemma tv_us_less: "tv_ok a \<Longrightarrow> tv_ok b \<Longrightarrow> tv_us a < tv_us b \<longleftrightarrow> a < b"
  by (auto simp: tv_ok_def tv_us_def less_timeval_def event_timecmp_def)

lemma tv_us_le: "tv_ok a \<Longrightarrow> tv_ok b \<Longrightarrow> tv_us a \<le> tv_us b \<longleftrightarrow> a \<le> b"
  using tv_us_less[of b a] by (simp add: not_less flip: linorder_not_less)

lemma timeadd_ok: "tv_ok a \<Longrightarrow> tv_ok b \<Longrightarrow> tv_ok (event_timeadd a b)"
  by (simp add: tv_ok_def event_timeadd_def Let_def)

lemma timeadd_us: "tv_us (event_timeadd a b) = tv_us a + tv_us b"
  by (simp add: tv_us_def event_timeadd_def Let_def algebra_simps)

lemma timesub_ok: "tv_ok a \<Longrightarrow> tv_ok b \<Longrightarrow> tv_ok (event_timesub a b)"
  by (simp add: tv_ok_def event_timesub_def Let_def)

lemma timesub_us: "tv_us (event_timesub a b) = tv_us a - tv_us b"
  by (simp add: tv_us_def event_timesub_def Let_def algebra_simps)

lemma timespec_ok:
  assumes "0 \<le> ts_nsec ts" "ts_nsec ts < 1000000000"
  shows "tv_ok (timeval_of_timespec ts)" "tv_sec (timeval_of_timespec ts) = ts_sec ts"
    "tv_usec (timeval_of_timespec ts) = ts_nsec ts div 1000"
  using assms by (auto simp: tv_ok_def timeval_of_timespec_def signed_divide_int_def sgn_if)

text \<open>No intermediate value leaves the range of a 64-bit \<^verbatim>\<open>long\<close>.\<close>

definition long_ok :: "int \<Rightarrow> bool" where
  "long_ok i \<longleftrightarrow> - (2 ^ 63) \<le> i \<and> i < 2 ^ 63"

text \<open>
  Adding and subtracting normalised time values is exact: the result is normalised,
  counts the sum or difference of the microseconds, and no intermediate value of the
  computation overflows a 64-bit signed integer while the seconds stay below 2 to the 62.
\<close>

theorem timeval_arithmetic:
  assumes "tv_ok a" "tv_ok b" "\<bar>tv_sec a\<bar> < 2 ^ 62" "\<bar>tv_sec b\<bar> < 2 ^ 62"
  shows "tv_ok (event_timeadd a b) \<and> tv_us (event_timeadd a b) = tv_us a + tv_us b \<and>
    tv_ok (event_timesub a b) \<and> tv_us (event_timesub a b) = tv_us a - tv_us b \<and>
    long_ok (tv_sec a + tv_sec b + 1) \<and> long_ok (tv_sec a + tv_sec b) \<and>
    long_ok (tv_sec a - tv_sec b - 1) \<and> long_ok (tv_sec a - tv_sec b)"
  using timeadd_ok[OF assms(1,2)] timesub_ok[OF assms(1,2)] assms(3,4)
  by (auto simp: timeadd_us timesub_us long_ok_def)

theorem timeval_arithmetic_witness:
  "event_timeadd (Timeval 3 700000) (Timeval 1 600000) = Timeval 5 300000 \<and>
   tv_us (event_timeadd (Timeval 3 700000) (Timeval 1 600000)) = 5300000"
  using timeval_arithmetic[of "Timeval 3 700000" "Timeval 1 600000"]
  by (simp add: tv_ok_def tv_us_def event_timeadd_def)

text \<open>
  \<^verbatim>\<open>event_timecmp\<close> is the comparison of the points in time: on normalised values its
  sign is the sign of the difference in microseconds.
\<close>

theorem timecmp_sign:
  assumes "tv_ok a" "tv_ok b"
  shows "event_timecmp a b = sgn (tv_us a - tv_us b)"
  using assms by (auto simp: event_timecmp_def tv_ok_def tv_us_def sgn_if)

theorem timecmp_sign_witness: "event_timecmp (Timeval 2 5) (Timeval 1 999999) = 1"
  using timecmp_sign[of "Timeval 2 5" "Timeval 1 999999"] by (simp add: tv_ok_def tv_us_def)

end
