(* ===== verification/EvLoop.thy ===== *)
theory EvLoop
  imports ListHead RbSpec EvTime
begin

text \<open>
  The event loop of \<^verbatim>\<open>network/wba_event/wba_evloop.c\<close>, function by function. The state holds
  the one event base and all events. The structures that an event embeds live in heaps of
  their own, keyed by the address of the event: \<^verbatim>\<open>evt_next\<close> in \<open>map_lists\<close>, \<^verbatim>\<open>evt_active_next\<close>
  in \<open>active_lists\<close>, \<^verbatim>\<open>evt_time_node\<close> in the nodes of \<open>timers\<close>; \<^verbatim>\<open>list_entry\<close> and \<^verbatim>\<open>rb_entry\<close>
  are then the identity. The anchor of the active list is keyed by the address of the base,
  the slots of the event map by their addresses in the array. The operating system is a
  parameter. Debug output is left out.
\<close>

section \<open>Constants and data\<close>

abbreviation WBA_EVT_READ :: "16 word" where "WBA_EVT_READ \<equiv> 0x01"
abbreviation WBA_EVT_WRITE :: "16 word" where "WBA_EVT_WRITE \<equiv> 0x02"
abbreviation WBA_EVT_TIMEOUT :: "16 word" where "WBA_EVT_TIMEOUT \<equiv> 0x04"
abbreviation WBA_EVT_CLOSED :: "16 word" where "WBA_EVT_CLOSED \<equiv> 0x08"
abbreviation WBA_EVT_PERSIST :: "16 word" where "WBA_EVT_PERSIST \<equiv> 0x10"

abbreviation WBA_EVTLIST_INIT :: "16 word" where "WBA_EVTLIST_INIT \<equiv> 0x01"
abbreviation WBA_EVTLIST_REG :: "16 word" where "WBA_EVTLIST_REG \<equiv> 0x02"
abbreviation WBA_EVTLIST_ACTIVE :: "16 word" where "WBA_EVTLIST_ACTIVE \<equiv> 0x04"
abbreviation WBA_EVTLIST_TIMEOUT :: "16 word" where "WBA_EVTLIST_TIMEOUT \<equiv> 0x08"

definition EVT_MAP_SIZE :: "32 word" where "EVT_MAP_SIZE = 32"
definition EVT_NUM_EVENTS :: "32 word" where "EVT_NUM_EVENTS = 32"
definition EVT_DEF_WAIT_MS :: int where "EVT_DEF_WAIT_MS = 60 * 1000"

text \<open>The event bits of \<^verbatim>\<open>sys/epoll.h\<close>.\<close>

abbreviation EPOLLIN :: "32 word" where "EPOLLIN \<equiv> 0x001"
abbreviation EPOLLOUT :: "32 word" where "EPOLLOUT \<equiv> 0x004"
abbreviation EPOLLERR :: "32 word" where "EPOLLERR \<equiv> 0x008"
abbreviation EPOLLHUP :: "32 word" where "EPOLLHUP \<equiv> 0x010"
abbreviation EPOLLRDHUP :: "32 word" where "EPOLLRDHUP \<equiv> 0x2000"

definition has :: "'a::len word \<Rightarrow> 'a word \<Rightarrow> bool" where
  "has w m \<longleftrightarrow> w AND m \<noteq> 0"

record wba_evt =
  cb_fn :: ptr
  cb_arg :: ptr
  evt_fd :: "32 word"
  evt_base :: ptr
  flags :: "16 word"
  events :: "16 word"
  res :: "16 word"
  timeout :: timeval
  evt_timeout :: timeval

record wba_evtbase =
  epfd :: "32 word"
  nevts :: "32 word"
  evt_list :: ptr
  map_size :: "32 word"
  map_sizemask :: "32 word"
  map_used :: "32 word"
  event_count :: "32 word"
  event_count_active :: "32 word"

record 'k ev_state =
  evts :: "wba_evt heap"
  base_at :: ptr
  base :: wba_evtbase
  map_lists :: list_heap
  active_lists :: list_heap
  timers :: rb_mem
  selfptr_at :: ptr
  kernel :: 'k

text \<open>
  The system calls, as functions on a kernel state. \<open>sys_epoll_wait\<close> returns the ready
  descriptors with their event bits, or \<open>None\<close> for a result of -1.
\<close>

record 'k os =
  sys_epoll_create :: "'k \<Rightarrow> 32 word \<times> 'k"
  sys_epoll_add :: "32 word \<Rightarrow> 32 word \<Rightarrow> 32 word \<Rightarrow> 'k \<Rightarrow> bool \<times> 'k"
  sys_epoll_del :: "32 word \<Rightarrow> 32 word \<Rightarrow> 'k \<Rightarrow> bool \<times> 'k"
  sys_epoll_wait :: "32 word \<Rightarrow> 32 word \<Rightarrow> 32 word \<Rightarrow> 'k \<Rightarrow> (32 word \<times> 32 word) list option \<times> 'k"
  sys_clock :: "'k \<Rightarrow> timespec option \<times> 'k"
  sys_close :: "32 word \<Rightarrow> 'k \<Rightarrow> 'k"

text \<open>\<open>evt_of s e\<close> reads the event at \<open>e\<close>, \<open>base_of s evt\<close> the base it points to.\<close>

definition evt_of :: "'k ev_state \<Rightarrow> ptr \<Rightarrow> wba_evt option" where
  "evt_of s e = rd (evts s) e"

definition base_of :: "'k ev_state \<Rightarrow> wba_evt \<Rightarrow> wba_evtbase option" where
  "base_of s evt = (if evt_base evt \<noteq> NULL \<and> evt_base evt = base_at s then Some (base s) else None)"

definition upd_evt :: "(wba_evt \<Rightarrow> wba_evt) \<Rightarrow> ptr \<Rightarrow> 'k ev_state \<Rightarrow> 'k ev_state option" where
  "upd_evt f e s = do { h \<leftarrow> wr f e (evts s); Some (s\<lparr>evts := h\<rparr>) }"

definition upd_base :: "(wba_evtbase \<Rightarrow> wba_evtbase) \<Rightarrow> 'k ev_state \<Rightarrow> 'k ev_state" where
  "upd_base f s = s\<lparr>base := f (base s)\<rparr>"

abbreviation or_flag :: "16 word \<Rightarrow> wba_evt \<Rightarrow> wba_evt" where
  "or_flag m evt \<equiv> evt\<lparr>flags := flags evt OR m\<rparr>"

abbreviation clear_flag :: "16 word \<Rightarrow> wba_evt \<Rightarrow> wba_evt" where
  "clear_flag m evt \<equiv> evt\<lparr>flags := flags evt AND NOT m\<rparr>"

definition on_map_lists :: "(list_heap \<Rightarrow> list_heap option) \<Rightarrow> 'k ev_state \<Rightarrow> 'k ev_state option" where
  "on_map_lists f s = do { h \<leftarrow> f (map_lists s); Some (s\<lparr>map_lists := h\<rparr>) }"

definition on_active_lists :: "(list_heap \<Rightarrow> list_heap option) \<Rightarrow> 'k ev_state \<Rightarrow> 'k ev_state option" where
  "on_active_lists f s = do { h \<leftarrow> f (active_lists s); Some (s\<lparr>active_lists := h\<rparr>) }"

definition on_timers :: "(rb_mem \<Rightarrow> rb_mem option) \<Rightarrow> 'k ev_state \<Rightarrow> 'k ev_state option" where
  "on_timers f s = do { t \<leftarrow> f (timers s); Some (s\<lparr>timers := t\<rparr>) }"

section \<open>Registration and the clock\<close>

definition epoll_events :: "16 word \<Rightarrow> 32 word" where
  "epoll_events evs =
     (if has evs WBA_EVT_READ then EPOLLIN else 0) OR
     (if has evs WBA_EVT_WRITE then EPOLLOUT else 0) OR
     (if has evs WBA_EVT_CLOSED then EPOLLRDHUP else 0)"

definition event_register :: "'k os \<Rightarrow> ptr \<Rightarrow> 'k ev_state \<Rightarrow> (bool \<times> 'k ev_state) option" where
  "event_register os e s = do {
     evt \<leftarrow> evt_of s e;
     b \<leftarrow> base_of s evt;
     let (ok, k) = sys_epoll_add os (epfd b) (evt_fd evt) (epoll_events (events evt)) (kernel s);
     Some (ok, s\<lparr>kernel := k\<rparr>) }"

definition event_unregister :: "'k os \<Rightarrow> ptr \<Rightarrow> 'k ev_state \<Rightarrow> (bool \<times> 'k ev_state) option" where
  "event_unregister os e s = do {
     evt \<leftarrow> evt_of s e;
     b \<leftarrow> base_of s evt;
     let (ok, k) = sys_epoll_del os (epfd b) (evt_fd evt) (kernel s);
     Some (ok, s\<lparr>kernel := k\<rparr>) }"

text \<open>The first component is \<open>None\<close> where the function returns 0 and leaves its argument alone.\<close>

definition event_timeget :: "'k os \<Rightarrow> 'k ev_state \<Rightarrow> timeval option \<times> 'k ev_state" where
  "event_timeget os s = (case sys_clock os (kernel s) of
     (None, k) \<Rightarrow> (None, s\<lparr>kernel := k\<rparr>)
   | (Some ts, k) \<Rightarrow> (Some (timeval_of_timespec ts), s\<lparr>kernel := k\<rparr>))"

section \<open>The active list\<close>

definition event_add_active :: "ptr \<Rightarrow> 16 word \<Rightarrow> 'k ev_state \<Rightarrow> 'k ev_state option" where
  "event_add_active e r s = do {
     evt \<leftarrow> evt_of s e;
     if \<not> has (flags evt) WBA_EVTLIST_ACTIVE then do {
       b \<leftarrow> base_of s evt;
       s \<leftarrow> upd_evt (\<lambda>evt. evt\<lparr>res := r\<rparr>) e s;
       s \<leftarrow> on_active_lists (list_add_tail e (evt_base evt)) s;
       s \<leftarrow> upd_evt (or_flag WBA_EVTLIST_ACTIVE) e s;
       Some (upd_base (\<lambda>b. b\<lparr>event_count_active := event_count_active b + 1\<rparr>) s) }
     else Some s }"

definition event_remove_active :: "ptr \<Rightarrow> 'k ev_state \<Rightarrow> 'k ev_state option" where
  "event_remove_active e s = do {
     evt \<leftarrow> evt_of s e;
     if has (flags evt) WBA_EVTLIST_ACTIVE then do {
       s \<leftarrow> on_active_lists (list_del_init e) s;
       s \<leftarrow> upd_evt (clear_flag WBA_EVTLIST_ACTIVE) e s;
       b \<leftarrow> base_of s evt;
       Some (upd_base (\<lambda>b. b\<lparr>event_count_active := event_count_active b - 1\<rparr>) s) }
     else Some s }"

section \<open>The event map\<close>

text \<open>The size of a \<^verbatim>\<open>struct list_head\<close> is 16 bytes.\<close>

definition event_map_get_slot :: "wba_evtbase \<Rightarrow> 32 word \<Rightarrow> ptr" where
  "event_map_get_slot b fd =
     (if sint fd < 0 then NULL else evt_list b + 16 * ucast (fd AND map_sizemask b))"

definition EVT_IO :: "16 word" where
  "EVT_IO = WBA_EVT_READ OR WBA_EVT_WRITE OR WBA_EVT_CLOSED"

definition event_map_add :: "'k os \<Rightarrow> ptr \<Rightarrow> 'k ev_state \<Rightarrow> (int \<times> 'k ev_state) option" where
  "event_map_add os e s = do {
     evt \<leftarrow> evt_of s e;
     if sint (evt_fd evt) < 0 then Some (0, s)
     else if has (events evt) EVT_IO then do {
       (ok, s) \<leftarrow> event_register os e s;
       if \<not> ok then Some (-1, s)
       else do {
         b \<leftarrow> base_of s evt;
         s \<leftarrow> on_map_lists (list_add_tail e (event_map_get_slot b (evt_fd evt))) s;
         let s = upd_base (\<lambda>b. b\<lparr>map_used := map_used b + 1\<rparr>) s;
         let s = upd_base (\<lambda>b. b\<lparr>event_count := event_count b + 1\<rparr>) s;
         Some (1, s) }}
     else Some (0, s) }"

definition event_map_remove :: "'k os \<Rightarrow> ptr \<Rightarrow> 'k ev_state \<Rightarrow> (int \<times> 'k ev_state) option" where
  "event_map_remove os e s = do {
     evt \<leftarrow> evt_of s e;
     if sint (evt_fd evt) < 0 then Some (0, s)
     else if has (events evt) EVT_IO then do {
       (ok, s) \<leftarrow> event_unregister os e s;
       let r = (if \<not> ok then -1 else 1);
       s \<leftarrow> on_map_lists (list_del_init e) s;
       b \<leftarrow> base_of s evt;
       let s = upd_base (\<lambda>b. b\<lparr>map_used := map_used b - 1\<rparr>) s;
       let s = upd_base (\<lambda>b. b\<lparr>event_count := event_count b - 1\<rparr>) s;
       Some (r, s) }
     else Some (0, s) }"

text \<open>The loop of \<^verbatim>\<open>list_for_each_entry(pos, list, evt_next)\<close> on the state.\<close>

definition event_map_active :: "32 word \<Rightarrow> 16 word \<Rightarrow> 'k ev_state \<Rightarrow> 'k ev_state option" where
  "event_map_active fd evs s =
     (let slot = event_map_get_slot (base s) fd in
      if slot = NULL then Some s
      else do {
        (h, s) \<leftarrow> list_for_each (\<lambda>pos (h, s). do {
            evt \<leftarrow> evt_of s pos;
            s \<leftarrow> (if has (events evt) evs then event_add_active pos (events evt AND evs) (s\<lparr>map_lists := h\<rparr>)
                  else Some s);
            Some (h, s) }) slot (map_lists s, s);
        Some (s\<lparr>map_lists := h\<rparr>) })"

section \<open>The timer tree\<close>

text \<open>The search loop of \<^verbatim>\<open>event_add_timeout\<close>: the values of \<^verbatim>\<open>parent\<close> and \<^verbatim>\<open>link\<close> after it.\<close>

partial_function (option) timeout_search ::
  "wba_evt heap \<Rightarrow> rb_mem \<Rightarrow> ptr \<Rightarrow> ptr \<Rightarrow> rb_link \<Rightarrow> (ptr \<times> rb_link) option"
where
  "timeout_search evs t new parent link = do {
     p \<leftarrow> load_link link t;
     if p = NULL then Some (parent, link)
     else do {
       n \<leftarrow> rd evs new;
       evt \<leftarrow> rd evs p;
       if event_timecmp (evt_timeout n) (evt_timeout evt) < 0
       then timeout_search evs t new p (LeftLink p)
       else timeout_search evs t new p (RightLink p) }}"

definition event_add_timeout :: "ptr \<Rightarrow> 'k ev_state \<Rightarrow> 'k ev_state option" where
  "event_add_timeout new s = do {
     n \<leftarrow> evt_of s new;
     b \<leftarrow> base_of s n;
     if has (flags n) WBA_EVTLIST_TIMEOUT then Some s
     else do {
       (parent, link) \<leftarrow> timeout_search (evts s) (timers s) new NULL RootLink;
       s \<leftarrow> on_timers (rb_link_node new parent link) s;
       s \<leftarrow> on_timers (rb_insert_color new) s;
       s \<leftarrow> upd_evt (or_flag WBA_EVTLIST_TIMEOUT) new s;
       Some (upd_base (\<lambda>b. b\<lparr>event_count := event_count b + 1\<rparr>) s) }}"

definition event_remove_timeout :: "ptr \<Rightarrow> 'k ev_state \<Rightarrow> 'k ev_state option" where
  "event_remove_timeout e s = do {
     evt \<leftarrow> evt_of s e;
     if has (flags evt) WBA_EVTLIST_TIMEOUT then do {
       b \<leftarrow> base_of s evt;
       s \<leftarrow> on_timers (rb_erase e) s;
       s \<leftarrow> upd_evt (clear_flag WBA_EVTLIST_TIMEOUT) e s;
       Some (upd_base (\<lambda>b. b\<lparr>event_count := event_count b - 1\<rparr>) s) }
     else Some s }"

section \<open>Adding and deleting events\<close>

definition event_add :: "'k os \<Rightarrow> ptr \<Rightarrow> timeval option \<Rightarrow> bool \<Rightarrow> 'k ev_state \<Rightarrow> (int \<times> 'k ev_state) option" where
  "event_add os e tv absolute s =
     (if e = NULL then Some (0, s)
      else do {
        evt \<leftarrow> evt_of s e;
        if evt_base evt = NULL then Some (0, s)
        else if has (flags evt) WBA_EVTLIST_REG \<and> tv = None then Some (1, s)
        else do {
          (r, s) \<leftarrow> (if \<not> has (flags evt) WBA_EVTLIST_REG then event_map_add os e s else Some (0, s));
          s \<leftarrow> (if r \<noteq> -1 then upd_evt (or_flag WBA_EVTLIST_REG) e s else Some s);
          case tv of
            None \<Rightarrow> Some (if r > 0 then r else 0, s)
          | Some tv' \<Rightarrow>
              if r = -1 then Some (0, s)
              else do {
                evt \<leftarrow> evt_of s e;
                s \<leftarrow> (if has (flags evt) WBA_EVTLIST_TIMEOUT then event_remove_timeout e s else Some s);
                s \<leftarrow> (if absolute then upd_evt (\<lambda>evt. evt\<lparr>evt_timeout := tv'\<rparr>) e s
                      else do {
                        s \<leftarrow> (if has (events evt) WBA_EVT_PERSIST then upd_evt (\<lambda>evt. evt\<lparr>timeout := tv'\<rparr>) e s
                              else Some s);
                        let (now, s) = event_timeget os s;
                        now \<leftarrow> now;
                        upd_evt (\<lambda>evt. evt\<lparr>evt_timeout := event_timeadd now tv'\<rparr>) e s });
                s \<leftarrow> event_add_timeout e s;
                Some (1, s) }}})"

definition wba_event_add :: "'k os \<Rightarrow> ptr \<Rightarrow> timeval option \<Rightarrow> 'k ev_state \<Rightarrow> (int \<times> 'k ev_state) option" where
  "wba_event_add os e tv s = (case tv of
     Some tv' \<Rightarrow> if tv_sec tv' < 0 \<or> tv_usec tv' < 0 then Some (0, s) else event_add os e tv False s
   | None \<Rightarrow> event_add os e tv False s)"

definition event_del :: "'k os \<Rightarrow> ptr \<Rightarrow> 'k ev_state \<Rightarrow> (int \<times> 'k ev_state) option" where
  "event_del os e s =
     (if e = NULL then Some (0, s)
      else do {
        evt \<leftarrow> evt_of s e;
        if evt_base evt = NULL then Some (0, s)
        else if \<not> has (flags evt) (WBA_EVTLIST_REG OR WBA_EVTLIST_ACTIVE) then Some (1, s)
        else do {
          s \<leftarrow> (if has (flags evt) WBA_EVTLIST_TIMEOUT then event_remove_timeout e s else Some s);
          evt \<leftarrow> evt_of s e;
          s \<leftarrow> (if has (flags evt) WBA_EVTLIST_ACTIVE then event_remove_active e s else Some s);
          evt \<leftarrow> evt_of s e;
          (r, s) \<leftarrow> (if has (flags evt) WBA_EVTLIST_REG then do {
              (r, s) \<leftarrow> event_map_remove os e s;
              s \<leftarrow> upd_evt (clear_flag WBA_EVTLIST_REG) e s;
              Some (r, s) }
            else Some (0, s));
          Some (if r > 0 then r else 0, s) }})"

definition wba_event_del :: "'k os \<Rightarrow> ptr \<Rightarrow> 'k ev_state \<Rightarrow> (int \<times> 'k ev_state) option" where
  "wba_event_del os e s = event_del os e s"

section \<open>Creating and freeing events and the base\<close>

definition zero_evt :: wba_evt where
  "zero_evt = \<lparr>cb_fn = NULL, cb_arg = NULL, evt_fd = 0, evt_base = NULL, flags = 0, events = 0, res = 0,
     timeout = Timeval 0 0, evt_timeout = Timeval 0 0\<rparr>"

text \<open>\<^verbatim>\<open>memset(evt, 0, sizeof(wba_evt_t))\<close> on the event and the structures it embeds.\<close>

definition put_evt :: "ptr \<Rightarrow> wba_evt \<Rightarrow> 'k ev_state \<Rightarrow> 'k ev_state" where
  "put_evt e evt s = s\<lparr>
     evts := (evts s)(e \<mapsto> evt),
     map_lists := (map_lists s)(e \<mapsto> \<lparr>nxt = NULL, prv = NULL\<rparr>),
     active_lists := (active_lists s)(e \<mapsto> \<lparr>nxt = NULL, prv = NULL\<rparr>),
     timers := (timers s)\<lparr>nodes := (nodes (timers s))(e \<mapsto> \<lparr>rb_parent_color = 0, rb_right = NULL, rb_left = NULL\<rparr>)\<rparr>\<rparr>"

definition wba_event_selfptr :: "'k ev_state \<Rightarrow> ptr" where
  "wba_event_selfptr s = selfptr_at s"

text \<open>\<open>mem\<close> is what \<^verbatim>\<open>malloc\<close> returns.\<close>

definition wba_event_new ::
  "ptr \<Rightarrow> ptr \<Rightarrow> 32 word \<Rightarrow> 16 word \<Rightarrow> ptr \<Rightarrow> ptr \<Rightarrow> 'k ev_state \<Rightarrow> ptr \<times> 'k ev_state"
where
  "wba_event_new mem b fd evs fn arg s =
     (if b = NULL \<or> fn = NULL then (NULL, s)
      else let fd = (if sint fd < 0 then -1 else fd) in
      if mem = NULL then (NULL, s)
      else (mem, put_evt mem (zero_evt\<lparr>evt_base := b, evt_fd := fd, cb_fn := fn,
        cb_arg := (if arg = wba_event_selfptr s then mem else arg), events := evs, flags := WBA_EVTLIST_INIT\<rparr>) s))"

definition wba_event_assign ::
  "ptr \<Rightarrow> ptr \<Rightarrow> 32 word \<Rightarrow> 16 word \<Rightarrow> ptr \<Rightarrow> ptr \<Rightarrow> 'k ev_state \<Rightarrow> (int \<times> 'k ev_state) option"
where
  "wba_event_assign e b fd evs fn arg s =
     (if e = NULL \<or> b = NULL \<or> fn = NULL then Some (0, s)
      else do {
        evt \<leftarrow> evt_of s e;
        if has (flags evt) WBA_EVTLIST_REG then Some (0, s)
        else let fd = (if sint fd < 0 then -1 else fd) in
          Some (1, put_evt e (zero_evt\<lparr>evt_base := b, evt_fd := fd, cb_fn := fn, cb_arg := arg,
            events := evs, flags := WBA_EVTLIST_INIT\<rparr>) s) })"

definition free_evt :: "ptr \<Rightarrow> 'k ev_state \<Rightarrow> 'k ev_state option" where
  "free_evt e s = do {
     _ \<leftarrow> evt_of s e;
     Some (s\<lparr>
       evts := (evts s)(e := None),
       map_lists := (map_lists s)(e := None),
       active_lists := (active_lists s)(e := None),
       timers := (timers s)\<lparr>nodes := (nodes (timers s))(e := None)\<rparr>\<rparr>) }"

definition wba_event_free :: "'k os \<Rightarrow> ptr \<Rightarrow> 'k ev_state \<Rightarrow> 'k ev_state option" where
  "wba_event_free os e s = do {
     (_, s) \<leftarrow> event_del os e s;
     if e \<noteq> NULL then free_evt e s else Some s }"

text \<open>\<^verbatim>\<open>for (i = 0; i < size; i++) INIT_LIST_HEAD(&evt_list[i])\<close>, from \<open>i\<close> on with \<open>n\<close> slots to go.\<close>

fun init_slots :: "nat \<Rightarrow> nat \<Rightarrow> ptr \<Rightarrow> list_heap \<Rightarrow> list_heap option" where
  "init_slots 0 i arr h = Some h"
| "init_slots (Suc n) i arr h = do { h \<leftarrow> INIT_LIST_HEAD (arr + 16 * of_nat i) h; init_slots n (Suc i) arr h }"

text \<open>
  \<^verbatim>\<open>wba_evtbase_new\<close>, with the results of the three calls of \<^verbatim>\<open>malloc\<close> (the base, the buffer for
  \<^verbatim>\<open>epoll_wait\<close> and the slots). The memory given to the base is fresh; \<open>None\<close> is the NULL result.
\<close>

definition wba_evtbase_new :: "'k os \<Rightarrow> ptr \<Rightarrow> ptr \<Rightarrow> ptr \<Rightarrow> ptr \<Rightarrow> 'k \<Rightarrow> ('k ev_state option \<times> 'k) option" where
  "wba_evtbase_new os self mem_base mem_events mem_list k =
     (let (ep, k) = sys_epoll_create os k in
      if ep = -1 then Some (None, k)
      else if mem_base = NULL then Some (None, k)
      else if mem_events = NULL then Some (None, k)
      else if mem_list = NULL then Some (None, k)
      else do {
        let slots = (\<lambda>p. if p \<in> (\<lambda>i. mem_list + 16 * of_nat i) ` {..<unat EVT_MAP_SIZE}
                         then Some \<lparr>nxt = NULL, prv = NULL\<rparr> else None);
        h \<leftarrow> init_slots (unat EVT_MAP_SIZE) 0 mem_list slots;
        a \<leftarrow> INIT_LIST_HEAD mem_base [mem_base \<mapsto> \<lparr>nxt = NULL, prv = NULL\<rparr>];
        Some (Some \<lparr>evts = Map.empty, base_at = mem_base,
          base = \<lparr>epfd = ep, nevts = EVT_NUM_EVENTS, evt_list = mem_list, map_size = EVT_MAP_SIZE,
            map_sizemask = EVT_MAP_SIZE - 1, map_used = 0, event_count = 0, event_count_active = 0\<rparr>,
          map_lists = h, active_lists = a, timers = \<lparr>nodes = Map.empty, root = RB_ROOT\<rparr>,
          selfptr_at = self, kernel = k\<rparr>, k) })"

section \<open>Processing\<close>

text \<open>The result is an \<^verbatim>\<open>s32\<close>: the value of the \<^verbatim>\<open>long\<close> expression is cut to 32 bits.\<close>

definition event_next_timeout :: "'k os \<Rightarrow> 'k ev_state \<Rightarrow> (32 word \<times> 'k ev_state) option" where
  "event_next_timeout os s = do {
     p \<leftarrow> rb_first (timers s);
     if p = NULL then Some (word_of_int EVT_DEF_WAIT_MS, s)
     else let (now, s) = event_timeget os s in
       case now of
         None \<Rightarrow> Some (word_of_int EVT_DEF_WAIT_MS, s)
       | Some now \<Rightarrow> do {
           evt \<leftarrow> evt_of s p;
           if event_timecmp (evt_timeout evt) now \<le> 0 then Some (0, s)
           else let tv = event_timesub (evt_timeout evt) now in
             Some (word_of_int (tv_sec tv * 1000 + tv_usec tv sdiv 1000 + 1), s) }}"

text \<open>The loop of \<^verbatim>\<open>event_process_timeout\<close>, from \<open>node\<close> on.\<close>

partial_function (option) process_timeout_from ::
  "'k os \<Rightarrow> timeval \<Rightarrow> ptr \<Rightarrow> 32 word \<Rightarrow> 'k ev_state \<Rightarrow> (32 word \<times> 'k ev_state) option"
where
  "process_timeout_from os now node cnt s =
     (if node = NULL then Some (cnt, s)
      else do {
        let p = node;
        node \<leftarrow> rb_next p (timers s);
        evt \<leftarrow> evt_of s p;
        if event_timecmp (evt_timeout evt) now > 0 then Some (cnt, s)
        else do {
          (_, s) \<leftarrow> event_del os p s;
          s \<leftarrow> event_add_active p WBA_EVT_TIMEOUT s;
          process_timeout_from os now node (cnt + 1) s }})"

definition event_process_timeout :: "'k os \<Rightarrow> 'k ev_state \<Rightarrow> (32 word \<times> 'k ev_state) option" where
  "event_process_timeout os s =
     (let (now, s) = event_timeget os s in
      case now of
        None \<Rightarrow> Some (0, s)
      | Some now \<Rightarrow> do {
          node \<leftarrow> rb_first (timers s);
          process_timeout_from os now node 0 s })"

text \<open>
  The body of the loop of \<^verbatim>\<open>event_process_active\<close>. The callback is a parameter: a function of
  the descriptor, the result bits and the argument on the state, which may call the library.
\<close>

type_synonym 'k callback = "ptr \<Rightarrow> 32 word \<Rightarrow> 16 word \<Rightarrow> ptr \<Rightarrow> 'k ev_state \<Rightarrow> 'k ev_state option"

definition reschedule :: "'k os \<Rightarrow> ptr \<Rightarrow> 'k ev_state \<Rightarrow> 'k ev_state option" where
  "reschedule os e s = do {
     evt \<leftarrow> evt_of s e;
     if tv_sec (timeout evt) \<noteq> 0 \<or> tv_usec (timeout evt) \<noteq> 0 then do {
       let (now, s) = event_timeget os s;
       now \<leftarrow> now;
       let last = (if has (res evt) WBA_EVT_TIMEOUT then evt_timeout evt else now);
       let next' = event_timeadd last (timeout evt);
       let next' = (if event_timecmp next' now < 0 then event_timeadd now (timeout evt) else next');
       (_, s) \<leftarrow> event_add os e (Some next') True s;
       Some s }
     else Some s }"

definition process_active_one :: "'k os \<Rightarrow> 'k callback \<Rightarrow> ptr \<Rightarrow> 'k ev_state \<Rightarrow> 'k ev_state option" where
  "process_active_one os cb e s = do {
     evt \<leftarrow> evt_of s e;
     s \<leftarrow> (if has (events evt) WBA_EVT_PERSIST then do {
         s \<leftarrow> event_remove_active e s;
         reschedule os e s }
       else do { (_, s) \<leftarrow> event_del os e s; Some s });
     evt \<leftarrow> evt_of s e;
     cb (cb_fn evt) (evt_fd evt) (res evt) (cb_arg evt) s }"

text \<open>\<^verbatim>\<open>list_for_each_entry_safe(evt, p, &base->evt_active_list, evt_active_next)\<close>\<close>

definition event_process_active :: "'k os \<Rightarrow> 'k callback \<Rightarrow> 'k ev_state \<Rightarrow> (32 word \<times> 'k ev_state) option" where
  "event_process_active os cb s = do {
     (h, cnt, s) \<leftarrow> list_for_each_safe (\<lambda>e (h, cnt, s). do {
         s \<leftarrow> process_active_one os cb e (s\<lparr>active_lists := h\<rparr>);
         Some (active_lists s, cnt + 1, s) }) (base_at s) (active_lists s, 0, s);
     Some (cnt, s\<lparr>active_lists := h\<rparr>) }"

text \<open>The bits that \<^verbatim>\<open>wba_event_loop\<close> makes of what \<^verbatim>\<open>epoll_wait\<close> reports.\<close>

definition loop_events :: "32 word \<Rightarrow> 16 word" where
  "loop_events what =
     (if has what (EPOLLHUP OR EPOLLERR) then WBA_EVT_READ OR WBA_EVT_WRITE
      else (if has what EPOLLIN then WBA_EVT_READ else 0) OR
           (if has what EPOLLOUT then WBA_EVT_WRITE else 0) OR
           (if has what EPOLLRDHUP then WBA_EVT_CLOSED else 0))"

fun activate_ready :: "(32 word \<times> 32 word) list \<Rightarrow> 'k ev_state \<Rightarrow> 'k ev_state option" where
  "activate_ready [] s = Some s"
| "activate_ready ((fd, what) # evs) s = do {
     s \<leftarrow> (if loop_events what = 0 then Some s else event_map_active fd (loop_events what) s);
     activate_ready evs s }"

text \<open>
  One iteration of \<^verbatim>\<open>wba_event_loop\<close>: \<open>Inl r\<close> leaves the loop with the result \<open>r\<close>, \<open>Inr n\<close> goes
  on with \<open>n\<close>, what \<^verbatim>\<open>epoll_wait\<close> returned, in \<^verbatim>\<open>res\<close>.
\<close>

definition event_loop_step :: "'k os \<Rightarrow> 'k callback \<Rightarrow> 32 word \<Rightarrow> 'k ev_state \<Rightarrow> ((32 word + 32 word) \<times> 'k ev_state) option" where
  "event_loop_step os cb r s =
     (if event_count (base s) = 0 \<and> event_count_active (base s) = 0 then Some (Inl r, s)
      else do {
        (timeout, s) \<leftarrow> event_next_timeout os s;
        let (ready, k) = sys_epoll_wait os (epfd (base s)) (nevts (base s)) timeout (kernel s);
        let s = s\<lparr>kernel := k\<rparr>;
        case ready of
          None \<Rightarrow> Some (Inl 0, s)
        | Some evs \<Rightarrow> do {
            s \<leftarrow> activate_ready evs s;
            (nto, s) \<leftarrow> event_process_timeout os s;
            (ncb, s) \<leftarrow> event_process_active os cb s;
            Some (Inr (of_nat (length evs)), s) }})"

partial_function (option) event_loop_from :: "'k os \<Rightarrow> 'k callback \<Rightarrow> 32 word \<Rightarrow> 'k ev_state \<Rightarrow> (32 word \<times> 'k ev_state) option" where
  "event_loop_from os cb r s = do {
     (x, s) \<leftarrow> event_loop_step os cb r s;
     case x of Inl r \<Rightarrow> Some (r, s) | Inr r \<Rightarrow> event_loop_from os cb r s }"

definition wba_event_loop :: "'k os \<Rightarrow> 'k callback \<Rightarrow> ptr \<Rightarrow> 'k ev_state \<Rightarrow> (32 word \<times> 'k ev_state) option" where
  "wba_event_loop os cb b s =
     (if b = NULL then Some (0, s)
      else if b \<noteq> base_at s then None
      else event_loop_from os cb 1 s)"

section \<open>Freeing the base\<close>

text \<open>\<^verbatim>\<open>event_del\<close> of every event of one slot, then of every event of the timer tree.\<close>

definition del_slot :: "'k os \<Rightarrow> ptr \<Rightarrow> 'k ev_state \<Rightarrow> 'k ev_state option" where
  "del_slot os slot s = do {
     (h, s) \<leftarrow> list_for_each_safe (\<lambda>e (h, s). do {
         (_, s) \<leftarrow> event_del os e (s\<lparr>map_lists := h\<rparr>);
         Some (map_lists s, s) }) slot (map_lists s, s);
     Some (s\<lparr>map_lists := h\<rparr>) }"

fun del_slots :: "'k os \<Rightarrow> nat \<Rightarrow> nat \<Rightarrow> 'k ev_state \<Rightarrow> 'k ev_state option" where
  "del_slots os 0 i s = Some s"
| "del_slots os (Suc n) i s = do {
     s \<leftarrow> del_slot os (evt_list (base s) + 16 * of_nat i) s;
     del_slots os n (Suc i) s }"

partial_function (option) del_timers_from :: "'k os \<Rightarrow> ptr \<Rightarrow> 'k ev_state \<Rightarrow> 'k ev_state option" where
  "del_timers_from os node s =
     (if node = NULL then Some s
      else do {
        let tn = node;
        node \<leftarrow> rb_next tn (timers s);
        (_, s) \<leftarrow> event_del os tn s;
        del_timers_from os node s })"

text \<open>
  The array of slots is freed before the timers are visited. The base and its arrays are gone
  afterwards; what is left are the events and the kernel.
\<close>

definition slot_addrs :: "wba_evtbase \<Rightarrow> ptr set" where
  "slot_addrs b = (\<lambda>i. evt_list b + 16 * of_nat i) ` {..<unat (map_size b)}"

definition free_slots :: "'k ev_state \<Rightarrow> 'k ev_state" where
  "free_slots s = s\<lparr>map_lists := (\<lambda>p. if p \<in> slot_addrs (base s) then None else map_lists s p)\<rparr>"

definition wba_evtbase_free :: "'k os \<Rightarrow> ptr \<Rightarrow> 'k ev_state \<Rightarrow> 'k ev_state option" where
  "wba_evtbase_free os b s =
     (if b = NULL then Some s
      else if b \<noteq> base_at s then None
      else do {
        s \<leftarrow> del_slots os (unat (map_size (base s))) 0 s;
        let s = free_slots s;
        node \<leftarrow> rb_first (timers s);
        s \<leftarrow> del_timers_from os node s;
        Some (s\<lparr>base_at := NULL, kernel := sys_close os (epfd (base s)) (kernel s)\<rparr>) })"

end
