(* ===== verification/EvTimer.thy ===== *)
theory EvTimer
  imports EvLoop
begin

text \<open>
  The timer tree of the event loop: a red-black tree ordered by the deadlines of its events.
  The interface \<open>timer_index\<close> extends \<open>ordered_index\<close> by the insertion that
  \<^verbatim>\<open>event_add_timeout\<close> performs.
\<close>

section \<open>The interface\<close>

definition deadline :: "wba_evt heap \<Rightarrow> ptr \<Rightarrow> timeval" where
  "deadline evs e = evt_timeout (the (evs e))"

text \<open>Where a new event goes: behind all events that are due no later.\<close>

definition insert_due :: "(ptr \<Rightarrow> timeval) \<Rightarrow> ptr \<Rightarrow> ptr list \<Rightarrow> ptr list" where
  "insert_due d a xs = takeWhile (\<lambda>x. d x \<le> d a) xs @ a # dropWhile (\<lambda>x. d x \<le> d a) xs"

lemma set_insert_due [simp]: "set (insert_due d a xs) = insert a (set xs)"
  by (metis (no_types, lifting) insert_due_def Un_insert_right list.simps(15) set_append takeWhile_dropWhile_id)

lemma length_insert_due [simp]: "length (insert_due d a xs) = Suc (length xs)"
  by (metis (no_types, lifting) add_Suc_right insert_due_def length_Cons length_append takeWhile_dropWhile_id)

lemma sorted_insert_due:
  assumes "sorted (map d xs)"
  shows "sorted (map d (insert_due d a xs))"
  using assms
proof (induction xs)
  case (Cons x xs)
  show ?case
  proof (cases "d x \<le> d a")
    case True
    have "sorted (map d (insert_due d a xs))" using Cons by simp
    moreover have "\<forall>y\<in>set (insert_due d a xs). d x \<le> d y" using Cons.prems True by auto
    moreover have "insert_due d a (x # xs) = x # insert_due d a xs" using True by (simp add: insert_due_def)
    ultimately show ?thesis by simp
  qed (use Cons.prems in \<open>auto simp: insert_due_def\<close>)
qed (simp add: insert_due_def)

lemma remove1_insert_due: "a \<notin> set xs \<Longrightarrow> remove1 a (insert_due d a xs) = xs"
  by (auto simp: insert_due_def remove1_append dest: set_takeWhileD)

locale timer_index = ordered_index +
  fixes insert :: "wba_evt heap \<Rightarrow> ptr \<Rightarrow> 'a \<Rightarrow> 'a option"
    and room :: "ptr \<Rightarrow> 'a \<Rightarrow> bool"
  assumes insert_law: "seq s xs \<Longrightarrow> sorted (map (deadline evs) xs) \<Longrightarrow> set (a # xs) \<subseteq> dom evs \<Longrightarrow>
      a \<notin> set xs \<Longrightarrow> room a s \<Longrightarrow>
      runs (insert evs a s) (\<lambda>s'. seq s' (insert_due (deadline evs) a xs) \<and> (\<forall>b. room b s \<longrightarrow> room b s'))"
    and erase_room: "seq s xs \<Longrightarrow> a \<in> set xs \<Longrightarrow> runs (erase a s) (\<lambda>s'. \<forall>b. room b s \<longrightarrow> room b s')"
begin

text \<open>Removing a timer that was just inserted gives back the old sequence.\<close>

lemma insert_erase:
  assumes "seq s xs" "sorted (map (deadline evs) xs)" "set (a # xs) \<subseteq> dom evs" "a \<notin> set xs" "room a s"
  shows "runs (Option.bind (insert evs a s) (erase a)) (\<lambda>s'. seq s' xs)"
proof (rule runs_bindI[OF insert_law[OF assms]], elim conjE)
  fix s' assume s': "seq s' (insert_due (deadline evs) a xs)"
  then show "runs (erase a s') (\<lambda>s'. seq s' xs)"
    using erase_law[OF s', of a] remove1_insert_due[OF assms(4)] by simp
qed

text \<open>The first timer is one that is due first.\<close>

lemma first_due:
  assumes "seq s xs" "sorted (map (deadline evs) xs)" "x \<in> set xs"
  shows "\<exists>f. first s = Some f \<and> f \<in> set xs \<and> deadline evs f \<le> deadline evs x"
  using assms first_law[OF assms(1)] by (cases xs) auto

lemma erase_timer:
  assumes "seq s xs" "a \<in> set xs"
  shows "runs (erase a s) (\<lambda>s'. seq s' (remove1 a xs) \<and> (\<forall>b. room b s \<longrightarrow> room b s'))"
  using runs_conj[OF erase_law[OF assms] erase_room[OF assms]] .

end

section \<open>The search\<close>

lemma load_ctx_link:
  assumes "ctx_at (nodes s) k x" "root s = ctx_root k x"
  shows "load_link (ctx_link k) s = Some x"
  using assms by (cases k rule: ctx_link.cases) (auto simp: load_link_def exec node_at_def)

lemma timeout_search_place:
  fixes t :: rb_mem
  assumes "rb_rep t (plug k u)" "sorted (map (deadline evs) (inorder (plug k u)))"
    and "set (a # inorder (plug k u)) \<subseteq> dom evs" "a \<noteq> NULL"
    and "\<forall>x\<in>set (before k). deadline evs x \<le> deadline evs a" "\<forall>x\<in>set (after k). deadline evs a < deadline evs x"
  shows "\<exists>k'. timeout_search evs t a (ctx_par k) (ctx_link k) = Some (ctx_par k', ctx_link k') \<and>
    plug k' Lf = plug k u \<and> (\<forall>x\<in>set (before k'). deadline evs x \<le> deadline evs a) \<and>
    (\<forall>x\<in>set (after k'). deadline evs a < deadline evs x)"
  using assms
proof (induction u arbitrary: k)
  case Lf
  then have "load_link (ctx_link k) t = Some NULL" using load_ctx_link[of t k NULL] by (simp add: rb_rep_plug)
  then show ?case using Lf by (subst timeout_search.simps) (auto intro!: exI[of _ k])
next
  case (Nd c l p r)
  have p: "p \<noteq> NULL" "load_link (ctx_link k) t = Some p"
    using Nd.prems(1) load_ctx_link[of t k p] by (auto simp: rb_rep_plug node_at_def)
  obtain na np where n: "evs a = Some na" "evs p = Some np" using Nd.prems(3) by (auto simp: inorder_plug)
  have step: "timeout_search evs t a (ctx_par k) (ctx_link k) =
    (if deadline evs a < deadline evs p then timeout_search evs t a p (LeftLink p)
     else timeout_search evs t a p (RightLink p))"
    using p n Nd.prems(4) by (subst timeout_search.simps) (simp add: rd_def deadline_def timecmp_simps)
  have ord: "\<forall>x\<in>set (inorder l). deadline evs x \<le> deadline evs p" "\<forall>x\<in>set (inorder r). deadline evs p \<le> deadline evs x"
    using Nd.prems(2) by (auto simp: inorder_plug sorted_append)
  show ?case
  proof (cases "deadline evs a < deadline evs p")
    case True
    have "\<exists>k'. timeout_search evs t a (ctx_par (InL c p r # k)) (ctx_link (InL c p r # k)) = Some (ctx_par k', ctx_link k') \<and>
      plug k' Lf = plug (InL c p r # k) l \<and> (\<forall>x\<in>set (before k'). deadline evs x \<le> deadline evs a) \<and>
      (\<forall>x\<in>set (after k'). deadline evs a < deadline evs x)"
      by (rule Nd.IH(1)) (use Nd.prems True ord in \<open>auto intro: less_le_trans\<close>)
    then show ?thesis using step True by simp
  next
    case False
    have "\<exists>k'. timeout_search evs t a (ctx_par (InR c p l # k)) (ctx_link (InR c p l # k)) = Some (ctx_par k', ctx_link k') \<and>
      plug k' Lf = plug (InR c p l # k) r \<and> (\<forall>x\<in>set (before k'). deadline evs x \<le> deadline evs a) \<and>
      (\<forall>x\<in>set (after k'). deadline evs a < deadline evs x)"
      by (rule Nd.IH(2)) (use Nd.prems False ord in \<open>auto intro: order_trans\<close>)
    then show ?thesis using step False by simp
  qed
qed

section \<open>Interpretation on the red-black tree\<close>

definition timer_insert :: "wba_evt heap \<Rightarrow> ptr \<Rightarrow> rb_mem \<Rightarrow> rb_mem option" where
  "timer_insert evs a t = do {
     (parent, link) \<leftarrow> timeout_search evs t a NULL RootLink;
     t \<leftarrow> rb_link_node a parent link t;
     rb_insert_color a t }"

definition timer_room :: "ptr \<Rightarrow> rb_mem \<Rightarrow> bool" where
  "timer_room a t \<longleftrightarrow> a \<noteq> NULL \<and> aligned a \<and> a \<in> dom (nodes t)"

lemma evolves_room: "evolves s t s' \<Longrightarrow> timer_room b s \<Longrightarrow> timer_room b s'"
  using tree_at_nonnull[of "nodes s'" NULL t b]
  by (cases "b \<in> addrs t") (auto simp: timer_room_def evolves_def rb_rep_def)

lemma insert_due_split:
  assumes "\<forall>x\<in>set xs. d x \<le> d a" "\<forall>x\<in>set ys. d a < d x"
  shows "insert_due d a (xs @ ys) = xs @ a # ys"
proof -
  have "takeWhile (\<lambda>x. d x \<le> d a) ys = []" "dropWhile (\<lambda>x. d x \<le> d a) ys = ys"
    using assms(2) by (cases ys; auto simp: not_le)+
  with assms(1) show ?thesis by (simp add: insert_due_def takeWhile_append dropWhile_append)
qed

lemma timer_insert_seq:
  assumes "rb_seq t xs" "sorted (map (deadline evs) xs)" "set (a # xs) \<subseteq> dom evs" "a \<notin> set xs" "timer_room a t"
  shows "runs (timer_insert evs a t) (\<lambda>t'. rb_seq t' (insert_due (deadline evs) a xs) \<and>
    (\<forall>b. timer_room b t \<longrightarrow> timer_room b t'))"
proof -
  obtain u where u: "rb_rep t u" "rb_ok u" "inorder u = xs" using assms(1) by (auto simp: rb_seq_def)
  obtain k where k: "timeout_search evs t a NULL RootLink = Some (ctx_par k, ctx_link k)" "plug k Lf = u"
    "\<forall>x\<in>set (before k). deadline evs x \<le> deadline evs a" "\<forall>x\<in>set (after k). deadline evs a < deadline evs x"
    using timeout_search_place[of t "[]" u evs a] u assms by (auto simp: timer_room_def)
  have xs: "xs = before k @ after k" using u(3) k(2) inorder_plug[of k Lf] by auto
  have "runs (do { t \<leftarrow> rb_link_node a (ctx_par k) (ctx_link k) t; rb_insert_color a t })
    (\<lambda>t'. \<exists>v. rb_ok v \<and> inorder v = before k @ a # after k \<and> evolves t v t')"
    by (rule link_insert_color) (use u k assms in \<open>auto simp: timer_room_def\<close>)
  then have "runs (timer_insert evs a t) (\<lambda>t'. \<exists>v. rb_ok v \<and> inorder v = before k @ a # after k \<and> evolves t v t')"
    using k(1) by (simp add: timer_insert_def)
  then show ?thesis
  proof (rule runs_mono, elim exE conjE)
    fix t' v assume v: "rb_ok v" "inorder v = before k @ a # after k" "evolves t v t'"
    have "insert_due (deadline evs) a xs = inorder v"
      unfolding xs v(2) by (rule insert_due_split[OF k(3,4)])
    then show "rb_seq t' (insert_due (deadline evs) a xs) \<and> (\<forall>b. timer_room b t \<longrightarrow> timer_room b t')"
      using v evolves_rep[OF v(3)] evolves_room[OF v(3)] by (auto simp: rb_seq_def)
  qed
qed

lemma timer_erase_room:
  assumes "rb_seq t xs" "a \<in> set xs"
  shows "runs (rb_erase a t) (\<lambda>t'. \<forall>b. timer_room b t \<longrightarrow> timer_room b t')"
proof -
  obtain u where u: "rb_rep t u" "rb_ok u" "a \<in> addrs u" using assms by (auto simp: rb_seq_def)
  show ?thesis by (rule runs_mono[OF rb_erase_removes[OF u]]) (auto intro: evolves_room)
qed

interpretation tm: timer_index rb_seq rb_first rb_next rb_erase timer_insert timer_room
  by unfold_locales (rule timer_insert_seq timer_erase_room; assumption)+

end
