(* ===== verification/EvInv.thy ===== *)
theory EvInv
  imports EvTimer
begin

text \<open>
  The invariant of the event base: the lists and the tree are in memory, the flags of every
  event say where it is, the timers are ordered by their deadlines and the counters count
  what they should. Each operation of the library is shown to keep it.
\<close>

section \<open>Flags\<close>

lemma has_or [simp]: "has (w OR a) b \<longleftrightarrow> has w b \<or> has a b"
  by (simp add: has_def bit.conj_disj_distrib2 or_eq_0_iff)

lemma has_or_mask [simp]: "has w (a OR b) \<longleftrightarrow> has w a \<or> has w b"
  by (simp add: has_def bit.conj_disj_distrib or_eq_0_iff)

lemma has_clear_same: "\<not> has (w AND NOT a) a"
  by (simp add: has_def and.assoc)

lemma has_clear_other: "a AND b = 0 \<Longrightarrow> has (w AND NOT a) b \<longleftrightarrow> has w b"
proof -
  assume "a AND b = 0"
  then have "b AND NOT a = b" by (intro and_not_eq_self) (simp add: and.commute)
  then have "(w AND NOT a) AND b = w AND b" by (metis and.assoc and.commute)
  then show ?thesis by (simp add: has_def)
qed

lemma has_clear_flags:
  "has (w AND NOT WBA_EVTLIST_REG) WBA_EVTLIST_ACTIVE \<longleftrightarrow> has w WBA_EVTLIST_ACTIVE"
  "has (w AND NOT WBA_EVTLIST_REG) WBA_EVTLIST_TIMEOUT \<longleftrightarrow> has w WBA_EVTLIST_TIMEOUT"
  "has (w AND NOT WBA_EVTLIST_ACTIVE) WBA_EVTLIST_REG \<longleftrightarrow> has w WBA_EVTLIST_REG"
  "has (w AND NOT WBA_EVTLIST_ACTIVE) WBA_EVTLIST_TIMEOUT \<longleftrightarrow> has w WBA_EVTLIST_TIMEOUT"
  "has (w AND NOT WBA_EVTLIST_TIMEOUT) WBA_EVTLIST_REG \<longleftrightarrow> has w WBA_EVTLIST_REG"
  "has (w AND NOT WBA_EVTLIST_TIMEOUT) WBA_EVTLIST_ACTIVE \<longleftrightarrow> has w WBA_EVTLIST_ACTIVE"
  "\<not> has (w AND NOT WBA_EVTLIST_REG) WBA_EVTLIST_REG" "\<not> has (w AND NOT WBA_EVTLIST_ACTIVE) WBA_EVTLIST_ACTIVE"
  "\<not> has (w AND NOT WBA_EVTLIST_TIMEOUT) WBA_EVTLIST_TIMEOUT"
  by ((rule has_clear_other, simp)+, (rule has_clear_same)+)

lemmas has_clear_flags_num [simp] = has_clear_flags [simplified]

lemma has_flag_consts [simp]:
  "has WBA_EVTLIST_REG WBA_EVTLIST_REG" "has WBA_EVTLIST_ACTIVE WBA_EVTLIST_ACTIVE"
  "has WBA_EVTLIST_TIMEOUT WBA_EVTLIST_TIMEOUT"
  "\<not> has WBA_EVTLIST_REG WBA_EVTLIST_ACTIVE" "\<not> has WBA_EVTLIST_REG WBA_EVTLIST_TIMEOUT"
  "\<not> has WBA_EVTLIST_ACTIVE WBA_EVTLIST_REG" "\<not> has WBA_EVTLIST_ACTIVE WBA_EVTLIST_TIMEOUT"
  "\<not> has WBA_EVTLIST_TIMEOUT WBA_EVTLIST_REG" "\<not> has WBA_EVTLIST_TIMEOUT WBA_EVTLIST_ACTIVE"
  "\<not> has WBA_EVTLIST_INIT WBA_EVTLIST_REG" "\<not> has WBA_EVTLIST_INIT WBA_EVTLIST_ACTIVE"
  "\<not> has WBA_EVTLIST_INIT WBA_EVTLIST_TIMEOUT"
  by (simp_all add: has_def)

section \<open>The invariant\<close>

definition mapped :: "wba_evt \<Rightarrow> bool" where
  "mapped evt \<longleftrightarrow> has (flags evt) WBA_EVTLIST_REG \<and> \<not> sint (evt_fd evt) < 0 \<and> has (events evt) EVT_IO"

abbreviation slots :: "'k ev_state \<Rightarrow> ptr set" where
  "slots s \<equiv> slot_addrs (base s)"

abbreviation slot_of :: "'k ev_state \<Rightarrow> wba_evt \<Rightarrow> ptr" where
  "slot_of s evt \<equiv> event_map_get_slot (base s) (evt_fd evt)"

definition entry_ok :: "'k ev_state \<Rightarrow> ptr \<Rightarrow> wba_evt \<Rightarrow> bool" where
  "entry_ok s e evt \<longleftrightarrow> e \<noteq> NULL \<and> e \<notin> slots s \<and> e \<noteq> base_at s \<and> e \<in> dom (map_lists s) \<and>
     e \<in> dom (active_lists s) \<and> timer_room e (timers s) \<and> evt_base evt = base_at s"

definition ev_core :: "'k ev_state \<Rightarrow> (ptr \<Rightarrow> ptr list) \<Rightarrow> ptr list \<Rightarrow> ptr list \<Rightarrow> bool" where
  "ev_core s L A T \<longleftrightarrow>
     base_at s \<noteq> NULL \<and> unat (map_size (base s)) = Suc (unat (map_sizemask (base s))) \<and>
     lists_rep dlist (map_lists s) (slots s) L \<and>
     dlist (active_lists s) (base_at s) A \<and>
     rb_seq (timers s) T \<and> sorted (map (deadline (evts s)) T) \<and>
     (\<forall>e evt. evts s e = Some evt \<longrightarrow> entry_ok s e evt) \<and>
     set A \<union> set T \<union> (\<Union>x\<in>slots s. set (L x)) \<subseteq> dom (evts s)"

definition ev_counts :: "'k ev_state \<Rightarrow> (ptr \<Rightarrow> ptr list) \<Rightarrow> ptr list \<Rightarrow> ptr list \<Rightarrow> bool" where
  "ev_counts s L A T \<longleftrightarrow>
     map_used (base s) = of_nat (\<Sum>x\<in>slots s. length (L x)) \<and>
     event_count (base s) = of_nat ((\<Sum>x\<in>slots s. length (L x)) + length T) \<and>
     event_count_active (base s) = of_nat (length A)"

text \<open>The flags of an event say where it is linked.\<close>

definition linked :: "'k ev_state \<Rightarrow> (ptr \<Rightarrow> ptr list) \<Rightarrow> ptr list \<Rightarrow> ptr list \<Rightarrow> ptr \<Rightarrow> wba_evt \<Rightarrow> bool" where
  "linked s L A T e evt \<longleftrightarrow>
     (has (flags evt) WBA_EVTLIST_ACTIVE \<longleftrightarrow> e \<in> set A) \<and>
     (has (flags evt) WBA_EVTLIST_TIMEOUT \<longleftrightarrow> e \<in> set T) \<and>
     (has (flags evt) WBA_EVTLIST_TIMEOUT \<longrightarrow> has (flags evt) WBA_EVTLIST_REG) \<and>
     (\<forall>x\<in>slots s. e \<in> set (L x) \<longleftrightarrow> mapped evt \<and> x = slot_of s evt)"

definition ev_inv :: "'k ev_state \<Rightarrow> (ptr \<Rightarrow> ptr list) \<Rightarrow> ptr list \<Rightarrow> ptr list \<Rightarrow> bool" where
  "ev_inv s L A T \<longleftrightarrow> ev_core s L A T \<and> ev_counts s L A T \<and>
     (\<forall>e evt. evts s e = Some evt \<longrightarrow> linked s L A T e evt)"

lemma finite_slots [simp]: "finite (slot_addrs b)"
  by (simp add: slot_addrs_def)

lemma slot_in_slots:
  assumes "unat (map_size b) = Suc (unat (map_sizemask b))" "\<not> sint fd < 0"
  shows "event_map_get_slot b fd \<in> slot_addrs b"
proof -
  have "fd AND map_sizemask b \<le> map_sizemask b" by (rule word_and_le1)
  then have "unat (fd AND map_sizemask b) < unat (map_size b)"
    using assms(1) by (simp add: word_le_nat_alt)
  moreover have "of_nat (unat (fd AND map_sizemask b)) = (ucast (fd AND map_sizemask b) :: ptr)"
    by simp
  ultimately show ?thesis using assms(2) unfolding event_map_get_slot_def slot_addrs_def
    by (auto intro!: image_eqI[of _ _ "unat (fd AND map_sizemask b)"])
qed

lemma sum_upd_length:
  assumes "finite H" "x \<in> H"
  shows "(\<Sum>y\<in>H. length ((L(x := zs)) y)) + length (L x) = (\<Sum>y\<in>H. length (L y)) + length zs"
proof -
  have "(\<Sum>y\<in>H. length ((L(x := zs)) y)) = length zs + (\<Sum>y\<in>H - {x}. length (L y))"
    using assms by (subst sum.remove[of _ x]) (auto intro: sum.cong)
  moreover have "(\<Sum>y\<in>H. length (L y)) = length (L x) + (\<Sum>y\<in>H - {x}. length (L y))"
    using assms by (rule sum.remove)
  ultimately show ?thesis by simp
qed

section \<open>Symbolic execution\<close>

named_theorems ev_exec \<open>reading and updating an event of a state that keeps the invariant\<close>

lemma evt_of_exec [ev_exec]: "ev_core s L A T \<Longrightarrow> evts s e = Some evt \<Longrightarrow> evt_of s e = Some evt"
  by (auto simp: ev_core_def entry_ok_def evt_of_def rd_def)

lemma upd_evt_exec [ev_exec]: "ev_core s L A T \<Longrightarrow> evts s e = Some evt \<Longrightarrow>
  upd_evt f e s = Some (s\<lparr>evts := (evts s)(e \<mapsto> f evt)\<rparr>)"
  by (auto simp: ev_core_def entry_ok_def upd_evt_def wr_def rd_def)

lemma base_of_exec [ev_exec]: "ev_core s L A T \<Longrightarrow> evts s e = Some evt \<Longrightarrow> base_of s evt = Some (base s)"
  by (auto simp: ev_core_def entry_ok_def base_of_def)

lemma entry_base: "ev_core s L A T \<Longrightarrow> evts s e = Some evt \<Longrightarrow> evt_base evt = base_at s \<and> base_at s \<noteq> NULL \<and> e \<noteq> NULL"
  by (auto simp: ev_core_def entry_ok_def)

text \<open>The parts of the structural invariant under the single updates of the operations.\<close>

lemma core_upd_evt:
  assumes "ev_core s L A T" "evts s e = Some evt" "evt_base evt' = evt_base evt"
    and "e \<in> set T \<longrightarrow> evt_timeout evt' = evt_timeout evt"
  shows "ev_core (s\<lparr>evts := (evts s)(e \<mapsto> evt')\<rparr>) L A T"
proof -
  have "map (deadline ((evts s)(e \<mapsto> evt'))) T = map (deadline (evts s)) T"
    using assms(2,4) by (auto simp: deadline_def)
  then have "sorted (map (deadline ((evts s)(e \<mapsto> evt'))) T)" using assms(1) by (simp only: ev_core_def)
  then show ?thesis using assms by (auto simp: ev_core_def entry_ok_def)
qed

lemma core_active_lists:
  assumes "ev_core s L A T" "dlist h (base_at s) A'" "dom h = dom (active_lists s)" "set A' \<subseteq> dom (evts s)"
  shows "ev_core (s\<lparr>active_lists := h\<rparr>) L A' T"
  using assms by (auto simp: ev_core_def entry_ok_def)

lemma core_map_lists:
  assumes "ev_core s L A T" "lists_rep dlist h (slots s) L'" "dom h = dom (map_lists s)"
    and "\<And>x. x \<in> slots s \<Longrightarrow> set (L' x) \<subseteq> dom (evts s)"
  shows "ev_core (s\<lparr>map_lists := h\<rparr>) L' A T"
proof -
  have "(\<Union>x\<in>slots s. set (L' x)) \<subseteq> dom (evts s)" using assms(4) by blast
  then show ?thesis using assms(1-3) by (auto simp: ev_core_def entry_ok_def)
qed

lemma core_slot_dom: "ev_core s L A T \<Longrightarrow> x \<in> slots s \<Longrightarrow> set (L x) \<subseteq> dom (evts s)"
  by (auto simp: ev_core_def)

lemma core_timers:
  assumes "ev_core s L A T" "rb_seq t T'" "sorted (map (deadline (evts s)) T')" "set T' \<subseteq> dom (evts s)"
    and "\<forall>b. timer_room b (timers s) \<longrightarrow> timer_room b t"
  shows "ev_core (s\<lparr>timers := t\<rparr>) L A T'"
  using assms by (auto simp: ev_core_def entry_ok_def)

definition keeps_map :: "(wba_evtbase \<Rightarrow> wba_evtbase) \<Rightarrow> bool" where
  "keeps_map f \<longleftrightarrow> (\<forall>b. evt_list (f b) = evt_list b \<and> map_size (f b) = map_size b \<and>
     map_sizemask (f b) = map_sizemask b \<and> epfd (f b) = epfd b)"

lemma slot_addrs_cong: "evt_list b' = evt_list b \<Longrightarrow> map_size b' = map_size b \<Longrightarrow> slot_addrs b' = slot_addrs b"
  by (simp add: slot_addrs_def)

lemma core_upd_base:
  assumes "ev_core s L A T" "keeps_map f"
  shows "ev_core (upd_base f s) L A T"
proof -
  have "slot_addrs (f (base s)) = slot_addrs (base s)"
    by (rule slot_addrs_cong) (use assms(2) in \<open>auto simp: keeps_map_def\<close>)
  then show ?thesis using assms by (auto simp: ev_core_def upd_base_def entry_ok_def keeps_map_def)
qed

lemma core_kernel: "ev_core s L A T \<Longrightarrow> ev_core (s\<lparr>kernel := k\<rparr>) L A T"
  by (auto simp: ev_core_def entry_ok_def)

text \<open>What an operation on the event \<open>e\<close> leaves alone.\<close>

definition rest_same :: "'k ev_state \<Rightarrow> 'k ev_state \<Rightarrow> bool" where
  "rest_same s s' \<longleftrightarrow> base_at s' = base_at s \<and> selfptr_at s' = selfptr_at s \<and>
     evt_list (base s') = evt_list (base s) \<and> map_size (base s') = map_size (base s) \<and>
     map_sizemask (base s') = map_sizemask (base s) \<and> epfd (base s') = epfd (base s)"

lemma rest_same_refl [simp]: "rest_same s s"
  by (simp add: rest_same_def)

lemma rest_same_trans: "rest_same s s' \<Longrightarrow> rest_same s' s'' \<Longrightarrow> rest_same s s''"
  by (simp add: rest_same_def)

lemma rest_same_slots: "rest_same s s' \<Longrightarrow> slots s' = slots s"
  by (rule slot_addrs_cong) (simp_all add: rest_same_def)

lemma rest_same_slot_of: "rest_same s s' \<Longrightarrow> slot_of s' evt = slot_of s evt"
  by (simp add: rest_same_def event_map_get_slot_def)

lemma linked_others:
  assumes "ev_inv s L A T" "rest_same s s'" "evts s' = (evts s)(e \<mapsto> evt')"
    and "\<forall>a. a \<noteq> e \<longrightarrow> (a \<in> set A' \<longleftrightarrow> a \<in> set A) \<and> (a \<in> set T' \<longleftrightarrow> a \<in> set T) \<and>
      (\<forall>x\<in>slots s. a \<in> set (L' x) \<longleftrightarrow> a \<in> set (L x))"
    and "linked s' L' A' T' e evt'"
  shows "\<forall>a evt. evts s' a = Some evt \<longrightarrow> linked s' L' A' T' a evt"
  using assms rest_same_slots[OF assms(2)] rest_same_slot_of[OF assms(2)]
  by (auto simp: ev_inv_def linked_def)

section \<open>The active list\<close>

lemma ev_invD: "ev_inv s L A T \<Longrightarrow> ev_core s L A T" "ev_inv s L A T \<Longrightarrow> ev_counts s L A T"
  "ev_inv s L A T \<Longrightarrow> evts s e = Some evt \<Longrightarrow> linked s L A T e evt"
  by (auto simp: ev_inv_def)

lemma add_active_step:
  assumes inv: "ev_inv s L A T" and e: "evts s e = Some evt" and na: "\<not> has (flags evt) WBA_EVTLIST_ACTIVE"
  shows "runs (event_add_active e r s) (\<lambda>s'. ev_inv s' L (A @ [e]) T \<and> rest_same s s' \<and> kernel s' = kernel s \<and>
    map_lists s' = map_lists s \<and> timers s' = timers s \<and>
    evts s' = (evts s)(e \<mapsto> evt\<lparr>res := r, flags := flags evt OR WBA_EVTLIST_ACTIVE\<rparr>))"
proof -
  note core = ev_invD(1)[OF inv]
  let ?evt = "evt\<lparr>res := r, flags := flags evt OR WBA_EVTLIST_ACTIVE\<rparr>"
  let ?s1 = "s\<lparr>evts := (evts s)(e \<mapsto> evt\<lparr>res := r\<rparr>)\<rparr>"
  let ?f = "\<lambda>b. b\<lparr>event_count_active := event_count_active b + 1\<rparr>"
  let ?s2 = "\<lambda>h. upd_base ?f (s\<lparr>active_lists := h, evts := (evts s)(e \<mapsto> ?evt)\<rparr>)"
  have eA: "e \<notin> set A" "e \<noteq> base_at s" "e \<in> dom (active_lists s)" "e \<noteq> NULL"
    using core ev_invD(3)[OF inv e] na e by (auto simp: linked_def ev_core_def entry_ok_def)
  have add: "runs (list_add_tail e (base_at s) (active_lists s)) (\<lambda>h. dlist h (base_at s) (A @ [e]) \<and> dom h = dom (active_lists s))"
    by (rule runs_mono[OF runs_list_add_tail]) (use core eA in \<open>auto simp: ev_core_def\<close>)
  have fin: "ev_inv (?s2 h) L (A @ [e]) T"
    if h: "dlist h (base_at s) (A @ [e])" "dom h = dom (active_lists s)" for h
  proof -
    have "ev_core (s\<lparr>active_lists := h\<rparr>) L (A @ [e]) T"
      using core h e by (intro core_active_lists) (auto simp: ev_core_def)
    then have "ev_core (s\<lparr>active_lists := h, evts := (evts s)(e \<mapsto> ?evt)\<rparr>) L (A @ [e]) T"
      using core_upd_evt[of "s\<lparr>active_lists := h\<rparr>" L "A @ [e]" T e evt ?evt] e by simp
    then have "ev_core (?s2 h) L (A @ [e]) T" by (rule core_upd_base) (simp add: keeps_map_def)
    moreover have "ev_counts (?s2 h) L (A @ [e]) T"
      using ev_invD(2)[OF inv] by (simp add: ev_counts_def upd_base_def slot_addrs_def)
    moreover have "\<forall>a evt. evts (?s2 h) a = Some evt \<longrightarrow> linked (?s2 h) L (A @ [e]) T a evt"
      by (rule linked_others[OF inv, where evt' = ?evt and e = e])
        (use ev_invD(3)[OF inv e] in \<open>auto simp: rest_same_def upd_base_def linked_def mapped_def slot_addrs_def
          event_map_get_slot_def\<close>)
    ultimately show ?thesis by (simp add: ev_inv_def)
  qed
  have "event_add_active e r s = Option.bind (list_add_tail e (base_at s) (active_lists s)) (\<lambda>h. Some (?s2 h))"
    using core e na eA entry_base[OF core e]
    by (simp add: event_add_active_def evt_of_def rd_def base_of_def upd_evt_def wr_def on_active_lists_def mirror_simps
        Option.bind_assoc)
  then show ?thesis using fin
    by (auto simp: runs_bind upd_base_def rest_same_def intro!: runs_mono[OF add])
qed

lemma linked_self:
  assumes "ev_inv s L A T" "evts s e = Some evt" "rest_same s s'"
    and "has (flags evt') WBA_EVTLIST_ACTIVE \<longleftrightarrow> e \<in> set A'" "has (flags evt') WBA_EVTLIST_TIMEOUT \<longleftrightarrow> e \<in> set T'"
    and "has (flags evt') WBA_EVTLIST_TIMEOUT \<longrightarrow> has (flags evt') WBA_EVTLIST_REG"
    and "evt_fd evt' = evt_fd evt" "\<forall>x\<in>slots s. e \<in> set (L' x) \<longleftrightarrow> mapped evt' \<and> x = slot_of s evt"
  shows "linked s' L' A' T' e evt'"
  using assms rest_same_slots[OF assms(3)] rest_same_slot_of[OF assms(3), of evt]
  by (simp add: linked_def event_map_get_slot_def)

lemma slot_same: "ev_inv s L A T \<Longrightarrow> evts s e = Some evt \<Longrightarrow> mapped evt' = mapped evt \<Longrightarrow>
  \<forall>x\<in>slots s. e \<in> set (L x) \<longleftrightarrow> mapped evt' \<and> x = slot_of s evt"
  by (auto simp: linked_def dest: ev_invD(3))

lemma remove_active_step:
  assumes inv: "ev_inv s L A T" and e: "evts s e = Some evt" and ac: "has (flags evt) WBA_EVTLIST_ACTIVE"
  shows "runs (event_remove_active e s) (\<lambda>s'. ev_inv s' L (remove1 e A) T \<and> rest_same s s' \<and> kernel s' = kernel s \<and>
    map_lists s' = map_lists s \<and> timers s' = timers s \<and>
    evts s' = (evts s)(e \<mapsto> clear_flag WBA_EVTLIST_ACTIVE evt))"
proof -
  note core = ev_invD(1)[OF inv]
  let ?evt = "clear_flag WBA_EVTLIST_ACTIVE evt"
  let ?f = "\<lambda>b. b\<lparr>event_count_active := event_count_active b - 1\<rparr>"
  let ?s2 = "\<lambda>h. upd_base ?f (s\<lparr>active_lists := h, evts := (evts s)(e \<mapsto> ?evt)\<rparr>)"
  have eA: "e \<in> set A" "e \<noteq> NULL" "distinct A"
    using core ev_invD(3)[OF inv e] ac e by (auto simp: linked_def ev_core_def entry_ok_def dlist_def)
  obtain xs ys where A: "A = xs @ e # ys" using eA(1) by (meson split_list)
  have rA: "remove1 e A = xs @ ys" using eA(3) by (simp add: A remove1_append)
  have del: "runs (list_del_init e (active_lists s)) (\<lambda>h. dlist h (base_at s) (remove1 e A) \<and> dom h = dom (active_lists s))"
    unfolding rA by (rule runs_mono[OF runs_list_del_init]) (use core A in \<open>auto simp: ev_core_def\<close>)
  have fin: "ev_inv (?s2 h) L (remove1 e A) T"
    if h: "dlist h (base_at s) (remove1 e A)" "dom h = dom (active_lists s)" for h
  proof -
    have "ev_core (s\<lparr>active_lists := h\<rparr>) L (remove1 e A) T"
      using core h by (intro core_active_lists) (auto simp: ev_core_def dest: notin_set_remove1)
    then have "ev_core (s\<lparr>active_lists := h, evts := (evts s)(e \<mapsto> ?evt)\<rparr>) L (remove1 e A) T"
      using core_upd_evt[of "s\<lparr>active_lists := h\<rparr>" L "remove1 e A" T e evt ?evt] e by simp
    then have "ev_core (?s2 h) L (remove1 e A) T" by (rule core_upd_base) (simp add: keeps_map_def)
    moreover have "ev_counts (?s2 h) L (remove1 e A) T"
      using ev_invD(2)[OF inv] unfolding rA by (simp add: ev_counts_def upd_base_def slot_addrs_def A)
    moreover have "\<forall>a evt. evts (?s2 h) a = Some evt \<longrightarrow> linked (?s2 h) L (remove1 e A) T a evt"
    proof (rule linked_others[OF inv, where evt' = ?evt and e = e])
      show "linked (?s2 h) L (remove1 e A) T e ?evt"
        by (rule linked_self[OF inv e _ _ _ _ _ slot_same[OF inv e]])
          (use ev_invD(3)[OF inv e] eA in \<open>auto simp: rest_same_def upd_base_def linked_def mapped_def\<close>)
    qed (use eA in \<open>auto simp: rest_same_def upd_base_def\<close>)
    ultimately show ?thesis by (simp add: ev_inv_def)
  qed
  have "event_remove_active e s = Option.bind (list_del_init e (active_lists s)) (\<lambda>h. Some (?s2 h))"
    using core e ac eA entry_base[OF core e]
    by (simp add: event_remove_active_def evt_of_def rd_def base_of_def upd_evt_def wr_def on_active_lists_def
        Option.bind_assoc)
  then show ?thesis using fin
    by (auto simp: runs_bind upd_base_def rest_same_def intro!: runs_mono[OF del])
qed

section \<open>The timers\<close>

lemma sorted_deadline_remove1: "sorted (map (deadline evs) xs) \<Longrightarrow> sorted (map (deadline evs) (remove1 e xs))"
  by (rule sorted_map_remove1)

lemma remove_timeout_step:
  assumes inv: "ev_inv s L A T" and e: "evts s e = Some evt" and tm: "has (flags evt) WBA_EVTLIST_TIMEOUT"
  shows "runs (event_remove_timeout e s) (\<lambda>s'. ev_inv s' L A (remove1 e T) \<and> rest_same s s' \<and> kernel s' = kernel s \<and>
    map_lists s' = map_lists s \<and> active_lists s' = active_lists s \<and>
    evts s' = (evts s)(e \<mapsto> clear_flag WBA_EVTLIST_TIMEOUT evt))"
proof -
  note core = ev_invD(1)[OF inv]
  let ?evt = "clear_flag WBA_EVTLIST_TIMEOUT evt"
  let ?f = "\<lambda>b. b\<lparr>event_count := event_count b - 1\<rparr>"
  let ?s2 = "\<lambda>t. upd_base ?f (s\<lparr>timers := t, evts := (evts s)(e \<mapsto> ?evt)\<rparr>)"
  have seq: "rb_seq (timers s) T" using core by (simp add: ev_core_def)
  have eT: "e \<in> set T" "e \<noteq> NULL" "distinct T"
    using core ev_invD(3)[OF inv e] tm e rb.seq_distinct[OF seq] by (auto simp: linked_def ev_core_def entry_ok_def)
  have fin: "ev_inv (?s2 t) L A (remove1 e T)"
    if t: "rb_seq t (remove1 e T)" "\<forall>b. timer_room b (timers s) \<longrightarrow> timer_room b t" for t
  proof -
    have "ev_core (s\<lparr>timers := t\<rparr>) L A (remove1 e T)"
      using core t by (intro core_timers) (auto simp: ev_core_def sorted_deadline_remove1 dest: notin_set_remove1)
    then have "ev_core (s\<lparr>timers := t, evts := (evts s)(e \<mapsto> ?evt)\<rparr>) L A (remove1 e T)"
      using core_upd_evt[of "s\<lparr>timers := t\<rparr>" L A "remove1 e T" e evt ?evt] e by simp
    then have "ev_core (?s2 t) L A (remove1 e T)" by (rule core_upd_base) (simp add: keeps_map_def)
    moreover have "length T = Suc (length (remove1 e T))"
      using eT(1) by (simp add: length_remove1) (metis Suc_pred length_pos_if_in_set)
    then have "ev_counts (?s2 t) L A (remove1 e T)"
      using ev_invD(2)[OF inv] by (simp add: ev_counts_def upd_base_def slot_addrs_def)
    moreover have "\<forall>a evt. evts (?s2 t) a = Some evt \<longrightarrow> linked (?s2 t) L A (remove1 e T) a evt"
    proof (rule linked_others[OF inv, where evt' = ?evt and e = e])
      show "linked (?s2 t) L A (remove1 e T) e ?evt"
        by (rule linked_self[OF inv e _ _ _ _ _ slot_same[OF inv e]])
          (use ev_invD(3)[OF inv e] eT in \<open>auto simp: rest_same_def upd_base_def linked_def mapped_def\<close>)
    qed (use eT in \<open>auto simp: rest_same_def upd_base_def\<close>)
    ultimately show ?thesis by (simp add: ev_inv_def)
  qed
  have "event_remove_timeout e s = Option.bind (rb_erase e (timers s)) (\<lambda>t. Some (?s2 t))"
    using core e tm eT entry_base[OF core e]
    by (simp add: event_remove_timeout_def evt_of_def rd_def base_of_def upd_evt_def wr_def on_timers_def
        Option.bind_assoc)
  then show ?thesis using fin
    by (auto simp: runs_bind upd_base_def rest_same_def intro!: runs_mono[OF tm.erase_timer[OF seq eT(1)]])
qed

lemma add_timeout_step:
  assumes inv: "ev_inv s L A T" and e: "evts s e = Some evt" and tm: "\<not> has (flags evt) WBA_EVTLIST_TIMEOUT"
    and reg: "has (flags evt) WBA_EVTLIST_REG"
  shows "runs (event_add_timeout e s) (\<lambda>s'. ev_inv s' L A (insert_due (deadline (evts s)) e T) \<and> rest_same s s' \<and>
    kernel s' = kernel s \<and> map_lists s' = map_lists s \<and> active_lists s' = active_lists s \<and>
    evts s' = (evts s)(e \<mapsto> or_flag WBA_EVTLIST_TIMEOUT evt))"
proof -
  note core = ev_invD(1)[OF inv]
  let ?evt = "or_flag WBA_EVTLIST_TIMEOUT evt" and ?T = "insert_due (deadline (evts s)) e T"
  let ?f = "\<lambda>b. b\<lparr>event_count := event_count b + 1\<rparr>"
  let ?s2 = "\<lambda>t. upd_base ?f (s\<lparr>timers := t, evts := (evts s)(e \<mapsto> ?evt)\<rparr>)"
  have seq: "rb_seq (timers s) T" and so: "sorted (map (deadline (evts s)) T)" using core by (simp_all add: ev_core_def)
  have eT: "e \<notin> set T" "e \<noteq> NULL" "timer_room e (timers s)" "set (e # T) \<subseteq> dom (evts s)"
    using core ev_invD(3)[OF inv e] tm e by (auto simp: linked_def ev_core_def entry_ok_def)
  have fin: "ev_inv (?s2 t) L A ?T"
    if t: "rb_seq t ?T" "\<forall>b. timer_room b (timers s) \<longrightarrow> timer_room b t" for t
  proof -
    have "ev_core (s\<lparr>timers := t\<rparr>) L A ?T"
      using core t e so eT by (intro core_timers) (auto simp: sorted_insert_due)
    then have "ev_core (s\<lparr>timers := t, evts := (evts s)(e \<mapsto> ?evt)\<rparr>) L A ?T"
      using core_upd_evt[of "s\<lparr>timers := t\<rparr>" L A ?T e evt ?evt] e by simp
    then have "ev_core (?s2 t) L A ?T" by (rule core_upd_base) (simp add: keeps_map_def)
    moreover have "ev_counts (?s2 t) L A ?T"
      using ev_invD(2)[OF inv] by (simp add: ev_counts_def upd_base_def slot_addrs_def)
    moreover have "\<forall>a evt. evts (?s2 t) a = Some evt \<longrightarrow> linked (?s2 t) L A ?T a evt"
    proof (rule linked_others[OF inv, where evt' = ?evt and e = e])
      show "linked (?s2 t) L A ?T e ?evt"
        by (rule linked_self[OF inv e _ _ _ _ _ slot_same[OF inv e]])
          (use ev_invD(3)[OF inv e] eT reg in \<open>auto simp: rest_same_def upd_base_def linked_def mapped_def\<close>)
    qed (use eT in \<open>auto simp: rest_same_def upd_base_def\<close>)
    ultimately show ?thesis by (simp add: ev_inv_def)
  qed
  have "event_add_timeout e s = Option.bind (timer_insert (evts s) e (timers s)) (\<lambda>t. Some (?s2 t))"
    using core e tm eT(2) entry_base[OF core e]
    by (simp add: event_add_timeout_def evt_of_def rd_def base_of_def upd_evt_def wr_def on_timers_def timer_insert_def
        Option.bind_assoc case_prod_unfold)
  then show ?thesis using fin
    by (auto simp: runs_bind upd_base_def rest_same_def intro!: runs_mono[OF tm.insert_law[OF seq so eT(4,1,3)]])
qed

section \<open>Registration\<close>

definition io_event :: "wba_evt \<Rightarrow> bool" where
  "io_event evt \<longleftrightarrow> \<not> sint (evt_fd evt) < 0 \<and> has (events evt) EVT_IO"

lemma mapped_reg: "mapped evt \<longleftrightarrow> has (flags evt) WBA_EVTLIST_REG \<and> io_event evt"
  by (simp add: mapped_def io_event_def)

text \<open>A change of the flags of an event that is not in a list or tree it concerns.\<close>

lemma inv_flags:
  assumes inv: "ev_inv s L A T" and e: "evts s e = Some evt" and evt': "evt_base evt' = evt_base evt" "evt_fd evt' = evt_fd evt"
    and lk: "has (flags evt') WBA_EVTLIST_ACTIVE \<longleftrightarrow> e \<in> set A" "has (flags evt') WBA_EVTLIST_TIMEOUT \<longleftrightarrow> e \<in> set T"
      "has (flags evt') WBA_EVTLIST_TIMEOUT \<longrightarrow> has (flags evt') WBA_EVTLIST_REG"
      "mapped evt' = mapped evt" "e \<in> set T \<longrightarrow> evt_timeout evt' = evt_timeout evt"
  shows "ev_inv (s\<lparr>evts := (evts s)(e \<mapsto> evt')\<rparr>) L A T"
proof -
  have "ev_core (s\<lparr>evts := (evts s)(e \<mapsto> evt')\<rparr>) L A T"
    using core_upd_evt[OF ev_invD(1)[OF inv] e] evt' lk by simp
  moreover have "ev_counts (s\<lparr>evts := (evts s)(e \<mapsto> evt')\<rparr>) L A T"
    using ev_invD(2)[OF inv] by (simp add: ev_counts_def)
  moreover have "linked (s\<lparr>evts := (evts s)(e \<mapsto> evt')\<rparr>) L A T e evt'"
    by (rule linked_self[OF inv e _ lk(1-3) evt'(2) slot_same[OF inv e lk(4)]]) (simp add: rest_same_def)
  then have "\<forall>a evt. evts (s\<lparr>evts := (evts s)(e \<mapsto> evt')\<rparr>) a = Some evt \<longrightarrow>
      linked (s\<lparr>evts := (evts s)(e \<mapsto> evt')\<rparr>) L A T a evt"
    by (intro linked_others[OF inv, where evt' = evt' and e = e]) (auto simp: rest_same_def)
  ultimately show ?thesis by (simp add: ev_inv_def)
qed

lemma inv_kernel: "ev_inv s L A T \<Longrightarrow> ev_inv (s\<lparr>kernel := k\<rparr>) L A T"
  by (auto simp: ev_inv_def ev_counts_def linked_def intro: core_kernel)

text \<open>Linking an event into its slot and setting its REG flag, and the converse.\<close>

lemma inv_map_add:
  assumes inv: "ev_inv s L A T" and e: "evts s e = Some evt" and nr: "\<not> has (flags evt) WBA_EVTLIST_REG"
    and io: "io_event evt" and x: "x = slot_of s evt"
    and f: "keeps_map f" "map_used (f (base s)) = map_used (base s) + 1"
      "event_count (f (base s)) = event_count (base s) + 1" "event_count_active (f (base s)) = event_count_active (base s)"
  shows "runs (list_add_tail e x (map_lists s)) (\<lambda>h.
    ev_inv (upd_base f (s\<lparr>map_lists := h, evts := (evts s)(e \<mapsto> or_flag WBA_EVTLIST_REG evt)\<rparr>)) (L(x := L x @ [e])) A T)"
proof -
  note core = ev_invD(1)[OF inv] and lk = ev_invD(3)[OF inv e]
  let ?evt = "or_flag WBA_EVTLIST_REG evt" and ?L = "L(x := L x @ [e])"
  let ?s = "\<lambda>h. upd_base f (s\<lparr>map_lists := h, evts := (evts s)(e \<mapsto> ?evt)\<rparr>)"
  have xs: "x \<in> slots s"
    using slot_in_slots[of "base s" "evt_fd evt"] core io x by (auto simp: ev_core_def io_event_def)
  have fam: "lists_rep dlist (map_lists s) (slots s) L" and eok: "entry_ok s e evt" using core e by (auto simp: ev_core_def)
  have eL: "e \<notin> set (L y)" if "y \<in> slots s" for y using lk nr that by (auto simp: linked_def mapped_def)
  have fresh: "e \<notin> entries_of (slots s) L" using eL eok by (auto simp: entries_of_def entry_ok_def)
  have sl: "slot_addrs (f b) = slot_addrs b" for b by (rule slot_addrs_cong) (use f(1) in \<open>auto simp: keeps_map_def\<close>)
  have "ev_inv (?s h) ?L A T" if h: "lists_rep dlist h (slots s) ?L" "dom h = dom (map_lists s)" for h
  proof -
    have "ev_core (s\<lparr>map_lists := h\<rparr>) ?L A T"
      by (rule core_map_lists[OF core h]) (use e core_slot_dom[OF core] in \<open>fastforce split: if_splits\<close>)
    then have "ev_core (s\<lparr>map_lists := h, evts := (evts s)(e \<mapsto> ?evt)\<rparr>) ?L A T"
      using core_upd_evt[of "s\<lparr>map_lists := h\<rparr>" ?L A T e evt ?evt] e by simp
    then have "ev_core (?s h) ?L A T" by (rule core_upd_base) (rule f(1))
    moreover have "(\<Sum>y\<in>slots s. length (?L y)) = Suc (\<Sum>y\<in>slots s. length (L y))"
      using sum_upd_length[OF finite_slots xs, of L "L x @ [e]"] by simp
    then have "ev_counts (?s h) ?L A T"
      using ev_invD(2)[OF inv] f(2-4) by (simp add: ev_counts_def upd_base_def sl del: fun_upd_apply)
    moreover have "\<forall>a evt. evts (?s h) a = Some evt \<longrightarrow> linked (?s h) ?L A T a evt"
    proof (rule linked_others[OF inv, where evt' = ?evt and e = e])
      show rs: "rest_same s (?s h)" using f(1) by (simp add: rest_same_def upd_base_def keeps_map_def)
      show "linked (?s h) ?L A T e ?evt"
        by (rule linked_self[OF inv e rs]) (use lk nr io eL x in \<open>auto simp: linked_def mapped_reg io_event_def\<close>)
    qed (auto simp: upd_base_def)
    ultimately show ?thesis by (simp add: ev_inv_def)
  qed
  then show ?thesis
    using dl.family_add_tail[OF fam xs _ _ fresh] eok by (auto simp: entry_ok_def elim!: runs_mono)
qed

lemma inv_map_remove:
  assumes inv: "ev_inv s L A T" and e: "evts s e = Some evt" and r: "has (flags evt) WBA_EVTLIST_REG"
    and nt: "\<not> has (flags evt) WBA_EVTLIST_TIMEOUT" and io: "io_event evt" and x: "x = slot_of s evt"
    and f: "keeps_map f" "map_used (f (base s)) = map_used (base s) - 1"
      "event_count (f (base s)) = event_count (base s) - 1" "event_count_active (f (base s)) = event_count_active (base s)"
  shows "runs (list_del_init e (map_lists s)) (\<lambda>h.
    ev_inv (upd_base f (s\<lparr>map_lists := h, evts := (evts s)(e \<mapsto> clear_flag WBA_EVTLIST_REG evt)\<rparr>)) (L(x := remove1 e (L x))) A T)"
proof -
  note core = ev_invD(1)[OF inv] and lk = ev_invD(3)[OF inv e]
  let ?evt = "clear_flag WBA_EVTLIST_REG evt" and ?L = "L(x := remove1 e (L x))"
  let ?s = "\<lambda>h. upd_base f (s\<lparr>map_lists := h, evts := (evts s)(e \<mapsto> ?evt)\<rparr>)"
  have xs: "x \<in> slots s"
    using slot_in_slots[of "base s" "evt_fd evt"] core io x by (auto simp: ev_core_def io_event_def)
  have fam: "lists_rep dlist (map_lists s) (slots s) L" using core by (auto simp: ev_core_def)
  have eL: "e \<in> set (L y) \<longleftrightarrow> y = x" if "y \<in> slots s" for y
    using lk r io x that by (auto simp: linked_def mapped_reg)
  have dx: "distinct (L x)" using fam xs by (auto simp: lists_rep_def dlist_def)
  have sl: "slot_addrs (f b) = slot_addrs b" for b by (rule slot_addrs_cong) (use f(1) in \<open>auto simp: keeps_map_def\<close>)
  have "ev_inv (?s h) ?L A T" if h: "lists_rep dlist h (slots s) ?L" "dom h = dom (map_lists s)" for h
  proof -
    have "ev_core (s\<lparr>map_lists := h\<rparr>) ?L A T"
      by (rule core_map_lists[OF core h]) (use core_slot_dom[OF core] set_remove1_subset[of e "L x"] in \<open>fastforce split: if_splits\<close>)
    then have "ev_core (s\<lparr>map_lists := h, evts := (evts s)(e \<mapsto> ?evt)\<rparr>) ?L A T"
      using core_upd_evt[of "s\<lparr>map_lists := h\<rparr>" ?L A T e evt ?evt] e by simp
    then have "ev_core (?s h) ?L A T" by (rule core_upd_base) (rule f(1))
    moreover have "length (L x) = Suc (length (remove1 e (L x)))"
      using eL[OF xs] by (simp add: length_remove1) (metis Suc_pred length_pos_if_in_set)
    then have "(\<Sum>y\<in>slots s. length (L y)) = Suc (\<Sum>y\<in>slots s. length (?L y))"
      using sum_upd_length[OF finite_slots xs, of L "remove1 e (L x)"] by (simp del: fun_upd_apply)
    then have "ev_counts (?s h) ?L A T"
      using ev_invD(2)[OF inv] f(2-4) by (simp add: ev_counts_def upd_base_def sl del: fun_upd_apply)
    moreover have "\<forall>a evt. evts (?s h) a = Some evt \<longrightarrow> linked (?s h) ?L A T a evt"
    proof (rule linked_others[OF inv, where evt' = ?evt and e = e])
      show rs: "rest_same s (?s h)" using f(1) by (simp add: rest_same_def upd_base_def keeps_map_def)
      show "linked (?s h) ?L A T e ?evt"
        by (rule linked_self[OF inv e rs]) (use lk nt dx eL in \<open>auto simp: linked_def mapped_reg\<close>)
    qed (auto simp: upd_base_def)
    ultimately show ?thesis by (simp add: ev_inv_def)
  qed
  then show ?thesis
    using dl.family_unlink[OF fam xs, of e] eL[OF xs] by (auto elim!: runs_mono)
qed

text \<open>\<^verbatim>\<open>event_map_add\<close> and \<^verbatim>\<open>event_map_remove\<close> with the flag change that their callers make.\<close>

lemma base_evts_commute:
  fixes s :: "'k ev_state"
  shows "s\<lparr>base := b, evts := h\<rparr> = s\<lparr>evts := h, base := b\<rparr>" "s\<lparr>kernel := k, evts := h\<rparr> = s\<lparr>evts := h, kernel := k\<rparr>"
  by (cases s, simp)+

definition reg_result :: "wba_evt \<Rightarrow> int \<Rightarrow> bool" where
  "reg_result evt r \<longleftrightarrow> (if io_event evt then r = 1 \<or> r = -1 else r = 0)"

text \<open>The call of \<^verbatim>\<open>epoll_ctl\<close> that registers an event.\<close>

definition reg_call :: "'k os \<Rightarrow> 'k ev_state \<Rightarrow> wba_evt \<Rightarrow> bool \<times> 'k" where
  "reg_call os s evt = sys_epoll_add os (epfd (base s)) (evt_fd evt) (epoll_events (events evt)) (kernel s)"

lemma reg_step:
  assumes inv: "ev_inv s L A T" and e: "evts s e = Some evt" and nr: "\<not> has (flags evt) WBA_EVTLIST_REG"
  shows "runs (do { (r, s) \<leftarrow> event_map_add os e s;
      s \<leftarrow> (if r \<noteq> -1 then upd_evt (or_flag WBA_EVTLIST_REG) e s else Some s); Some (r, s) })
    (\<lambda>(r, s'). r = (if io_event evt then if fst (reg_call os s evt) then 1 else -1 else 0) \<and> rest_same s s' \<and>
      kernel s' = (if io_event evt then snd (reg_call os s evt) else kernel s) \<and>
      ev_inv s' (if r = 1 then L(slot_of s evt := L (slot_of s evt) @ [e]) else L) A T \<and>
      evts s' = (if r = -1 then evts s else (evts s)(e \<mapsto> or_flag WBA_EVTLIST_REG evt)))"
proof -
  note core = ev_invD(1)[OF inv] and b = entry_base[OF ev_invD(1)[OF inv] e]
  have nt: "\<not> has (flags evt) WBA_EVTLIST_TIMEOUT" using ev_invD(3)[OF inv e] nr by (auto simp: linked_def)
  show ?thesis
  proof (cases "io_event evt")
    case False
    then have "event_map_add os e s = Some (0, s)"
      using core e by (auto simp: event_map_add_def evt_of_exec io_event_def)
    moreover have "ev_inv (s\<lparr>evts := (evts s)(e \<mapsto> or_flag WBA_EVTLIST_REG evt)\<rparr>) L A T"
      by (rule inv_flags[OF inv e]) (use ev_invD(3)[OF inv e] nt False in \<open>auto simp: linked_def mapped_reg io_event_def\<close>)
    ultimately show ?thesis using core e False
      by (auto simp: upd_evt_exec reg_call_def rest_same_def)
  next
    case True
    obtain ok k where k: "sys_epoll_add os (epfd (base s)) (evt_fd evt) (epoll_events (events evt)) (kernel s) = (ok, k)"
      by (cases "sys_epoll_add os (epfd (base s)) (evt_fd evt) (epoll_events (events evt)) (kernel s)")
    let ?s = "s\<lparr>kernel := k\<rparr>"
    have inv': "ev_inv ?s L A T" using inv by (rule inv_kernel)
    have reg: "event_register os e s = Some (ok, ?s)"
      using core e k by (simp add: event_register_def evt_of_exec base_of_exec)
    show ?thesis
    proof (cases ok)
      case False
      then have "event_map_add os e s = Some (-1, ?s)"
        using core e True reg by (simp add: event_map_add_def evt_of_exec io_event_def)
      then show ?thesis using inv' True k False by (auto simp: reg_call_def rest_same_def)
    next
      case ok: True
      let ?f = "\<lambda>b. b\<lparr>map_used := map_used b + 1, event_count := event_count b + 1\<rparr>"
      let ?x = "slot_of s evt"
      have add: "runs (list_add_tail e ?x (map_lists s)) (\<lambda>h. ev_inv (upd_base ?f (?s\<lparr>map_lists := h,
          evts := (evts s)(e \<mapsto> or_flag WBA_EVTLIST_REG evt)\<rparr>)) (L(?x := L ?x @ [e])) A T)"
        using inv_map_add[OF inv', of e evt ?x ?f] e nr True by (simp add: keeps_map_def)
      have "do { (r, s) \<leftarrow> event_map_add os e s;
          s \<leftarrow> (if r \<noteq> -1 then upd_evt (or_flag WBA_EVTLIST_REG) e s else Some s); Some (r, s) } =
        Option.bind (list_add_tail e ?x (map_lists s)) (\<lambda>h. Some (1, upd_base ?f (?s\<lparr>map_lists := h,
          evts := (evts s)(e \<mapsto> or_flag WBA_EVTLIST_REG evt)\<rparr>)))"
        using core e True reg ok b
        by (simp add: event_map_add_def evt_of_def rd_def io_event_def base_of_def on_map_lists_def upd_base_def
            upd_evt_def wr_def Option.bind_assoc base_evts_commute)
      then show ?thesis using True k ok
        by (auto simp: runs_bind reg_call_def rest_same_def upd_base_def intro!: runs_mono[OF add])
    qed
  qed
qed

lemma unreg_step:
  assumes inv: "ev_inv s L A T" and e: "evts s e = Some evt" and rg: "has (flags evt) WBA_EVTLIST_REG"
    and nt: "\<not> has (flags evt) WBA_EVTLIST_TIMEOUT"
  shows "runs (do { (r, s) \<leftarrow> event_map_remove os e s; s \<leftarrow> upd_evt (clear_flag WBA_EVTLIST_REG) e s; Some (r, s) })
    (\<lambda>(r, s'). reg_result evt r \<and> rest_same s s' \<and> active_lists s' = active_lists s \<and> timers s' = timers s \<and>
      (\<exists>L'. ev_inv s' L' A T \<and> L' = (if io_event evt then L(slot_of s evt := remove1 e (L (slot_of s evt))) else L)) \<and>
      evts s' = (evts s)(e \<mapsto> clear_flag WBA_EVTLIST_REG evt))"
proof -
  note core = ev_invD(1)[OF inv] and b = entry_base[OF ev_invD(1)[OF inv] e]
  show ?thesis
  proof (cases "io_event evt")
    case False
    then have "event_map_remove os e s = Some (0, s)"
      using core e by (auto simp: event_map_remove_def evt_of_exec io_event_def)
    moreover have "ev_inv (s\<lparr>evts := (evts s)(e \<mapsto> clear_flag WBA_EVTLIST_REG evt)\<rparr>) L A T"
      by (rule inv_flags[OF inv e]) (use ev_invD(3)[OF inv e] nt False in \<open>auto simp: linked_def mapped_reg io_event_def\<close>)
    ultimately show ?thesis using core e False
      by (auto simp: upd_evt_exec reg_result_def rest_same_def)
  next
    case True
    obtain ok k where k: "sys_epoll_del os (epfd (base s)) (evt_fd evt) (kernel s) = (ok, k)"
      by (cases "sys_epoll_del os (epfd (base s)) (evt_fd evt) (kernel s)")
    let ?s = "s\<lparr>kernel := k\<rparr>" and ?x = "slot_of s evt"
    let ?f = "\<lambda>b. b\<lparr>map_used := map_used b - 1, event_count := event_count b - 1\<rparr>"
    have inv': "ev_inv ?s L A T" using inv by (rule inv_kernel)
    have unreg: "event_unregister os e s = Some (ok, ?s)"
      using core e k by (simp add: event_unregister_def evt_of_exec base_of_exec)
    have del: "runs (list_del_init e (map_lists s)) (\<lambda>h. ev_inv (upd_base ?f (?s\<lparr>map_lists := h,
        evts := (evts s)(e \<mapsto> clear_flag WBA_EVTLIST_REG evt)\<rparr>)) (L(?x := remove1 e (L ?x))) A T)"
      using inv_map_remove[OF inv', of e evt ?x ?f] e rg nt True by (simp add: keeps_map_def)
    have "do { (r, s) \<leftarrow> event_map_remove os e s; s \<leftarrow> upd_evt (clear_flag WBA_EVTLIST_REG) e s; Some (r, s) } =
      Option.bind (list_del_init e (map_lists s)) (\<lambda>h. Some (if \<not> ok then -1 else 1, upd_base ?f (?s\<lparr>map_lists := h,
        evts := (evts s)(e \<mapsto> clear_flag WBA_EVTLIST_REG evt)\<rparr>)))"
      using core e True unreg b
      by (simp add: event_map_remove_def evt_of_def rd_def io_event_def base_of_def on_map_lists_def upd_base_def
          upd_evt_def wr_def Option.bind_assoc base_evts_commute)
    then show ?thesis using True
      by (auto simp: runs_bind reg_result_def rest_same_def upd_base_def intro!: runs_mono[OF del])
  qed
qed

end
