(* ===== verification/EvOps.thy ===== *)
theory EvOps
  imports EvInv
begin

text \<open>
  The operations of the event loop keep its invariant and do what they promise:
  \<^verbatim>\<open>event_del\<close>, \<^verbatim>\<open>event_add\<close>, the activation of ready descriptors and of timers that are due.
\<close>

section \<open>Deleting an event\<close>

lemma clear_id: "\<not> has w m \<Longrightarrow> w AND NOT m = w"
  by (rule and_not_eq_self) (simp add: has_def)

lemma clear_flag_id: "\<not> has (flags evt) m \<Longrightarrow> clear_flag m evt = evt"
  by (simp add: clear_id)

lemma remove_timeout_total:
  assumes inv: "ev_inv s L A T" and e: "evts s e = Some evt"
  shows "runs (if has (flags evt) WBA_EVTLIST_TIMEOUT then event_remove_timeout e s else Some s)
    (\<lambda>s'. ev_inv s' L A (remove1 e T) \<and> rest_same s s' \<and> kernel s' = kernel s \<and> active_lists s' = active_lists s \<and>
      evts s' = (evts s)(e \<mapsto> clear_flag WBA_EVTLIST_TIMEOUT evt))"
proof (cases "has (flags evt) WBA_EVTLIST_TIMEOUT")
  case True
  then show ?thesis using remove_timeout_step[OF inv e] by (auto elim!: runs_mono)
next
  case False
  then have "e \<notin> set T" using ev_invD(3)[OF inv e] by (simp add: linked_def)
  then show ?thesis using False inv e clear_flag_id[OF False] by (simp add: remove1_idem fun_upd_idem)
qed

lemma remove_active_total:
  assumes inv: "ev_inv s L A T" and e: "evts s e = Some evt"
  shows "runs (if has (flags evt) WBA_EVTLIST_ACTIVE then event_remove_active e s else Some s)
    (\<lambda>s'. ev_inv s' L (remove1 e A) T \<and> rest_same s s' \<and> kernel s' = kernel s \<and> timers s' = timers s \<and>
      evts s' = (evts s)(e \<mapsto> clear_flag WBA_EVTLIST_ACTIVE evt))"
proof (cases "has (flags evt) WBA_EVTLIST_ACTIVE")
  case True
  then show ?thesis using remove_active_step[OF inv e] by (auto elim!: runs_mono)
next
  case False
  then have "e \<notin> set A" using ev_invD(3)[OF inv e] by (simp add: linked_def)
  then show ?thesis using False inv e clear_flag_id[OF False] by (simp add: remove1_idem fun_upd_idem)
qed

text \<open>The slots after an event has been taken out of them.\<close>

definition unmap :: "'k ev_state \<Rightarrow> ptr \<Rightarrow> wba_evt \<Rightarrow> (ptr \<Rightarrow> ptr list) \<Rightarrow> ptr \<Rightarrow> ptr list" where
  "unmap s e evt L = (if mapped evt then L(slot_of s evt := remove1 e (L (slot_of s evt))) else L)"

definition del_evt :: "wba_evt \<Rightarrow> wba_evt" where
  "del_evt evt = clear_flag WBA_EVTLIST_REG (clear_flag WBA_EVTLIST_ACTIVE (clear_flag WBA_EVTLIST_TIMEOUT evt))"

lemma unreg_total:
  assumes inv: "ev_inv s L A T" and e: "evts s e = Some evt" and nt: "\<not> has (flags evt) WBA_EVTLIST_TIMEOUT"
  shows "runs (if has (flags evt) WBA_EVTLIST_REG then do {
      (r, s) \<leftarrow> event_map_remove os e s;
      s \<leftarrow> upd_evt (clear_flag WBA_EVTLIST_REG) e s;
      Some (r, s) } else Some (0, s))
    (\<lambda>(r, s'). (r = 1 \<or> r = 0 \<or> r = -1) \<and> rest_same s s' \<and> ev_inv s' (unmap s e evt L) A T \<and>
      evts s' = (evts s)(e \<mapsto> clear_flag WBA_EVTLIST_REG evt))"
proof (cases "has (flags evt) WBA_EVTLIST_REG")
  case True
  then have u: "unmap s e evt L = (if io_event evt then L(slot_of s evt := remove1 e (L (slot_of s evt))) else L)"
    by (simp add: unmap_def mapped_reg)
  show ?thesis unfolding if_P[OF True] u
    by (rule runs_mono[OF unreg_step[OF inv e True nt]]) (auto simp: reg_result_def split: if_splits)
next
  case False
  then show ?thesis using inv e clear_flag_id[OF False] by (simp add: fun_upd_idem unmap_def mapped_reg)
qed

lemma rest_same_unmap: "rest_same s s' \<Longrightarrow> evt_fd evt' = evt_fd evt \<Longrightarrow> mapped evt' = mapped evt \<Longrightarrow>
  unmap s' e evt' L = unmap s e evt L"
  by (simp add: unmap_def rest_same_def event_map_get_slot_def)

lemma event_del_step:
  assumes inv: "ev_inv s L A T" and e: "evts s e = Some evt"
  shows "runs (event_del os e s) (\<lambda>(r, s'). (r = 1 \<or> r = 0) \<and> rest_same s s' \<and>
    ev_inv s' (unmap s e evt L) (remove1 e A) (remove1 e T) \<and> evts s' = (evts s)(e \<mapsto> del_evt evt))"
proof -
  note core = ev_invD(1)[OF inv] and b = entry_base[OF ev_invD(1)[OF inv] e] and lk = ev_invD(3)[OF inv e]
  show ?thesis
  proof (cases "has (flags evt) (WBA_EVTLIST_REG OR WBA_EVTLIST_ACTIVE)")
    case False
    then have nf: "\<not> has (flags evt) WBA_EVTLIST_REG" "\<not> has (flags evt) WBA_EVTLIST_ACTIVE"
      by (simp_all only: has_or_mask de_Morgan_disj simp_thms)
    then have nt: "\<not> has (flags evt) WBA_EVTLIST_TIMEOUT" using lk by (auto simp: linked_def)
    have "del_evt evt = evt"
      by (simp only: del_evt_def clear_flag_id[OF nt] clear_flag_id[OF nf(1)] clear_flag_id[OF nf(2)])
    moreover have "e \<notin> set A" "e \<notin> set T" "\<not> mapped evt" using nf nt lk by (auto simp: linked_def mapped_reg)
    moreover have "event_del os e s = Some (1, s)" using False core e b by (simp add: event_del_def evt_of_exec)
    ultimately show ?thesis using inv e by (simp add: remove1_idem unmap_def fun_upd_idem)
  next
    case True
    let ?e1 = "clear_flag WBA_EVTLIST_TIMEOUT evt"
    let ?e2 = "clear_flag WBA_EVTLIST_ACTIVE ?e1"
    let ?c = "\<lambda>s evt. if has (flags evt) WBA_EVTLIST_REG then do {
      (r, s) \<leftarrow> event_map_remove os e s; s \<leftarrow> upd_evt (clear_flag WBA_EVTLIST_REG) e s; Some (r, s) } else Some (0, s)"
    let ?Q = "\<lambda>(r, s'). (r = 1 \<or> r = 0) \<and> rest_same s s' \<and>
      ev_inv s' (unmap s e evt L) (remove1 e A) (remove1 e T) \<and> evts s' = (evts s)(e \<mapsto> del_evt evt)"
    have step3: "runs (do { evt \<leftarrow> evt_of s2 e; (r, s) \<leftarrow> ?c s2 evt; Some (if r > 0 then r else 0, s) }) ?Q"
      if s2: "ev_inv s2 L (remove1 e A) (remove1 e T)" "rest_same s s2" "evts s2 = (evts s)(e \<mapsto> ?e2)" for s2
    proof -
      have e2: "evts s2 e = Some ?e2" using s2(3) by simp
      have um: "unmap s2 e ?e2 L = unmap s e evt L"
        by (rule rest_same_unmap[OF s2(2)]) (simp_all add: mapped_reg io_event_def)
      have nt: "\<not> has (flags ?e2) WBA_EVTLIST_TIMEOUT" by simp
      note ev = evt_of_exec[OF ev_invD(1)[OF s2(1)] e2]
      have "runs (do { (r, s) \<leftarrow> ?c s2 ?e2; Some (if r > 0 then r else 0, s) }) ?Q"
        by (rule runs_bindI[OF unreg_total[OF s2(1) e2 nt]])
          (use um s2 in \<open>auto simp: del_evt_def intro: rest_same_trans\<close>)
      then show ?thesis by (simp only: ev Option.bind.simps)
    qed
    have step2: "runs (do { evt \<leftarrow> evt_of s1 e;
        s \<leftarrow> (if has (flags evt) WBA_EVTLIST_ACTIVE then event_remove_active e s1 else Some s1);
        evt \<leftarrow> evt_of s e; (r, s) \<leftarrow> ?c s evt; Some (if r > 0 then r else 0, s) }) ?Q"
      if s1: "ev_inv s1 L A (remove1 e T)" "rest_same s s1" "evts s1 = (evts s)(e \<mapsto> ?e1)" for s1
    proof -
      have e1: "evts s1 e = Some ?e1" using s1(3) by simp
      note ev = evt_of_exec[OF ev_invD(1)[OF s1(1)] e1]
      have "runs (do { s \<leftarrow> (if has (flags ?e1) WBA_EVTLIST_ACTIVE then event_remove_active e s1 else Some s1);
        evt \<leftarrow> evt_of s e; (r, s) \<leftarrow> ?c s evt; Some (if r > 0 then r else 0, s) }) ?Q"
        by (rule runs_bindI[OF remove_active_total[OF s1(1) e1]], rule step3)
          (use s1 in \<open>auto intro: rest_same_trans\<close>)
      then show ?thesis by (simp only: ev Option.bind.simps)
    qed
    have "runs (do { s \<leftarrow> (if has (flags evt) WBA_EVTLIST_TIMEOUT then event_remove_timeout e s else Some s);
        evt \<leftarrow> evt_of s e;
        s \<leftarrow> (if has (flags evt) WBA_EVTLIST_ACTIVE then event_remove_active e s else Some s);
        evt \<leftarrow> evt_of s e; (r, s) \<leftarrow> ?c s evt; Some (if r > 0 then r else 0, s) }) ?Q"
      by (rule runs_bindI[OF remove_timeout_total[OF inv e]], rule step2) auto
    then show ?thesis using True core e b by (simp add: event_del_def evt_of_exec)
  qed
qed

section \<open>Adding an event\<close>

text \<open>The event after a successful \<^verbatim>\<open>event_add\<close>.\<close>

definition clock_works :: "'k os \<Rightarrow> bool" where
  "clock_works os \<longleftrightarrow> (\<forall>k. fst (sys_clock os k) \<noteq> None)"

lemma clock_worksE:
  assumes "clock_works os"
  obtains ts k' where "sys_clock os k = (Some ts, k')"
proof -
  obtain x k' where x: "sys_clock os k = (x, k')" by (cases "sys_clock os k")
  then have "x \<noteq> None" using assms by (metis clock_works_def fst_conv)
  with x that show thesis by auto
qed

definition clock_value :: "'k os \<Rightarrow> 'k \<Rightarrow> timeval \<Rightarrow> bool" where
  "clock_value os k now \<longleftrightarrow> (\<exists>ts. fst (sys_clock os k) = Some ts \<and> now = timeval_of_timespec ts)"

definition timed :: "'k os \<Rightarrow> 'k \<Rightarrow> bool \<Rightarrow> timeval \<Rightarrow> wba_evt \<Rightarrow> wba_evt \<Rightarrow> bool" where
  "timed os k absolute tv evt evt' \<longleftrightarrow>
     (if absolute then evt' = evt\<lparr>evt_timeout := tv\<rparr>
      else \<exists>now. clock_value os k now \<and>
        evt' = evt\<lparr>timeout := (if has (events evt) WBA_EVT_PERSIST then tv else timeout evt),
          evt_timeout := event_timeadd now tv\<rparr>)"

lemma set_time_step:
  assumes inv: "ev_inv s L A T" and e: "evts s e = Some evt" and nt: "\<not> has (flags evt) WBA_EVTLIST_TIMEOUT"
    and c: "clock_works os" and evs: "events evt = evs"
  shows "runs (if absolute then upd_evt (\<lambda>evt. evt\<lparr>evt_timeout := tv\<rparr>) e s
      else do {
        s \<leftarrow> (if has evs WBA_EVT_PERSIST then upd_evt (\<lambda>evt. evt\<lparr>timeout := tv\<rparr>) e s else Some s);
        let (now, s) = event_timeget os s;
        now \<leftarrow> now;
        upd_evt (\<lambda>evt. evt\<lparr>evt_timeout := event_timeadd now tv\<rparr>) e s })
    (\<lambda>s'. ev_inv s' L A T \<and> rest_same s s' \<and> (\<exists>evt'. timed os (kernel s) absolute tv evt evt' \<and> evts s' = (evts s)(e \<mapsto> evt')))"
proof -
  note core = ev_invD(1)[OF inv] and lk = ev_invD(3)[OF inv e]
  have eT: "e \<notin> set T" using lk nt by (simp add: linked_def)
  have upd: "ev_inv (s\<lparr>evts := (evts s)(e \<mapsto> evt\<lparr>timeout := a, evt_timeout := b\<rparr>)\<rparr>) L A T" for a b
    by (rule inv_flags[OF inv e]) (use lk eT in \<open>auto simp: linked_def mapped_reg io_event_def\<close>)
  show ?thesis
  proof (cases absolute)
    case True
    have "evt\<lparr>timeout := timeout evt, evt_timeout := tv\<rparr> = evt\<lparr>evt_timeout := tv\<rparr>" by simp
    then show ?thesis using True core e upd[where a = "timeout evt" and b = tv] by (auto simp: upd_evt_exec timed_def rest_same_def)
  next
    case False
    obtain ts k where k: "sys_clock os (kernel s) = (Some ts, k)"
      using clock_worksE[OF c] .
    let ?now = "timeval_of_timespec ts"
    let ?evt = "evt\<lparr>timeout := (if has (events evt) WBA_EVT_PERSIST then tv else timeout evt), evt_timeout := event_timeadd ?now tv\<rparr>"
    have "clock_value os (kernel s) ?now" unfolding clock_value_def using k by simp
    then have t: "timed os (kernel s) absolute tv evt ?evt" using False by (auto simp: timed_def)
    have i: "ev_inv (s\<lparr>evts := (evts s)(e \<mapsto> ?evt), kernel := k\<rparr>) L A T" using upd by (rule inv_kernel)
    have "timeout_update (\<lambda>_. timeout evt) evt = evt" by simp
    then show ?thesis using False core e t i k evs entry_base[OF core e]
      by (auto simp: event_timeget_def upd_evt_def wr_def rd_def rest_same_def base_evts_commute)
  qed
qed

definition added :: "'k os \<Rightarrow> 'k \<Rightarrow> timeval option \<Rightarrow> bool \<Rightarrow> wba_evt \<Rightarrow> wba_evt \<Rightarrow> bool" where
  "added os k tv absolute evt evt' \<longleftrightarrow> (case tv of
     None \<Rightarrow> evt' = or_flag WBA_EVTLIST_REG evt
   | Some t \<Rightarrow> \<exists>m. timed os k absolute t (clear_flag WBA_EVTLIST_TIMEOUT (or_flag WBA_EVTLIST_REG evt)) m \<and>
       evt' = or_flag WBA_EVTLIST_TIMEOUT m)"

lemma schedule_step:
  assumes inv: "ev_inv s L A T" and e: "evts s e = Some evt" and r: "has (flags evt) WBA_EVTLIST_REG" and c: "clock_works os"
  shows "runs (do {
      s \<leftarrow> (if has (flags evt) WBA_EVTLIST_TIMEOUT then event_remove_timeout e s else Some s);
      s \<leftarrow> (if absolute then upd_evt (\<lambda>evt. evt\<lparr>evt_timeout := tv\<rparr>) e s
            else do {
              s \<leftarrow> (if has (events evt) WBA_EVT_PERSIST then upd_evt (\<lambda>evt. evt\<lparr>timeout := tv\<rparr>) e s else Some s);
              let (now, s) = event_timeget os s;
              now \<leftarrow> now;
              upd_evt (\<lambda>evt. evt\<lparr>evt_timeout := event_timeadd now tv\<rparr>) e s });
      event_add_timeout e s })
    (\<lambda>s'. rest_same s s' \<and> ev_inv s' L A (insert_due (deadline (evts s')) e (remove1 e T)) \<and>
      (\<exists>m. timed os (kernel s) absolute tv (clear_flag WBA_EVTLIST_TIMEOUT evt) m \<and> evts s' = (evts s)(e \<mapsto> or_flag WBA_EVTLIST_TIMEOUT m)))"
proof (rule runs_bindI[OF remove_timeout_total[OF inv e]], elim conjE)
  let ?evt = "clear_flag WBA_EVTLIST_TIMEOUT evt" and ?T = "remove1 e T"
  let ?Q = "\<lambda>s'. rest_same s s' \<and> ev_inv s' L A (insert_due (deadline (evts s')) e ?T) \<and>
      (\<exists>m. timed os (kernel s) absolute tv ?evt m \<and> evts s' = (evts s)(e \<mapsto> or_flag WBA_EVTLIST_TIMEOUT m))"
  fix s1 assume s1: "ev_inv s1 L A ?T" "rest_same s s1" "evts s1 = (evts s)(e \<mapsto> ?evt)" "kernel s1 = kernel s"
  have e1: "evts s1 e = Some ?evt" using s1(3) by simp
  show "runs (do {
      s \<leftarrow> (if absolute then upd_evt (\<lambda>evt. evt\<lparr>evt_timeout := tv\<rparr>) e s1
            else do {
              s \<leftarrow> (if has (events evt) WBA_EVT_PERSIST then upd_evt (\<lambda>evt. evt\<lparr>timeout := tv\<rparr>) e s1 else Some s1);
              let (now, s) = event_timeget os s;
              now \<leftarrow> now;
              upd_evt (\<lambda>evt. evt\<lparr>evt_timeout := event_timeadd now tv\<rparr>) e s });
      event_add_timeout e s }) ?Q"
  proof (rule runs_bindI[OF set_time_step[OF s1(1) e1 _ c]]; (elim conjE exE)?)
    fix s2 m assume s2: "ev_inv s2 L A ?T" "rest_same s1 s2" "timed os (kernel s1) absolute tv ?evt m" "evts s2 = (evts s1)(e \<mapsto> m)"
    have e2: "evts s2 e = Some m" using s2(4) by simp
    have fl: "flags m = flags ?evt" using s2(3) by (auto simp: timed_def split: if_splits)
    have "runs (event_add_timeout e s2) (\<lambda>s'. ev_inv s' L A (insert_due (deadline (evts s2)) e ?T) \<and> rest_same s2 s' \<and>
      kernel s' = kernel s2 \<and> map_lists s' = map_lists s2 \<and> active_lists s' = active_lists s2 \<and>
      evts s' = (evts s2)(e \<mapsto> or_flag WBA_EVTLIST_TIMEOUT m))"
      by (rule add_timeout_step[OF s2(1) e2]) (use fl r in simp_all)
    then show "runs (event_add_timeout e s2) ?Q"
    proof (rule runs_mono, elim conjE)
      fix s' assume s': "ev_inv s' L A (insert_due (deadline (evts s2)) e ?T)" "rest_same s2 s'"
        "evts s' = (evts s2)(e \<mapsto> or_flag WBA_EVTLIST_TIMEOUT m)"
      have "deadline (evts s') = deadline (evts s2)" using s'(3) e2 by (auto simp: deadline_def)
      then show "?Q s'" using s' s2 s1 by (auto intro: rest_same_trans)
    qed
  qed simp_all
qed

lemma or_exp_id:
  fixes w :: "'a::len word"
  assumes "has w (2 ^ n)"
  shows "w OR 2 ^ n = w"
proof -
  have "bit w n" using assms by (simp add: has_def and_exp_eq_0_iff_not_bit)
  then show ?thesis by (intro bit_eqI) (auto simp: bit_or_iff bit_exp_iff)
qed

lemma or_reg_id: "has (flags evt) WBA_EVTLIST_REG \<Longrightarrow> or_flag WBA_EVTLIST_REG evt = evt"
  using or_exp_id[of "flags evt" 1] by simp

text \<open>
  The registration part of \<^verbatim>\<open>event_add\<close>: whether the event has to be registered with the kernel,
  whether that fails, the kernel state after it, and the lists with the event in its slot.
\<close>

definition enters :: "wba_evt \<Rightarrow> bool" where
  "enters evt \<longleftrightarrow> \<not> has (flags evt) WBA_EVTLIST_REG \<and> io_event evt"

definition add_fails :: "'k os \<Rightarrow> 'k ev_state \<Rightarrow> wba_evt \<Rightarrow> bool" where
  "add_fails os s evt \<longleftrightarrow> enters evt \<and> \<not> fst (reg_call os s evt)"

definition add_kernel :: "'k os \<Rightarrow> 'k ev_state \<Rightarrow> wba_evt \<Rightarrow> 'k" where
  "add_kernel os s evt = (if enters evt then snd (reg_call os s evt) else kernel s)"

definition link_in :: "'k ev_state \<Rightarrow> ptr \<Rightarrow> wba_evt \<Rightarrow> (ptr \<Rightarrow> ptr list) \<Rightarrow> ptr \<Rightarrow> ptr list" where
  "link_in s e evt L = L(slot_of s evt := L (slot_of s evt) @ [e])"

lemmas enters_defs = enters_def add_fails_def add_kernel_def link_in_def

lemma register_step:
  assumes inv: "ev_inv s L A T" and e: "evts s e = Some evt"
  shows "runs (do {
      (r, s) \<leftarrow> (if \<not> has (flags evt) WBA_EVTLIST_REG then event_map_add os e s else Some (0, s));
      s \<leftarrow> (if r \<noteq> -1 then upd_evt (or_flag WBA_EVTLIST_REG) e s else Some s);
      Some (r, s) })
    (\<lambda>(r, s'). rest_same s s' \<and> r = (if \<not> enters evt then 0 else if add_fails os s evt then -1 else 1) \<and>
      kernel s' = add_kernel os s evt \<and> ev_inv s' (if r = 1 then link_in s e evt L else L) A T \<and>
      evts s' = (if r = -1 then evts s else (evts s)(e \<mapsto> or_flag WBA_EVTLIST_REG evt)))"
proof (cases "has (flags evt) WBA_EVTLIST_REG")
  case True
  then show ?thesis
    using inv e or_reg_id[OF True] by (auto simp: upd_evt_exec[OF ev_invD(1)[OF inv] e] fun_upd_idem enters_defs)
next
  case False
  then have eq: "(if \<not> has (flags evt) WBA_EVTLIST_REG then event_map_add os e s else Some (0, s)) = event_map_add os e s"
    by simp
  show ?thesis unfolding eq by (rule runs_mono[OF reg_step[OF inv e False]]) (use False in \<open>auto simp: enters_defs split: if_splits\<close>)
qed

lemma event_add_step:
  assumes inv: "ev_inv s L A T" and e: "evts s e = Some evt" and c: "clock_works os"
  shows "runs (event_add os e tv absolute s) (\<lambda>(r, s'). rest_same s s' \<and>
    (if add_fails os s evt then r = 0 \<and> evts s' = evts s \<and> ev_inv s' L A T
     else r = (if tv \<noteq> None \<or> has (flags evt) WBA_EVTLIST_REG \<or> io_event evt then 1 else 0) \<and>
      (\<exists>evt'. added os (add_kernel os s evt) tv absolute evt evt' \<and> evts s' = (evts s)(e \<mapsto> evt') \<and>
         ev_inv s' (if enters evt then link_in s e evt L else L) A
           (if tv = None then T else insert_due (deadline (evts s')) e (remove1 e T)))))"
    (is "runs _ ?Q")
proof (cases "has (flags evt) WBA_EVTLIST_REG \<and> tv = None")
  case True
  then show ?thesis
    using inv e or_reg_id[of evt] entry_base[OF ev_invD(1)[OF inv] e]
    by (auto simp: event_add_def evt_of_exec[OF ev_invD(1)[OF inv] e] added_def fun_upd_idem enters_defs)
next
  case False
  note core = ev_invD(1)[OF inv] and b = entry_base[OF ev_invD(1)[OF inv] e]
  let ?reg = "do {
      (r, s) \<leftarrow> (if \<not> has (flags evt) WBA_EVTLIST_REG then event_map_add os e s else Some (0, s));
      s \<leftarrow> (if r \<noteq> -1 then upd_evt (or_flag WBA_EVTLIST_REG) e s else Some s);
      Some (r, s) }"
  let ?time = "\<lambda>tv' s. do {
      evt \<leftarrow> evt_of s e;
      s \<leftarrow> do {
        s \<leftarrow> (if has (flags evt) WBA_EVTLIST_TIMEOUT then event_remove_timeout e s else Some s);
        s \<leftarrow> (if absolute then upd_evt (\<lambda>evt. evt\<lparr>evt_timeout := tv'\<rparr>) e s
            else do {
              s \<leftarrow> (if has (events evt) WBA_EVT_PERSIST then upd_evt (\<lambda>evt. evt\<lparr>timeout := tv'\<rparr>) e s else Some s);
              let (now, s) = event_timeget os s;
              now \<leftarrow> now;
              upd_evt (\<lambda>evt. evt\<lparr>evt_timeout := event_timeadd now tv'\<rparr>) e s });
        event_add_timeout e s };
      Some (1, s) }"
  have "runs (do { (r, s) \<leftarrow> ?reg;
      case tv of None \<Rightarrow> Some (if r > 0 then r else 0, s)
      | Some tv' \<Rightarrow> if r = -1 then Some (0, s) else ?time tv' s }) ?Q"
  proof (rule runs_bindI[OF register_step[OF inv e]], goal_cases)
    case (1 x)
    obtain r s1 where x: "x = (r, s1)" by (cases x)
    have s1: "rest_same s s1" "ev_inv s1 (if r = 1 then link_in s e evt L else L) A T" "kernel s1 = add_kernel os s evt"
      and r: "r = (if \<not> enters evt then 0 else if add_fails os s evt then -1 else 1)"
      and ev1:
      "evts s1 = (if r = -1 then evts s else (evts s)(e \<mapsto> or_flag WBA_EVTLIST_REG evt))"
      using 1 unfolding x by auto
    have "runs (case tv of None \<Rightarrow> Some (if r > 0 then r else 0, s1)
      | Some tv' \<Rightarrow> if r = -1 then Some (0, s1) else ?time tv' s1) ?Q"
    proof (cases "r = -1 \<or> tv = None")
      case True
      then show ?thesis using s1 False r ev1 by (auto simp: added_def enters_defs split: option.splits if_splits)
    next
      case timed: False
      then obtain tv' where tv: "tv = Some tv'" by auto
      let ?e1 = "or_flag WBA_EVTLIST_REG evt"
      have e1: "evts s1 e = Some ?e1" using ev1 timed by simp
      note ev = evt_of_exec[OF ev_invD(1)[OF s1(2)] e1]
      have r1: "has (flags ?e1) WBA_EVTLIST_REG" by simp
      have "runs (?time tv' s1) ?Q" unfolding ev Option.bind.simps
        by (rule runs_bindI[OF schedule_step[OF s1(2) e1 r1 c]])
          (use s1 r ev1 tv timed in \<open>auto simp: added_def enters_def add_fails_def intro: rest_same_trans split: if_splits\<close>)
      then show ?thesis using tv timed by simp
    qed
    then show ?case unfolding x by (simp only: case_prod_conv)
  qed
  moreover have "event_add os e tv absolute s = do { (r, s) \<leftarrow> ?reg;
      case tv of None \<Rightarrow> Some (if r > 0 then r else 0, s)
      | Some tv' \<Rightarrow> if r = -1 then Some (0, s) else ?time tv' s }"
    using False b evt_of_exec[OF core e]
    by (cases tv) (simp_all add: event_add_def Option.bind_assoc case_prod_unfold cong: if_cong)
  ultimately show ?thesis by (simp only:)
qed

section \<open>Ready descriptors\<close>

lemma lists_idem:
  fixes s :: "'k ev_state"
  shows "map_lists s = h \<Longrightarrow> s\<lparr>map_lists := h\<rparr> = s" "active_lists s = h \<Longrightarrow> s\<lparr>active_lists := h\<rparr> = s"
  by auto

text \<open>The events whose record is made active with the result bits \<open>f evt\<close>.\<close>

definition activated :: "(wba_evt \<Rightarrow> wba_evt) \<Rightarrow> ptr set \<Rightarrow> wba_evt heap \<Rightarrow> wba_evt heap" where
  "activated f X m = (\<lambda>e. if e \<in> X then map_option f (m e) else m e)"

definition ready_evt :: "16 word \<Rightarrow> wba_evt \<Rightarrow> wba_evt" where
  "ready_evt evs evt = evt\<lparr>res := events evt AND evs, flags := flags evt OR WBA_EVTLIST_ACTIVE\<rparr>"

lemma activated_empty [simp]: "activated f {} m = m"
  by (simp add: activated_def)

lemma activated_insert: "e \<notin> X \<Longrightarrow> m e = Some evt \<Longrightarrow> activated f (insert e X) m = (activated f X m)(e \<mapsto> f evt)"
  by (auto simp: activated_def)

text \<open>The events of a slot that a readiness report activates.\<close>

definition hit :: "'k ev_state \<Rightarrow> 16 word \<Rightarrow> ptr list \<Rightarrow> ptr \<Rightarrow> bool" where
  "hit s evs A e \<longleftrightarrow> e \<notin> set A \<and> has (events (the (evts s e))) evs"

lemma map_active_step:
  assumes inv: "ev_inv s L A T" and fd: "\<not> sint fd < 0" and x: "x = event_map_get_slot (base s) fd"
  shows "runs (event_map_active fd evs s) (\<lambda>s'. rest_same s s' \<and> kernel s' = kernel s \<and>
    ev_inv s' L (A @ filter (hit s evs A) (L x)) T \<and>
    evts s' = activated (ready_evt evs) (set (filter (hit s evs A) (L x))) (evts s))"
proof -
  note core = ev_invD(1)[OF inv]
  have xs: "x \<in> slots s" using slot_in_slots[of "base s" fd] core fd x by (simp add: ev_core_def)
  have dl: "dlist (map_lists s) x (L x)" using core xs by (auto simp: ev_core_def lists_rep_def)
  then have x0: "x \<noteq> NULL" "distinct (L x)" by (auto simp: dlist_def)
  let ?body = "\<lambda>pos (h, s). do {
            evt \<leftarrow> evt_of s pos;
            s \<leftarrow> (if has (events evt) evs then event_add_active pos (events evt AND evs) (s\<lparr>map_lists := h\<rparr>)
                  else Some s);
            Some (h, s) }"
  let ?I = "\<lambda>ys (h, s'). h = map_lists s \<and> map_lists s' = map_lists s \<and> rest_same s s' \<and> kernel s' = kernel s \<and>
    ev_inv s' L (A @ filter (hit s evs A) ys) T \<and> evts s' = activated (ready_evt evs) (set (filter (hit s evs A) ys)) (evts s)"
  have "runs (list_for_each ?body x (map_lists s, s)) (?I (L x))"
  proof (rule runs_list_for_each[where I = ?I and xs = "L x"])
    show "?I ys st \<Longrightarrow> dlist (fst st) x (L x)" for ys st using dl by auto
    show "?I [] (map_lists s, s)" using inv by simp
    fix ys a zs st assume L: "L x = ys @ a # zs" and "?I ys st"
    then obtain s' where s': "st = (map_lists s, s')" "map_lists s' = map_lists s" "rest_same s s'" "kernel s' = kernel s"
      "ev_inv s' L (A @ filter (hit s evs A) ys) T" "evts s' = activated (ready_evt evs) (set (filter (hit s evs A) ys)) (evts s)"
      by (cases st) auto
    have "a \<in> set (L x)" "a \<notin> set ys" using L x0 by auto
    then obtain evt where e: "evts s a = Some evt" using core_slot_dom[OF core xs] by blast
    have e': "evts s' a = Some evt" using s'(6) e \<open>a \<notin> set ys\<close> by (simp add: activated_def)
    have act: "has (flags evt) WBA_EVTLIST_ACTIVE \<longleftrightarrow> a \<in> set A" using ev_invD(3)[OF inv e] by (simp add: linked_def)
    have upd: "s'\<lparr>map_lists := map_lists s\<rparr> = s'" using s'(2) by simp
    note ev = evt_of_exec[OF ev_invD(1)[OF s'(5)] e']
    show "runs (?body a st) (?I (ys @ [a]))"
    proof (cases "hit s evs A a")
      case True
      then have na: "\<not> has (flags evt) WBA_EVTLIST_ACTIVE" using act by (simp add: hit_def)
      have ai: "activated (ready_evt evs) (set (filter (hit s evs A) (ys @ [a]))) (evts s) = (evts s')(a \<mapsto> ready_evt evs evt)"
        using True \<open>a \<notin> set ys\<close> e s'(6) by (simp add: activated_insert)
      have h: "has (events evt) evs" using True e by (simp add: hit_def)
      have "runs (do { s2 \<leftarrow> event_add_active a (events evt AND evs) s'; Some (map_lists s, s2) }) (?I (ys @ [a]))"
        by (rule runs_bindI[OF add_active_step[OF s'(5) e' na]])
          (use s' True ai in \<open>auto simp: ready_evt_def intro: rest_same_trans\<close>)
      then show ?thesis using s'(1) ev upd h by simp
    next
      case False
      then have "event_add_active a (events evt AND evs) s' = Some s'" if "has (events evt) evs"
        using that act e ev by (simp add: event_add_active_def hit_def)
      then have "?body a st = Some (map_lists s, s')" using s'(1) ev upd by simp
      then show ?thesis using s' False by simp
    qed
  qed
  then show ?thesis using x x0
    by (auto simp: event_map_active_def Let_def runs_bind lists_idem elim!: runs_mono)
qed

section \<open>Timers that are due\<close>

definition due_evt :: "wba_evt \<Rightarrow> wba_evt" where
  "due_evt evt = (del_evt evt)\<lparr>res := WBA_EVT_TIMEOUT, flags := flags (del_evt evt) OR WBA_EVTLIST_ACTIVE\<rparr>"

lemma expire_one:
  assumes inv: "ev_inv s L A (e # T)" and e: "evts s e = Some evt"
  shows "runs (do { (_, s) \<leftarrow> event_del os e s; event_add_active e WBA_EVT_TIMEOUT s })
    (\<lambda>s'. rest_same s s' \<and> ev_inv s' (unmap s e evt L) (remove1 e A @ [e]) T \<and> evts s' = (evts s)(e \<mapsto> due_evt evt))"
proof (rule runs_bindI[OF event_del_step[OF inv e]], clarify)
  fix r s1 assume s1: "rest_same s s1" "ev_inv s1 (unmap s e evt L) (remove1 e A) (remove1 e (e # T))"
    "evts s1 = (evts s)(e \<mapsto> del_evt evt)"
  have e1: "evts s1 e = Some (del_evt evt)" using s1(3) by simp
  have na: "\<not> has (flags (del_evt evt)) WBA_EVTLIST_ACTIVE" by (simp add: del_evt_def)
  show "runs (event_add_active e WBA_EVT_TIMEOUT s1)
    (\<lambda>s'. rest_same s s' \<and> ev_inv s' (unmap s e evt L) (remove1 e A @ [e]) T \<and> evts s' = (evts s)(e \<mapsto> due_evt evt))"
    by (rule runs_mono[OF add_active_step[OF s1(2) e1 na]])
      (use s1 in \<open>auto simp: due_evt_def intro: rest_same_trans\<close>)
qed

definition due :: "timeval \<Rightarrow> wba_evt heap \<Rightarrow> ptr \<Rightarrow> bool" where
  "due now evs e \<longleftrightarrow> deadline evs e \<le> now"

lemma deadline_due_evt: "evs e = Some evt \<Longrightarrow> deadline (evs(e \<mapsto> due_evt evt)) = deadline evs"
  by (auto simp: deadline_def due_evt_def del_evt_def)

lemma process_timeout_loop:
  assumes "ev_inv s L A T"
  shows "runs (process_timeout_from os now (hd_or_null T) cnt s) (\<lambda>(c, s').
    c = cnt + of_nat (length (takeWhile (due now (evts s)) T)) \<and> rest_same s s' \<and>
    (\<exists>L'. ev_inv s' L' (filter (\<lambda>a. a \<notin> set (takeWhile (due now (evts s)) T)) A @ takeWhile (due now (evts s)) T)
       (dropWhile (due now (evts s)) T)) \<and>
    evts s' = activated due_evt (set (takeWhile (due now (evts s)) T)) (evts s))"
  using assms
proof (induction T arbitrary: s L A cnt)
  case Nil
  then show ?case by (subst process_timeout_from.simps) (auto simp: filter_id_conv)
next
  case (Cons e T)
  note core = ev_invD(1)[OF Cons.prems]
  have seq: "rb_seq (timers s) (e # T)" using core by (simp add: ev_core_def)
  obtain evt where e: "evts s e = Some evt" using core by (auto simp: ev_core_def)
  note ev = evt_of_exec[OF core e]
  have nx: "rb_next e (timers s) = Some (hd_or_null T)" using rb.succ_law[of "timers s" "[]" e T] seq by simp
  have e0: "e \<noteq> NULL" "distinct (e # T)" using entry_base[OF core e] rb.seq_distinct[OF seq] by auto
  have A: "distinct A" using core by (auto simp: ev_core_def dlist_def)
  show ?case
  proof (cases "due now (evts s) e")
    case False
    then have "event_timecmp (evt_timeout evt) now > 0" using e by (simp add: due_def deadline_def timecmp_simps not_le)
    then show ?thesis using Cons.prems e0(1) nx ev False
      by (subst process_timeout_from.simps) (auto simp: filter_id_conv)
  next
    case True
    then have cmp: "\<not> event_timecmp (evt_timeout evt) now > 0" using e by (simp add: due_def deadline_def timecmp_simps not_less)
    let ?D = "takeWhile (due now (evts s)) T"
    have "runs (do { s \<leftarrow> do { (_, s) \<leftarrow> event_del os e s; event_add_active e WBA_EVT_TIMEOUT s };
        process_timeout_from os now (hd_or_null T) (cnt + 1) s }) (\<lambda>(c, s'). c = cnt + of_nat (length (e # ?D)) \<and> rest_same s s' \<and>
      (\<exists>L'. ev_inv s' L' (filter (\<lambda>a. a \<notin> set (e # ?D)) A @ e # ?D) (dropWhile (due now (evts s)) T)) \<and>
      evts s' = activated due_evt (set (e # ?D)) (evts s))"
    proof (rule runs_bindI[OF expire_one[OF Cons.prems e]], elim conjE)
      fix s1 assume s1: "rest_same s s1" "ev_inv s1 (unmap s e evt L) (remove1 e A @ [e]) T" "evts s1 = (evts s)(e \<mapsto> due_evt evt)"
      have d: "due now (evts s1) = due now (evts s)"
        unfolding due_def s1(3) deadline_due_evt[of "evts s", OF e] ..
      have eD: "e \<notin> set ?D" using e0(2) by (auto dest: set_takeWhileD)
      have fA: "filter (\<lambda>a. a \<notin> set ?D) (remove1 e A @ [e]) @ ?D = filter (\<lambda>a. a \<notin> set (e # ?D)) A @ e # ?D"
        using A eD by (simp add: distinct_remove1_removeAll removeAll_filter_not_eq) (metis (mono_tags, lifting))
      have "activated due_evt (set ?D) (evts s1) = activated due_evt (set (e # ?D)) (evts s)"
        using s1(3) eD e by (auto simp: activated_def)
      then show "runs (process_timeout_from os now (hd_or_null T) (cnt + 1) s1) (\<lambda>(c, s'). c = cnt + of_nat (length (e # ?D)) \<and> rest_same s s' \<and>
      (\<exists>L'. ev_inv s' L' (filter (\<lambda>a. a \<notin> set (e # ?D)) A @ e # ?D) (dropWhile (due now (evts s)) T)) \<and>
      evts s' = activated due_evt (set (e # ?D)) (evts s))"
        by (intro runs_mono[OF Cons.IH[OF s1(2), of "cnt + 1", unfolded d fA]]) (use s1(1) in \<open>auto intro: rest_same_trans\<close>)
    qed
    then show ?thesis using True e0(1) nx ev cmp
      by (subst process_timeout_from.simps) (simp add: Option.bind_assoc case_prod_unfold)
  qed
qed

end
