(* ===== verification/EvRun.thy ===== *)
theory EvRun
  imports EvOps
begin

text \<open>
  The processing phases of the event loop: expired timers, active events with their
  callbacks, and one iteration of \<^verbatim>\<open>wba_event_loop\<close>.
\<close>

text \<open>The state is good and its active list is \<open>A\<close>.\<close>

definition ev_ok :: "'k ev_state \<Rightarrow> ptr list \<Rightarrow> bool" where
  "ev_ok s A \<longleftrightarrow> (\<exists>L T. ev_inv s L A T)"

lemma ev_okI: "ev_inv s L A T \<Longrightarrow> ev_ok s A"
  by (auto simp: ev_ok_def)

lemma ev_okE:
  assumes "ev_ok s A"
  obtains L T where "ev_inv s L A T"
  using assms by (auto simp: ev_ok_def)

section \<open>Expired timers\<close>

lemma process_timeout_step:
  assumes inv: "ev_inv s L A T" and c: "clock_works os"
  shows "runs (event_process_timeout os s) (\<lambda>(c, s'). rest_same s s' \<and> (\<exists>now L'. clock_value os (kernel s) now \<and>
    (let D = takeWhile (due now (evts s)) T in
     c = of_nat (length D) \<and> ev_inv s' L' (filter (\<lambda>a. a \<notin> set D) A @ D) (dropWhile (due now (evts s)) T) \<and>
     evts s' = activated due_evt (set D) (evts s))))"
proof -
  obtain ts k where k: "sys_clock os (kernel s) = (Some ts, k)" using clock_worksE[OF c] .
  have "clock_value os (kernel s) (timeval_of_timespec ts)"
    unfolding clock_value_def using k by simp
  moreover have inv': "ev_inv (s\<lparr>kernel := k\<rparr>) L A T" using inv by (rule inv_kernel)
  have "rb_seq (timers s) T" using ev_invD(1)[OF inv] by (simp add: ev_core_def)
  then have "rb_first (timers s) = Some (hd_or_null T)" by (rule rb.first_law)
  then have eq: "event_process_timeout os s =
      process_timeout_from os (timeval_of_timespec ts) (hd_or_null T) 0 (s\<lparr>kernel := k\<rparr>)"
    using k by (simp add: event_process_timeout_def event_timeget_def)
  ultimately show ?thesis unfolding eq Let_def
    by (intro runs_mono[OF process_timeout_loop[OF inv']]) (auto simp: rest_same_def)
qed

section \<open>Active events\<close>

text \<open>
  What the loop over the active list relies on: a callback may add, delete and reschedule
  events, but it must leave the events that are still waiting on the active list there.
\<close>

definition cb_ok :: "'k callback \<Rightarrow> bool" where
  "cb_ok cb \<longleftrightarrow> (\<forall>fn fd r arg s A. ev_ok s A \<longrightarrow>
     runs (cb fn fd r arg s) (\<lambda>s'. rest_same s s' \<and> ev_ok s' A))"

lemma event_add_inv:
  assumes inv: "ev_inv s L A T" and e: "evts s e = Some evt" and c: "clock_works os"
  shows "runs (event_add os e tv absolute s) (\<lambda>(r, s'). rest_same s s' \<and> ev_ok s' A \<and> dom (evts s') = dom (evts s))"
  by (rule runs_mono[OF event_add_step[OF assms]])
    (use e in \<open>auto simp: insert_absorb split: if_splits intro: ev_okI iff del: domIff intro: domI\<close>)

lemma event_del_inv:
  assumes inv: "ev_inv s L A T" and e: "evts s e = Some evt"
  shows "runs (event_del os e s) (\<lambda>(r, s'). rest_same s s' \<and> ev_ok s' (remove1 e A) \<and> dom (evts s') = dom (evts s))"
  by (rule runs_mono[OF event_del_step[OF assms]])
    (use e in \<open>auto simp: insert_absorb intro: ev_okI domI iff del: domIff\<close>)

lemma reschedule_step:
  assumes inv: "ev_inv s L A T" and e: "evts s e = Some evt" and c: "clock_works os"
  shows "runs (reschedule os e s) (\<lambda>s'. rest_same s s' \<and> ev_ok s' A \<and> e \<in> dom (evts s'))"
proof (cases "tv_sec (timeout evt) \<noteq> 0 \<or> tv_usec (timeout evt) \<noteq> 0")
  case False
  then show ?thesis using inv e by (auto intro: ev_okI simp: reschedule_def evt_of_exec[OF ev_invD(1)[OF inv] e])
next
  case True
  obtain ts k where k: "sys_clock os (kernel s) = (Some ts, k)" using clock_worksE[OF c] .
  have inv': "ev_inv (s\<lparr>kernel := k\<rparr>) L A T" using inv by (rule inv_kernel)
  have e': "evts (s\<lparr>kernel := k\<rparr>) e = Some evt" using e by simp
  have add: "runs (do { (_, s) \<leftarrow> event_add os e (Some nx) True (s\<lparr>kernel := k\<rparr>); Some s })
      (\<lambda>s'. rest_same s s' \<and> ev_ok s' A \<and> e \<in> dom (evts s'))" for nx
    by (rule runs_bindI[OF event_add_inv[OF inv' e' c]]) (use e in \<open>auto simp: rest_same_def iff del: domIff intro: domI\<close>)
  show ?thesis using True k add
    by (simp add: reschedule_def evt_of_exec[OF ev_invD(1)[OF inv] e] event_timeget_def Let_def)
qed

lemma process_one_step:
  assumes inv: "ev_inv s L (e # A) T" and c: "clock_works os" and cb: "cb_ok cb"
  shows "runs (process_active_one os cb e s) (\<lambda>s'. rest_same s s' \<and> ev_ok s' A)"
proof -
  note core = ev_invD(1)[OF inv]
  obtain evt where e: "evts s e = Some evt" using core by (auto simp: ev_core_def)
  have ac: "has (flags evt) WBA_EVTLIST_ACTIVE" using ev_invD(3)[OF inv e] by (simp add: linked_def)
  let ?Q = "\<lambda>s'. rest_same s s' \<and> ev_ok s' A"
  let ?pre = "if has (events evt) WBA_EVT_PERSIST then do { s \<leftarrow> event_remove_active e s; reschedule os e s }
       else do { (_, s) \<leftarrow> event_del os e s; Some s }"
  have pre: "runs ?pre (\<lambda>s'. ?Q s' \<and> e \<in> dom (evts s'))"
  proof (cases "has (events evt) WBA_EVT_PERSIST")
    case True
    have "runs (do { s \<leftarrow> event_remove_active e s; reschedule os e s }) (\<lambda>s'. ?Q s' \<and> e \<in> dom (evts s'))"
    proof (rule runs_bindI[OF remove_active_step[OF inv e ac]], elim conjE)
      fix s1 assume s1: "ev_inv s1 L (remove1 e (e # A)) T" "rest_same s s1" "evts s1 = (evts s)(e \<mapsto> clear_flag WBA_EVTLIST_ACTIVE evt)"
      have e1: "evts s1 e = Some (clear_flag WBA_EVTLIST_ACTIVE evt)" using s1(3) by simp
      show "runs (reschedule os e s1) (\<lambda>s'. ?Q s' \<and> e \<in> dom (evts s'))"
        by (rule runs_mono[OF reschedule_step[OF s1(1) e1 c]]) (use s1(2) in \<open>auto intro: rest_same_trans\<close>)
    qed
    then show ?thesis using True by simp
  next
    case False
    have "runs (do { (_, s) \<leftarrow> event_del os e s; Some s }) (\<lambda>s'. ?Q s' \<and> e \<in> dom (evts s'))"
      by (rule runs_bindI[OF event_del_inv[OF inv e]]) (use e in \<open>auto iff del: domIff intro: domI\<close>)
    then show ?thesis using False by simp
  qed
  have "runs (do { s \<leftarrow> ?pre; evt \<leftarrow> evt_of s e; cb (cb_fn evt) (evt_fd evt) (res evt) (cb_arg evt) s }) ?Q"
  proof (rule runs_bindI[OF pre], elim conjE ev_okE)
    fix s1 L1 T1 assume s1: "rest_same s s1" "e \<in> dom (evts s1)" "ev_inv s1 L1 A T1"
    obtain evt1 where e1: "evts s1 e = Some evt1" using s1(2) by auto
    have "runs (cb (cb_fn evt1) (evt_fd evt1) (res evt1) (cb_arg evt1) s1) (\<lambda>s'. rest_same s1 s' \<and> ev_ok s' A)"
      using cb ev_okI[OF s1(3)] by (auto simp: cb_ok_def)
    then have "runs (cb (cb_fn evt1) (evt_fd evt1) (res evt1) (cb_arg evt1) s1) ?Q"
      by (rule runs_mono) (use s1(1) in \<open>auto intro: rest_same_trans\<close>)
    then show "runs (do { evt \<leftarrow> evt_of s1 e; cb (cb_fn evt) (evt_fd evt) (res evt) (cb_arg evt) s1 }) ?Q"
      using evt_of_exec[OF ev_invD(1)[OF s1(3)] e1] by simp
  qed
  then show ?thesis using evt_of_exec[OF core e] by (simp add: process_active_one_def)
qed

lemma process_active_step:
  assumes inv: "ev_inv s L A T" and c: "clock_works os" and cb: "cb_ok cb"
  shows "runs (event_process_active os cb s) (\<lambda>(n, s'). n = of_nat (length A) \<and> rest_same s s' \<and> ev_ok s' [])"
proof -
  let ?body = "\<lambda>e (h, cnt, s). do {
         s \<leftarrow> process_active_one os cb e (s\<lparr>active_lists := h\<rparr>);
         Some (active_lists s, cnt + 1, s) }"
  let ?I = "\<lambda>zs (h, cnt, s'). h = active_lists s' \<and> rest_same s s' \<and> ev_ok s' zs \<and>
    cnt + of_nat (length zs) = (of_nat (length A) :: 32 word)"
  have dl: "dlist (active_lists s') (base_at s) zs" if "ev_inv s' L' zs T'" "rest_same s s'" for s' zs L' T'
    using that by (auto simp: ev_inv_def ev_core_def rest_same_def)
  have "runs (list_for_each_safe ?body (base_at s) (active_lists s, 0, s)) (?I [])"
  proof (rule runs_list_for_each_safe[where I = ?I and xs = A])
    fix zs st assume "?I zs st"
    then have "dlist (fst st) (base_at s) ([] @ zs)" using dl by (auto elim!: ev_okE)
    then show "\<exists>us. dlist (fst st) (base_at s) (us @ zs)" by blast
  next
    fix a zs st assume "?I (a # zs) st"
    then obtain cnt s' L' T' where st: "st = (active_lists s', cnt, s')" "rest_same s s'" "ev_inv s' L' (a # zs) T'"
      "cnt + of_nat (length (a # zs)) = (of_nat (length A) :: 32 word)" by (cases st) (auto elim!: ev_okE)
    have "runs (do { s \<leftarrow> process_active_one os cb a s'; Some (active_lists s, cnt + 1, s) }) (?I zs)"
      by (rule runs_bindI[OF process_one_step[OF st(3) c cb]])
        (use st(2,4) in \<open>auto simp: algebra_simps intro: rest_same_trans\<close>)
    then show "runs (?body a st) (?I zs)" using st(1) by simp
  qed (use inv dl in \<open>auto intro: ev_okI\<close>)
  then show ?thesis
    by (auto simp: event_process_active_def runs_bind lists_idem elim!: runs_mono)
qed

section \<open>One iteration of the loop\<close>

lemma activate_ready_step:
  assumes "ev_inv s L A T"
  shows "runs (activate_ready evs s) (\<lambda>s'. rest_same s s' \<and> (\<exists>A'. ev_inv s' L A' T))"
  using assms
proof (induction evs arbitrary: s A)
  case (Cons ev evs)
  obtain fd what where ev: "ev = (fd, what)" by (cases ev)
  have one: "runs (if loop_events what = 0 then Some s else event_map_active fd (loop_events what) s)
    (\<lambda>s'. rest_same s s' \<and> (\<exists>A'. ev_inv s' L A' T))"
  proof (cases "sint fd < 0")
    case True
    then show ?thesis using Cons.prems by (auto simp: event_map_active_def event_map_get_slot_def)
  next
    case False
    have "runs (event_map_active fd (loop_events what) s) (\<lambda>s'. rest_same s s' \<and> (\<exists>A'. ev_inv s' L A' T))"
      by (rule runs_mono[OF map_active_step[OF Cons.prems False refl]]) auto
    then show ?thesis using Cons.prems by auto
  qed
  show ?case unfolding ev activate_ready.simps
  proof (rule runs_bindI[OF one], elim conjE exE)
    fix s1 A1 assume s1: "rest_same s s1" "ev_inv s1 L A1 T"
    show "runs (activate_ready evs s1) (\<lambda>s'. rest_same s s' \<and> (\<exists>A'. ev_inv s' L A' T))"
      by (rule runs_mono[OF Cons.IH[OF s1(2)]]) (use s1(1) in \<open>auto intro: rest_same_trans\<close>)
  qed
qed auto

lemma next_timeout_step:
  assumes inv: "ev_inv s L A T"
  shows "runs (event_next_timeout os s) (\<lambda>(n, s'). rest_same s s' \<and> ev_inv s' L A T)"
proof -
  have f: "rb_first (timers s) = Some (hd_or_null T)"
    using ev_invD(1)[OF inv] by (intro rb.first_law) (simp add: ev_core_def)
  show ?thesis
  proof (cases T)
    case Nil
    then show ?thesis using f inv by (simp add: event_next_timeout_def)
  next
    case (Cons e T')
    then obtain evt where e: "evts s e = Some evt" using ev_invD(1)[OF inv] by (auto simp: ev_core_def)
    have ev: "evt_of (s\<lparr>kernel := k\<rparr>) e = Some evt" for k
      using evt_of_exec[OF ev_invD(1)[OF inv] e] by (simp add: evt_of_def)
    show ?thesis using f Cons inv entry_base[OF ev_invD(1)[OF inv] e] ev
      by (auto simp: event_next_timeout_def event_timeget_def Let_def rest_same_def case_prod_unfold
          intro: inv_kernel split: option.split)
  qed
qed

lemma loop_step_inv:
  assumes inv: "ev_inv s L A T" and c: "clock_works os" and cb: "cb_ok cb"
  shows "runs (event_loop_step os cb r s) (\<lambda>(x, s'). rest_same s s' \<and>
    (case x of Inl n \<Rightarrow> \<exists>A'. ev_ok s' A' | Inr n \<Rightarrow> ev_ok s' []))" (is "runs _ ?Q")
proof (cases "event_count (base s) = 0 \<and> event_count_active (base s) = 0")
  case True
  then show ?thesis using inv by (auto simp: event_loop_step_def intro: ev_okI)
next
  case False
  let ?body = "\<lambda>evs s. do {
            s \<leftarrow> activate_ready evs s;
            (nto, s) \<leftarrow> event_process_timeout os s;
            (ncb, s) \<leftarrow> event_process_active os cb s;
            Some (Inr (of_nat (length evs)), s) }"
  have active: "runs (do { (ncb, s) \<leftarrow> event_process_active os cb s1; Some (Inr n, s) }) ?Q"
    if "rest_same s s1" "ev_inv s1 L1 A1 T1" for s1 L1 A1 T1 and n :: "32 word"
    by (rule runs_bindI[OF process_active_step[OF that(2) c cb]]) (use that(1) in \<open>auto intro: rest_same_trans\<close>)
  have tmo: "runs (do { (nto, s) \<leftarrow> event_process_timeout os s1; (ncb, s) \<leftarrow> event_process_active os cb s; Some (Inr n, s) }) ?Q"
    if s1: "rest_same s s1" "ev_inv s1 L1 A1 T1" for s1 L1 A1 T1 and n :: "32 word"
    by (rule runs_bindI[OF process_timeout_step[OF s1(2) c]])
      (use s1(1) in \<open>auto simp: Let_def intro!: active intro: rest_same_trans\<close>)
  have ready: "runs (?body evs s1) ?Q" if s1: "rest_same s s1" "ev_inv s1 L1 A1 T1" for s1 L1 A1 T1 evs
    by (rule runs_bindI[OF activate_ready_step[OF s1(2)]]) (use s1(1) in \<open>auto intro!: tmo intro: rest_same_trans\<close>)
  have "runs (do { (timeout, s) \<leftarrow> event_next_timeout os s;
        let (ready, k) = sys_epoll_wait os (epfd (base s)) (nevts (base s)) timeout (kernel s);
        let s = s\<lparr>kernel := k\<rparr>;
        case ready of None \<Rightarrow> Some (Inl 0, s) | Some evs \<Rightarrow> ?body evs s }) ?Q"
  proof (rule runs_bindI[OF next_timeout_step[OF inv]], clarify)
    fix n s1 assume s1: "rest_same s s1" "ev_inv s1 L A T"
    obtain x k where x: "sys_epoll_wait os (epfd (base s1)) (nevts (base s1)) n (kernel s1) = (x, k)"
      by (cases "sys_epoll_wait os (epfd (base s1)) (nevts (base s1)) n (kernel s1)")
    have s2: "rest_same s (s1\<lparr>kernel := k\<rparr>)" "ev_inv (s1\<lparr>kernel := k\<rparr>) L A T"
      using s1 inv_kernel[OF s1(2)] by (auto simp: rest_same_def)
    show "runs (let (ready, k) = sys_epoll_wait os (epfd (base s1)) (nevts (base s1)) n (kernel s1);
        s = s1\<lparr>kernel := k\<rparr> in case ready of None \<Rightarrow> Some (Inl 0, s) | Some evs \<Rightarrow> ?body evs s) ?Q"
      using x s2 ready[OF s2] by (cases x) (auto intro: ev_okI)
  qed
  moreover have "event_loop_step os cb r s = do { (timeout, s) \<leftarrow> event_next_timeout os s;
        let (ready, k) = sys_epoll_wait os (epfd (base s)) (nevts (base s)) timeout (kernel s);
        let s = s\<lparr>kernel := k\<rparr>;
        case ready of None \<Rightarrow> Some (Inl 0, s) | Some evs \<Rightarrow> ?body evs s }"
    unfolding event_loop_step_def if_not_P[OF False] ..
  ultimately show ?thesis by (simp only:)
qed

end
