(* ===== verification/EvLife.thy ===== *)
theory EvLife
  imports EvRun
begin

text \<open>
  Creation and destruction: \<^verbatim>\<open>wba_evtbase_new\<close> establishes the invariant, and creating,
  assigning and freeing events keep it.
\<close>

section \<open>Memory outside the structures\<close>

lemma dlist_upd: "p \<notin> set (x # xs) \<Longrightarrow> dlist h x xs \<Longrightarrow> dlist (h(p := v)) x xs"
  by (rule dlist_frameI[of h]) auto

lemma rb_seq_upd:
  assumes "rb_seq t xs" "p \<notin> set xs"
  shows "rb_seq (t\<lparr>nodes := (nodes t)(p := v)\<rparr>) xs"
  using assms by (auto simp: rb_seq_def rb_rep_def tree_at_upd)

text \<open>An event that is on no list and not in the tree.\<close>

definition idle :: "'k ev_state \<Rightarrow> (ptr \<Rightarrow> ptr list) \<Rightarrow> ptr list \<Rightarrow> ptr list \<Rightarrow> ptr \<Rightarrow> bool" where
  "idle s L A T e \<longleftrightarrow> e \<notin> set A \<and> e \<notin> set T \<and> (\<forall>x\<in>slots s. e \<notin> set (L x))"

lemma idleI:
  assumes "ev_inv s L A T" "evts s e = Some evt" "\<not> has (flags evt) WBA_EVTLIST_REG" "\<not> has (flags evt) WBA_EVTLIST_ACTIVE"
  shows "idle s L A T e"
  using ev_invD(3)[OF assms(1,2)] assms(3,4) by (auto simp: idle_def linked_def mapped_reg)

lemma sorted_deadline_upd:
  assumes "e \<notin> set T"
  shows "sorted (map (deadline (evs(e := v))) T) = sorted (map (deadline evs) T)"
proof -
  have "map (deadline (evs(e := v))) T = map (deadline evs) T" using assms by (auto simp: deadline_def)
  then show ?thesis by (simp only:)
qed

text \<open>What \<^verbatim>\<open>malloc\<close> promises of a new event: an aligned address that nothing else uses.\<close>

definition fresh :: "'k ev_state \<Rightarrow> ptr \<Rightarrow> bool" where
  "fresh s p \<longleftrightarrow> p \<noteq> NULL \<and> aligned p \<and> p \<notin> slots s \<and> p \<noteq> base_at s \<and> p \<notin> dom (evts s)"

lemma put_evt_inv:
  assumes inv: "ev_inv s L A T" and e: "e \<noteq> NULL" "aligned e" "e \<notin> slots s" "e \<noteq> base_at s" and id: "idle s L A T e"
    and evt: "evt_base evt = base_at s" "flags evt = WBA_EVTLIST_INIT"
  shows "ev_inv (put_evt e evt s) L A T"
proof -
  let ?s = "put_evt e evt s"
  note core = ev_invD(1)[OF inv]
  have "lists_rep dlist (map_lists ?s) (slots s) L"
    using core id e(3) unfolding ev_core_def lists_rep_def idle_def put_evt_def
    by (auto intro!: dlist_upd simp del: fun_upd_apply)
  moreover have "dlist (active_lists ?s) (base_at s) A"
    using core id e(4) by (auto simp: ev_core_def idle_def put_evt_def intro!: dlist_upd)
  moreover have "rb_seq (timers ?s) T"
    using core id by (auto simp: ev_core_def idle_def put_evt_def intro!: rb_seq_upd)
  moreover have "sorted (map (deadline (evts ?s)) T)"
    using core id by (simp add: ev_core_def idle_def put_evt_def sorted_deadline_upd)
  moreover have "\<forall>a evt. evts ?s a = Some evt \<longrightarrow> entry_ok ?s a evt"
    using core e evt by (auto simp: ev_core_def entry_ok_def put_evt_def timer_room_def)
  moreover have "set A \<union> set T \<union> (\<Union>x\<in>slots s. set (L x)) \<subseteq> dom (evts ?s)"
    using core by (auto simp: ev_core_def put_evt_def)
  ultimately have "ev_core ?s L A T" using core by (simp add: ev_core_def put_evt_def)
  moreover have "ev_counts ?s L A T" using ev_invD(2)[OF inv] by (simp add: ev_counts_def put_evt_def)
  moreover have "linked ?s L A T a evt'" if "evts ?s a = Some evt'" for a evt'
  proof (cases "a = e")
    case True
    then show ?thesis using that id evt by (auto simp: put_evt_def linked_def idle_def mapped_reg)
  next
    case False
    then show ?thesis using that ev_invD(3)[OF inv, of a evt'] by (auto simp: put_evt_def linked_def)
  qed
  ultimately show ?thesis by (simp add: ev_inv_def)
qed

lemma free_evt_inv:
  assumes inv: "ev_inv s L A T" and e: "evts s e = Some evt" and id: "idle s L A T e"
  shows "runs (free_evt e s) (\<lambda>s'. rest_same s s' \<and> ev_inv s' L A T \<and> evts s' = (evts s)(e := None))"
proof -
  note core = ev_invD(1)[OF inv]
  have e0: "e \<notin> slots s" "e \<noteq> base_at s" using core e by (auto simp: ev_core_def entry_ok_def)
  let ?s = "s\<lparr>evts := (evts s)(e := None), map_lists := (map_lists s)(e := None),
       active_lists := (active_lists s)(e := None), timers := (timers s)\<lparr>nodes := (nodes (timers s))(e := None)\<rparr>\<rparr>"
  have "lists_rep dlist (map_lists ?s) (slots s) L"
    using core id e0 unfolding ev_core_def lists_rep_def idle_def
    by (auto intro!: dlist_upd simp del: fun_upd_apply)
  moreover have "dlist (active_lists ?s) (base_at s) A"
    using core id e0 by (auto simp: ev_core_def idle_def intro!: dlist_upd)
  moreover have "rb_seq (timers ?s) T" using core id by (auto simp: ev_core_def idle_def intro!: rb_seq_upd)
  moreover have "sorted (map (deadline (evts ?s)) T)"
    using core id by (simp add: ev_core_def idle_def sorted_deadline_upd)
  moreover have "\<forall>a evt. evts ?s a = Some evt \<longrightarrow> entry_ok ?s a evt"
    using core by (auto simp: ev_core_def entry_ok_def timer_room_def)
  moreover have "set A \<union> set T \<union> (\<Union>x\<in>slots s. set (L x)) \<subseteq> dom (evts ?s)"
    using core id by (auto simp: ev_core_def idle_def)
  ultimately have "ev_core ?s L A T" using core by (simp add: ev_core_def)
  moreover have "ev_counts ?s L A T" using ev_invD(2)[OF inv] by (simp add: ev_counts_def)
  moreover have "\<forall>a evt. evts ?s a = Some evt \<longrightarrow> linked ?s L A T a evt"
    using inv by (auto simp: ev_inv_def linked_def)
  ultimately have "ev_inv ?s L A T" by (simp add: ev_inv_def)
  then show ?thesis using evt_of_exec[OF core e] by (simp add: free_evt_def rest_same_def)
qed

section \<open>Events\<close>

lemma event_new_inv:
  assumes inv: "ev_inv s L A T" and mem: "fresh s mem" and b: "b = base_at s" "fn \<noteq> NULL"
  shows "ev_inv (snd (wba_event_new mem b fd evs fn arg s)) L A T \<and> fst (wba_event_new mem b fd evs fn arg s) = mem"
proof -
  have "idle s L A T mem" using ev_invD(1)[OF inv] mem by (auto simp: idle_def fresh_def ev_core_def)
  moreover have "b \<noteq> NULL" using ev_invD(1)[OF inv] b by (simp add: ev_core_def)
  ultimately show ?thesis using mem b inv by (auto simp: wba_event_new_def Let_def fresh_def zero_evt_def intro!: put_evt_inv)
qed

lemma event_assign_inv:
  assumes inv: "ev_inv s L A T" and e: "evts s e = Some evt" and na: "\<not> has (flags evt) WBA_EVTLIST_ACTIVE" and b: "b = base_at s"
  shows "runs (wba_event_assign e b fd evs fn arg s) (\<lambda>(r, s'). rest_same s s' \<and> ev_inv s' L A T \<and> dom (evts s') = dom (evts s))"
proof (cases "fn = NULL \<or> has (flags evt) WBA_EVTLIST_REG")
  case True
  then show ?thesis using inv evt_of_exec[OF ev_invD(1)[OF inv] e] by (auto simp: wba_event_assign_def)
next
  case False
  have "idle s L A T e" using idleI[OF inv e] False na by simp
  moreover have "e \<noteq> NULL" "b \<noteq> NULL" "e \<notin> slots s" "e \<noteq> base_at s" "aligned e"
    using ev_invD(1)[OF inv] e b by (auto simp: ev_core_def entry_ok_def timer_room_def)
  ultimately show ?thesis using False evt_of_exec[OF ev_invD(1)[OF inv] e] b inv e
    by (auto simp: wba_event_assign_def Let_def zero_evt_def put_evt_def rest_same_def insert_absorb
        intro!: put_evt_inv[unfolded put_evt_def] intro: domI iff del: domIff)
qed

lemma event_free_inv:
  assumes inv: "ev_inv s L A T" and e: "evts s e = Some evt"
  shows "runs (wba_event_free os e s) (\<lambda>s'. rest_same s s' \<and> ev_inv s' (unmap s e evt L) (remove1 e A) (remove1 e T) \<and>
    evts s' = (evts s)(e := None))"
proof -
  have e0: "e \<noteq> NULL" using entry_base[OF ev_invD(1)[OF inv] e] by simp
  have "runs (do { (_, s) \<leftarrow> event_del os e s; free_evt e s }) (\<lambda>s'. rest_same s s' \<and>
    ev_inv s' (unmap s e evt L) (remove1 e A) (remove1 e T) \<and> evts s' = (evts s)(e := None))"
  proof (rule runs_bindI[OF event_del_step[OF inv e]], clarify)
    fix r s1 assume s1: "rest_same s s1" "ev_inv s1 (unmap s e evt L) (remove1 e A) (remove1 e T)" "evts s1 = (evts s)(e \<mapsto> del_evt evt)"
    have e1: "evts s1 e = Some (del_evt evt)" using s1(3) by simp
    have "idle s1 (unmap s e evt L) (remove1 e A) (remove1 e T) e"
      by (rule idleI[OF s1(2) e1]) (simp_all add: del_evt_def)
    from free_evt_inv[OF s1(2) e1 this]
    show "runs (free_evt e s1) (\<lambda>s'. rest_same s s' \<and> ev_inv s' (unmap s e evt L) (remove1 e A) (remove1 e T) \<and>
      evts s' = (evts s)(e := None))"
      by (rule runs_mono) (use s1 in \<open>auto intro: rest_same_trans\<close>)
  qed
  then show ?thesis using e0 by (simp add: wba_event_free_def)
qed

section \<open>The base\<close>

text \<open>The array of slots does not wrap around the end of the address space.\<close>

definition array_ok :: "ptr \<Rightarrow> nat \<Rightarrow> bool" where
  "array_ok arr n \<longleftrightarrow> arr \<noteq> NULL \<and> unat arr + 16 * n \<le> 2 ^ 64"

lemma slot_addr_unat:
  assumes "array_ok arr n" "i < n"
  shows "unat (arr + 16 * of_nat i) = unat arr + 16 * i"
proof -
  have le: "unat arr + 16 * i < 2 ^ 64" using assms by (simp add: array_ok_def)
  have len64_eq: "LENGTH(64) = 64" by simp
  have "arr + 16 * of_nat i = (of_nat (unat arr + 16 * i) :: ptr)" by simp
  then have "unat (arr + 16 * of_nat i) = unat (of_nat (unat arr + 16 * i) :: ptr)" by (rule arg_cong)
  also have "\<dots> = unat arr + 16 * i" 
    unfolding unat_of_nat using le by (simp only: len64_eq mod_less)
  finally show ?thesis .
qed

lemma slot_addr_facts:
  assumes "array_ok arr n" "i < n" "j < n"
  shows "arr + 16 * of_nat i \<noteq> NULL" "arr + 16 * of_nat i = arr + 16 * of_nat j \<longleftrightarrow> i = j"
proof -
  note u = slot_addr_unat[OF assms(1)]
  show "arr + 16 * of_nat i \<noteq> NULL"
  proof
    assume "arr + 16 * of_nat i = NULL"
    then have "unat (arr + 16 * of_nat i) = 0" by (simp only: unat_0)
    then have "unat arr = 0" unfolding u[OF assms(2)] by simp
    then show False using assms(1) by (simp add: array_ok_def unat_eq_0)
  qed
  show "arr + 16 * of_nat i = arr + 16 * of_nat j \<longleftrightarrow> i = j"
  proof
    assume "arr + 16 * of_nat i = arr + 16 * of_nat j"
    then have "unat (arr + 16 * of_nat i) = unat (arr + 16 * of_nat j)" by (rule arg_cong)
    then show "i = j" unfolding u[OF assms(2)] u[OF assms(3)] by simp
  qed simp
qed

lemma runs_init_slot:
  assumes "p \<noteq> NULL" "p \<in> dom h"
  shows "runs (INIT_LIST_HEAD p h) (\<lambda>h'. dlist h' p [] \<and> dom h' = dom h \<and> (\<forall>q. q \<noteq> p \<longrightarrow> h' q = h q))"
  using assms by (auto simp: INIT_LIST_HEAD_def wr_def rd_def dlist_def nx_def pv_def)

lemma init_slots_runs:
  assumes "array_ok arr (i + n)" "\<forall>j<i + n. arr + 16 * of_nat j \<in> dom h" "\<forall>j<i. dlist h (arr + 16 * of_nat j) []"
  shows "runs (init_slots n i arr h) (\<lambda>h'. dom h' = dom h \<and> (\<forall>j<i + n. dlist h' (arr + 16 * of_nat j) []))"
  using assms
proof (induction n arbitrary: i h)
  case (Suc n)
  let ?p = "arr + 16 * of_nat i"
  have i: "i < i + Suc n" by simp
  have p: "?p \<noteq> NULL" "?p \<in> dom h"
    using slot_addr_facts(1)[OF Suc.prems(1) i i] Suc.prems(2) i by blast+
  show ?case unfolding init_slots.simps
  proof (rule runs_bindI[OF runs_init_slot[OF p]], elim conjE)
    fix h1 assume h1: "dlist h1 ?p []" "dom h1 = dom h" "\<forall>q. q \<noteq> ?p \<longrightarrow> h1 q = h q"
    have "\<forall>j<Suc i. dlist h1 (arr + 16 * of_nat j) []"
    proof (intro allI impI)
      fix j assume j: "j < Suc i"
      show "dlist h1 (arr + 16 * of_nat j) []"
      proof (cases "j = i")
        case False
        then have j': "j < i" "j < i + Suc n" using j by auto
        then have "arr + 16 * of_nat j \<noteq> ?p" using slot_addr_facts(2)[OF Suc.prems(1) j'(2) i] False by blast
        then have "\<And>q. q \<in> set [arr + 16 * of_nat j] \<Longrightarrow> h1 q = h q" using h1(3) by simp
        moreover have "dlist h (arr + 16 * of_nat j) []" using Suc.prems(3) j'(1) by blast
        ultimately show ?thesis using dlist_frameI by blast
      qed (use h1(1) in blast)
    qed
    moreover have "array_ok arr (Suc i + n)" using Suc.prems(1) by (simp only: add_Suc_shift)
    moreover have "\<forall>j<Suc i + n. arr + 16 * of_nat j \<in> dom h1" using Suc.prems(2) by (simp only: h1(2) add_Suc_shift)
    ultimately have "runs (init_slots n (Suc i) arr h1) (\<lambda>h'. dom h' = dom h1 \<and> (\<forall>j<Suc i + n. dlist h' (arr + 16 * of_nat j) []))"
      by (intro Suc.IH)
    then show "runs (init_slots n (Suc i) arr h1) (\<lambda>h'. dom h' = dom h \<and> (\<forall>j<i + Suc n. dlist h' (arr + 16 * of_nat j) []))"
      unfolding h1(2) add_Suc_shift .
  qed
qed simp

lemma empty_rb_seq: "rb_seq \<lparr>nodes = h, root = NULL\<rparr> []"
  by (auto simp: rb_seq_def rb_rep_def rb_ok_def intro!: exI[of _ Lf])

lemma evtbase_new_inv:
  assumes ep: "sys_epoll_create os k = (ep, k')" "ep \<noteq> -1"
    and mem: "mem_base \<noteq> NULL" "mem_events \<noteq> NULL" "array_ok mem_list 32"
  shows "runs (wba_evtbase_new os self mem_base mem_events mem_list k) (\<lambda>(b, k'').
    \<exists>s. b = Some s \<and> k'' = k' \<and> base_at s = mem_base \<and> evts s = Map.empty \<and> ev_inv s (\<lambda>_. []) [] [])"
proof -
  let ?slot = "\<lambda>i. mem_list + 16 * of_nat i :: ptr"
  let ?h0 = "\<lambda>p. if p \<in> ?slot ` {..<unat EVT_MAP_SIZE} then Some \<lparr>nxt = NULL, prv = NULL\<rparr> else None"
  have sz: "unat EVT_MAP_SIZE = 32" by (simp add: EVT_MAP_SIZE_def)
  have i1: "runs (init_slots 32 0 mem_list ?h0) (\<lambda>h. \<forall>j<32. dlist h (?slot j) [])"
    using init_slots_runs[of mem_list 0 32 ?h0] mem(3) sz by (auto simp: dom_def elim!: runs_mono)
  have i2: "runs (INIT_LIST_HEAD mem_base [mem_base \<mapsto> \<lparr>nxt = NULL, prv = NULL\<rparr>]) (\<lambda>a. dlist a mem_base [])"
    using runs_init_slot[of mem_base "[mem_base \<mapsto> \<lparr>nxt = NULL, prv = NULL\<rparr>]"] mem(1) by (auto elim!: runs_mono)
  have ml: "mem_list \<noteq> NULL" using mem(3) by (simp add: array_ok_def)
  let ?s = "\<lambda>h a. \<lparr>evts = Map.empty, base_at = mem_base,
          base = \<lparr>epfd = ep, nevts = EVT_NUM_EVENTS, evt_list = mem_list, map_size = EVT_MAP_SIZE,
            map_sizemask = EVT_MAP_SIZE - 1, map_used = 0, event_count = 0, event_count_active = 0\<rparr>,
          map_lists = h, active_lists = a, timers = \<lparr>nodes = Map.empty, root = RB_ROOT\<rparr>,
          selfptr_at = self, kernel = k'\<rparr>"
  have "ev_inv (?s h a) (\<lambda>_. []) [] []" if h: "\<forall>j<32. dlist h (?slot j) []" and a: "dlist a mem_base []" for h a
  proof -
    have sl: "slots (?s h a) = ?slot ` {..<32}" by (simp add: slot_addrs_def sz)
    have "lists_rep dlist h (slots (?s h a)) (\<lambda>_. [])"
      unfolding sl lists_rep_def using h slot_addr_facts(2)[OF mem(3)] by auto
    moreover have "unat EVT_MAP_SIZE = Suc (unat (EVT_MAP_SIZE - 1))" by (simp add: EVT_MAP_SIZE_def)
    moreover have "rb_seq (timers (?s h a)) []" using empty_rb_seq by (simp add: RB_ROOT_def)
    ultimately show ?thesis using a mem(1) by (simp add: ev_inv_def ev_core_def ev_counts_def)
  qed
  then have fin: "runs (do { h \<leftarrow> init_slots 32 0 mem_list ?h0;
      a \<leftarrow> INIT_LIST_HEAD mem_base [mem_base \<mapsto> \<lparr>nxt = NULL, prv = NULL\<rparr>]; Some (Some (?s h a), k') })
    (\<lambda>(b, k''). \<exists>s. b = Some s \<and> k'' = k' \<and> base_at s = mem_base \<and> evts s = Map.empty \<and> ev_inv s (\<lambda>_. []) [] [])"
    by (intro runs_bindI[OF i1] runs_bindI[OF i2]) simp
  have "wba_evtbase_new os self mem_base mem_events mem_list k = do { h \<leftarrow> init_slots 32 0 mem_list ?h0;
      a \<leftarrow> INIT_LIST_HEAD mem_base [mem_base \<mapsto> \<lparr>nxt = NULL, prv = NULL\<rparr>]; Some (Some (?s h a), k') }"
    using ep mem(1,2) ml by (simp add: wba_evtbase_new_def sz)
  then show ?thesis using fin by (simp only:)
qed

end
