(* ===== verification/EvSpec.thy ===== *)
theory EvSpec
  imports EvLife
begin

text \<open>
  The properties of the event loop as a whole: the states its interface can reach, the
  exact effect of adding, deleting, activating and expiring events, the waiting time given
  to \<^verbatim>\<open>epoll_wait\<close>, and three behaviours that are not what the code means to do.
\<close>

section \<open>Reachable states\<close>

inductive ev_reach :: "'k os \<Rightarrow> 'k callback \<Rightarrow> 'k ev_state \<Rightarrow> bool" for os cb where
  reach_create: "wba_evtbase_new os self mb me ml k = Some (Some s, k') \<Longrightarrow> array_ok ml 32 \<Longrightarrow> ev_reach os cb s"
| reach_new: "ev_reach os cb s \<Longrightarrow> fresh s mem \<Longrightarrow> fn \<noteq> NULL \<Longrightarrow>
    wba_event_new mem (base_at s) fd evs fn arg s = (e, s') \<Longrightarrow> ev_reach os cb s'"
| reach_assign: "ev_reach os cb s \<Longrightarrow> evts s e = Some evt \<Longrightarrow> \<not> has (flags evt) WBA_EVTLIST_ACTIVE \<Longrightarrow>
    wba_event_assign e (base_at s) fd evs fn arg s = Some (r, s') \<Longrightarrow> ev_reach os cb s'"
| reach_add: "ev_reach os cb s \<Longrightarrow> evts s e = Some evt \<Longrightarrow> wba_event_add os e tv s = Some (r, s') \<Longrightarrow> ev_reach os cb s'"
| reach_del: "ev_reach os cb s \<Longrightarrow> evts s e = Some evt \<Longrightarrow> wba_event_del os e s = Some (r, s') \<Longrightarrow> ev_reach os cb s'"
| reach_free: "ev_reach os cb s \<Longrightarrow> evts s e = Some evt \<Longrightarrow> wba_event_free os e s = Some s' \<Longrightarrow> ev_reach os cb s'"
| reach_loop: "ev_reach os cb s \<Longrightarrow> event_loop_step os cb r s = Some (x, s') \<Longrightarrow> ev_reach os cb s'"

inductive_cases ev_reachE: "ev_reach os cb s"

lemma runs_SomeD: "runs m Q \<Longrightarrow> m = Some x \<Longrightarrow> Q x"
  by (simp add: runs_def)

lemma wba_event_add_inv:
  assumes "ev_inv s L A T" "evts s e = Some evt" "clock_works os"
  shows "runs (wba_event_add os e tv s) (\<lambda>(r, s'). rest_same s s' \<and> ev_ok s' A \<and> dom (evts s') = dom (evts s))"
  using event_add_inv[OF assms] ev_okI[OF assms(1)] by (cases tv) (auto simp: wba_event_add_def)

lemma evtbase_new_someD:
  assumes "wba_evtbase_new os self mb me ml k = Some (Some s, k')"
  shows "mb \<noteq> NULL" "me \<noteq> NULL" "fst (sys_epoll_create os k) \<noteq> -1"
  using assms by (auto simp: wba_evtbase_new_def Let_def split: prod.splits if_splits)

lemma ev_reach_ok:
  assumes "ev_reach os cb s" "clock_works os" "cb_ok cb"
  shows "\<exists>A. ev_ok s A"
  using assms
proof (induction rule: ev_reach.induct)
  case (reach_create self mb me ml k s k')
  obtain ep k1 where "sys_epoll_create os k = (ep, k1)" by (cases "sys_epoll_create os k")
  then show ?case
    using evtbase_new_someD[OF reach_create(1)] reach_create evtbase_new_inv[of os k ep k1 mb me ml self]
    by (auto dest!: runs_SomeD intro: ev_okI)
next
  case (reach_new s mem fn fd evs arg e s')
  then obtain A L T where "ev_inv s L A T" by (auto elim: ev_okE)
  from event_new_inv[OF this reach_new(2) refl reach_new(3), of fd evs arg] reach_new(4)
  show ?case by (auto intro: ev_okI)
next
  case (reach_assign s e evt fd evs fn arg r s')
  then obtain A L T where "ev_inv s L A T" by (auto elim: ev_okE)
  from runs_SomeD[OF event_assign_inv[OF this reach_assign(2,3) refl] reach_assign(4)]
  show ?case by (auto intro: ev_okI)
next
  case (reach_add s e evt tv r s')
  then obtain A L T where "ev_inv s L A T" by (auto elim: ev_okE)
  from runs_SomeD[OF wba_event_add_inv[OF this reach_add(2) reach_add.prems(1)] reach_add(3)] show ?case by auto
next
  case (reach_del s e evt r s')
  then obtain A L T where "ev_inv s L A T" by (auto elim: ev_okE)
  from runs_SomeD[OF event_del_inv[OF this reach_del(2)] reach_del(3)[unfolded wba_event_del_def]] show ?case by auto
next
  case (reach_free s e evt s')
  then obtain A L T where "ev_inv s L A T" by (auto elim: ev_okE)
  from runs_SomeD[OF event_free_inv[OF this reach_free(2)] reach_free(3)] show ?case by (auto intro: ev_okI)
next
  case (reach_loop s r x s')
  then obtain A L T where "ev_inv s L A T" by (auto elim: ev_okE)
  from runs_SomeD[OF loop_step_inv[OF this reach_loop.prems] reach_loop(2)] show ?case by (auto split: sum.splits)
qed

section \<open>A small base to try the properties on\<close>

text \<open>
  A base with the usual 32 slots. The events at 4096 and 8192 are registered for reading on
  the descriptors 3 and 35, which share a slot; the event at 12288 is a persistent timer of
  2.5 seconds due at 5.25 seconds in \<open>demo_ev\<close>. The kernel state is the time in seconds.
\<close>

definition demo_os :: "int os" where
  "demo_os = \<lparr>sys_epoll_create = (\<lambda>k. (7, k)), sys_epoll_add = (\<lambda>ep fd ev k. (True, k)),
     sys_epoll_del = (\<lambda>ep fd k. (True, k)), sys_epoll_wait = (\<lambda>ep n t k. (Some [(3, EPOLLIN)], k + 1)),
     sys_clock = (\<lambda>k. (Some (Timespec k 0), k)), sys_close = (\<lambda>ep k. k)\<rparr>"

definition demo_read :: "32 word \<Rightarrow> wba_evt" where
  "demo_read fd = \<lparr>cb_fn = 900, cb_arg = 0, evt_fd = fd, evt_base = 64, flags = 0x03, events = WBA_EVT_READ, res = 0,
     timeout = Timeval 0 0, evt_timeout = Timeval 0 0\<rparr>"

definition demo_timer :: "timeval \<Rightarrow> wba_evt" where
  "demo_timer d = \<lparr>cb_fn = 900, cb_arg = 0, evt_fd = -1, evt_base = 64, flags = 0x0b, events = WBA_EVT_PERSIST, res = 0,
     timeout = Timeval 2 500000, evt_timeout = d\<rparr>"

definition demo_lists_of :: "ptr \<Rightarrow> ptr list" where
  "demo_lists_of x = (if x = 1072 then [4096, 8192] else [])"

definition demo_due :: "timeval \<Rightarrow> int ev_state" where
  "demo_due d = \<lparr>evts = [4096 \<mapsto> demo_read 3, 8192 \<mapsto> demo_read 35, 12288 \<mapsto> demo_timer d], base_at = 64,
     base = \<lparr>epfd = 7, nevts = 32, evt_list = 1024, map_size = 32, map_sizemask = 31, map_used = 2, event_count = 3,
       event_count_active = 0\<rparr>,
     map_lists = (\<lambda>p. if p = 1072 then Some \<lparr>nxt = 4096, prv = 8192\<rparr> else if p = 4096 then Some \<lparr>nxt = 8192, prv = 1072\<rparr>
       else if p = 8192 then Some \<lparr>nxt = 1072, prv = 4096\<rparr> else Some \<lparr>nxt = p, prv = p\<rparr>),
     active_lists = [64 \<mapsto> \<lparr>nxt = 64, prv = 64\<rparr>, 4096 \<mapsto> \<lparr>nxt = 0, prv = 0\<rparr>, 8192 \<mapsto> \<lparr>nxt = 0, prv = 0\<rparr>,
       12288 \<mapsto> \<lparr>nxt = 0, prv = 0\<rparr>],
     timers = \<lparr>nodes = [4096 \<mapsto> \<lparr>rb_parent_color = 0, rb_right = 0, rb_left = 0\<rparr>,
       8192 \<mapsto> \<lparr>rb_parent_color = 0, rb_right = 0, rb_left = 0\<rparr>,
       12288 \<mapsto> \<lparr>rb_parent_color = 1, rb_right = 0, rb_left = 0\<rparr>], root = 12288\<rparr>,
     selfptr_at = 8, kernel = 1\<rparr>"

abbreviation demo_ev :: "int ev_state" where
  "demo_ev \<equiv> demo_due (Timeval 5 250000)"

lemma demo_slots: "slots (demo_due d) = (\<lambda>i. 1024 + 16 * of_nat i) ` {..<32}"
  by (simp add: demo_due_def slot_addrs_def)

lemma demo_slot_mem: "x \<in> slots (demo_due d) \<longleftrightarrow> x \<in> set (map (\<lambda>i. 1024 + 16 * of_nat i) [0..<32])"
  unfolding demo_slots by auto

lemma demo_slot_facts: "4096 \<notin> slots (demo_due d)" "8192 \<notin> slots (demo_due d)" "12288 \<notin> slots (demo_due d)"
  "NULL \<notin> slots (demo_due d)" "1072 \<in> slots (demo_due d)" "16384 \<notin> slots (demo_due d)"
  unfolding demo_slot_mem by (simp_all add: upt_rec)

lemma demo_core: "ev_core (demo_due d) demo_lists_of [] [12288]"
proof -
  note s = demo_slot_facts[of d]
  have "lists_rep dlist (map_lists (demo_due d)) (slots (demo_due d)) demo_lists_of"
    using s by (auto simp: lists_rep_def demo_lists_of_def dlist_def nx_def pv_def demo_due_def)
  moreover have "rb_seq (timers (demo_due d)) [12288]"
    unfolding rb_seq_def
    by (rule exI[of _ "Nd Black Lf 12288 Lf"])
      (simp add: demo_due_def rb_rep_def node_at_def aligned_def rb_parent_def col_def rb_is_red_def rb_color_def rb_ok_def
        del: rb_is_red_iff)
  ultimately show ?thesis using s
    by (auto simp: ev_core_def demo_due_def entry_ok_def timer_room_def aligned_def dlist_def nx_def pv_def
        demo_lists_of_def demo_read_def demo_timer_def split: if_splits)
qed


lemma demo_sum: "(\<Sum>x\<in>slots (demo_due d). length (demo_lists_of x)) = 2"
proof -
  have "length (demo_lists_of x) = (if x = 1072 then 2 else 0)" for x
    by (simp add: demo_lists_of_def)
  then show ?thesis using demo_slot_facts(5)[of d] by (simp add: sum.delta)
qed

lemma demo_inv: "ev_inv (demo_due d) demo_lists_of [] [12288]"
proof -
  have "ev_counts (demo_due d) demo_lists_of [] [12288]"
    unfolding ev_counts_def demo_sum by (simp add: demo_due_def)
  moreover have "linked (demo_due d) demo_lists_of [] [12288] e evt" if "evts (demo_due d) e = Some evt" for e evt
    using that by (auto simp: linked_def demo_due_def demo_read_def demo_timer_def has_def mapped_def EVT_IO_def
        demo_lists_of_def event_map_get_slot_def split: if_splits)
  ultimately show ?thesis using demo_core by (simp add: ev_inv_def)
qed

lemma demo_clock: "clock_works demo_os"
  by (simp add: clock_works_def demo_os_def)

lemma demo_clock_value: "clock_value demo_os k now \<longleftrightarrow> now = Timeval k 0"
  by (auto simp: clock_value_def demo_os_def timeval_of_timespec_def signed_divide_int_def)

text \<open>A callback that schedules the event it is given as its argument again, in one second.\<close>

definition demo_cb :: "int callback" where
  "demo_cb fn fd r arg s = (case evts s arg of
     None \<Rightarrow> Some s
   | Some _ \<Rightarrow> map_option snd (wba_event_add demo_os arg (Some (Timeval 1 0)) s))"

lemma demo_cb_ok: "cb_ok demo_cb"
proof -
  have "runs (demo_cb fn fd r arg s) (\<lambda>s'. rest_same s s' \<and> ev_ok s' A)" if "ev_inv s L A T" for fn fd r arg s L A T
  proof (cases "evts s arg")
    case None
    then show ?thesis using that by (auto simp: demo_cb_def intro: ev_okI)
  next
    case (Some evt)
    show ?thesis using runs_mono[OF wba_event_add_inv[OF that Some demo_clock]] Some
      by (fastforce simp: demo_cb_def runs_map_option)
  qed
  then show ?thesis by (auto simp: cb_ok_def elim!: ev_okE)
qed


section \<open>The waiting time\<close>

lemma next_timeout_value:
  assumes inv: "ev_inv s L A (e # T)" and clk: "sys_clock os (kernel s) = (Some ts, k)"
    and now: "now = timeval_of_timespec ts"
  shows "event_next_timeout os s = Some (if deadline (evts s) e \<le> now then 0
    else word_of_int (tv_sec (event_timesub (deadline (evts s) e) now) * 1000 +
      tv_usec (event_timesub (deadline (evts s) e) now) sdiv 1000 + 1), s\<lparr>kernel := k\<rparr>)"
proof -
  have "rb_seq (timers s) (e # T)" using ev_invD(1)[OF inv] by (simp add: ev_core_def)
  then have f: "rb_first (timers s) = Some e" using rb.first_law by fastforce
  obtain evt where e: "evts s e = Some evt" using ev_invD(1)[OF inv] by (auto simp: ev_core_def)
  have "evt_of (s\<lparr>kernel := k\<rparr>) e = Some evt"
    using evt_of_exec[OF ev_invD(1)[OF inv] e] by (simp add: evt_of_def)
  then show ?thesis using f e clk now entry_base[OF ev_invD(1)[OF inv] e]
    by (simp add: event_next_timeout_def event_timeget_def Let_def deadline_def timecmp_simps)
qed

lemma next_timeout_empty:
  assumes "ev_inv s L A []"
  shows "event_next_timeout os s = Some (60000, s)"
proof -
  have "rb_seq (timers s) []" using ev_invD(1)[OF assms] by (simp add: ev_core_def)
  then have "rb_first (timers s) = Some NULL" using rb.first_law by fastforce
  then show ?thesis by (simp add: event_next_timeout_def EVT_DEF_WAIT_MS_def)
qed

lemma wait_ms:
  assumes "tv_ok d" "tv_ok now" "now < d"
  shows "tv_sec (event_timesub d now) * 1000 + tv_usec (event_timesub d now) sdiv 1000 = (tv_us d - tv_us now) div 1000"
    "0 < tv_us d - tv_us now"
proof -
  let ?t = "event_timesub d now"
  have ok: "tv_ok ?t" and us: "tv_us ?t = tv_us d - tv_us now" using timesub_ok[OF assms(1,2)] timesub_us by auto
  have "tv_usec ?t sdiv 1000 = tv_usec ?t div 1000"
    using ok by (auto simp: tv_ok_def signed_divide_int_def sgn_if)
  then show "tv_sec ?t * 1000 + tv_usec ?t sdiv 1000 = (tv_us d - tv_us now) div 1000"
    unfolding us[symmetric] by (simp add: tv_us_def)
  show "0 < tv_us d - tv_us now" using tv_us_less[OF assms(2,1)] assms(3) by simp
qed

lemma sint32_wraps:
  assumes "2 ^ 31 \<le> x" "x < 2 ^ 32"
  shows "sint (word_of_int x :: 32 word) = x - 2 ^ 32"
proof -
  have "(word_of_int x :: 32 word) = word_of_int (x - 2 ^ 32)"
    by (simp add: word_of_int_eq_iff take_bit_eq_mod)
  moreover have "sint (word_of_int (x - 2 ^ 32) :: 32 word) = x - 2 ^ 32"
    by (rule sint32_id) (use assms in auto)
  ultimately show ?thesis by (simp only:)
qed

lemma ms_bounds: "d < 1000 * (d div 1000 + 1)" "1000 * (d div 1000) \<le> d" for d :: int
  by presburger+

text \<open>
  (C13) The time given to \<^verbatim>\<open>epoll_wait\<close>: one minute when there are no timers, zero when the
  first timer is due, and otherwise the time to the deadline of the first timer rounded up to
  a millisecond, as long as it fits in the 31 bits of a positive \<^verbatim>\<open>s32\<close>. The wait reaches the
  first deadline, which is the earliest of all, and overshoots it by at most a millisecond.
\<close>

theorem next_timeout_wait:
  assumes inv: "ev_inv s L A T" and clk: "sys_clock os (kernel s) = (Some ts, k)"
    and ns: "0 \<le> ts_nsec ts" "ts_nsec ts < 1000000000" and now: "now = timeval_of_timespec ts"
    and ok: "\<forall>e\<in>set T. tv_ok (deadline (evts s) e)"
    and fits: "\<forall>e\<in>set T. (tv_us (deadline (evts s) e) - tv_us now) div 1000 + 1 < 2 ^ 31"
  shows "runs (event_next_timeout os s) (\<lambda>(n, s'). evts s' = evts s \<and> timers s' = timers s \<and>
    (case T of [] \<Rightarrow> sint n = 60000
     | e # _ \<Rightarrow> (\<forall>e'\<in>set T. deadline (evts s) e \<le> deadline (evts s) e') \<and>
         (if deadline (evts s) e \<le> now then n = 0
          else tv_us (deadline (evts s) e) < tv_us now + 1000 * sint n \<and>
               tv_us now + 1000 * sint n \<le> tv_us (deadline (evts s) e) + 1000)))"
proof (cases T)
  case Nil
  then show ?thesis using next_timeout_empty[of s L A os] inv sint32_id[of 60000] by simp
next
  case (Cons e T')
  let ?d = "deadline (evts s) e"
  have min: "\<forall>e'\<in>set T. ?d \<le> deadline (evts s) e'"
    using ev_invD(1)[OF inv] Cons by (auto simp: ev_core_def)
  have "sint (word_of_int ((tv_us ?d - tv_us now) div 1000 + 1) :: 32 word) = (tv_us ?d - tv_us now) div 1000 + 1"
    if "now < ?d"
    by (rule sint32_id) (use wait_ms(2)[OF _ timespec_ok(1)[OF ns, folded now] that] ok fits Cons in auto)
  then show ?thesis
    using next_timeout_value[OF inv[unfolded Cons] clk now] min Cons ok
      wait_ms(1)[OF _ timespec_ok(1)[OF ns, folded now], of ?d] ms_bounds[of "tv_us ?d - tv_us now"]
    by (auto simp: not_le simp del: signed_of_int)
qed


theorem next_timeout_wait_witness:
  "runs (event_next_timeout demo_os demo_ev) (\<lambda>(n, s'). 5250000 < 1000000 + 1000 * sint n \<and> 1000000 + 1000 * sint n \<le> 5251000)"
proof -
  have d: "deadline (evts demo_ev) 12288 = Timeval 5 250000" by (simp add: deadline_def demo_due_def demo_timer_def)
  have k: "sys_clock demo_os (kernel demo_ev) = (Some (Timespec 1 0), 1)" by (simp add: demo_os_def demo_due_def)
  have n: "timeval_of_timespec (Timespec 1 0) = Timeval 1 0" by (simp add: timeval_of_timespec_def signed_divide_int_def)
  show ?thesis
    by (rule runs_mono[OF next_timeout_wait[OF demo_inv k]])
      (auto simp: d n tv_ok_def tv_us_def less_eq_timeval_def event_timecmp_def)
qed

text \<open>
  A timer more than 24 days ahead, from 2 to the 31 up to 2 to the 32 milliseconds, gives
  a negative waiting time, which \<^verbatim>\<open>epoll_wait\<close> takes as an infinite one: the value of type \<^verbatim>\<open>long\<close>
  is cut to an \<^verbatim>\<open>s32\<close>, and the loop sleeps through the deadline.
\<close>

theorem next_timeout_wraps:
  assumes inv: "ev_inv s L A (e # T)" and clk: "sys_clock os (kernel s) = (Some ts, k)"
    and ns: "0 \<le> ts_nsec ts" "ts_nsec ts < 1000000000" and now: "now = timeval_of_timespec ts"
    and ok: "tv_ok (deadline (evts s) e)"
    and far: "2 ^ 31 \<le> (tv_us (deadline (evts s) e) - tv_us now) div 1000 + 1"
      "(tv_us (deadline (evts s) e) - tv_us now) div 1000 + 1 < 2 ^ 32"
  shows "runs (event_next_timeout os s) (\<lambda>(n, s'). sint n < 0)"
proof -
  let ?d = "deadline (evts s) e"
  have tn: "tv_ok now" using timespec_ok(1)[OF ns] now by simp
  have "tv_us now < tv_us ?d" using far(1) ms_bounds(2)[of "tv_us ?d - tv_us now"] by simp
  then have lt: "now < ?d" using tv_us_less[OF tn ok] by simp
  show ?thesis
    using next_timeout_value[OF inv clk now] lt wait_ms(1)[OF ok tn lt] sint32_wraps[OF far] far(2) by (simp add: not_le)
qed


theorem next_timeout_wraps_witness:
  "runs (event_next_timeout demo_os (demo_due (Timeval 2147500 0))) (\<lambda>(n, s'). sint n < 0)"
proof -
  let ?s = "demo_due (Timeval 2147500 0)"
  have d: "deadline (evts ?s) 12288 = Timeval 2147500 0" by (simp add: deadline_def demo_due_def demo_timer_def)
  have k: "sys_clock demo_os (kernel ?s) = (Some (Timespec 1 0), 1)" by (simp add: demo_os_def demo_due_def)
  have n: "timeval_of_timespec (Timespec 1 0) = Timeval 1 0" by (simp add: timeval_of_timespec_def signed_divide_int_def)
  show ?thesis by (rule next_timeout_wraps[OF demo_inv k _ _ n[symmetric]]) (simp_all add: d n tv_ok_def tv_us_def)
qed


section \<open>Expired timers\<close>

lemma takeWhile_due:
  assumes "sorted (map d xs)"
  shows "takeWhile (\<lambda>x. d x \<le> (now::'a::linorder)) xs = filter (\<lambda>x. d x \<le> now) xs"
    "dropWhile (\<lambda>x. d x \<le> now) xs = filter (\<lambda>x. \<not> d x \<le> now) xs"
  using assms
  by (induction xs) (auto simp: filter_empty_conv filter_id_conv eq_commute[of "[]"] eq_commute[of xs "filter P xs" for xs P]
      intro: order_trans)

text \<open>
  (C9) \<^verbatim>\<open>event_process_timeout\<close> takes exactly the events whose deadline has been reached off the
  timer tree, in the order of their deadlines, and appends them to the active list: they are
  unregistered, lose their other flags, and their result is \<^verbatim>\<open>WBA_EVT_TIMEOUT\<close>. All other
  events are untouched, the count of expired events is returned and the invariant holds.
\<close>

theorem process_timeout_exact:
  assumes inv: "ev_inv s L A T" and clk: "sys_clock os (kernel s) = (Some ts, k)"
    and D: "D = filter (\<lambda>e. deadline (evts s) e \<le> timeval_of_timespec ts) T"
  shows "runs (event_process_timeout os s) (\<lambda>(c, s'). c = of_nat (length D) \<and>
    evts s' = activated due_evt (set D) (evts s) \<and>
    (\<exists>L'. ev_inv s' L' (filter (\<lambda>e. e \<notin> set D) A @ D)
       (filter (\<lambda>e. \<not> deadline (evts s) e \<le> timeval_of_timespec ts) T)))"
proof -
  let ?now = "timeval_of_timespec ts"
  have inv': "ev_inv (s\<lparr>kernel := k\<rparr>) L A T" using inv by (rule inv_kernel)
  have T: "rb_seq (timers s) T" "sorted (map (deadline (evts s)) T)" using ev_invD(1)[OF inv] by (simp_all add: ev_core_def)
  have "rb_first (timers s) = Some (hd_or_null T)" using T(1) by (rule rb.first_law)
  then have eq: "event_process_timeout os s = process_timeout_from os ?now (hd_or_null T) 0 (s\<lparr>kernel := k\<rparr>)"
    using clk by (simp add: event_process_timeout_def event_timeget_def)
  have "takeWhile (due ?now (evts s)) T = D" "dropWhile (due ?now (evts s)) T = filter (\<lambda>e. \<not> deadline (evts s) e \<le> ?now) T"
    using takeWhile_due[OF T(2), of ?now] by (simp_all add: due_def[abs_def] D)
  then show ?thesis unfolding eq
    by (intro runs_mono[OF process_timeout_loop[OF inv']]) auto
qed

theorem process_timeout_exact_witness:
  "runs (event_process_timeout demo_os (demo_ev\<lparr>kernel := 6\<rparr>)) (\<lambda>(c, s'). c = 1 \<and>
     evts s' 12288 = Some ((demo_timer (Timeval 5 250000))\<lparr>res := WBA_EVT_TIMEOUT, flags := 5\<rparr>) \<and>
     evts s' 4096 = Some (demo_read 3))"
proof -
  have k: "sys_clock demo_os (kernel (demo_ev\<lparr>kernel := 6\<rparr>)) = (Some (Timespec 6 0), 6)" by (simp add: demo_os_def)
  have D: "[12288] = filter (\<lambda>e. deadline (evts (demo_ev\<lparr>kernel := 6\<rparr>)) e \<le> timeval_of_timespec (Timespec 6 0)) [12288]"
    by (simp add: deadline_def demo_due_def demo_timer_def timeval_of_timespec_def signed_divide_int_def
        less_eq_timeval_def event_timecmp_def)
  show ?thesis
    by (rule runs_mono[OF process_timeout_exact[OF inv_kernel[OF demo_inv] k D]])
      (auto simp: activated_def demo_due_def due_evt_def del_evt_def demo_timer_def demo_read_def)
qed

section \<open>Adding and deleting events\<close>

text \<open>\<open>evt'\<close> is \<open>evt\<close> scheduled with timeout \<open>tv\<close> by a clock read in the kernel state \<open>k\<close>.\<close>

definition scheduled :: "'k os \<Rightarrow> 'k \<Rightarrow> timeval \<Rightarrow> wba_evt \<Rightarrow> wba_evt \<Rightarrow> bool" where
  "scheduled os k tv evt evt' \<longleftrightarrow> (\<exists>now. clock_value os k now \<and> evt_timeout evt' = event_timeadd now tv) \<and>
    has (flags evt') WBA_EVTLIST_REG \<and> has (flags evt') WBA_EVTLIST_TIMEOUT \<and>
    (has (flags evt') WBA_EVTLIST_ACTIVE \<longleftrightarrow> has (flags evt) WBA_EVTLIST_ACTIVE) \<and>
    timeout evt' = (if has (events evt) WBA_EVT_PERSIST then tv else timeout evt) \<and>
    evt_fd evt' = evt_fd evt \<and> events evt' = events evt \<and> cb_fn evt' = cb_fn evt \<and> cb_arg evt' = cb_arg evt"

lemma added_relative: "added os k (Some tv) False evt evt' \<Longrightarrow> scheduled os k tv evt evt'"
  by (auto simp: added_def timed_def scheduled_def)

lemma add_schedules:
  assumes inv: "ev_inv s L A T" and e: "evts s e = Some evt" and c: "clock_works os"
    and tv: "0 \<le> tv_sec tv" "0 \<le> tv_usec tv" and ok: "\<not> add_fails os s evt"
  shows "runs (wba_event_add os e (Some tv) s) (\<lambda>(r, s'). r = 1 \<and> rest_same s s' \<and> (\<exists>evt'.
    scheduled os (add_kernel os s evt) tv evt evt' \<and> evts s' = (evts s)(e \<mapsto> evt') \<and>
    ev_inv s' (if enters evt then link_in s e evt L else L) A (insert_due (deadline (evts s')) e (remove1 e T))))"
proof -
  have "wba_event_add os e (Some tv) s = event_add os e (Some tv) False s" using tv by (simp add: wba_event_add_def)
  then show ?thesis
    by (simp only:, intro runs_mono[OF event_add_step[OF inv e c]]) (use ok in \<open>auto dest!: added_relative\<close>)
qed




lemma del_clears:
  assumes inv: "ev_inv s L A T" and e: "evts s e = Some evt"
  shows "runs (wba_event_del os e s) (\<lambda>(r, s'). (r = 1 \<or> r = 0) \<and>
    (\<exists>L'. ev_inv s' L' (remove1 e A) (remove1 e T) \<and> (\<forall>x\<in>slots s. L' x = filter (\<lambda>a. a \<noteq> e) (L x)) \<and>
    (\<exists>evt'. evts s' = (evts s)(e \<mapsto> evt') \<and> evt' = evt\<lparr>flags := flags evt'\<rparr> \<and>
      \<not> has (flags evt') (WBA_EVTLIST_REG OR WBA_EVTLIST_ACTIVE OR WBA_EVTLIST_TIMEOUT))))"
proof -
  have d: "distinct (L x)" if "x \<in> slots s" for x
    using ev_invD(1)[OF inv] that by (auto simp: ev_core_def lists_rep_def dlist_def)
  have "unmap s e evt L x = remove1 e (L x)" if "x \<in> slots s" for x
    using ev_invD(3)[OF inv e] that by (auto simp: unmap_def linked_def remove1_idem)
  moreover have "remove1 e (L x) = filter (\<lambda>a. a \<noteq> e) (L x)" if "x \<in> slots s" for x
    using d[OF that] by (auto simp: distinct_remove1_removeAll removeAll_filter_not_eq intro: filter_cong)
  ultimately have L': "unmap s e evt L x = filter (\<lambda>a. a \<noteq> e) (L x)" if "x \<in> slots s" for x using that by simp
  have fl: "\<not> has (flags (del_evt evt)) (WBA_EVTLIST_REG OR WBA_EVTLIST_ACTIVE OR WBA_EVTLIST_TIMEOUT)"
    by (simp only: has_or_mask) (simp add: del_evt_def)
  show ?thesis unfolding wba_event_del_def
    by (rule runs_mono[OF event_del_step[OF inv e]]) (use L' fl in \<open>fastforce simp: del_evt_def\<close>)
qed


text \<open>
  (C10) \<^verbatim>\<open>wba_event_del\<close> always ends with the event out of the timer tree, the active list and the
  slot of its descriptor and with its three list flags clear, whatever it was linked into; the
  other events and the order of the lists are kept.
\<close>

theorem event_del_clears:
  assumes inv: "ev_inv s L A T" and e: "evts s e = Some evt"
  shows "runs (wba_event_del os e s) (\<lambda>(r, s'). (r = 1 \<or> r = 0) \<and>
    (\<exists>L'. ev_inv s' L' (remove1 e A) (remove1 e T) \<and> (\<forall>x\<in>slots s. L' x = filter (\<lambda>a. a \<noteq> e) (L x)) \<and>
    (\<exists>evt'. evts s' = (evts s)(e \<mapsto> evt') \<and> evt' = evt\<lparr>flags := flags evt'\<rparr> \<and>
      \<not> has (flags evt') (WBA_EVTLIST_REG OR WBA_EVTLIST_ACTIVE OR WBA_EVTLIST_TIMEOUT))))"
  using assms by (rule del_clears)

theorem event_del_clears_witness:
  "runs (wba_event_del demo_os 4096 demo_ev) (\<lambda>(r, s'). \<exists>L'. ev_inv s' L' [] [12288] \<and> L' 1072 = [8192])"
proof -
  have e: "evts demo_ev 4096 = Some (demo_read 3)" by (simp add: demo_due_def)
  have "filter (\<lambda>a. a \<noteq> 4096) (demo_lists_of 1072) = [8192]" by (simp add: demo_lists_of_def)
  then show ?thesis using demo_slot_facts(5) by (intro runs_mono[OF event_del_clears[OF demo_inv e]]) fastforce
qed

text \<open>
  Adding an event that is not registered with a timeout and deleting it again restores the
  timer tree's sequence, the active list and every slot, and all events but for the fields of
  this one that \<^verbatim>\<open>wba_event_add\<close> sets.
\<close>

theorem event_add_del_roundtrip:
  assumes inv: "ev_inv s L A T" and e: "evts s e = Some evt" and c: "clock_works os"
    and tv: "0 \<le> tv_sec tv" "0 \<le> tv_usec tv" and ok: "\<not> add_fails os s evt"
    and idle: "\<not> has (flags evt) WBA_EVTLIST_REG" "\<not> has (flags evt) WBA_EVTLIST_ACTIVE"
  shows "runs (do { (r, s) \<leftarrow> wba_event_add os e (Some tv) s; wba_event_del os e s }) (\<lambda>(r, s').
    \<exists>L'. ev_inv s' L' A T \<and> (\<forall>x\<in>slots s. L' x = L x) \<and> (\<forall>a. a \<noteq> e \<longrightarrow> evts s' a = evts s a))"
proof (rule runs_bindI[OF add_schedules[OF inv e c tv ok]], clarify)
  let ?L = "if enters evt then link_in s e evt L else L"
  fix s1 :: "'a ev_state" and evt1 assume s1: "scheduled os (add_kernel os s evt) tv evt evt1" "evts s1 = (evts s)(e \<mapsto> evt1)"
    "ev_inv s1 ?L A (insert_due (deadline (evts s1)) e (remove1 e T))" and rs: "rest_same s s1"
  have id: "e \<notin> set A" "e \<notin> set T" "\<forall>x\<in>slots s. e \<notin> set (L x)"
    using idleI[OF inv e idle] by (auto simp: idle_def)
  have e1: "evts s1 e = Some evt1" using s1(2) by simp
  note sl = rest_same_slots[OF rs]
  have "filter (\<lambda>a. a \<noteq> e) (?L x) = L x" if "x \<in> slots s" for x
    using id(3) that by (auto simp: link_in_def filter_id_conv)
  then show "runs (wba_event_del os e s1) (\<lambda>(r, s').
    \<exists>L'. ev_inv s' L' A T \<and> (\<forall>x\<in>slots s. L' x = L x) \<and> (\<forall>a. a \<noteq> e \<longrightarrow> evts s' a = evts s a))"
    using id s1(2) sl
    by (intro runs_mono[OF del_clears[OF s1(3) e1]]) (fastforce simp: remove1_idem remove1_insert_due)
qed

section \<open>Ready descriptors\<close>

text \<open>
  \<^verbatim>\<open>event_map_active\<close> appends to the active list, in their order in the slot of the
  descriptor, the events of that slot that wait for one of the reported conditions and are not
  active yet, stores the conditions met in each and changes no other event.
\<close>

theorem map_active_exact:
  assumes inv: "ev_inv s L A T" and fd: "0 \<le> sint fd"
    and H: "H = filter (\<lambda>e. e \<notin> set A \<and> has (events (the (evts s e))) evs) (L (event_map_get_slot (base s) fd))"
  shows "runs (event_map_active fd evs s) (\<lambda>s'. ev_inv s' L (A @ H) T \<and> kernel s' = kernel s \<and>
    evts s' = activated (ready_evt evs) (set H) (evts s))"
  by (rule runs_mono[OF map_active_step[OF inv _ refl]]) (use fd H in \<open>auto simp: hit_def[abs_def]\<close>)

theorem map_active_exact_witness:
  "runs (event_map_active 3 WBA_EVT_READ demo_ev) (\<lambda>s'. ev_inv s' demo_lists_of [4096, 8192] [12288])"
  by (rule runs_mono[OF map_active_exact[OF demo_inv _ refl]])
    (auto simp: demo_due_def event_map_get_slot_def demo_lists_of_def demo_read_def has_def)

text \<open>
  The slots are shared by descriptors that agree modulo 32, and \<^verbatim>\<open>event_map_active\<close> does not
  compare descriptors: when descriptor 3 becomes readable, an event that waits for descriptor
  35 becomes active as well and its callback will be told that 35 is readable.
\<close>

theorem map_active_other_fd:
  "runs (event_map_active 3 WBA_EVT_READ demo_ev) (\<lambda>s'. \<exists>evt. evts s' 8192 = Some evt \<and> evt_fd evt = 35 \<and>
     has (flags evt) WBA_EVTLIST_ACTIVE \<and> res evt = WBA_EVT_READ)"
  by (rule runs_mono[OF map_active_step[OF demo_inv _ refl]])
    (auto simp: hit_def activated_def ready_evt_def demo_due_def event_map_get_slot_def demo_lists_of_def demo_read_def has_def)


section \<open>Reachable states stay good\<close>


lemma demo_reach: "\<exists>s. ev_reach demo_os demo_cb s \<and> evts s 4096 \<noteq> None"
proof -
  have "runs (wba_evtbase_new demo_os 8 64 512 1024 0) (\<lambda>(b, k''). \<exists>s. b = Some s \<and> k'' = 0 \<and> base_at s = 64 \<and>
      evts s = Map.empty \<and> ev_inv s (\<lambda>_. []) [] [])"
    by (rule evtbase_new_inv[of demo_os 0 7 0]) (simp_all add: demo_os_def array_ok_def)
  then obtain s where s: "wba_evtbase_new demo_os 8 64 512 1024 0 = Some (Some s, 0)" "base_at s = 64" "evts s = Map.empty"
    by (auto simp: runs_def)
  have r: "ev_reach demo_os demo_cb s" using s(1) by (rule reach_create) (simp add: array_ok_def)
  have sl: "evt_list (base s) = 1024" "map_size (base s) = 32"
    using s(1) by (auto simp: wba_evtbase_new_def demo_os_def EVT_MAP_SIZE_def bind_Some_conv simp del: init_slots.simps)
  have "slots s = slots demo_ev" by (rule slot_addrs_cong) (simp_all add: sl demo_due_def)
  then have f: "fresh s 4096" using s demo_slot_facts(1) by (simp add: fresh_def aligned_def)
  let ?s = "snd (wba_event_new 4096 (base_at s) 3 WBA_EVT_READ 900 0 s)"
  have "ev_reach demo_os demo_cb ?s" by (rule reach_new[OF r f _ prod.collapse[symmetric]]) simp
  moreover have "evts ?s 4096 \<noteq> None" using s(2) by (simp add: wba_event_new_def put_evt_def)
  ultimately show ?thesis by blast
qed








section \<open>Persistent events and failures\<close>

lemma added_absolute: "added os k (Some t) True evt evt' \<Longrightarrow>
  evt_timeout evt' = t \<and> timeout evt' = timeout evt \<and> has (flags evt') WBA_EVTLIST_REG \<and> has (flags evt') WBA_EVTLIST_TIMEOUT"
  by (auto simp: added_def timed_def)




text \<open>
  (C14) When the kernel refuses to register the descriptor of an event, \<^verbatim>\<open>wba_event_add\<close> returns 0
  and leaves every event, every list and the timer tree as they were, so the call can be
  repeated.
\<close>

theorem event_add_failure:
  assumes inv: "ev_inv s L A T" and e: "evts s e = Some evt" and c: "clock_works os"
    and bad: "\<not> has (flags evt) WBA_EVTLIST_REG" "0 \<le> sint (evt_fd evt)" "has (events evt) EVT_IO"
      "\<not> fst (sys_epoll_add os (epfd (base s)) (evt_fd evt) (epoll_events (events evt)) (kernel s))"
  shows "runs (wba_event_add os e tv s) (\<lambda>(r, s'). r = 0 \<and> rest_same s s' \<and> evts s' = evts s \<and> ev_inv s' L A T)"
proof -
  have "add_fails os s evt" using bad by (simp add: add_fails_def enters_def io_event_def reg_call_def)
  then have "runs (event_add os e tv False s) (\<lambda>(r, s'). r = 0 \<and> rest_same s s' \<and> evts s' = evts s \<and> ev_inv s' L A T)"
    by (intro runs_mono[OF event_add_step[OF inv e c]]) auto
  then show ?thesis using inv by (auto simp: wba_event_add_def split: option.split)
qed

definition demo_more :: "int ev_state" where
  "demo_more = snd (wba_event_new 16384 64 9 WBA_EVT_READ 900 0 demo_ev)"

lemma demo_more_inv: "ev_inv demo_more demo_lists_of [] [12288]"
proof -
  have "fresh demo_ev 16384" using demo_slot_facts(6) by (auto simp: fresh_def aligned_def demo_due_def split: if_splits)
  moreover have "64 = base_at demo_ev" by (simp add: demo_due_def)
  ultimately show ?thesis unfolding demo_more_def using event_new_inv[OF demo_inv, of _ 16384 64 900] by simp
qed

theorem event_add_failure_witness:
  "runs (wba_event_add (demo_os\<lparr>sys_epoll_add := (\<lambda>ep fd ev k. (False, k))\<rparr>) 16384 (Some (Timeval 1 0)) demo_more)
     (\<lambda>(r, s'). r = 0 \<and> evts s' = evts demo_more)"
proof -
  let ?os = "demo_os\<lparr>sys_epoll_add := (\<lambda>ep fd ev k. (False, k))\<rparr>"
  obtain evt where e: "evts demo_more 16384 = Some evt" "flags evt = WBA_EVTLIST_INIT" "evt_fd evt = 9" "events evt = WBA_EVT_READ"
    by (simp add: demo_more_def wba_event_new_def put_evt_def zero_evt_def)
  have c: "clock_works ?os" using demo_clock by (simp add: clock_works_def)
  show ?thesis
    by (rule runs_mono[OF event_add_failure[OF demo_more_inv e(1) c]]) (auto simp: e(2-) has_def EVT_IO_def)
qed

theorem event_add_del_roundtrip_witness:
  "runs (do { (r, s) \<leftarrow> wba_event_add demo_os 16384 (Some (Timeval 1 0)) demo_more; wba_event_del demo_os 16384 s })
     (\<lambda>(r, s'). \<exists>L. ev_inv s' L [] [12288] \<and> L 1072 = [4096, 8192])"
proof -
  obtain evt where e: "evts demo_more 16384 = Some evt" "flags evt = WBA_EVTLIST_INIT"
    by (simp add: demo_more_def wba_event_new_def put_evt_def zero_evt_def)
  have f: "\<not> add_fails demo_os demo_more evt" by (simp add: add_fails_def reg_call_def demo_os_def)
  have "1072 \<in> slots demo_more" using demo_slot_facts(5)
    by (simp add: demo_more_def wba_event_new_def put_evt_def demo_due_def)
  then show ?thesis
    by (intro runs_mono[OF event_add_del_roundtrip[OF demo_more_inv e(1) demo_clock _ _ f]])
      (auto simp: e(2) demo_lists_of_def)
qed

section \<open>Callbacks that delete other active events\<close>

text \<open>
  A loop whose saved successor is linked to itself never ends.
\<close>

lemma safe_loop_endless:
  assumes "n \<noteq> head" and body: "\<And>st. I st \<Longrightarrow> \<exists>st' m. body n st = Some st' \<and> I st' \<and> rd (fst st') n = Some m \<and> nxt m = n"
    and "I st"
  shows "list_for_each_safe_from body head n n st = None"
proof -
  have "\<not> (body' = body \<and> head' = head \<and> p = n \<and> n' = n \<and> I s)"
    if "list_for_each_safe_from body' head' p n' s = Some y" for body' head' p n' s y
  proof (rule list_for_each_safe_from.raw_induct[where P = "\<lambda>body' head' p n' s y. \<not> (body' = body \<and> head' = head \<and> p = n \<and> n' = n \<and> I s)", OF _ that])
    fix f body' head' p n' s y
    assume IH: "\<And>body' head' p n' s y. f body' head' p n' s = Some y \<Longrightarrow> \<not> (body' = body \<and> head' = head \<and> p = n \<and> n' = n \<and> I s)"
      and "(if p = head' then Some s else Option.bind (body' p s) (\<lambda>s. Option.bind (rd (fst s) n') (\<lambda>m. f body' head' n' (nxt m) s))) = Some y"
    then show "\<not> (body' = body \<and> head' = head \<and> p = n \<and> n' = n \<and> I s)"
      using body[of s] assms(1) by (fastforce simp: bind_Some_conv split: if_splits)
  qed
  then show ?thesis using assms(3) by (cases "list_for_each_safe_from body head n n st") auto
qed


text \<open>The base of the example with the events on descriptors 3 and 35 active.\<close>

definition demo_active :: "int ev_state" where
  "demo_active = demo_ev\<lparr>
     evts := [4096 \<mapsto> (demo_read 3)\<lparr>flags := 7, res := 1\<rparr>, 8192 \<mapsto> (demo_read 35)\<lparr>flags := 7, res := 1\<rparr>,
       12288 \<mapsto> demo_timer (Timeval 5 250000)],
     base := (base demo_ev)\<lparr>event_count_active := 2\<rparr>,
     active_lists := (active_lists demo_ev)(64 \<mapsto> \<lparr>nxt = 4096, prv = 8192\<rparr>, 4096 \<mapsto> \<lparr>nxt = 8192, prv = 64\<rparr>,
       8192 \<mapsto> \<lparr>nxt = 64, prv = 4096\<rparr>)\<rparr>"

text \<open>A callback that deletes the event on descriptor 35, whichever event it is called for.\<close>

definition del_35 :: "int callback" where
  "del_35 fn fd r arg s = map_option snd (wba_event_del demo_os 8192 s)"

lemma demo_active_inv: "ev_inv demo_active demo_lists_of [4096, 8192] [12288]"
proof -
  have sl: "slots demo_active = slots demo_ev" by (rule slot_addrs_cong) (simp_all add: demo_active_def)
  note core = demo_core[of "Timeval 5 250000"]
  have a: "active_lists demo_active = [64 \<mapsto> \<lparr>nxt = 4096, prv = 8192\<rparr>, 4096 \<mapsto> \<lparr>nxt = 8192, prv = 64\<rparr>,
       8192 \<mapsto> \<lparr>nxt = 64, prv = 4096\<rparr>, 12288 \<mapsto> \<lparr>nxt = 0, prv = 0\<rparr>]"
    by (auto simp: demo_active_def demo_due_def)
  have "dlist (active_lists demo_active) 64 [4096, 8192]" unfolding a by (simp add: dlist_def nx_def pv_def)
  moreover have "ev_counts demo_active demo_lists_of [4096, 8192] [12288]"
    unfolding ev_counts_def sl demo_sum by (simp add: demo_active_def demo_due_def)
  moreover have "linked demo_active demo_lists_of [4096, 8192] [12288] e evt" if "evts demo_active e = Some evt" for e evt
    using that by (auto simp: linked_def demo_active_def demo_due_def demo_read_def demo_timer_def has_def mapped_def EVT_IO_def
        demo_lists_of_def event_map_get_slot_def split: if_splits)
  moreover have "entry_ok demo_active e evt" if "evts demo_active e = Some evt" for e evt
    using that demo_slot_facts[of "Timeval 5 250000"]
    by (auto simp: entry_ok_def sl) (auto simp: demo_active_def demo_due_def timer_room_def aligned_def demo_read_def demo_timer_def split: if_splits)
  ultimately show ?thesis using core
    by (auto simp: ev_inv_def ev_core_def sl) (auto simp: demo_active_def demo_due_def demo_lists_of_def deadline_def)
qed

lemma del_35_first: "\<exists>s. process_active_one demo_os del_35 4096 demo_active = Some s \<and>
   (\<exists>evt. evts s 8192 = Some evt \<and> flags evt = 1 \<and> evt_base evt = 64 \<and> events evt = WBA_EVT_READ) \<and>
   active_lists s 8192 = Some \<lparr>nxt = 8192, prv = 8192\<rparr>"
  by (simp add: process_active_one_def del_35_def demo_active_def demo_due_def demo_read_def demo_os_def
     wba_event_del_def event_del_def evt_of_def rd_def has_def event_remove_active_def on_active_lists_def list_del_init_def
     list_del_between_def INIT_LIST_HEAD_def wr_def upd_evt_def base_of_def upd_base_def event_map_remove_def EVT_IO_def
     event_unregister_def on_map_lists_def)


lemma del_35_again:
  assumes "evts s 8192 = Some evt" "flags evt = 1" "evt_base evt = 64" "events evt = WBA_EVT_READ"
  shows "process_active_one demo_os del_35 8192 s = Some s"
  using assms by (simp add: process_active_one_def del_35_def wba_event_del_def event_del_def evt_of_def rd_def has_def)

text \<open>
  The loop over the active list is safe only against the removal of the event it is
  processing. In a good state with two active events, a callback that deletes the other one
  with \<^verbatim>\<open>wba_event_del\<close> makes \<^verbatim>\<open>event_process_active\<close> run forever: \<^verbatim>\<open>list_del_init\<close> links the deleted
  event to itself while the loop has already saved it as the next one to process.
\<close>

theorem process_active_endless:
  "ev_inv demo_active demo_lists_of [4096, 8192] [12288] \<and> event_process_active demo_os del_35 demo_active = None"
proof -
  obtain s evt where s: "process_active_one demo_os del_35 4096 demo_active = Some s"
    and e: "evts s 8192 = Some evt" "flags evt = 1" "evt_base evt = 64" "events evt = WBA_EVT_READ"
    and a: "active_lists s 8192 = Some \<lparr>nxt = 8192, prv = 8192\<rparr>" using del_35_first by blast
  let ?body = "\<lambda>e (h, cnt :: 32 word, s). do {
         s \<leftarrow> process_active_one demo_os del_35 e (s\<lparr>active_lists := h\<rparr>);
         Some (active_lists s, cnt + 1, s) }"
  have again: "list_for_each_safe_from ?body 64 8192 8192 (active_lists s, cnt, s) = None" for cnt
    by (rule safe_loop_endless[where I = "\<lambda>st. \<exists>cnt. st = (active_lists s, cnt, s)"])
      (auto simp: del_35_again[OF e] a rd_def lists_idem)
  have h: "active_lists demo_active 64 = Some \<lparr>nxt = 4096, prv = 8192\<rparr>"
    "active_lists demo_active 4096 = Some \<lparr>nxt = 8192, prv = 64\<rparr>" "base_at demo_active = 64"
    by (simp_all add: demo_active_def demo_due_def)
  have "list_for_each_safe ?body 64 (active_lists demo_active, 0, demo_active) = None"
    using s a again by (simp add: list_for_each_safe_def rd_def h, subst list_for_each_safe_from.simps) (simp add: lists_idem rd_def)
  then show ?thesis using demo_active_inv by (simp add: event_process_active_def h(3))
qed

text \<open>
  (C15) \<^verbatim>\<open>wba_evtbase_new\<close> delivers a base that satisfies the invariant, empty and with all 32 slots
  initialised, exactly when the kernel grants an epoll descriptor and the three allocations
  succeed; otherwise it returns NULL. The loop on an empty base returns 1 at once.
\<close>

theorem evtbase_new_result:
  assumes ep: "sys_epoll_create os k = (ep, k')" and ml: "mem_list \<noteq> NULL \<Longrightarrow> array_ok mem_list 32"
  shows "runs (wba_evtbase_new os self mem_base mem_events mem_list k) (\<lambda>(b, k''). k'' = k' \<and>
    (case b of None \<Rightarrow> ep = -1 \<or> mem_base = NULL \<or> mem_events = NULL \<or> mem_list = NULL
     | Some s \<Rightarrow> ep \<noteq> -1 \<and> mem_base \<noteq> NULL \<and> mem_events \<noteq> NULL \<and> mem_list \<noteq> NULL \<and> evts s = Map.empty \<and>
         ev_inv s (\<lambda>_. []) [] [] \<and> wba_event_loop os cb mem_base s = Some (1, s)))"
proof (cases "ep = -1 \<or> mem_base = NULL \<or> mem_events = NULL \<or> mem_list = NULL")
  case True
  then show ?thesis using ep by (auto simp: wba_evtbase_new_def)
next
  case False
  have "wba_event_loop os cb mem_base s = Some (1, s)" if "ev_inv s (\<lambda>_. []) [] []" "base_at s = mem_base" for s
    using ev_invD(2)[OF that(1)] that(2) False
    by (simp add: ev_counts_def wba_event_loop_def event_loop_from.simps event_loop_step_def)
  then show ?thesis
    using False ml by (intro runs_mono[OF evtbase_new_inv[OF ep]]) auto
qed

theorem evtbase_new_result_witness:
  "runs (wba_evtbase_new demo_os 8 64 512 1024 0) (\<lambda>(b, k). \<exists>s. b = Some s \<and> wba_event_loop demo_os demo_cb 64 s = Some (1, s))"
proof -
  have ep: "sys_epoll_create demo_os 0 = (7, 0)" by (simp add: demo_os_def)
  show ?thesis
    by (rule runs_mono[OF evtbase_new_result[OF ep, of 1024 8 64 512 demo_cb]]) (auto simp: array_ok_def split: option.splits)
qed

end
