(* ===== verification/WbaStr.thy ===== *)
theory WbaStr
  imports Prelude
begin

text \<open>
  The growable strings of \<^verbatim>\<open>c_data_structure/wba_str/wba_str.c\<close>. A string is a record of its length,
  its capacity and the block of memory it points to; blocks are lists of bytes, and an access
  outside a block is undefined behaviour (\<open>None\<close>). The allocator is a parameter that decides
  which request succeeds and what fresh memory contains; the memory state counts the requests
  and the blocks in use, so that leaks are visible. A NULL pointer to a string is \<open>None\<close>.
\<close>

section \<open>Memory\<close>

type_synonym byte = "8 word"

record mem_state =
  calls :: nat
  live :: int

record allocator =
  grants :: "nat \<Rightarrow> 64 word \<Rightarrow> bool"
  junk :: "nat \<Rightarrow> nat \<Rightarrow> byte"

definition malloc :: "allocator \<Rightarrow> 64 word \<Rightarrow> mem_state \<Rightarrow> byte list option \<times> mem_state" where
  "malloc a n m =
     (if grants a (calls m) n
      then (Some (map (junk a (calls m)) [0..<unat n]), m\<lparr>calls := Suc (calls m), live := live m + 1\<rparr>)
      else (None, m\<lparr>calls := Suc (calls m)\<rparr>))"

text \<open>A request of size 0 has undefined behaviour.\<close>

definition realloc :: "allocator \<Rightarrow> byte list \<Rightarrow> 64 word \<Rightarrow> mem_state \<Rightarrow> (byte list option \<times> mem_state) option" where
  "realloc a b n m =
     (if n = 0 then None
      else if grants a (calls m) n
      then Some (Some (take (unat n) b @ map (junk a (calls m)) [length b..<unat n]), m\<lparr>calls := Suc (calls m)\<rparr>)
      else Some (None, m\<lparr>calls := Suc (calls m)\<rparr>))"

definition free :: "mem_state \<Rightarrow> mem_state" where
  "free m = m\<lparr>live := live m - 1\<rparr>"

definition memcpy :: "byte list \<Rightarrow> nat \<Rightarrow> byte list \<Rightarrow> nat \<Rightarrow> byte list option" where
  "memcpy dst off src n =
     (if n \<le> length src \<and> off + n \<le> length dst
      then Some (take off dst @ take n src @ drop (off + n) dst) else None)"

definition memset :: "byte list \<Rightarrow> byte \<Rightarrow> nat \<Rightarrow> byte list option" where
  "memset dst c n = memcpy dst 0 (replicate n c) n"

definition put_byte :: "byte list \<Rightarrow> nat \<Rightarrow> byte \<Rightarrow> byte list option" where
  "put_byte b i c = (if i < length b then Some (b[i := c]) else None)"

text \<open>The length of a null-terminated string; reading on past the memory it lies in is undefined.\<close>

definition strlen :: "byte list \<Rightarrow> 64 word option" where
  "strlen s = (if 0 \<in> set s then Some (of_nat (length (takeWhile (\<lambda>c. c \<noteq> 0) s))) else None)"

section \<open>Strings\<close>

definition WBA_STR_MAX_RESERVE_SIZE :: "64 word" where
  "WBA_STR_MAX_RESERVE_SIZE = 1024 * 1024"

record wba_str =
  str_len :: "64 word"
  str_cap :: "64 word"
  str_buf :: "byte list"

definition SIZEOF_STR :: "64 word" where
  "SIZEOF_STR = 24"

definition wba_strnewlen :: "allocator \<Rightarrow> byte list option \<Rightarrow> 64 word \<Rightarrow> mem_state \<Rightarrow> (wba_str option \<times> mem_state) option" where
  "wba_strnewlen a init initlen m =
     (let (ws, m) = malloc a SIZEOF_STR m in
      if ws = None then Some (None, m)
      else let (buf, m) = malloc a (initlen + 1) m in
      case buf of
        None \<Rightarrow> Some (None, free m)
      | Some b \<Rightarrow> do {
          b \<leftarrow> (case init of None \<Rightarrow> memset b 0 (unat initlen) | Some s \<Rightarrow> memcpy b 0 s (unat initlen));
          b \<leftarrow> put_byte b (unat initlen) 0;
          Some (Some \<lparr>str_len = initlen, str_cap = initlen, str_buf = b\<rparr>, m) })"

definition wba_strnew :: "allocator \<Rightarrow> 64 word \<Rightarrow> mem_state \<Rightarrow> (wba_str option \<times> mem_state) option" where
  "wba_strnew a cap m =
     (let (ws, m) = malloc a SIZEOF_STR m in
      if ws = None then Some (None, m)
      else let (buf, m) = malloc a (cap + 1) m in
      case buf of
        None \<Rightarrow> Some (None, free m)
      | Some b \<Rightarrow> do {
          b \<leftarrow> memset b 0 (unat (cap + 1));
          Some (Some \<lparr>str_len = 0, str_cap = cap, str_buf = b\<rparr>, m) })"

definition wba_strnew2 :: "allocator \<Rightarrow> byte list option \<Rightarrow> mem_state \<Rightarrow> (wba_str option \<times> mem_state) option" where
  "wba_strnew2 a str m = do {
     n \<leftarrow> (case str of None \<Rightarrow> Some 0 | Some s \<Rightarrow> strlen s);
     wba_strnewlen a str n m }"

definition wba_strfree :: "wba_str option \<Rightarrow> mem_state \<Rightarrow> mem_state" where
  "wba_strfree ws m = (case ws of None \<Rightarrow> m | Some _ \<Rightarrow> free (free m))"

definition wba_strclr :: "wba_str option \<Rightarrow> wba_str option option" where
  "wba_strclr ws = (case ws of
     None \<Rightarrow> Some None
   | Some w \<Rightarrow> do {
       b \<leftarrow> put_byte (str_buf w) 0 0;
       Some (Some (w\<lparr>str_len := 0, str_buf := b\<rparr>)) })"

text \<open>
  The functions that return their argument or NULL: the result is whether the returned pointer
  is not NULL, the string the argument points to afterwards, and the memory state.
\<close>

type_synonym str_result = "(bool \<times> wba_str option \<times> mem_state) option"

definition wba_strgrow :: "allocator \<Rightarrow> wba_str option \<Rightarrow> 64 word \<Rightarrow> mem_state \<Rightarrow> str_result" where
  "wba_strgrow a ws cap m = (case ws of
     None \<Rightarrow> Some (False, None, m)
   | Some w \<Rightarrow>
       if cap \<le> str_cap w then Some (True, ws, m)
       else do {
         (buf, m) \<leftarrow> realloc a (str_buf w) (cap + 1) m;
         case buf of
           None \<Rightarrow> Some (False, ws, m)
         | Some b \<Rightarrow> Some (True, Some (w\<lparr>str_buf := b, str_cap := cap\<rparr>), m) })"

definition wba_str_reserve :: "allocator \<Rightarrow> wba_str \<Rightarrow> 64 word \<Rightarrow> mem_state \<Rightarrow> str_result" where
  "wba_str_reserve a w cap m =
     (if str_cap w \<ge> cap then Some (True, Some w, m)
      else if cap < WBA_STR_MAX_RESERVE_SIZE then wba_strgrow a (Some w) (cap * 2) m
      else wba_strgrow a (Some w) (cap + WBA_STR_MAX_RESERVE_SIZE) m)"

text \<open>\<open>write_at\<close>: \<^verbatim>\<open>memcpy(ws->buf + off, str, len)\<close>, the new length \<open>n\<close> and the terminator.\<close>

definition write_at :: "wba_str \<Rightarrow> 64 word \<Rightarrow> byte list \<Rightarrow> 64 word \<Rightarrow> 64 word \<Rightarrow> wba_str option" where
  "write_at w off s l n = do {
     b \<leftarrow> memcpy (str_buf w) (unat off) s (unat l);
     b \<leftarrow> put_byte b (unat n) 0;
     Some (w\<lparr>str_buf := b, str_len := n\<rparr>) }"

definition wba_strncpy :: "allocator \<Rightarrow> wba_str option \<Rightarrow> byte list option \<Rightarrow> 64 word \<Rightarrow> mem_state \<Rightarrow> str_result" where
  "wba_strncpy a ws str l m = (case (ws, str) of
     (Some w, Some s) \<Rightarrow>
       if l = 0 then Some (True, ws, m)
       else do {
         (ok, ws, m) \<leftarrow> wba_str_reserve a w l m;
         w \<leftarrow> ws;
         if \<not> ok then Some (False, Some w, m)
         else do {
           w \<leftarrow> write_at w 0 s l l;
           Some (True, Some w, m) }}
   | _ \<Rightarrow> Some (ws \<noteq> None, ws, m))"

definition wba_strcpy :: "allocator \<Rightarrow> wba_str option \<Rightarrow> byte list option \<Rightarrow> mem_state \<Rightarrow> str_result" where
  "wba_strcpy a ws str m = (case (ws, str) of
     (Some w, Some s) \<Rightarrow> do { l \<leftarrow> strlen s; wba_strncpy a ws str l m }
   | _ \<Rightarrow> Some (ws \<noteq> None, ws, m))"

definition wba_strncat :: "allocator \<Rightarrow> wba_str option \<Rightarrow> byte list option \<Rightarrow> 64 word \<Rightarrow> mem_state \<Rightarrow> str_result" where
  "wba_strncat a ws str l m = (case (ws, str) of
     (Some w, Some s) \<Rightarrow>
       if l = 0 then Some (True, ws, m)
       else do {
         (ok, ws, m) \<leftarrow> wba_str_reserve a w (str_len w + l) m;
         w \<leftarrow> ws;
         if \<not> ok then Some (False, Some w, m)
         else do {
           w \<leftarrow> write_at w (str_len w) s l (str_len w + l);
           Some (True, Some w, m) }}
   | _ \<Rightarrow> Some (ws \<noteq> None, ws, m))"

definition wba_strcat :: "allocator \<Rightarrow> wba_str option \<Rightarrow> byte list option \<Rightarrow> mem_state \<Rightarrow> str_result" where
  "wba_strcat a ws str m = (case (ws, str) of
     (Some w, Some s) \<Rightarrow> do { l \<leftarrow> strlen s; wba_strncat a ws str l m }
   | _ \<Rightarrow> Some (ws \<noteq> None, ws, m))"

text \<open>
  \<open>out\<close> is what \<^verbatim>\<open>vsnprintf\<close> prints for the format and its arguments, or \<open>None\<close> where it returns
  a negative value. It writes the characters and a terminator.
\<close>

definition wba_strcat_vprintf :: "allocator \<Rightarrow> wba_str option \<Rightarrow> byte list option \<Rightarrow> mem_state \<Rightarrow> str_result" where
  "wba_strcat_vprintf a ws out m = (case ws of
     None \<Rightarrow> Some (False, None, m)
   | Some w \<Rightarrow> (case out of
       None \<Rightarrow> Some (False, ws, m)
     | Some s \<Rightarrow> do {
         let l = of_nat (length s);
         (ok, ws, m) \<leftarrow> wba_str_reserve a w (str_len w + l) m;
         w \<leftarrow> ws;
         if \<not> ok then Some (False, Some w, m)
         else do {
           b \<leftarrow> memcpy (str_buf w) (unat (str_len w)) (s @ [0]) (length s + 1);
           Some (True, Some (w\<lparr>str_buf := b, str_len := str_len w + l\<rparr>), m) }}))"

definition wba_strcat_printf :: "allocator \<Rightarrow> wba_str option \<Rightarrow> byte list option \<Rightarrow> mem_state \<Rightarrow> str_result" where
  "wba_strcat_printf a ws out m = wba_strcat_vprintf a ws out m"

section \<open>Tokens\<close>

text \<open>The first \<open>cnt\<close> entries of the array are freed, then the array.\<close>

definition wba_strfree_tokens :: "wba_str option list option \<Rightarrow> nat \<Rightarrow> mem_state \<Rightarrow> mem_state option" where
  "wba_strfree_tokens wss cnt m = (case wss of
     None \<Rightarrow> Some m
   | Some ts \<Rightarrow>
       if cnt \<le> length ts then Some (free (fold wba_strfree (take cnt ts) m)) else None)"

text \<open>The inner loop: whether \<open>c\<close> is among the first \<open>n\<close> bytes of \<open>sep\<close>.\<close>

fun sep_hit :: "byte \<Rightarrow> byte list \<Rightarrow> nat \<Rightarrow> bool option" where
  "sep_hit c sep 0 = Some False"
| "sep_hit c [] (Suc n) = None"
| "sep_hit c (q # sep) (Suc n) = (if c = q then Some True else sep_hit c sep n)"

text \<open>
  Storing the token from \<open>b\<close> up to \<open>e\<close>: the array is doubled when it is nearly full, then the
  token is copied into a string of its own. \<open>Inl\<close> is the NULL result after a failed allocation,
  with everything freed. \<open>slots\<close> is an \<^verbatim>\<open>s32\<close>: doubling it beyond the range is undefined.
\<close>

definition grow_slots :: "allocator \<Rightarrow> nat \<Rightarrow> int \<Rightarrow> mem_state \<Rightarrow> ((bool \<times> int) \<times> mem_state) option" where
  "grow_slots a cnt slots m =
     (if int cnt \<ge> slots - 1 then
        if slots * 2 \<ge> 2 ^ 31 then None
        else if grants a (calls m) (of_int (8 * (slots * 2)))
        then Some ((True, slots * 2), m\<lparr>calls := Suc (calls m)\<rparr>)
        else Some ((False, slots * 2), m\<lparr>calls := Suc (calls m)\<rparr>)
      else Some ((True, slots), m))"

definition store_token ::
  "allocator \<Rightarrow> byte list \<Rightarrow> nat \<Rightarrow> nat \<Rightarrow> wba_str list \<Rightarrow> int \<Rightarrow> mem_state \<Rightarrow> ((unit + wba_str list \<times> int) \<times> mem_state) option"
where
  "store_token a str b e toks slots m = do {
     ((ok, slots), m) \<leftarrow> grow_slots a (length toks) slots m;
     if \<not> ok then do { m \<leftarrow> wba_strfree_tokens (Some (map Some toks)) (length toks) m; Some (Inl (), m) }
     else do {
       (ws, m) \<leftarrow> wba_strnew a (of_nat (e - b)) m;
       if ws = None then do { m \<leftarrow> wba_strfree_tokens (Some (map Some toks)) (length toks) m; Some (Inl (), m) }
       else do {
         (_, ws, m) \<leftarrow> wba_strncpy a ws (Some (drop b str)) (of_nat (e - b)) m;
         w \<leftarrow> ws;
         if int (length toks) < slots then Some (Inr (toks @ [w], slots), m) else None }}}"

text \<open>
  The outer loop from index \<open>i\<close> on, with the indices of \<^verbatim>\<open>start\<close> and \<^verbatim>\<open>end\<close>.
\<close>

function tok_loop ::
  "allocator \<Rightarrow> byte list \<Rightarrow> nat \<Rightarrow> byte list \<Rightarrow> nat \<Rightarrow> nat \<Rightarrow> nat option \<Rightarrow> nat option \<Rightarrow> wba_str list \<Rightarrow> int \<Rightarrow> mem_state
   \<Rightarrow> (wba_str list option \<times> nat \<times> mem_state) option"
where
  "tok_loop a str l sep seplen i start end' toks slots m =
     (if i < l then
        if i < length str then do {
          hit \<leftarrow> sep_hit (str ! i) sep seplen;
          let start' = (if \<not> hit then (if start = None then Some i else start) else start);
          let end1 = (if hit then (if start' \<noteq> None then Some i else end') else end');
          let end2 = (if start' \<noteq> None \<and> end1 = None \<and> i = l - 1 then Some (i + 1) else end1);
          (case (start', end2) of
             (Some b, Some e) \<Rightarrow> do {
               (r, m) \<leftarrow> store_token a str b e toks slots m;
               (case r of
                  Inl _ \<Rightarrow> Some (None, length toks, m)
                | Inr (toks, slots) \<Rightarrow> tok_loop a str l sep seplen (i + 1) None None toks slots m) }
           | _ \<Rightarrow> tok_loop a str l sep seplen (i + 1) start' end2 toks slots m) }
        else None
      else Some (Some toks, length toks, m))"
  by pat_completeness auto
termination by (relation "measure (\<lambda>(a, str, l, sep, seplen, i, _). l - i)") auto

text \<open>
  The result is the array of tokens, or \<open>None\<close> for NULL, with the value left in \<^verbatim>\<open>*cnt\<close>; the
  argument \<open>cnt\<close> is \<open>None\<close> where the pointer is NULL.
\<close>

type_synonym tok_result = "(wba_str list option \<times> nat option \<times> mem_state) option"

definition wba_strntok ::
  "allocator \<Rightarrow> byte list option \<Rightarrow> 64 word \<Rightarrow> byte list option \<Rightarrow> 64 word \<Rightarrow> nat option \<Rightarrow> mem_state \<Rightarrow> tok_result"
where
  "wba_strntok a str l sep seplen cnt m =
     (if cnt = None then Some (None, None, m)
      else case (str, sep) of
        (Some s, Some q) \<Rightarrow>
          if seplen = 0 then Some (None, Some 0, m)
          else let (wss, m) = malloc a (8 * 5) m in
            if wss = None then Some (None, Some 0, m)
            else do {
              (wss, n, m) \<leftarrow> tok_loop a s (unat l) q (unat seplen) 0 None None [] 5 m;
              Some (wss, Some n, m) }
      | _ \<Rightarrow> Some (None, Some 0, m))"

definition wba_strtok :: "allocator \<Rightarrow> byte list option \<Rightarrow> byte list option \<Rightarrow> nat option \<Rightarrow> mem_state \<Rightarrow> tok_result" where
  "wba_strtok a str sep cnt m =
     (if cnt = None then Some (None, None, m)
      else case (str, sep) of
        (Some s, Some q) \<Rightarrow> do {
          l \<leftarrow> strlen s;
          n \<leftarrow> strlen q;
          wba_strntok a str l sep n (Some 0) m }
      | _ \<Rightarrow> Some (None, Some 0, m))"

end
