(* ===== verification/WbaStrSpec.thy ===== *)
theory WbaStrSpec
  imports WbaStr
begin

text \<open>
  What the growable strings promise: an invariant of the representation, the bytes each
  operation leaves in the string, and that no operation leaks or leaves its memory.
\<close>

section \<open>The invariant\<close>

definition str_ok :: "wba_str \<Rightarrow> bool" where
  "str_ok w \<longleftrightarrow> length (str_buf w) = unat (str_cap w) + 1 \<and> str_len w \<le> str_cap w \<and>
     str_buf w ! unat (str_len w) = 0"

definition content :: "wba_str \<Rightarrow> byte list" where
  "content w = take (unat (str_len w)) (str_buf w)"

text \<open>Sizes for which no computation of a capacity wraps around.\<close>

definition small :: "nat \<Rightarrow> bool" where
  "small n \<longleftrightarrow> n + 2 ^ 20 + 1 < 2 ^ 64"

lemma length_content: "str_ok w \<Longrightarrow> length (content w) = unat (str_len w)"
  by (auto simp: str_ok_def content_def word_le_nat_alt)

lemma unat_Suc64: "unat (n :: 64 word) + 1 < 2 ^ 64 \<Longrightarrow> unat (n + 1) = unat n + 1"
  by (simp add: unat_word_ariths)

lemma unat_add64: "unat (a :: 64 word) + unat b < 2 ^ 64 \<Longrightarrow> unat (a + b) = unat a + unat b"
  by (simp add: unat_word_ariths)

lemma unat_of_nat64: "n < 2 ^ 64 \<Longrightarrow> unat (of_nat n :: 64 word) = n"
  by (simp add: unat_of_nat)

lemma small_reserve:
  assumes "small (unat cap)"
  shows "cap < WBA_STR_MAX_RESERVE_SIZE \<Longrightarrow> unat (cap * 2) = unat cap * 2"
    "\<not> cap < WBA_STR_MAX_RESERVE_SIZE \<Longrightarrow> unat (cap + WBA_STR_MAX_RESERVE_SIZE) = unat cap + 2 ^ 20"
  using assms by (auto simp: small_def WBA_STR_MAX_RESERVE_SIZE_def word_less_nat_alt unat_word_ariths)

section \<open>Growing\<close>

definition grown :: "wba_str \<Rightarrow> 64 word \<Rightarrow> mem_state \<Rightarrow> bool \<times> wba_str option \<times> mem_state \<Rightarrow> bool" where
  "grown w cap m = (\<lambda>(ok, ws, m'). live m' = live m \<and> (\<exists>w'. ws = Some w' \<and> str_ok w' \<and> content w' = content w \<and>
     str_len w' = str_len w \<and> (if ok then cap \<le> str_cap w' \<and> str_cap w \<le> str_cap w' else w' = w)))"

lemma strgrow_step:
  assumes w: "str_ok w" and cap: "unat cap + 1 < 2 ^ 64"
  shows "runs (wba_strgrow a (Some w) cap m) (grown w cap m)"
proof (cases "cap \<le> str_cap w")
  case True
  then show ?thesis using w by (simp add: wba_strgrow_def grown_def)
next
  case False
  let ?n = "unat (str_len w)" and ?b = "take (unat (cap + 1)) (str_buf w) @ map (junk a (calls m)) [length (str_buf w)..<unat (cap + 1)]"
  have u: "unat (cap + 1) = unat cap + 1" using cap by (rule unat_Suc64)
  have lt: "unat (str_cap w) < unat cap" "?n \<le> unat (str_cap w)" "length (str_buf w) = unat (str_cap w) + 1"
    using False w by (auto simp: str_ok_def word_le_nat_alt)
  have nz: "cap + 1 \<noteq> 0" using u by force
  have "take ?n ?b = take ?n (str_buf w)" "?b ! ?n = str_buf w ! ?n" "length ?b = unat cap + 1"
    using lt u by (auto simp: nth_append min_def)
  then show ?thesis using False w nz lt
    by (auto simp: wba_strgrow_def realloc_def grown_def str_ok_def content_def word_le_nat_alt)
qed

lemma reserve_step:
  assumes w: "str_ok w" and cap: "small (unat cap)"
  shows "runs (wba_str_reserve a w cap m) (grown w cap m)"
proof -
  have le: "cap \<le> c'" if "unat cap \<le> unat c'" for c' using that by (simp add: word_le_nat_alt)
  have mono: "grown w cap m r" if "grown w c' m r" "unat cap \<le> unat c'" for c' r
    using that le by (auto simp: grown_def word_le_nat_alt split: if_splits)
  have s: "unat cap + 2 ^ 20 + 1 < 2 ^ 64" using cap by (simp add: small_def)
  show ?thesis
  proof (cases "cap \<le> str_cap w")
    case True
    then show ?thesis using w by (simp add: wba_str_reserve_def grown_def)
  next
    case False
    show ?thesis
    proof (cases "cap < WBA_STR_MAX_RESERVE_SIZE")
      case True
      then have "unat cap < 2 ^ 20" by (simp add: WBA_STR_MAX_RESERVE_SIZE_def word_less_nat_alt)
      then show ?thesis using False True small_reserve(1)[OF cap True]
        by (auto simp: wba_str_reserve_def intro!: runs_mono[OF strgrow_step[OF w]] intro: mono)
    next
      case big: False
      then show ?thesis using False s small_reserve(2)[OF cap big]
        by (auto simp: wba_str_reserve_def intro!: runs_mono[OF strgrow_step[OF w]] intro: mono)
    qed
  qed
qed

lemma write_at_step:
  assumes w: "str_ok w" and n: "unat off + unat l = unat n" "n \<le> str_cap w" and s: "unat l \<le> length s" "off \<le> str_len w"
  shows "runs (write_at w off s l n) (\<lambda>w'. str_ok w' \<and> content w' = take (unat off) (content w) @ take (unat l) s \<and>
    str_cap w' = str_cap w \<and> str_len w' = n)"
proof -
  let ?b = "take (unat off) (str_buf w) @ take (unat l) s @ drop (unat off + unat l) (str_buf w)"
  have len: "length (str_buf w) = unat (str_cap w) + 1" "unat n \<le> unat (str_cap w)" "unat off \<le> unat (str_len w)"
    using w n(2) s(2) by (auto simp: str_ok_def word_le_nat_alt)
  have "length ?b = length (str_buf w)" using len n s by (simp add: min_def)
  moreover have "take (unat n) ?b = take (unat off) (str_buf w) @ take (unat l) s"
    using len n(1)[symmetric] s by (simp add: min_def)
  ultimately show ?thesis using len n s(1)
    by (auto simp: write_at_def memcpy_def put_byte_def str_ok_def content_def min_def)
qed


section \<open>Copying and appending\<close>

text \<open>
  \<open>written w x m\<close>: the operation succeeded and left the bytes \<open>x\<close>, or it failed and changed
  nothing; no memory is leaked.
\<close>

definition written :: "wba_str \<Rightarrow> byte list \<Rightarrow> mem_state \<Rightarrow> bool \<times> wba_str option \<times> mem_state \<Rightarrow> bool" where
  "written w x m = (\<lambda>(ok, ws, m'). live m' = live m \<and>
     (\<exists>w'. ws = Some w' \<and> str_ok w' \<and> (if ok then content w' = x else w' = w)))"

lemma written_bind:
  assumes w: "str_ok w" and cap: "small (unat cap)"
    and f: "\<And>w'. str_ok w' \<Longrightarrow> content w' = content w \<Longrightarrow> str_len w' = str_len w \<Longrightarrow> cap \<le> str_cap w' \<Longrightarrow>
      runs (f w') (\<lambda>w''. str_ok w'' \<and> content w'' = x)"
  shows "runs (do {
      (ok, ws, m) \<leftarrow> wba_str_reserve a w cap m;
      w \<leftarrow> ws;
      if \<not> ok then Some (False, Some w, m) else do { w \<leftarrow> f w; Some (True, Some w, m) } }) (written w x m)"
proof (rule runs_bindI[OF reserve_step[OF w cap]])
  fix r assume r: "grown w cap m r"
  obtain ok ws m' where [simp]: "r = (ok, ws, m')" by (cases r)
  from r obtain w' where w': "ws = Some w'" "str_ok w'" "content w' = content w" "str_len w' = str_len w" "live m' = live m"
    "if ok then cap \<le> str_cap w' else w' = w" by (auto simp: grown_def split: if_splits)
  have "runs (f w') (\<lambda>w''. str_ok w'' \<and> content w'' = x)" if ok using f w' that by simp
  then show "runs (case r of (ok, ws, m) \<Rightarrow> do {
      w \<leftarrow> ws; if \<not> ok then Some (False, Some w, m) else do { w \<leftarrow> f w; Some (True, Some w, m) } }) (written w x m)"
    using w' by (auto simp: runs_bind written_def elim!: runs_mono)
qed

lemma strncpy_step:
  assumes w: "str_ok w" and s: "unat l \<le> length s" "small (unat l)" "l \<noteq> 0"
  shows "runs (wba_strncpy a (Some w) (Some s) l m) (written w (take (unat l) s) m)"
proof -
  have "runs (write_at w' 0 s l l) (\<lambda>w''. str_ok w'' \<and> content w'' = take (unat l) s)" if "str_ok w'" "l \<le> str_cap w'" for w'
    by (rule runs_mono[OF write_at_step[OF that(1) _ that(2) s(1)]]) auto
  then show ?thesis using written_bind[OF w s(2), where f = "\<lambda>w. write_at w 0 s l l"] s(3)
    by (simp add: wba_strncpy_def)
qed

lemma strncat_step:
  assumes w: "str_ok w" and s: "unat l \<le> length s" "small (unat (str_len w) + unat l)"
  shows "runs (wba_strncat a (Some w) (Some s) l m) (written w (content w @ take (unat l) s) m)"
proof (cases "l = 0")
  case True
  then show ?thesis using w by (simp add: wba_strncat_def written_def)
next
  case False
  have u: "unat (str_len w + l) = unat (str_len w) + unat l" by (rule unat_add64) (use s in \<open>simp add: small_def\<close>)
  have "runs (write_at w' (str_len w') s l (str_len w' + l)) (\<lambda>w''. str_ok w'' \<and> content w'' = content w @ take (unat l) s)"
    if "str_ok w'" "content w' = content w" "str_len w' = str_len w" "str_len w + l \<le> str_cap w'" for w'
    by (rule runs_mono[OF write_at_step[OF that(1)]])
      (use that u s length_content[OF that(1)] in \<open>auto simp: content_def\<close>)
  then show ?thesis
    using written_bind[OF w, of "str_len w + l" "\<lambda>w. write_at w (str_len w) s l (str_len w + l)"] s(2) u False
    by (simp add: wba_strncat_def)
qed

lemma strcat_vprintf_step:
  assumes w: "str_ok w" and s: "small (unat (str_len w) + length s)"
  shows "runs (wba_strcat_vprintf a (Some w) (Some s) m) (written w (content w @ s) m)"
proof -
  let ?l = "of_nat (length s) :: 64 word"
  have l: "unat ?l = length s" by (rule unat_of_nat64) (use s in \<open>simp add: small_def\<close>)
  have u: "unat (str_len w + ?l) = unat (str_len w) + length s" using l s by (subst unat_add64) (simp_all add: small_def)
  let ?f = "\<lambda>w. do { b \<leftarrow> memcpy (str_buf w) (unat (str_len w)) (s @ [0]) (length s + 1);
    Some (w\<lparr>str_buf := b, str_len := str_len w + ?l\<rparr>) }"
  have "runs (?f w') (\<lambda>w''. str_ok w'' \<and> content w'' = content w @ s)"
    if "str_ok w'" "content w' = content w" "str_len w' = str_len w" "str_len w + ?l \<le> str_cap w'" for w'
  proof -
    have "unat (str_len w') + length s \<le> unat (str_cap w')" using that u by (simp add: word_le_nat_alt)
    then show ?thesis unfolding that(2)[symmetric] using that(1) u[folded that(3)]
      by (auto simp: memcpy_def str_ok_def content_def word_le_nat_alt nth_append min_def)
  qed
  then show ?thesis using written_bind[OF w, of "str_len w + ?l" ?f] s u
    by (simp add: wba_strcat_vprintf_def Let_def Option.bind_assoc cong: if_cong)
qed

section \<open>The contract of appending\<close>

text \<open>
  What the callers of the appending functions rely on: each piece is appended as a whole or the
  string is unchanged. Folding it over a list of pieces, stopping at the first failure, leaves
  the concatenation of a prefix of the pieces.
\<close>

fun append_all :: "('s \<Rightarrow> 'p list \<Rightarrow> 'm \<Rightarrow> (bool \<times> 's \<times> 'm) option) \<Rightarrow> 's \<Rightarrow> 'p list list \<Rightarrow> 'm \<Rightarrow> (bool \<times> 's \<times> 'm) option" where
  "append_all app s [] m = Some (True, s, m)"
| "append_all app s (x # xs) m = do {
     (ok, s, m) \<leftarrow> app s x m;
     if ok then append_all app s xs m else Some (False, s, m) }"

locale appendable =
  fixes good :: "'s \<Rightarrow> bool" and text_of :: "'s \<Rightarrow> 'p list" and room :: "nat \<Rightarrow> bool"
    and append :: "'s \<Rightarrow> 'p list \<Rightarrow> 'm \<Rightarrow> (bool \<times> 's \<times> 'm) option" and used :: "'m \<Rightarrow> int"
  assumes append_law: "good s \<Longrightarrow> room (length (text_of s) + length x) \<Longrightarrow>
      runs (append s x m) (\<lambda>(ok, s', m'). good s' \<and> used m' = used m \<and> text_of s' = (if ok then text_of s @ x else text_of s))"
    and room_mono: "room n \<Longrightarrow> k \<le> n \<Longrightarrow> room k"
begin

lemma append_all_concat:
  assumes "good s" "room (length (text_of s) + length (concat xs))"
  shows "runs (append_all append s xs m) (\<lambda>(ok, s', m'). good s' \<and> used m' = used m \<and>
    (\<exists>ys zs. xs = ys @ zs \<and> text_of s' = text_of s @ concat ys \<and> (ok \<longrightarrow> zs = [])))"
  using assms
proof (induction xs arbitrary: s m)
  case Nil
  then show ?case by simp
next
  case (Cons x xs)
  have "room (length (text_of s) + length x)" using Cons.prems(2) by (rule room_mono) simp
  from append_law[OF Cons.prems(1) this] show ?case
    unfolding append_all.simps
  proof (rule runs_bindI, clarify)
    fix ok s1 m1 assume s1: "good s1" "used m1 = used m" "text_of s1 = (if ok then text_of s @ x else text_of s)"
    show "runs (if ok then append_all append s1 xs m1 else Some (False, s1, m1)) (\<lambda>(ok, s', m'). good s' \<and> used m' = used m \<and>
      (\<exists>ys zs. x # xs = ys @ zs \<and> text_of s' = text_of s @ concat ys \<and> (ok \<longrightarrow> zs = [])))"
    proof (cases ok)
      case True
      have "room (length (text_of s1) + length (concat xs))" using Cons.prems(2) s1(3) True by (simp add: add.assoc)
      from Cons.IH[OF s1(1) this, of m1] have "runs (append_all append s1 xs m1) (\<lambda>(ok, s', m'). good s' \<and> used m' = used m \<and>
        (\<exists>ys zs. x # xs = ys @ zs \<and> text_of s' = text_of s @ concat ys \<and> (ok \<longrightarrow> zs = [])))"
      proof (rule runs_mono)
        fix r assume r: "case r of (ok, s', m') \<Rightarrow> good s' \<and> used m' = used m1 \<and>
          (\<exists>ys zs. xs = ys @ zs \<and> text_of s' = text_of s1 @ concat ys \<and> (ok \<longrightarrow> zs = []))"
        obtain b s2 m2 where [simp]: "r = (b, s2, m2)" by (cases r)
        from r obtain ys zs where "xs = ys @ zs" "text_of s2 = text_of s1 @ concat ys" "b \<longrightarrow> zs = []" by auto
        then have "x # xs = (x # ys) @ zs \<and> text_of s2 = text_of s @ concat (x # ys) \<and> (b \<longrightarrow> zs = [])" using s1 True by simp
        then have "\<exists>ys zs. x # xs = ys @ zs \<and> text_of s2 = text_of s @ concat ys \<and> (b \<longrightarrow> zs = [])" by blast
        then show "case r of (ok, s', m') \<Rightarrow> good s' \<and> used m' = used m \<and>
          (\<exists>ys zs. x # xs = ys @ zs \<and> text_of s' = text_of s @ concat ys \<and> (ok \<longrightarrow> zs = []))"
          using r s1(2) by simp
      qed
      then show ?thesis using True by simp
    next
      case False
      then show ?thesis using s1 by simp (rule exI[of _ "[]"], simp)
    qed
  qed
qed

end

text \<open>Both appending functions of the library meet the contract.\<close>

definition cat_op :: "allocator \<Rightarrow> wba_str \<Rightarrow> byte list \<Rightarrow> mem_state \<Rightarrow> (bool \<times> wba_str \<times> mem_state) option" where
  "cat_op a w s m = do {
     (ok, ws, m) \<leftarrow> wba_strncat a (Some w) (Some s) (of_nat (length s)) m;
     w \<leftarrow> ws;
     Some (ok, w, m) }"

definition printf_op :: "allocator \<Rightarrow> wba_str \<Rightarrow> byte list \<Rightarrow> mem_state \<Rightarrow> (bool \<times> wba_str \<times> mem_state) option" where
  "printf_op a w s m = do {
     (ok, ws, m) \<leftarrow> wba_strcat_printf a (Some w) (Some s) m;
     w \<leftarrow> ws;
     Some (ok, w, m) }"

lemma written_result: "runs r (written w x m) \<Longrightarrow>
  runs (do { (ok, ws, m) \<leftarrow> r; w \<leftarrow> ws; Some (ok, w, m) })
    (\<lambda>(ok, w', m'). str_ok w' \<and> live m' = live m \<and> content w' = (if ok then x else content w))"
  by (cases r) (auto simp: written_def runs_bind)

interpretation cat: appendable str_ok content small "cat_op a" live for a
proof
  fix w m and x :: "byte list" assume w: "str_ok w" and r: "small (length (content w) + length x)"
  have "unat (of_nat (length x) :: 64 word) = length x" by (rule unat_of_nat64) (use r in \<open>simp add: small_def\<close>)
  then show "runs (cat_op a w x m) (\<lambda>(ok, w', m'). str_ok w' \<and> live m' = live m \<and> content w' = (if ok then content w @ x else content w))"
    unfolding cat_op_def using strncat_step[OF w, of "of_nat (length x)" x a m] r length_content[OF w]
    by (intro written_result) simp
qed (simp add: small_def)

interpretation pr: appendable str_ok content small "printf_op a" live for a
proof
  fix w m and x :: "byte list" assume w: "str_ok w" and r: "small (length (content w) + length x)"
  show "runs (printf_op a w x m) (\<lambda>(ok, w', m'). str_ok w' \<and> live m' = live m \<and> content w' = (if ok then content w @ x else content w))"
    unfolding printf_op_def wba_strcat_printf_def using strcat_vprintf_step[OF w, of x a m] r length_content[OF w]
    by (intro written_result) simp
qed (simp add: small_def)


section \<open>Creating strings\<close>

lemma strnew_step:
  assumes cap: "unat cap + 1 < 2 ^ 64"
  shows "runs (wba_strnew a cap m) (\<lambda>(ws, m'). case ws of None \<Rightarrow> live m' = live m
    | Some w \<Rightarrow> str_ok w \<and> content w = [] \<and> str_cap w = cap \<and> live m' = live m + 2)"
proof -
  have u: "unat (cap + 1) = unat cap + 1" using cap by (rule unat_Suc64)
  then show ?thesis
    by (auto simp: wba_strnew_def malloc_def memset_def memcpy_def free_def str_ok_def content_def Let_def simp del: replicate.simps)
qed

lemma strnewlen_step:
  assumes n: "unat n + 1 < 2 ^ 64" and s: "\<And>s. init = Some s \<Longrightarrow> unat n \<le> length s"
  shows "runs (wba_strnewlen a init n m) (\<lambda>(ws, m'). case ws of None \<Rightarrow> live m' = live m
    | Some w \<Rightarrow> str_ok w \<and> content w = (case init of None \<Rightarrow> replicate (unat n) 0 | Some s \<Rightarrow> take (unat n) s) \<and>
        str_cap w = n \<and> live m' = live m + 2)"
proof -
  have u: "unat (n + 1) = unat n + 1" using n by (rule unat_Suc64)
  show ?thesis using u s
    by (cases init) (auto simp: wba_strnewlen_def malloc_def memset_def memcpy_def put_byte_def free_def str_ok_def content_def
        Let_def nth_append min_def)
qed

lemma strlen_step: "0 \<in> set s \<Longrightarrow> length s < 2 ^ 64 \<Longrightarrow>
  \<exists>n. strlen s = Some n \<and> unat n = length (takeWhile (\<lambda>c. c \<noteq> 0) s) \<and> unat n < length s \<and> take (unat n) s = takeWhile (\<lambda>c. c \<noteq> 0) s"
proof -
  assume z: "0 \<in> set s" and l: "length s < 2 ^ 64"
  let ?t = "takeWhile (\<lambda>c. c \<noteq> 0) s"
  have "?t \<noteq> s" using z set_takeWhileD[of 0 "\<lambda>c. c \<noteq> 0" s] by auto
  then have lt: "length ?t < length s" by (metis length_takeWhile_le linorder_neqE_nat not_le takeWhile_eq_all_conv take_all takeWhile_eq_take)
  then have "unat (of_nat (length ?t) :: 64 word) = length ?t" using l by (intro unat_of_nat64) simp
  then show ?thesis using z lt by (auto simp: strlen_def takeWhile_eq_take[symmetric])
qed

section \<open>Tokens\<close>

text \<open>
  The reference: the maximal runs of bytes that are not separators, from left to right.
\<close>

function tokens :: "('a \<Rightarrow> bool) \<Rightarrow> 'a list \<Rightarrow> 'a list list" where
  "tokens P [] = []"
| "tokens P (c # s) =
     (if P c then tokens P s
      else (c # takeWhile (\<lambda>c. \<not> P c) s) # tokens P (dropWhile (\<lambda>c. \<not> P c) s))"
  by pat_completeness auto
termination by (relation "measure (\<lambda>(P, s). length s)") (auto simp: le_imp_less_Suc length_dropWhile_le)

lemma tokens_run: "xs \<noteq> [] \<Longrightarrow> \<forall>c\<in>set xs. \<not> P c \<Longrightarrow> tokens P (xs @ s) =
   (xs @ takeWhile (\<lambda>c. \<not> P c) s) # tokens P (dropWhile (\<lambda>c. \<not> P c) s)"
  by (cases xs) (auto simp: takeWhile_append2 dropWhile_append2)

lemma sep_hit_mem: "n \<le> length sep \<Longrightarrow> sep_hit c sep n = Some (c \<in> set (take n sep))"
  by (induction c sep n rule: sep_hit.induct) auto

lemma strncpy_fits:
  assumes w: "str_ok w" "l \<le> str_cap w" and s: "unat l \<le> length s" "l \<noteq> 0"
  shows "runs (wba_strncpy a (Some w) (Some s) l m) (\<lambda>(ok, ws, m'). ok \<and> m' = m \<and>
    (\<exists>w'. ws = Some w' \<and> str_ok w' \<and> content w' = take (unat l) s))"
proof -
  have "runs (write_at w 0 s l l) (\<lambda>w'. str_ok w' \<and> content w' = take (unat l) s)"
    by (rule runs_mono[OF write_at_step[OF w(1) _ w(2) s(1)]]) auto
  then show ?thesis using w s by (auto simp: wba_strncpy_def wba_str_reserve_def runs_bind elim!: runs_mono)
qed

lemma live_fold_free: "live (fold wba_strfree (map Some ts) m) = live m - 2 * int (length ts)"
  by (induction ts arbitrary: m) (auto simp: wba_strfree_def free_def)

lemma free_tokens_step: "runs (wba_strfree_tokens (Some (map Some ts)) (length ts) m) (\<lambda>m'. live m' = live m - 1 - 2 * int (length ts))"
  by (simp add: wba_strfree_tokens_def) (simp add: free_def live_fold_free)

text \<open>The array of tokens with its capacity, as it is between two tokens.\<close>

definition slots_ok :: "wba_str list \<Rightarrow> int \<Rightarrow> bool" where
  "slots_ok toks slots \<longleftrightarrow> int (length toks) \<le> slots - 1 \<and> 5 \<le> slots \<and> slots \<le> 2 * int (length toks) + 5 \<and> list_all str_ok toks"

lemma grow_slots_step:
  assumes "slots_ok toks slots" "length toks + 1 < 2 ^ 30"
  shows "runs (grow_slots a (length toks) slots m) (\<lambda>((ok, slots'), m'). live m' = live m \<and>
    int (length toks) + 1 \<le> slots' - 1 \<and> slots' \<le> 2 * int (length toks) + 7 \<and> 5 \<le> slots')"
  using assms by (auto simp: grow_slots_def slots_ok_def)

lemma store_token_step:
  assumes ok: "slots_ok toks slots" "length toks + 1 < 2 ^ 30" and b: "b < e" "e \<le> length str" "e < 2 ^ 30"
  shows "runs (store_token a str b e toks slots m) (\<lambda>(r, m'). case r of
      Inl _ \<Rightarrow> live m' = live m - 1 - 2 * int (length toks)
    | Inr (toks', slots') \<Rightarrow> live m' = live m + 2 \<and> slots_ok toks' slots' \<and>
        (\<exists>w. toks' = toks @ [w] \<and> content w = take (e - b) (drop b str)))" (is "runs _ ?Q")
  unfolding store_token_def
proof (rule runs_bindI[OF grow_slots_step[OF ok]], clarify)
  let ?l = "of_nat (e - b) :: 64 word"
  have l: "unat ?l = e - b" by (rule unat_of_nat64) (use b in simp)
  have nz: "?l \<noteq> 0" using l b by force
  fix g slots' and m1 :: mem_state assume g: "live m1 = live m" "int (length toks) + 1 \<le> slots' - 1" "slots' \<le> 2 * int (length toks) + 7" "5 \<le> slots'"
  let ?fail = "\<lambda>m. do { m \<leftarrow> wba_strfree_tokens (Some (map Some toks)) (length toks) m; Some (Inl (), m) }"
  have fail: "runs (?fail m2) ?Q" if "live m2 = live m" for m2
    by (rule runs_bindI[OF free_tokens_step]) (use that in simp)
  let ?rest = "\<lambda>ws m. if ws = None then ?fail m else do {
      (_, ws, m) \<leftarrow> wba_strncpy a ws (Some (drop b str)) ?l m; w \<leftarrow> ws;
      if int (length toks) < slots' then Some (Inr (toks @ [w], slots'), m) else None }"
  have "runs (do { (ws, m) \<leftarrow> wba_strnew a ?l m1; ?rest ws m }) ?Q"
  proof (rule runs_bindI[OF strnew_step])
    show "unat ?l + 1 < 2 ^ 64" using l b by simp
    fix r :: "wba_str option \<times> mem_state" assume r: "case r of (ws, m') \<Rightarrow> case ws of None \<Rightarrow> live m' = live m1
      | Some w \<Rightarrow> str_ok w \<and> content w = [] \<and> str_cap w = ?l \<and> live m' = live m1 + 2"
    obtain ws m2 where [simp]: "r = (ws, m2)" by (cases r)
    show "runs (case r of (ws, m) \<Rightarrow> ?rest ws m) ?Q"
    proof (cases ws)
      case None
      then show ?thesis using r g(1) fail[of m2] by simp
    next
      case (Some w)
      have "runs (wba_strncpy a (Some w) (Some (drop b str)) ?l m2) (\<lambda>(ok, ws, m'). ok \<and> m' = m2 \<and>
          (\<exists>w'. ws = Some w' \<and> str_ok w' \<and> content w' = take (unat ?l) (drop b str)))"
        by (rule strncpy_fits) (use r Some l b nz in auto)
      then show ?thesis using Some r g l ok(1)
        by (auto simp: runs_bind slots_ok_def elim!: runs_mono)
    qed
  qed
  then show "runs (if \<not> g then ?fail m1 else do { (ws, m) \<leftarrow> wba_strnew a ?l m1; ?rest ws m }) ?Q"
    using fail[OF g(1)] by simp
qed


text \<open>The loop from index \<open>i\<close> on, with a token begun at \<open>start\<close> or none.\<close>

definition begun :: "('a \<Rightarrow> bool) \<Rightarrow> 'a list \<Rightarrow> nat \<Rightarrow> nat option \<Rightarrow> bool" where
  "begun P s i start \<longleftrightarrow> (case start of None \<Rightarrow> i \<le> length s
     | Some b \<Rightarrow> b < i \<and> i < length s \<and> (\<forall>j. b \<le> j \<longrightarrow> j < i \<longrightarrow> \<not> P (s ! j)))"

lemma tokens_sep: "P (s ! i) \<Longrightarrow> i < length s \<Longrightarrow> tokens P (drop i s) = tokens P (drop (Suc i) s)"
  by (simp add: Cons_nth_drop_Suc[symmetric])

lemma tokens_begun_sep:
  assumes "begun P s i (Some b)" "P (s ! i)"
  shows "tokens P (drop b s) = take (i - b) (drop b s) # tokens P (drop (Suc i) s)"
proof -
  have i: "b < i" "i < length s" using assms(1) by (auto simp: begun_def)
  have "\<forall>c\<in>set (take (i - b) (drop b s)). \<not> P c"
    using assms(1) by (auto simp: begun_def in_set_conv_nth)
  moreover have "drop b s = take (i - b) (drop b s) @ s ! i # drop (Suc i) s"
    using i by (metis Cons_nth_drop_Suc append_take_drop_id drop_drop le_add_diff_inverse2 less_imp_le_nat)
  ultimately show ?thesis using tokens_run[of "take (i - b) (drop b s)" P "s ! i # drop (Suc i) s"] i assms(2) by simp
qed

lemma tokens_last:
  assumes "\<forall>j. b \<le> j \<longrightarrow> j < length s \<longrightarrow> \<not> P (s ! j)" "b < length s"
  shows "tokens P (drop b s) = [drop b s]"
proof -
  have "\<forall>c\<in>set (drop b s). \<not> P c" using assms(1) by (auto simp: in_set_conv_nth)
  then show ?thesis using tokens_run[of "drop b s" P "[]"] assms(2) by simp
qed


definition tok_done :: "wba_str list \<Rightarrow> byte list list \<Rightarrow> mem_state \<Rightarrow> wba_str list option \<times> nat \<times> mem_state \<Rightarrow> bool" where
  "tok_done toks rest m = (\<lambda>(r, n, m'). case r of
      None \<Rightarrow> live m' = live m - 1 - 2 * int (length toks)
    | Some ts \<Rightarrow> n = length ts \<and> list_all str_ok ts \<and> map content ts = map content toks @ rest \<and>
        live m' = live m + 2 * int (length ts) - 2 * int (length toks))"

declare tok_loop.simps [simp del]

lemma tok_done_store:
  assumes "tok_done (toks @ [w]) rest m1 r" "live m1 = live m + 2"
  shows "tok_done toks (content w # rest) m r"
  using assms by (auto simp: tok_done_def split: option.splits prod.splits)

lemma tok_loop_step:
  fixes str sep :: "byte list" and l seplen :: nat
  defines "P \<equiv> \<lambda>c. c \<in> set (take seplen sep)" and "s \<equiv> take l str"
  assumes l: "l \<le> length str" "seplen \<le> length sep" "l + 1 < 2 ^ 30"
    and "begun P s i start" "slots_ok toks slots" "length toks \<le> i"
  shows "runs (tok_loop a str l sep seplen i start None toks slots m)
    (tok_done toks (tokens P (drop (case start of None \<Rightarrow> i | Some b \<Rightarrow> b) s)) m)"
  using assms(6-8)
proof (induction "l - i" arbitrary: i start toks slots m)
  case 0
  then have "start = None \<and> \<not> i < l" using l by (auto simp: begun_def s_def split: option.splits)
  then show ?case using 0 l by (subst tok_loop.simps) (auto simp: tok_done_def slots_ok_def s_def)
next
  case (Suc k)
  have i: "i < l" "i < length str" "k = l - Suc i" "length s = l" using Suc.hyps(2) l by (auto simp: s_def)
  have nth: "str ! i = s ! i" using i by (simp add: s_def)
  have hit: "sep_hit (str ! i) sep seplen = Some (P (s ! i))" using sep_hit_mem[OF l(2)] nth by (simp add: P_def)
  have store: "runs (do { (r, m) \<leftarrow> store_token a str b e toks slots m;
        (case r of Inl _ \<Rightarrow> Some (None, length toks, m)
         | Inr (toks, slots) \<Rightarrow> tok_loop a str l sep seplen (i + 1) None None toks slots m) })
      (tok_done toks (take (e - b) (drop b s) # tokens P (drop (Suc i) s)) m)"
    if b: "b < e" "e \<le> Suc i" for b e
  proof (rule runs_bindI[OF store_token_step[OF Suc.prems(2) _ b(1)]])
    show "length toks + 1 < 2 ^ 30" "e \<le> length str" "e < 2 ^ 30" using Suc.prems(3) i b l by auto
    fix x :: "(unit + wba_str list \<times> int) \<times> mem_state"
    assume x: "case x of (r, m') \<Rightarrow> case r of
      Inl _ \<Rightarrow> live m' = live m - 1 - 2 * int (length toks)
    | Inr (toks', slots') \<Rightarrow> live m' = live m + 2 \<and> slots_ok toks' slots' \<and>
        (\<exists>w. toks' = toks @ [w] \<and> content w = take (e - b) (drop b str))"
    obtain r m1 where [simp]: "x = (r, m1)" by (cases x)
    show "runs (case x of (r, m) \<Rightarrow> (case r of Inl _ \<Rightarrow> Some (None, length toks, m)
         | Inr (toks, slots) \<Rightarrow> tok_loop a str l sep seplen (i + 1) None None toks slots m))
      (tok_done toks (take (e - b) (drop b s) # tokens P (drop (Suc i) s)) m)"
    proof (cases r)
      case (Inl u)
      then show ?thesis using x by (simp add: tok_done_def)
    next
      case (Inr q)
      obtain slots' w where q: "q = (toks @ [w], slots')" "live m1 = live m + 2" "slots_ok (toks @ [w]) slots'"
        "content w = take (e - b) (drop b str)" using x Inr by (cases q) auto
      have c: "content w = take (e - b) (drop b s)" using q(4) b i by (simp add: s_def drop_take min_def)
      have "runs (tok_loop a str l sep seplen (Suc i) None None (toks @ [w]) slots' m1)
          (tok_done (toks @ [w]) (tokens P (drop (Suc i) s)) m1)"
        using Suc.hyps(1)[of "Suc i" None "toks @ [w]" slots' m1] i q(3) Suc.prems(3) by (simp add: begun_def)
      then have "runs (tok_loop a str l sep seplen (Suc i) None None (toks @ [w]) slots' m1)
          (tok_done toks (take (e - b) (drop b s) # tokens P (drop (Suc i) s)) m)"
        unfolding c[symmetric] by (rule runs_mono) (rule tok_done_store[OF _ q(2)])
      then show ?thesis using Inr q(1) by simp
    qed
  qed
  show ?case
  proof (cases "P (s ! i)")
    case sep: True
    show ?thesis
    proof (cases start)
      case None
      have "runs (tok_loop a str l sep seplen (Suc i) None None toks slots m) (tok_done toks (tokens P (drop (Suc i) s)) m)"
        using Suc.hyps(1)[of "Suc i" None toks slots m] i Suc.prems by (simp add: begun_def)
      then show ?thesis using None sep i hit tokens_sep[of P s i, OF sep] by (subst tok_loop.simps) (simp add: Let_def)
    next
      case (Some b)
      have "b < i" using Suc.prems(1) Some by (simp add: begun_def)
      then show ?thesis using Some sep i hit tokens_begun_sep[of P s i b, OF Suc.prems(1)[unfolded Some] sep] store[of b i]
        by (subst tok_loop.simps) (simp add: Let_def)
    qed
  next
    case tok: False
    let ?b = "case start of None \<Rightarrow> i | Some b \<Rightarrow> b"
    have b: "?b \<le> i" "\<forall>j. ?b \<le> j \<longrightarrow> j < Suc i \<longrightarrow> \<not> P (s ! j)"
      using Suc.prems(1) tok by (auto simp: begun_def less_Suc_eq split: option.splits)
    have st: "(if start = None then Some i else start) = Some ?b" by (cases start) auto
    show ?thesis
    proof (cases "i = l - 1")
      case True
      have "tokens P (drop ?b s) = [drop ?b s]" by (rule tokens_last) (use b i True in auto)
      moreover have "take (Suc i - ?b) (drop ?b s) = drop ?b s" "drop (Suc i) s = []" using i True b by auto
      ultimately show ?thesis using store[of ?b "Suc i"] b(1) tok hit i True st
        by (subst tok_loop.simps) (simp add: Let_def)
    next
      case False
      have "runs (tok_loop a str l sep seplen (Suc i) (Some ?b) None toks slots m) (tok_done toks (tokens P (drop ?b s)) m)"
        using Suc.hyps(1)[of "Suc i" "Some ?b" toks slots m] i b False Suc.prems by (simp add: begun_def)
      then show ?thesis using tok hit i False st by (subst tok_loop.simps) (simp add: Let_def)
    qed
  qed
qed


lemma strntok_step:
  assumes l: "unat l \<le> length str" "unat l + 1 < 2 ^ 30" and sep: "unat n \<le> length sep" "n \<noteq> 0"
  shows "runs (wba_strntok a (Some str) l (Some sep) n (Some c) m) (\<lambda>(r, k, m'). case r of
      None \<Rightarrow> live m' = live m
    | Some ts \<Rightarrow> k = Some (length ts) \<and> list_all str_ok ts \<and> live m' = live m + 1 + 2 * int (length ts) \<and>
        map content ts = tokens (\<lambda>c. c \<in> set (take (unat n) sep)) (take (unat l) str))"
proof (cases "grants a (calls m) 40")
  case False
  then show ?thesis using sep by (simp add: wba_strntok_def malloc_def)
next
  case True
  let ?m = "m\<lparr>calls := Suc (calls m), live := live m + 1\<rparr>"
  have "begun (\<lambda>c. c \<in> set (take (unat n) sep)) (take (unat l) str) 0 None" by (simp add: begun_def)
  from tok_loop_step[OF l(1) sep(1) l(2) this, of "[]" 5 a ?m]
  have "runs (tok_loop a str (unat l) sep (unat n) 0 None None [] 5 ?m)
      (tok_done [] (tokens (\<lambda>c. c \<in> set (take (unat n) sep)) (take (unat l) str)) ?m)" by (simp add: slots_ok_def)
  then show ?thesis using True sep(2)
    by (auto simp: wba_strntok_def malloc_def runs_bind tok_done_def elim!: runs_mono split: option.splits)
qed

section \<open>Properties\<close>

text \<open>
  \<^verbatim>\<open>wba_strncat\<close> appends exactly the given bytes, embedded zero bytes included, and keeps the
  string's invariant (the length within the capacity, the capacity within the allocated block,
  a terminator behind the last byte); when memory cannot be had it returns NULL and the string
  is as it was. Nothing is written outside the block and nothing is leaked.
\<close>

theorem wba_strncat_appends:
  assumes "str_ok w" "unat l \<le> length s" "small (unat (str_len w) + unat l)"
  shows "runs (wba_strncat a (Some w) (Some s) l m) (\<lambda>(ok, ws, m'). live m' = live m \<and>
    (\<exists>w'. ws = Some w' \<and> str_ok w' \<and> (if ok then content w' = content w @ take (unat l) s else w' = w)))"
  using strncat_step[OF assms] by (simp add: written_def)

text \<open>An allocator that grants every request below 2 to the 32 and fills memory with 0xAA.\<close>

definition demo_alloc :: allocator where
  "demo_alloc = \<lparr>grants = (\<lambda>c n. n < 0x100000000), junk = (\<lambda>c i. 0xAA)\<rparr>"

definition demo_str :: wba_str where
  "demo_str = \<lparr>str_len = 2, str_cap = 3, str_buf = [0x61, 0x62, 0, 0xAA]\<rparr>"

lemma demo_str_ok: "str_ok demo_str" "content demo_str = [0x61, 0x62]" "str_len demo_str = 2"
  by (simp_all add: str_ok_def content_def demo_str_def)

theorem wba_strncat_appends_witness:
  "runs (wba_strncat demo_alloc (Some demo_str) (Some [0x63, 0, 0x64]) 3 \<lparr>calls = 0, live = 2\<rparr>)
     (\<lambda>(ok, ws, m). live m = 2 \<and> (\<exists>w. ws = Some w \<and> (ok \<longrightarrow> content w = [0x61, 0x62, 0x63, 0, 0x64])))"
  by (rule runs_mono[OF wba_strncat_appends[OF demo_str_ok(1)]]) (auto simp: demo_str_ok small_def split: if_splits)






fun join :: "'a \<Rightarrow> 'a list list \<Rightarrow> 'a list" where
  "join c [] = []"
| "join c [x] = x"
| "join c (x # y # xs) = x @ c # join c (y # xs)"

lemma tokens_join:
  assumes "\<forall>x\<in>set xs. x \<noteq> [] \<and> c \<notin> set x"
  shows "tokens (\<lambda>b. b = c) (join c xs) = xs"
  using assms
proof (induction c xs rule: join.induct)
  case (2 c x)
  then show ?case using tokens_run[of x "\<lambda>b. b = c" "[]"] by auto
next
  case (3 c x y xs)
  then show ?case using tokens_run[of x "\<lambda>b. b = c" "c # join c (y # xs)"] by auto
qed simp



text \<open>
  The capacity \<^verbatim>\<open>SIZE_MAX\<close> makes \<^verbatim>\<open>cap + 1\<close> wrap around to 0: with an allocator that grants a
  request of size 0, \<^verbatim>\<open>wba_strnew\<close> returns a string that claims room for \<^verbatim>\<open>SIZE_MAX\<close> bytes and has
  none, and appending a single byte to it writes outside the block.
\<close>

theorem strnew_cap_wraps:
  "\<exists>w m. wba_strnew demo_alloc (-1) \<lparr>calls = 0, live = 0\<rparr> = Some (Some w, m) \<and> str_cap w = -1 \<and> str_buf w = [] \<and>
     wba_strncat demo_alloc (Some w) (Some [0x61]) 1 m = None"
  by (simp add: wba_strnew_def malloc_def demo_alloc_def SIZEOF_STR_def memset_def memcpy_def wba_strncat_def
      wba_str_reserve_def write_at_def)

text \<open>
  \<^verbatim>\<open>wba_strnewlen\<close> copies its argument, or fills with zero bytes when it is NULL, and adds a
  terminator; the string it returns is good and owns two blocks. When an allocation fails it
  returns NULL and has freed what it got. \<^verbatim>\<open>wba_strfree\<close> gives the blocks back.
\<close>

theorem wba_strnewlen_copies:
  assumes "unat n + 1 < 2 ^ 64" "\<And>s. init = Some s \<Longrightarrow> unat n \<le> length s"
  shows "runs (wba_strnewlen a init n m) (\<lambda>(ws, m'). live (wba_strfree ws m') = live m \<and> (case ws of None \<Rightarrow> True
    | Some w \<Rightarrow> str_ok w \<and> content w = (case init of None \<Rightarrow> replicate (unat n) 0 | Some s \<Rightarrow> take (unat n) s)))"
  by (rule runs_mono[OF strnewlen_step[OF assms]]) (auto simp: wba_strfree_def free_def split: option.splits)

theorem wba_strnewlen_copies_witness:
  "runs (wba_strnewlen demo_alloc (Some [0x61, 0, 0x62]) 3 \<lparr>calls = 0, live = 0\<rparr>)
     (\<lambda>(ws, m). \<forall>w. ws = Some w \<longrightarrow> content w = [0x61, 0, 0x62])"
  by (rule runs_mono[OF wba_strnewlen_copies]) (auto split: option.splits)

end
