(* ===== verification/SkList.thy ===== *)
theory SkList
  imports Prelude "HOL-Library.Sublist"
begin

text \<open>
  The generic skip list of \<^verbatim>\<open>c_data_structure/skiplist/skiplist.c\<close>, function by function. Nodes live in
  a heap; a node's array of links is a list. The caller's callbacks \<^verbatim>\<open>cmp_key\<close> and \<^verbatim>\<open>get_key\<close> are
  pure functions, possibly absent; the calls of \<^verbatim>\<open>destroy\<close> are recorded in a log. The results of
  \<^verbatim>\<open>malloc\<close> and \<^verbatim>\<open>rand\<close> are arguments.
\<close>

section \<open>Data\<close>

record sknode =
  sk_link :: "ptr list"
  sk_prev :: ptr
  sk_height :: nat
  sk_obj :: ptr

record sklist =
  sk_nodes :: "sknode heap"
  sk_head :: ptr
  sk_max :: nat
  sk_level :: nat
  sk_size :: int
  sk_cmp :: "(ptr \<Rightarrow> ptr \<Rightarrow> int) option"
  sk_get :: "(ptr \<Rightarrow> ptr) option"
  sk_destroy :: bool
  sk_destroyed :: "ptr list"

definition get_link :: "nat \<Rightarrow> ptr \<Rightarrow> sklist \<Rightarrow> ptr option" where
  "get_link i p s = do {
     n \<leftarrow> rd (sk_nodes s) p;
     if i < length (sk_link n) then Some (sk_link n ! i) else None }"

definition set_link :: "nat \<Rightarrow> ptr \<Rightarrow> ptr \<Rightarrow> sklist \<Rightarrow> sklist option" where
  "set_link i p q s = do {
     n \<leftarrow> rd (sk_nodes s) p;
     if i < length (sk_link n)
     then Some (s\<lparr>sk_nodes := (sk_nodes s)(p \<mapsto> n\<lparr>sk_link := (sk_link n)[i := q]\<rparr>)\<rparr>)
     else None }"

definition get_prev :: "ptr \<Rightarrow> sklist \<Rightarrow> ptr option" where
  "get_prev p s = do { n \<leftarrow> rd (sk_nodes s) p; Some (sk_prev n) }"

definition set_prev :: "ptr \<Rightarrow> ptr \<Rightarrow> sklist \<Rightarrow> sklist option" where
  "set_prev p q s = do {
     h \<leftarrow> wr (\<lambda>n. n\<lparr>sk_prev := q\<rparr>) p (sk_nodes s);
     Some (s\<lparr>sk_nodes := h\<rparr>) }"

definition get_obj :: "ptr \<Rightarrow> sklist \<Rightarrow> ptr option" where
  "get_obj p s = do { n \<leftarrow> rd (sk_nodes s) p; Some (sk_obj n) }"

section \<open>Nodes\<close>

text \<open>\<open>mem\<close> is the memory for the node, \<open>arr\<close> whether the array of links could be allocated.\<close>

definition sk_new_node :: "ptr \<Rightarrow> bool \<Rightarrow> ptr \<Rightarrow> nat \<Rightarrow> sklist \<Rightarrow> ptr \<times> sklist" where
  "sk_new_node mem arr ob n s =
     (if mem = NULL then (NULL, s)
      else if \<not> arr then (NULL, s)
      else (mem, s\<lparr>sk_nodes := (sk_nodes s)(mem \<mapsto>
        \<lparr>sk_link = replicate n NULL, sk_prev = NULL, sk_height = n, sk_obj = ob\<rparr>)\<rparr>))"

definition sk_destroy_node :: "ptr \<Rightarrow> sklist \<Rightarrow> sklist option" where
  "sk_destroy_node p s =
     (if p = NULL then Some s
      else do {
        n \<leftarrow> rd (sk_nodes s) p;
        let s = (if sk_destroy s \<and> sk_obj n \<noteq> NULL then s\<lparr>sk_destroyed := sk_destroyed s @ [sk_obj n]\<rparr> else s);
        Some (s\<lparr>sk_nodes := (sk_nodes s)(p := None)\<rparr>) })"

section \<open>Search\<close>

text \<open>
  The inner loop on level \<open>i\<close>: go on from \<open>node\<close> until the next node is the head or its key
  makes the loop stop.
\<close>

partial_function (option) sk_walk :: "(ptr \<Rightarrow> ptr) \<Rightarrow> (ptr \<Rightarrow> bool) \<Rightarrow> nat \<Rightarrow> ptr \<Rightarrow> sklist \<Rightarrow> ptr option" where
  "sk_walk get stop i node s = do {
     next' \<leftarrow> get_link i node s;
     if next' = sk_head s then Some node
     else do {
       ob \<leftarrow> get_obj next' s;
       if stop (get ob) then Some node else sk_walk get stop i next' s }}"

text \<open>The outer loop of \<^verbatim>\<open>search_node\<close>, with \<open>i\<close> levels to go: the object found and \<^verbatim>\<open>*pos\<close>.\<close>

fun sk_search_from ::
  "(ptr \<Rightarrow> ptr \<Rightarrow> int) \<Rightarrow> (ptr \<Rightarrow> ptr) \<Rightarrow> ptr \<Rightarrow> nat \<Rightarrow> ptr \<Rightarrow> sklist \<Rightarrow> (ptr \<times> ptr) option"
where
  "sk_search_from cmp get key 0 node s = Some (NULL, node)"
| "sk_search_from cmp get key (Suc i) node s = do {
     node \<leftarrow> sk_walk get (\<lambda>k. cmp key k \<le> 0) i node s;
     next' \<leftarrow> get_link i node s;
     if next' = sk_head s then sk_search_from cmp get key i node s
     else do {
       ob \<leftarrow> get_obj next' s;
       if cmp key (get ob) = 0 then Some (ob, next')
       else sk_search_from cmp get key i node s }}"

definition sk_search_node :: "sklist option \<Rightarrow> ptr \<Rightarrow> (ptr \<times> ptr) option" where
  "sk_search_node sk key = (case sk of
     None \<Rightarrow> Some (NULL, NULL)
   | Some s \<Rightarrow>
       if sk_head s = NULL \<or> key = NULL then Some (NULL, NULL)
       else case (sk_get s, sk_cmp s) of
         (Some get, Some cmp) \<Rightarrow> sk_search_from cmp get key (sk_level s) (sk_head s) s
       | _ \<Rightarrow> Some (NULL, NULL))"

definition sklist_search :: "sklist option \<Rightarrow> ptr \<Rightarrow> ptr option" where
  "sklist_search sk key = map_option fst (sk_search_node sk key)"

definition sklist_search_ext :: "sklist option \<Rightarrow> ptr \<Rightarrow> (ptr \<times> ptr) option" where
  "sklist_search_ext sk key = sk_search_node sk key"

section \<open>Insertion\<close>

definition RAND_MAX :: int where
  "RAND_MAX = 2147483647"

text \<open>The loop of \<^verbatim>\<open>rand_level\<close>. The doubling of the \<^verbatim>\<open>int\<close> \<open>j\<close> may not overflow.\<close>

function rand_level_from :: "nat \<Rightarrow> nat \<Rightarrow> int \<Rightarrow> int \<Rightarrow> nat option" where
  "rand_level_from mx i j t =
     (if i < mx then
        if t > RAND_MAX div j then Some i
        else if j + j \<ge> 2 ^ 31 then None
        else rand_level_from mx (i + 1) (j + j) t
      else Some i)"
  by pat_completeness auto
termination by (relation "measure (\<lambda>(mx, i, _). mx - i)") auto

declare rand_level_from.simps [simp del]

definition rand_level :: "int \<Rightarrow> sklist \<Rightarrow> (nat \<times> sklist) option" where
  "rand_level t s = do {
     i \<leftarrow> rand_level_from (sk_max s) 1 2 t;
     Some (i, if i > sk_level s then s\<lparr>sk_level := i\<rparr> else s) }"

fun sk_insert_from ::
  "(ptr \<Rightarrow> ptr \<Rightarrow> int) \<Rightarrow> (ptr \<Rightarrow> ptr) \<Rightarrow> ptr \<Rightarrow> ptr \<Rightarrow> nat \<Rightarrow> nat \<Rightarrow> ptr \<Rightarrow> sklist \<Rightarrow> sklist option"
where
  "sk_insert_from cmp get ob new h 0 node s = Some s"
| "sk_insert_from cmp get ob new h (Suc i) node s = do {
     node \<leftarrow> sk_walk get (\<lambda>k. cmp (get ob) k < 0) i node s;
     s \<leftarrow> (if i < h then do {
         l \<leftarrow> get_link i node s;
         s \<leftarrow> set_link i new l s;
         s \<leftarrow> set_link i node new s;
         if i = 0 then do {
           s \<leftarrow> set_prev new node s;
           l \<leftarrow> get_link i new s;
           set_prev l new s }
         else Some s }
       else Some s);
     sk_insert_from cmp get ob new h i node s }"

text \<open>\<open>t\<close> is what \<^verbatim>\<open>rand\<close> returns, \<open>mem\<close> and \<open>arr\<close> the results of the allocations.\<close>

definition sklist_insert :: "int \<Rightarrow> ptr \<Rightarrow> bool \<Rightarrow> sklist option \<Rightarrow> ptr \<Rightarrow> (int \<times> sklist option) option" where
  "sklist_insert t mem arr sk ob = (case sk of
     None \<Rightarrow> Some (-1, None)
   | Some s \<Rightarrow>
       if sk_head s = NULL \<or> ob = NULL then Some (-1, sk)
       else case (sk_get s, sk_cmp s) of
         (Some get, Some cmp) \<Rightarrow> do {
           (h, s) \<leftarrow> rand_level t s;
           let (new, s) = sk_new_node mem arr ob h s;
           if new = NULL then Some (-1, Some s)
           else do {
             s \<leftarrow> sk_insert_from cmp get ob new h (sk_level s) (sk_head s) s;
             Some (0, Some (s\<lparr>sk_size := sk_size s + 1\<rparr>)) }}
       | _ \<Rightarrow> Some (-1, sk))"

section \<open>Deletion\<close>

fun sk_delete_from :: "(ptr \<Rightarrow> ptr \<Rightarrow> int) \<Rightarrow> (ptr \<Rightarrow> ptr) \<Rightarrow> ptr \<Rightarrow> nat \<Rightarrow> ptr \<Rightarrow> sklist \<Rightarrow> sklist option" where
  "sk_delete_from cmp get key 0 node s = Some s"
| "sk_delete_from cmp get key (Suc i) node s = do {
     node \<leftarrow> sk_walk get (\<lambda>k. cmp key k \<le> 0) i node s;
     next' \<leftarrow> get_link i node s;
     if next' = sk_head s then sk_delete_from cmp get key i node s
     else do {
       ob \<leftarrow> get_obj next' s;
       s \<leftarrow> (if cmp key (get ob) = 0 then do {
           l \<leftarrow> get_link i next' s;
           s \<leftarrow> set_link i node l s;
           l \<leftarrow> get_link i node s;
           let s = (if node = l then s\<lparr>sk_level := sk_level s - 1\<rparr> else s);
           if i = 0 then do {
             l \<leftarrow> get_link i next' s;
             s \<leftarrow> set_prev l node s;
             s \<leftarrow> sk_destroy_node next' s;
             Some (s\<lparr>sk_size := sk_size s - 1\<rparr>) }
           else Some s }
         else Some s);
       sk_delete_from cmp get key i node s }}"

definition sklist_delete :: "sklist option \<Rightarrow> ptr \<Rightarrow> (int \<times> sklist option) option" where
  "sklist_delete sk key = (case sk of
     None \<Rightarrow> Some (-1, None)
   | Some s \<Rightarrow>
       if sk_head s = NULL \<or> key = NULL then Some (-1, sk)
       else case (sk_get s, sk_cmp s) of
         (Some get, Some cmp) \<Rightarrow> do {
           s \<leftarrow> sk_delete_from cmp get key (sk_level s) (sk_head s) s;
           Some (0, Some s) }
       | _ \<Rightarrow> Some (-1, sk))"

section \<open>Creation and destruction\<close>

text \<open>
  \<open>list_mem\<close> is whether the list itself can be allocated. The callbacks are set by the caller
  afterwards.
\<close>

fun sk_init_links :: "nat \<Rightarrow> nat \<Rightarrow> sklist \<Rightarrow> sklist option" where
  "sk_init_links 0 i s = Some s"
| "sk_init_links (Suc n) i s = do { s \<leftarrow> set_link i (sk_head s) (sk_head s) s; sk_init_links n (Suc i) s }"

definition sklist_init :: "bool \<Rightarrow> ptr \<Rightarrow> bool \<Rightarrow> int \<Rightarrow> sklist option option" where
  "sklist_init list_mem mem arr mx =
     (if mx \<le> 0 then Some None
      else if \<not> list_mem then Some None
      else
        let s = \<lparr>sk_nodes = Map.empty, sk_head = NULL, sk_max = 0, sk_level = 0, sk_size = 0, sk_cmp = None, sk_get = None,
          sk_destroy = False, sk_destroyed = []\<rparr>;
          (hd, s) = sk_new_node mem arr NULL (nat mx) s;
          s = s\<lparr>sk_head := hd\<rparr> in
        if hd = NULL then Some None
        else do {
          s \<leftarrow> sk_init_links (nat mx) 0 (s\<lparr>sk_max := nat mx\<rparr>);
          s \<leftarrow> set_prev (sk_head s) (sk_head s) s;
          Some (Some s) })"

partial_function (option) sk_free_from :: "ptr \<Rightarrow> sklist \<Rightarrow> sklist option" where
  "sk_free_from node s =
     (if node = sk_head s then Some s
      else do {
        next' \<leftarrow> get_link 0 node s;
        ob \<leftarrow> get_obj node s;
        get \<leftarrow> sk_get s;
        (_, sk) \<leftarrow> sklist_delete (Some s) (get ob);
        s \<leftarrow> sk;
        sk_free_from next' s })"

definition sklist_free :: "sklist option \<Rightarrow> sklist option option" where
  "sklist_free sk = (case sk of
     None \<Rightarrow> Some None
   | Some s \<Rightarrow> do {
       node \<leftarrow> get_link 0 (sk_head s) s;
       s \<leftarrow> sk_free_from node s;
       s \<leftarrow> sk_destroy_node (sk_head s) s;
       Some (Some s) })"

section \<open>Iteration\<close>

text \<open>
  The iteration macros, with the body as a parameter on the list and a state of its own:
  \<open>adv\<close> is \<^verbatim>\<open>node->link[0]\<close> or \<^verbatim>\<open>node->prev\<close>.
\<close>

partial_function (option) sk_foreach_from ::
  "(ptr \<Rightarrow> sklist \<Rightarrow> ptr option) \<Rightarrow> (ptr \<Rightarrow> ptr \<Rightarrow> sklist \<times> 'b \<Rightarrow> (sklist \<times> 'b) option) \<Rightarrow> ptr \<Rightarrow> sklist \<times> 'b \<Rightarrow> (sklist \<times> 'b) option"
where
  "sk_foreach_from adv body node st = do {
     data \<leftarrow> get_obj node (fst st);
     if node = sk_head (fst st) then Some st
     else do {
       st \<leftarrow> body node data st;
       node \<leftarrow> adv node (fst st);
       sk_foreach_from adv body node st }}"

definition sklist_foreach ::
  "(ptr \<Rightarrow> ptr \<Rightarrow> sklist \<times> 'b \<Rightarrow> (sklist \<times> 'b) option) \<Rightarrow> sklist \<times> 'b \<Rightarrow> (sklist \<times> 'b) option"
where
  "sklist_foreach body st = do {
     node \<leftarrow> get_link 0 (sk_head (fst st)) (fst st);
     sk_foreach_from (get_link 0) body node st }"

definition sklist_foreach_reverse ::
  "(ptr \<Rightarrow> ptr \<Rightarrow> sklist \<times> 'b \<Rightarrow> (sklist \<times> 'b) option) \<Rightarrow> sklist \<times> 'b \<Rightarrow> (sklist \<times> 'b) option"
where
  "sklist_foreach_reverse body st = do {
     node \<leftarrow> get_prev (sk_head (fst st)) (fst st);
     sk_foreach_from get_prev body node st }"

text \<open>The variants that fetch the next node before the body runs.\<close>

partial_function (option) sk_foreach_safe_from ::
  "(ptr \<Rightarrow> sklist \<Rightarrow> ptr option) \<Rightarrow> (ptr \<Rightarrow> ptr \<Rightarrow> sklist \<times> 'b \<Rightarrow> (sklist \<times> 'b) option) \<Rightarrow> ptr \<Rightarrow> sklist \<times> 'b \<Rightarrow> (sklist \<times> 'b) option"
where
  "sk_foreach_safe_from adv body node st = do {
     n \<leftarrow> adv node (fst st);
     data \<leftarrow> get_obj node (fst st);
     if node = sk_head (fst st) then Some st
     else do {
       st \<leftarrow> body node data st;
       sk_foreach_safe_from adv body n st }}"

definition sklist_foreach_safe ::
  "(ptr \<Rightarrow> ptr \<Rightarrow> sklist \<times> 'b \<Rightarrow> (sklist \<times> 'b) option) \<Rightarrow> sklist \<times> 'b \<Rightarrow> (sklist \<times> 'b) option"
where
  "sklist_foreach_safe body st = do {
     node \<leftarrow> get_link 0 (sk_head (fst st)) (fst st);
     sk_foreach_safe_from (get_link 0) body node st }"

definition sklist_foreach_safe_reverse ::
  "(ptr \<Rightarrow> ptr \<Rightarrow> sklist \<times> 'b \<Rightarrow> (sklist \<times> 'b) option) \<Rightarrow> sklist \<times> 'b \<Rightarrow> (sklist \<times> 'b) option"
where
  "sklist_foreach_safe_reverse body st = do {
     node \<leftarrow> get_prev (sk_head (fst st)) (fst st);
     sk_foreach_safe_from get_prev body node st }"

declare sk_walk.simps [code] sk_free_from.simps [code] sk_foreach_from.simps [code] sk_foreach_safe_from.simps [code]

end
