(* ===== verification/SkChain.thy ===== *)
theory SkChain
  imports Prelude "HOL-Library.Sublist" "HOL-Library.Multiset"
begin

text \<open>
  What the two skip lists of \<^verbatim>\<open>c_data_structure/skiplist\<close> share: chains of pointers, the reference
  operations on lists ordered by a key, how these respect the nesting of levels, and the
  contract that both implementations meet.
\<close>

section \<open>Chains\<close>

text \<open>\<open>chain f a xs b\<close>: following \<open>f\<close> from \<open>a\<close> visits \<open>xs\<close> and arrives at \<open>b\<close>.\<close>

fun chain :: "('p \<rightharpoonup> 'p) \<Rightarrow> 'p \<Rightarrow> 'p list \<Rightarrow> 'p \<Rightarrow> bool" where
  "chain f a [] b \<longleftrightarrow> f a = Some b"
| "chain f a (x # xs) b \<longleftrightarrow> f a = Some x \<and> chain f x xs b"

lemma chain_append [simp]: "chain f a (xs @ y # ys) b \<longleftrightarrow> chain f a xs y \<and> chain f y ys b"
  by (induction xs arbitrary: a) auto

lemma chain_cong: "(\<And>x. x \<in> set (a # xs) \<Longrightarrow> g x = f x) \<Longrightarrow> chain g a xs b = chain f a xs b"
  by (induction xs arbitrary: a) auto

lemma chain_upd: "p \<notin> set (a # xs) \<Longrightarrow> chain (f(p := v)) a xs b = chain f a xs b"
  by (rule chain_cong) auto

lemma chain_dom: "chain f a xs b \<Longrightarrow> set (a # xs) \<subseteq> dom f"
  by (induction xs arbitrary: a) auto

lemma chain_last: "chain f a (xs @ ys) b \<Longrightarrow> f (last (a # xs)) = Some (hd (ys @ [b]))"
  by (induction xs arbitrary: a) (auto, cases ys, auto)

lemma chain_split: "chain f a (xs @ ys) b \<longleftrightarrow> chain f a xs (hd (ys @ [b])) \<and> (ys \<noteq> [] \<longrightarrow> chain f (hd ys) (tl ys) b)"
  by (cases ys) auto

lemma chain_end_upd: "distinct (a # xs) \<Longrightarrow> chain f a xs c \<Longrightarrow> chain (f(last (a # xs) \<mapsto> b)) a xs b"
proof (induction xs arbitrary: a)
  case (Cons x xs)
  have "last (x # xs) \<noteq> a" using Cons.prems(1) by (metis distinct.simps(2) last_in_set list.distinct(1))
  then show ?case using Cons by (simp add: fun_upd_def)
qed simp

lemma chain_insert:
  assumes "chain f a (xs @ ys) b" "distinct (a # xs @ ys)" "n \<notin> set (a # xs @ ys)"
  shows "chain (f(n \<mapsto> hd (ys @ [b]), last (a # xs) \<mapsto> n)) a (xs @ n # ys) b"
proof -
  let ?l = "last (a # xs)" and ?f = "f(n \<mapsto> hd (ys @ [b]))"
  have l: "?l \<in> set (a # xs)" by (rule last_in_set) simp
  have "chain ?f a xs (hd (ys @ [b]))" using assms(1,3) by (subst chain_upd) (auto simp: chain_split)
  then have 1: "chain (?f(?l \<mapsto> n)) a xs n" by (rule chain_end_upd[rotated]) (use assms(2) in auto)
  have "?l \<noteq> n" using l assms(3) by auto
  then have 2: "(?f(?l \<mapsto> n)) n = Some (hd (ys @ [b]))" by simp
  show ?thesis
  proof (cases ys)
    case Nil
    then show ?thesis using 1 2 by simp
  next
    case (Cons y zs)
    have "set (a # xs) \<inter> set (y # zs) = {}" using assms(2) Cons by auto
    then have "?l \<notin> set (y # zs)" using l by blast
    then have "chain (?f(?l \<mapsto> n)) y zs b" using assms(1,3) Cons by (subst chain_cong[where f = f]) auto
    then show ?thesis using 1 2 Cons by simp
  qed
qed

lemma chain_remove:
  assumes "chain f a (xs @ y # ys) b" "distinct (a # xs @ y # ys)"
  shows "chain (f(last (a # xs) \<mapsto> hd (ys @ [b]))) a (xs @ ys) b"
proof -
  let ?l = "last (a # xs)"
  have l: "?l \<in> set (a # xs)" by (rule last_in_set) simp
  have 1: "chain (f(?l \<mapsto> hd (ys @ [b]))) a xs (hd (ys @ [b]))"
    by (rule chain_end_upd) (use assms in auto)
  have "chain f y ys b" using assms(1) by simp
  moreover have "set (a # xs) \<inter> set (y # ys) = {}" using assms(2) by auto
  then have "?l \<notin> set (y # ys)" using l by blast
  ultimately have "chain (f(?l \<mapsto> hd (ys @ [b]))) y ys b" by (subst chain_upd) auto
  then show ?thesis using 1 by (cases ys) auto
qed

text \<open>\<open>stop_at a P xs\<close>: where a walk from \<open>a\<close> over \<open>xs\<close> that goes on while \<open>P\<close> holds ends.\<close>

definition stop_at :: "'p \<Rightarrow> ('p \<Rightarrow> bool) \<Rightarrow> 'p list \<Rightarrow> 'p" where
  "stop_at a P xs = last (a # takeWhile P xs)"

lemma stop_at_next: "chain f a xs b \<Longrightarrow> f (stop_at a P xs) = Some (hd (dropWhile P xs @ [b]))"
  using chain_last[of f a "takeWhile P xs" "dropWhile P xs" b] by (simp add: stop_at_def)

lemma stop_at_cases: "stop_at a P xs = a \<or> (stop_at a P xs \<in> set xs \<and> P (stop_at a P xs))"
proof (cases "takeWhile P xs = []")
  case False
  then have "last (takeWhile P xs) \<in> set xs \<and> P (last (takeWhile P xs))" using set_takeWhileD[OF last_in_set] by auto
  then show ?thesis using False by (simp add: stop_at_def)
qed (simp add: stop_at_def)

lemma last_rev_seam: "last (a # rev vs) = hd (vs @ [a])"
  by (cases vs) auto

lemma hd_rev_seam: "hd (rev us @ [a]) = last (a # us)"
  by (cases us rule: rev_cases) auto

lemma seam_in: "hd (dropWhile P xs @ [a]) \<in> set (a # xs)"
proof (cases "dropWhile P xs")
  case (Cons y ys)
  then have "y \<in> set xs" by (metis list.set_intros(1) set_dropWhileD)
  then show ?thesis unfolding Cons by simp
next
  case Nil
  show ?thesis unfolding Nil by simp
qed

section \<open>Lists ordered by a key\<close>

definition ins_key :: "('x \<Rightarrow> int) \<Rightarrow> 'x \<Rightarrow> 'x list \<Rightarrow> 'x list" where
  "ins_key key x xs = takeWhile (\<lambda>y. key y \<le> key x) xs @ x # dropWhile (\<lambda>y. key y \<le> key x) xs"

fun del_key :: "('x \<Rightarrow> int) \<Rightarrow> int \<Rightarrow> 'x list \<Rightarrow> 'x list" where
  "del_key key k [] = []"
| "del_key key k (x # xs) = (if key x = k then xs else x # del_key key k xs)"

abbreviation sorted_key :: "('x \<Rightarrow> int) \<Rightarrow> 'x list \<Rightarrow> bool" where
  "sorted_key key xs \<equiv> sorted (map key xs)"

lemma takeWhile_key:
  assumes "sorted_key key xs"
  shows "takeWhile (\<lambda>x. key x \<le> k) xs = filter (\<lambda>x. key x \<le> k) xs" "dropWhile (\<lambda>x. key x \<le> k) xs = filter (\<lambda>x. \<not> key x \<le> k) xs"
    "takeWhile (\<lambda>x. key x < k) xs = filter (\<lambda>x. key x < k) xs" "dropWhile (\<lambda>x. key x < k) xs = filter (\<lambda>x. \<not> key x < k) xs"
  using assms by (induction xs) (auto simp: filter_empty_conv filter_id_conv eq_commute[of "[]"] eq_commute[of xs "filter P xs" for xs P])

lemma set_ins_key [simp]: "set (ins_key key x xs) = insert x (set xs)"
  by (auto simp: ins_key_def dest: set_takeWhileD set_dropWhileD) (metis UnE set_append takeWhile_dropWhile_id)

lemma length_ins_key [simp]: "length (ins_key key x xs) = Suc (length xs)"
  by (simp add: ins_key_def) (metis length_append takeWhile_dropWhile_id)

lemma distinct_ins_key: "distinct xs \<Longrightarrow> x \<notin> set xs \<Longrightarrow> distinct (ins_key key x xs)"
  by (metis card_distinct card_insert_disjoint distinct_card length_ins_key List.finite_set set_ins_key)

lemma sorted_ins_key:
  assumes "sorted_key key xs"
  shows "sorted_key key (ins_key key x xs)"
  unfolding ins_key_def takeWhile_key[OF assms]
  using assms by (auto simp: sorted_append sorted_filter)

lemma set_del_key_subset: "set (del_key key k xs) \<subseteq> set xs"
  by (induction xs) auto

lemma distinct_del_key: "distinct xs \<Longrightarrow> distinct (del_key key k xs)"
  using set_del_key_subset[of key k] by (induction xs) auto

lemma sorted_del_key: "sorted_key key xs \<Longrightarrow> sorted_key key (del_key key k xs)"
  using set_del_key_subset[of key k] by (induction xs) auto

lemma del_key_absent: "k \<notin> key ` set xs \<Longrightarrow> del_key key k xs = xs"
  by (induction xs) auto

lemma length_del_key: "k \<in> key ` set xs \<Longrightarrow> Suc (length (del_key key k xs)) = length xs"
  by (induction xs) auto

lemma del_ins_key: "key x \<notin> key ` set xs \<Longrightarrow> del_key key (key x) (ins_key key x xs) = xs"
proof -
  assume a: "key x \<notin> key ` set xs"
  have "del_key key (key x) (ys @ x # zs) = ys @ zs" if "key x \<notin> key ` set ys" for ys zs
    using that by (induction ys) auto
  moreover have "key x \<notin> key ` set (takeWhile (\<lambda>y. key y \<le> key x) xs)" using a by (auto dest: set_takeWhileD)
  ultimately show ?thesis by (simp add: ins_key_def)
qed

text \<open>The first element with the key, on an ordered list, is the first that is not smaller.\<close>

lemma del_key_split:
  assumes "sorted_key key xs"
  shows "del_key key k xs = takeWhile (\<lambda>x. key x < k) xs @ (case dropWhile (\<lambda>x. key x < k) xs of [] \<Rightarrow> []
    | y # ys \<Rightarrow> if key y = k then ys else y # ys)"
  using assms
proof (induction xs)
  case (Cons x xs)
  show ?case
  proof (cases "key x < k \<or> key x = k")
    case False
    then have "k \<notin> key ` set xs" using Cons.prems by auto
    then show ?thesis using False by (simp add: del_key_absent)
  qed (use Cons in auto)
qed simp

lemma map_ins_key: "map f (ins_key (\<lambda>x. key (f x)) x xs) = ins_key key (f x) (map f xs)"
  by (simp add: ins_key_def takeWhile_map dropWhile_map o_def)

lemma map_del_key: "map f (del_key (\<lambda>x. key (f x)) k xs) = del_key key k (map f xs)"
  by (induction xs) auto

lemma mset_ins_key: "mset (ins_key key x xs) = add_mset x (mset xs)"
  by (simp add: ins_key_def) (metis mset_append takeWhile_dropWhile_id)

lemma mset_del_key: "mset xs = mset (del_key key k xs) + (case find (\<lambda>x. key x = k) xs of None \<Rightarrow> {#} | Some x \<Rightarrow> {#x#})"
  by (induction xs) (auto split: option.splits)

text \<open>A walk that starts further down, at an element that it would pass, ends at the same place.\<close>

lemma chain_suffix:
  assumes "chain f a xs b" "sorted_key key xs" "\<And>x y. key x \<le> key y \<Longrightarrow> pass y \<Longrightarrow> pass x" "p = a \<or> (p \<in> set xs \<and> pass p)"
  shows "\<exists>ys. chain f p ys b \<and> set ys \<subseteq> set xs \<and> last (p # takeWhile pass ys) = stop_at a pass xs \<and>
    sorted_key key ys \<and> (\<forall>x\<in>set xs. x \<in> set ys \<or> pass x)"
proof (cases "p = a")
  case False
  then obtain us vs where xs: "xs = us @ p # vs" using assms(4) by (metis split_list)
  have "pass u" if "u \<in> set us" for u
    using assms(2) that assms(3)[of u p] assms(4) False xs by (auto simp: sorted_append)
  moreover from this have "takeWhile pass xs = us @ p # takeWhile pass vs" using xs assms(4) False by (simp add: takeWhile_append2)
  ultimately show ?thesis using assms(1,2,4) False xs by (intro exI[of _ vs]) (auto simp: stop_at_def sorted_append)
qed (use assms(1,2) in \<open>auto simp: stop_at_def\<close>)

section \<open>Nested levels\<close>

lemma subseq_set: "subseq xs ys \<Longrightarrow> set xs \<subseteq> set ys"
  by (induction rule: list_emb.induct) auto

lemma subseq_distinct: "subseq xs ys \<Longrightarrow> distinct ys \<Longrightarrow> distinct xs"
  by (induction rule: list_emb.induct) (auto dest: subseq_set)

lemma subseq_sorted_key: "subseq xs ys \<Longrightarrow> sorted_key key ys \<Longrightarrow> sorted_key key xs"
  by (induction rule: list_emb.induct) (auto dest: subseq_set)

text \<open>
  The element that a deletion takes out of the lower list is not in the upper list afterwards.
\<close>

lemma find_in: "find P xs = Some x \<Longrightarrow> x \<in> set xs \<and> P x"
  by (auto simp: find_Some_iff)

lemma del_key_gone:
  assumes "subseq xs ys" "distinct ys" "find (\<lambda>y. key y = k) ys = Some p"
  shows "p \<notin> set (del_key key k xs)"
  using assms
proof (induction rule: list_emb.induct)
  case (list_emb_Cons xs ys y)
  show ?case
  proof (cases "key y = k")
    case True
    then have "p \<notin> set xs" using list_emb_Cons subseq_set[of xs ys] by auto
    then show ?thesis using set_del_key_subset[of key k xs] by auto
  qed (use list_emb_Cons in auto)
next
  case (list_emb_Cons2 x y xs ys)
  then show ?case using subseq_set[of xs ys] by (auto split: if_splits dest: find_in)
qed auto

lemma subseq_ins_key:
  assumes "subseq xs ys" "sorted_key key ys"
  shows "subseq (ins_key key x xs) (ins_key key x ys)" "subseq xs (ins_key key x ys)"
proof -
  have "sorted_key key xs" using subseq_sorted_key assms by blast
  then show "subseq (ins_key key x xs) (ins_key key x ys)"
    unfolding ins_key_def takeWhile_key[OF assms(2)] takeWhile_key[OF \<open>sorted_key key xs\<close>]
    using assms(1) by (intro list_emb_append_mono) auto
  have "subseq ys (ins_key key x ys)"
    unfolding ins_key_def by (metis list_emb_Cons list_emb_append_mono subseq_order.refl takeWhile_dropWhile_id)
  then show "subseq xs (ins_key key x ys)" using assms(1) by (rule subseq_order.trans[rotated])
qed

lemma subseq_del_self: "subseq (del_key key k xs) xs"
  by (induction xs) auto

lemma subseq_del_key:
  assumes "subseq xs ys"
  shows "subseq (del_key key k xs) (del_key key k ys)"
  using assms
proof (induction rule: list_emb.induct)
  case (list_emb_Cons xs ys y)
  then show ?case using subseq_del_self[of key k xs] by (auto intro: subseq_order.trans)
qed auto


lemma nested: "\<forall>i. subseq (Ls (Suc i)) (Ls i) \<Longrightarrow> subseq (Ls (i + j)) (Ls i)"
  by (induction j) (auto intro: subseq_order.trans)

text \<open>The levels after the insertion of a node of height \<open>h\<close>.\<close>

definition ins_level :: "('x \<Rightarrow> int) \<Rightarrow> 'x \<Rightarrow> nat \<Rightarrow> (nat \<Rightarrow> 'x list) \<Rightarrow> nat \<Rightarrow> 'x list" where
  "ins_level key new h Ls i = (if i < h then ins_key key new (Ls i) else Ls i)"

lemma subseq_ins_level:
  assumes "\<forall>i. subseq (Ls (Suc i)) (Ls i)" "\<And>i. sorted_key key (Ls i)"
  shows "subseq (ins_level key new h Ls (Suc i)) (ins_level key new h Ls i)"
  using subseq_ins_key[OF assms(1)[rule_format, of i] assms(2)] assms(1) by (auto simp: ins_level_def)

section \<open>The contract\<close>

text \<open>
  A bag ordered by an integer key: \<open>elems s xs\<close> says that the state holds \<open>xs\<close> in order.
  Insertion goes behind equal keys, deletion takes the first of equal keys. The environment \<open>e\<close> of
  an insertion is the memory and the random number that it gets.
\<close>

text \<open>
  A script of operations on integers, where an insertion has the environment that it gets, and the answers to its
  questions; \<open>obj\<close> and \<open>kp\<close> are the object and the key of an integer. \<open>script_fits\<close> says that every insertion of
  a run gets what it needs. The reference works on the multiset of the integers.
\<close>

datatype 'e bag_op = Ins 'e int | Del int | Ask int

fun run_script :: "('e \<Rightarrow> 'x \<Rightarrow> 's \<Rightarrow> 's option) \<Rightarrow> ('k \<Rightarrow> 's \<Rightarrow> 's option) \<Rightarrow> ('k \<Rightarrow> 's \<Rightarrow> bool option) \<Rightarrow>
  (int \<Rightarrow> 'x) \<Rightarrow> (int \<Rightarrow> 'k) \<Rightarrow> 'e bag_op list \<Rightarrow> 's \<Rightarrow> bool list option" where
  "run_script iop dop mop obj kp [] s = Some []"
| "run_script iop dop mop obj kp (Ins e i # ops) s = do {
     s \<leftarrow> iop e (obj i) s; run_script iop dop mop obj kp ops s }"
| "run_script iop dop mop obj kp (Del i # ops) s = do {
     s \<leftarrow> dop (kp i) s; run_script iop dop mop obj kp ops s }"
| "run_script iop dop mop obj kp (Ask i # ops) s = do {
     b \<leftarrow> mop (kp i) s; bs \<leftarrow> run_script iop dop mop obj kp ops s; Some (b # bs) }"

fun script_fits :: "('e \<Rightarrow> 'x \<Rightarrow> 's \<Rightarrow> bool) \<Rightarrow> ('e \<Rightarrow> 'x \<Rightarrow> 's \<Rightarrow> 's option) \<Rightarrow> ('k \<Rightarrow> 's \<Rightarrow> 's option) \<Rightarrow>
  (int \<Rightarrow> 'x) \<Rightarrow> (int \<Rightarrow> 'k) \<Rightarrow> 'e bag_op list \<Rightarrow> 's \<Rightarrow> bool" where
  "script_fits fits iop dop obj kp [] s = True"
| "script_fits fits iop dop obj kp (Ins e i # ops) s =
     (fits e (obj i) s \<and> (case iop e (obj i) s of None \<Rightarrow> True | Some s \<Rightarrow> script_fits fits iop dop obj kp ops s))"
| "script_fits fits iop dop obj kp (Del i # ops) s =
     (case dop (kp i) s of None \<Rightarrow> True | Some s \<Rightarrow> script_fits fits iop dop obj kp ops s)"
| "script_fits fits iop dop obj kp (Ask i # ops) s = script_fits fits iop dop obj kp ops s"

fun bag_answers :: "'e bag_op list \<Rightarrow> int multiset \<Rightarrow> bool list" where
  "bag_answers [] B = []"
| "bag_answers (Ins e i # ops) B = bag_answers ops (add_mset i B)"
| "bag_answers (Del i # ops) B = bag_answers ops (B - {#i#})"
| "bag_answers (Ask i # ops) B = (i \<in># B) # bag_answers ops B"

fun op_key :: "'e bag_op \<Rightarrow> int" where
  "op_key (Ins e i) = i"
| "op_key (Del i) = i"
| "op_key (Ask i) = i"

lemma op_key_map [simp]: "op_key (map_bag_op f op) = op_key op"
  by (cases op) simp_all

lemma bag_answers_map: "bag_answers (map (map_bag_op f) ops) B = bag_answers ops B"
  by (induction ops B rule: bag_answers.induct) simp_all

lemma keys_del_key: "image_mset key (mset (del_key key k xs)) = image_mset key (mset xs) - {#k#}"
  by (induction xs) auto

locale ordered_bag =
  fixes elems :: "'s \<Rightarrow> 'x list \<Rightarrow> bool" and key :: "'x \<Rightarrow> int" and rank :: "'k \<Rightarrow> int"
    and insert :: "'e \<Rightarrow> 'x \<Rightarrow> 's \<Rightarrow> 's option" and delete :: "'k \<Rightarrow> 's \<Rightarrow> 's option" and member :: "'k \<Rightarrow> 's \<Rightarrow> bool option"
    and fits :: "'e \<Rightarrow> 'x \<Rightarrow> 's \<Rightarrow> bool" and legal :: "'k \<Rightarrow> bool" and usable :: "'s \<Rightarrow> bool"
  assumes elems_sorted: "elems s xs \<Longrightarrow> sorted_key key xs"
    and insert_law: "elems s xs \<Longrightarrow> fits e x s \<Longrightarrow> runs (insert e x s) (\<lambda>s'. elems s' (ins_key key x xs) \<and> usable s')"
    and delete_law: "elems s xs \<Longrightarrow> legal k \<Longrightarrow> usable s \<Longrightarrow> runs (delete k s) (\<lambda>s'. elems s' (del_key key (rank k) xs) \<and> usable s')"
    and member_law: "elems s xs \<Longrightarrow> legal k \<Longrightarrow> usable s \<Longrightarrow> member k s = Some (rank k \<in> key ` set xs)"
begin

lemma insert_then_member:
  assumes "elems s xs" "fits e x s" "legal k"
  shows "runs (Option.bind (insert e x s) (member k)) (\<lambda>b. b \<longleftrightarrow> rank k = key x \<or> rank k \<in> key ` set xs)"
  by (rule runs_bindI[OF insert_law[OF assms(1,2)]]) (use member_law assms(3) in auto)

lemma insert_then_delete:
  assumes "elems s xs" "fits e x s" "legal k" "rank k = key x" "key x \<notin> key ` set xs"
  shows "runs (Option.bind (insert e x s) (delete k)) (\<lambda>s'. elems s' xs)"
proof (rule runs_bindI[OF insert_law[OF assms(1,2)]])
  fix s1 assume s1: "elems s1 (ins_key key x xs) \<and> usable s1"
  have "runs (delete k s1) (\<lambda>s'. elems s' (del_key key (rank k) (ins_key key x xs)) \<and> usable s')"
    using s1 assms(3) by (intro delete_law) auto
  then show "runs (delete k s1) (\<lambda>s'. elems s' xs)"
    by (rule runs_mono) (use assms(4,5) del_ins_key[of key x xs] in simp)
qed

lemma delete_then_member:
  assumes "elems s xs" "usable s" "legal k" "inj_on key (set xs)" "distinct xs"
  shows "runs (Option.bind (delete k s) (member k)) (\<lambda>b. \<not> b)"
proof (rule runs_bindI[OF delete_law[OF assms(1,3,2)]])
  fix s1 assume s1: "elems s1 (del_key key (rank k) xs) \<and> usable s1"
  have "rank k \<notin> key ` set (del_key key (rank k) xs)"
    using assms(4,5) by (induction xs) (auto simp: inj_on_def)
  then show "runs (member k s1) (\<lambda>b. \<not> b)" using member_law[of s1 _ k] s1 assms(3) by auto
qed

text \<open>Every run of a script gives the answers of the reference.\<close>

lemma script_answers:
  assumes "elems s xs" "usable s" "script_fits fits insert delete obj kp ops s"
    and "\<forall>i \<in> op_key ` set ops. key (obj i) = i \<and> rank (kp i) = i \<and> legal (kp i)"
  shows "run_script insert delete member obj kp ops s = Some (bag_answers ops (mset (map key xs)))"
  using assms
proof (induction ops arbitrary: s xs)
  case (Cons op ops)
  note IH = Cons.IH and prems = Cons.prems
  show ?case
  proof (cases op)
    case (Ins e i)
    have i: "key (obj i) = i" using prems(4) Ins by simp
    have "fits e (obj i) s" using prems(3) Ins by simp
    then obtain s' where s': "insert e (obj i) s = Some s'" "elems s' (ins_key key (obj i) xs)" "usable s'"
      using insert_law [OF prems(1)] by (auto simp: runs_def)
    then show ?thesis using IH [OF s'(2,3)] prems(3,4) Ins i by (simp add: mset_ins_key)
  next
    case (Del i)
    have i: "rank (kp i) = i" "legal (kp i)" using prems(4) Del by simp_all
    obtain s' where s': "delete (kp i) s = Some s'" "elems s' (del_key key (rank (kp i)) xs)" "usable s'"
      using delete_law [OF prems(1) i(2) prems(2)] by (auto simp: runs_def)
    then show ?thesis using IH [OF s'(2,3)] prems(3,4) Del i by (simp add: keys_del_key)
  next
    case (Ask i)
    have "member (kp i) s = Some (i \<in> key ` set xs)"
      using member_law [OF prems(1) _ prems(2), of "kp i"] prems(4) Ask by simp
    then show ?thesis using IH [OF prems(1,2)] prems(3,4) Ask by simp
  qed
qed simp

end

end
