(* ===== verification/SkListRep.thy ===== *)
theory SkListRep
  imports SkList SkChain
begin

text \<open>
  The generic skip list represents a list of objects ordered by key: the invariant, and what
  search, insertion, deletion, creation and destruction do to it.
\<close>

section \<open>The invariant\<close>

definition lnk :: "sklist \<Rightarrow> nat \<Rightarrow> ptr \<rightharpoonup> ptr" where
  "lnk s i = (\<lambda>p. get_link i p s)"

definition node_obj :: "sklist \<Rightarrow> ptr \<Rightarrow> ptr" where
  "node_obj s p = sk_obj (the (sk_nodes s p))"

text \<open>The comparison function orders the keys: it has the sign of a difference of ranks.\<close>

definition cmp_rank :: "(ptr \<Rightarrow> ptr \<Rightarrow> int) \<Rightarrow> (ptr \<Rightarrow> int) \<Rightarrow> bool" where
  "cmp_rank cmp rank \<longleftrightarrow> (\<forall>a b. sgn (cmp a b) = sgn (rank a - rank b))"

lemma cmp_rankD:
  assumes "cmp_rank cmp rank"
  shows "cmp a b \<le> 0 \<longleftrightarrow> rank a \<le> rank b" "cmp a b < 0 \<longleftrightarrow> rank a < rank b" "cmp a b = 0 \<longleftrightarrow> rank a = rank b"
proof -
  have e: "sgn (cmp a b) = sgn (rank a - rank b)" using assms by (simp add: cmp_rank_def)
  then show "cmp a b \<le> 0 \<longleftrightarrow> rank a \<le> rank b" "cmp a b < 0 \<longleftrightarrow> rank a < rank b" "cmp a b = 0 \<longleftrightarrow> rank a = rank b"
    by (auto simp: sgn_if split: if_splits)
qed

definition okey :: "(ptr \<Rightarrow> ptr) \<Rightarrow> (ptr \<Rightarrow> int) \<Rightarrow> sklist \<Rightarrow> ptr \<Rightarrow> int" where
  "okey get rank s p = rank (get (node_obj s p))"

text \<open>
  \<open>sk_rep\<close>: the levels \<open>Ls i\<close> are circular chains through the head, each a part of the one below;
  those from \<^verbatim>\<open>level\<close> up are empty; the bottom level is ordered, linked backwards as well, and
  consists of all nodes in memory besides the head.
\<close>

definition sk_rep :: "(ptr \<Rightarrow> ptr) \<Rightarrow> (ptr \<Rightarrow> int) \<Rightarrow> sklist \<Rightarrow> (nat \<Rightarrow> ptr list) \<Rightarrow> bool" where
  "sk_rep get rank s Ls \<longleftrightarrow>
     sk_head s \<noteq> NULL \<and> node_obj s (sk_head s) = NULL \<and> 0 < sk_max s \<and> sk_level s \<le> sk_max s \<and>
     (\<forall>i< sk_max s. chain (lnk s i) (sk_head s) (Ls i) (sk_head s)) \<and>
     (\<forall>i. sk_level s \<le> i \<longrightarrow> Ls i = []) \<and> (\<forall>i. subseq (Ls (Suc i)) (Ls i)) \<and>
     distinct (sk_head s # Ls 0) \<and> sorted_key (okey get rank s) (Ls 0) \<and>
     (\<forall>p\<in>set (Ls 0). node_obj s p \<noteq> NULL) \<and>
     chain (\<lambda>p. get_prev p s) (sk_head s) (rev (Ls 0)) (sk_head s) \<and>
     sk_size s = int (length (Ls 0)) \<and> dom (sk_nodes s) = set (sk_head s # Ls 0)"

lemma rep_level:
  assumes "sk_rep get rank s Ls"
  shows "subseq (Ls i) (Ls 0)" "distinct (sk_head s # Ls i)" "sorted_key (okey get rank s) (Ls i)"
    "i < sk_level s \<Longrightarrow> chain (lnk s i) (sk_head s) (Ls i) (sk_head s)"
proof -
  show s: "subseq (Ls i) (Ls 0)" using nested[of Ls 0 i] assms by (simp add: sk_rep_def)
  show "distinct (sk_head s # Ls i)" using subseq_distinct[OF s] subseq_set[OF s] assms by (auto simp: sk_rep_def)
  show "sorted_key (okey get rank s) (Ls i)" using subseq_sorted_key[OF s] assms by (simp add: sk_rep_def)
  show "i < sk_level s \<Longrightarrow> chain (lnk s i) (sk_head s) (Ls i) (sk_head s)" using assms by (auto simp: sk_rep_def)
qed

section \<open>Walking a level\<close>

lemma lnk_SomeD: "lnk s i p = Some q \<Longrightarrow> p \<noteq> NULL \<and> (\<exists>n. sk_nodes s p = Some n)"
  by (auto simp: lnk_def get_link_def rd_def bind_Some_conv split: if_splits)

lemma get_obj_node: "lnk s i p = Some q \<Longrightarrow> get_obj p s = Some (node_obj s p)"
  by (auto simp: get_obj_def node_obj_def rd_def dest: lnk_SomeD)

lemma sk_walk_chain:
  assumes "chain (lnk s i) node ys (sk_head s)" "sk_head s \<notin> set ys"
  shows "sk_walk get stop i node s = Some (last (node # takeWhile (\<lambda>p. \<not> stop (get (node_obj s p))) ys))"
  using assms
proof (induction ys arbitrary: node)
  case Nil
  then show ?case by (subst sk_walk.simps) (simp add: lnk_def)
next
  case (Cons y ys)
  have "\<exists>q. lnk s i y = Some q" using Cons.prems(1) by (cases ys) auto
  then have "get_obj y s = Some (node_obj s y)" by (auto intro: get_obj_node)
  then show ?case using Cons by (subst sk_walk.simps) (auto simp: lnk_def)
qed

lemma sk_walk_level:
  fixes key :: "ptr \<Rightarrow> int"
  assumes c: "chain (lnk s i) (sk_head s) xs (sk_head s)" "distinct (sk_head s # xs)" "sorted_key key xs"
    and pass: "\<And>x. pass x \<longleftrightarrow> \<not> stop (get (node_obj s x))" "\<And>x y. key x \<le> key y \<Longrightarrow> pass y \<Longrightarrow> pass x"
    and p: "p = sk_head s \<or> (p \<in> set xs \<and> pass p)"
  shows "sk_walk get stop i p s = Some (stop_at (sk_head s) pass xs)"
proof -
  have pe: "(\<lambda>p. \<not> stop (get (node_obj s p))) = pass" using pass(1) by auto
  show ?thesis
  proof (cases "p = sk_head s")
    case True
    then show ?thesis using sk_walk_chain[OF c(1), of get stop] c(2) unfolding pe by (simp add: stop_at_def)
  next
    case False
    then obtain us vs where xs: "xs = us @ p # vs" using p by (metis split_list)
    have "pass u" if "u \<in> set us" for u
      using c(3) that pass(2)[of u p] p False xs by (auto simp: sorted_append)
    then have "takeWhile pass xs = us @ p # takeWhile pass vs" using xs p False by (simp add: takeWhile_append2)
    then show ?thesis using sk_walk_chain[of s i p vs get stop] c(1,2) xs unfolding pe by (simp add: stop_at_def)
  qed
qed

section \<open>Search\<close>

definition entry :: "sklist \<Rightarrow> (nat \<Rightarrow> ptr list) \<Rightarrow> (ptr \<Rightarrow> bool) \<Rightarrow> nat \<Rightarrow> ptr \<Rightarrow> bool" where
  "entry s Ls pass i p \<longleftrightarrow> i = 0 \<or> p = sk_head s \<or> (p \<in> set (Ls (i - 1)) \<and> pass p)"

lemma entry_next:
  assumes "\<forall>i. subseq (Ls (Suc i)) (Ls i)"
  shows "entry s Ls pass i (stop_at (sk_head s) pass (Ls i))"
  using stop_at_cases[of "sk_head s" pass "Ls i"] subseq_set[of "Ls (Suc (i - 1))" "Ls (i - 1)"] assms
  by (cases i) (auto simp: entry_def)

text \<open>
  The result of a search that has looked at the bottom level if \<open>full\<close>: a node with the key, or the
  last node with a smaller one.
\<close>

definition found :: "(ptr \<Rightarrow> int) \<Rightarrow> int \<Rightarrow> sklist \<Rightarrow> ptr list \<Rightarrow> bool \<Rightarrow> ptr \<times> ptr \<Rightarrow> bool" where
  "found key k s xs full = (\<lambda>(ob, pos). if ob = NULL then full \<longrightarrow> k \<notin> key ` set xs \<and> pos = stop_at (sk_head s) (\<lambda>p. key p < k) xs
     else pos \<in> set xs \<and> ob = node_obj s pos \<and> key pos = k)"

lemma search_from_step:
  assumes rep: "sk_rep get rank s Ls" and cmp: "cmp_rank cmp rank" and i: "i \<le> sk_level s"
    and "entry s Ls (\<lambda>p. okey get rank s p < rank key) i p"
  shows "runs (sk_search_from cmp get key i p s) (found (okey get rank s) (rank key) s (Ls 0) (i > 0))"
  using i assms(4)
proof (induction i arbitrary: p)
  case 0
  then show ?case by (simp add: found_def)
next
  case (Suc i)
  let ?key = "okey get rank s" and ?pass = "\<lambda>p. okey get rank s p < rank key"
  let ?xs = "Ls i" and ?q = "stop_at (sk_head s) ?pass (Ls i)"
  note lv = rep_level[OF rep, of i]
  have c: "chain (lnk s i) (sk_head s) ?xs (sk_head s)" using lv(4) Suc.prems(1) by simp
  have w: "sk_walk get (\<lambda>k. cmp key k \<le> 0) i p s = Some ?q"
    by (rule sk_walk_level[OF c lv(2,3)]) (use Suc.prems(2) cmp_rankD[OF cmp] in \<open>auto simp: entry_def okey_def\<close>)
  have nx: "get_link i ?q s = Some (hd (dropWhile ?pass ?xs @ [sk_head s]))" using stop_at_next[OF c] by (simp add: lnk_def)
  have sub: "\<forall>i. subseq (Ls (Suc i)) (Ls i)" using rep by (simp add: sk_rep_def)
  have IH: "runs (sk_search_from cmp get key i ?q s) (found ?key (rank key) s (Ls 0) (i > 0))"
    using Suc.prems(1) by (intro Suc.IH entry_next[OF sub]) simp
  have low: "runs (sk_search_from cmp get key i ?q s) (found ?key (rank key) s (Ls 0) True)"
    if "i = 0 \<Longrightarrow> rank key \<notin> ?key ` set (Ls 0)"
  proof (cases "i = 0")
    case True
    then show ?thesis using that by (simp add: found_def)
  next
    case False
    then show ?thesis using IH by simp
  qed
  show ?case
  proof (cases "dropWhile ?pass ?xs")
    case Nil
    have "rank key \<notin> ?key ` set (Ls 0)" if "i = 0" using Nil that by (auto simp: dropWhile_eq_Nil_conv)
    then show ?thesis using w nx Nil low by simp
  next
    case (Cons y ys)
    have y: "y \<in> set ?xs" "\<not> ?pass y" using Cons by (metis list.set_intros(1) set_dropWhileD) (metis Cons dropWhile_eq_Cons_conv)
    have yh: "y \<noteq> sk_head s" "y \<in> set (Ls 0)" using y(1) lv(2) subseq_set[OF lv(1)] by auto
    have "y \<in> dom (lnk s i)" using chain_dom[OF c] y(1) by auto
    then have ob: "get_obj y s = Some (node_obj s y)" by (auto intro: get_obj_node)
    have eq: "cmp key (get (node_obj s y)) = 0 \<longleftrightarrow> ?key y = rank key" using cmp_rankD[OF cmp] by (auto simp: okey_def)
    have nn: "node_obj s y \<noteq> NULL" using rep yh by (simp add: sk_rep_def)
    show ?thesis
    proof (cases "?key y = rank key")
      case True
      then show ?thesis using w nx Cons ob eq yh nn by (simp add: found_def)
    next
      case False
      have "rank key \<notin> ?key ` set (Ls 0)" if i0: "i = 0"
      proof
        assume "rank key \<in> ?key ` set (Ls 0)"
        then obtain z where z: "z \<in> set (Ls 0)" "?key z = rank key" by auto
        have f: "filter (\<lambda>x. \<not> ?pass x) (Ls 0) = y # ys" using takeWhile_key(4)[OF lv(3), of "rank key"] Cons i0 by simp
        have "z \<in> set (filter (\<lambda>x. \<not> ?pass x) (Ls 0))" using z by simp
        then have "z \<in> set (y # ys)" unfolding f .
        moreover have "sorted_key ?key (y # ys)" using lv(3) Cons by (metis sorted_wrt_append map_append takeWhile_dropWhile_id)
        ultimately have "?key y \<le> ?key z" by auto
        then show False using z(2) y(2) False by simp
      qed
      then show ?thesis using w nx Cons ob eq yh False low by simp
    qed
  qed
qed


lemma search_step:
  assumes rep: "sk_rep get rank s Ls" and cmp: "cmp_rank cmp rank" "sk_cmp s = Some cmp" "sk_get s = Some get" and "kp \<noteq> NULL"
  shows "runs (sk_search_node (Some s) kp) (found (okey get rank s) (rank kp) s (Ls 0) True)"
proof -
  have "runs (sk_search_from cmp get kp (sk_level s) (sk_head s) s) (found (okey get rank s) (rank kp) s (Ls 0) (sk_level s > 0))"
    by (rule search_from_step[OF rep cmp(1)]) (auto simp: entry_def)
  moreover have "Ls 0 = []" if "sk_level s = 0" using rep that by (auto simp: sk_rep_def)
  ultimately have "runs (sk_search_from cmp get kp (sk_level s) (sk_head s) s) (found (okey get rank s) (rank kp) s (Ls 0) True)"
    by (cases "sk_level s = 0") (auto simp: found_def stop_at_def)
  then show ?thesis using assms by (simp add: sk_search_node_def sk_rep_def)
qed

section \<open>Writes\<close>

definition prv :: "sklist \<Rightarrow> ptr \<rightharpoonup> ptr" where
  "prv s = (\<lambda>p. get_prev p s)"

text \<open>Everything but the links is the same.\<close>

definition kept :: "sklist \<Rightarrow> sklist \<Rightarrow> bool" where
  "kept s s' \<longleftrightarrow> sk_head s' = sk_head s \<and> sk_max s' = sk_max s \<and> sk_level s' = sk_level s \<and> sk_size s' = sk_size s \<and>
     sk_cmp s' = sk_cmp s \<and> sk_get s' = sk_get s \<and> sk_destroy s' = sk_destroy s \<and> sk_destroyed s' = sk_destroyed s \<and>
     node_obj s' = node_obj s \<and> dom (sk_nodes s') = dom (sk_nodes s)"

lemma kept_refl [simp]: "kept s s"
  by (simp add: kept_def)

lemma kept_trans: "kept s s' \<Longrightarrow> kept s' s'' \<Longrightarrow> kept s s''"
  by (simp add: kept_def)

lemma kept_okey: "kept s s' \<Longrightarrow> okey get rank s' = okey get rank s"
  by (auto simp: kept_def okey_def)

lemma set_link_step:
  assumes "p \<in> dom (lnk s i)"
  shows "runs (set_link i p q s) (\<lambda>s'. kept s s' \<and> prv s' = prv s \<and> lnk s' = (lnk s)(i := (lnk s i)(p \<mapsto> q)))"
proof -
  obtain n where n: "p \<noteq> NULL" "sk_nodes s p = Some n" "i < length (sk_link n)"
    using assms by (auto simp: lnk_def get_link_def rd_def bind_Some_conv split: if_splits)
  then show ?thesis
    by (auto simp: set_link_def rd_def kept_def node_obj_def prv_def get_prev_def lnk_def get_link_def fun_eq_iff)
qed

lemma set_prev_step:
  assumes "p \<in> dom (prv s)"
  shows "runs (set_prev p q s) (\<lambda>s'. kept s s' \<and> lnk s' = lnk s \<and> prv s' = (prv s)(p \<mapsto> q))"
proof -
  obtain n where n: "p \<noteq> NULL" "sk_nodes s p = Some n"
    using assms by (auto simp: prv_def get_prev_def rd_def bind_Some_conv split: if_splits)
  then show ?thesis
    by (auto simp: set_prev_def wr_def rd_def kept_def node_obj_def prv_def get_prev_def lnk_def get_link_def fun_eq_iff)
qed

lemma lnk_prv_dom: "p \<in> dom (lnk s i) \<Longrightarrow> p \<in> dom (prv s)"
  by (auto simp: prv_def get_prev_def rd_def dest!: lnk_SomeD)

section \<open>Insertion\<close>

text \<open>Linking a new node behind \<open>stop_at\<close> on one level, forwards and backwards.\<close>

lemma link_level:
  assumes c: "chain (lnk s i) (sk_head s) xs (sk_head s)" "distinct (sk_head s # xs)" and new: "new \<notin> set (sk_head s # xs)" "new \<in> dom (lnk s i)"
    and ins: "ins_key key new xs = takeWhile P xs @ new # dropWhile P xs" and node: "node = stop_at (sk_head s) P xs"
  shows "runs (do { l \<leftarrow> get_link i node s; s \<leftarrow> set_link i new l s; set_link i node new s })
    (\<lambda>s'. kept s s' \<and> prv s' = prv s \<and> (\<forall>j. j \<noteq> i \<longrightarrow> lnk s' j = lnk s j) \<and>
      lnk s' i new = Some (hd (dropWhile P xs @ [sk_head s])) \<and> chain (lnk s' i) (sk_head s) (ins_key key new xs) (sk_head s))"
proof -
  let ?l = "hd (dropWhile P xs @ [sk_head s])"
  have l: "get_link i node s = Some ?l" using stop_at_next[OF c(1), of P] node by (simp add: lnk_def)
  have nd: "node \<in> set (sk_head s # xs)" using stop_at_cases[of "sk_head s" P xs] node by auto
  have "node \<in> dom (lnk s i)" using chain_dom[OF c(1)] nd by auto
  have ch: "chain ((lnk s i)(new \<mapsto> ?l, node \<mapsto> new)) (sk_head s) (ins_key key new xs) (sk_head s)"
    unfolding ins node stop_at_def using chain_insert[of "lnk s i" "sk_head s" "takeWhile P xs" "dropWhile P xs" "sk_head s" new] c new by simp
  have neq: "node \<noteq> new" using nd new by auto
  have "runs (do { s \<leftarrow> set_link i new ?l s; set_link i node new s })
    (\<lambda>s'. kept s s' \<and> prv s' = prv s \<and> (\<forall>j. j \<noteq> i \<longrightarrow> lnk s' j = lnk s j) \<and>
      lnk s' i new = Some ?l \<and> chain (lnk s' i) (sk_head s) (ins_key key new xs) (sk_head s))"
  proof (rule runs_bindI[OF set_link_step[OF new(2), of ?l]], elim conjE)
    fix s1 assume s1: "kept s s1" "prv s1 = prv s" "lnk s1 = (lnk s)(i := (lnk s i)(new \<mapsto> ?l))"
    have "node \<in> dom (lnk s1 i)" using s1(3) \<open>node \<in> dom (lnk s i)\<close> by simp
    then show "runs (set_link i node new s1) (\<lambda>s'. kept s s' \<and> prv s' = prv s \<and> (\<forall>j. j \<noteq> i \<longrightarrow> lnk s' j = lnk s j) \<and>
      lnk s' i new = Some ?l \<and> chain (lnk s' i) (sk_head s) (ins_key key new xs) (sk_head s))"
      by (intro runs_mono[OF set_link_step]) (use s1 ch neq in \<open>auto intro: kept_trans\<close>)
  qed
  then show ?thesis using l by simp
qed

lemma link_back:
  assumes c: "chain (prv s) (sk_head s) (rev xs) (sk_head s)" "distinct (sk_head s # xs)"
    and new: "new \<notin> set (sk_head s # xs)" "new \<in> dom (prv s)"
    and ins: "ins_key key new xs = takeWhile P xs @ new # dropWhile P xs" and node: "node = stop_at (sk_head s) P xs"
    and l: "lnk s 0 new = Some (hd (dropWhile P xs @ [sk_head s]))"
  shows "runs (do { s \<leftarrow> set_prev new node s; l \<leftarrow> get_link 0 new s; set_prev l new s })
    (\<lambda>s'. kept s s' \<and> lnk s' = lnk s \<and> chain (prv s') (sk_head s) (rev (ins_key key new xs)) (sk_head s))"
proof (rule runs_bindI[OF set_prev_step[OF new(2)]], elim conjE)
  let ?us = "takeWhile P xs" and ?vs = "dropWhile P xs" and ?h = "sk_head s"
  let ?l = "hd (?vs @ [?h])"
  fix s1 assume s1: "kept s s1" "lnk s1 = lnk s" "prv s1 = (prv s)(new \<mapsto> node)"
  have g: "get_link 0 new s1 = Some ?l" using s1(2) l by (metis lnk_def)
  have ll: "last (?h # rev ?vs) = ?l" by (rule last_rev_seam)
  have nn: "hd (rev ?us @ [?h]) = node" unfolding node stop_at_def by (rule hd_rev_seam)
  have r: "rev ?vs @ rev ?us = rev xs" by (metis rev_append takeWhile_dropWhile_id)
  have d: "distinct (?h # rev ?vs @ rev ?us)" "new \<notin> set (?h # rev ?vs @ rev ?us)" unfolding r using c(2) new(1) by auto
  have "chain ((prv s)(new \<mapsto> node, ?l \<mapsto> new)) ?h (rev ?vs @ new # rev ?us) ?h"
    using chain_insert[OF _ d, of "prv s" ?h] c(1) unfolding r ll nn by simp
  then have ch: "chain ((prv s1)(?l \<mapsto> new)) ?h (rev (ins_key key new xs)) ?h" unfolding ins s1(3) by simp
  have "?l \<in> set (?h # xs)" by (rule seam_in)
  then have "?l \<in> dom (prv s1)" using chain_dom[OF c(1)] s1(3) by auto
  then have "runs (set_prev ?l new s1) (\<lambda>s'. kept s s' \<and> lnk s' = lnk s \<and> chain (prv s') ?h (rev (ins_key key new xs)) ?h)"
    by (intro runs_mono[OF set_prev_step]) (use s1 ch in \<open>auto intro: kept_trans\<close>)
  then show "runs (do { l \<leftarrow> get_link 0 new s1; set_prev l new s1 })
    (\<lambda>s'. kept s s' \<and> lnk s' = lnk s \<and> chain (prv s') ?h (rev (ins_key key new xs)) ?h)" using g by simp
qed


lemma insert_from_step:
  assumes cmp: "cmp_rank cmp rank" and h: "0 < h" and sub: "\<forall>i. subseq (Ls (Suc i)) (Ls i)"
    and "distinct (sk_head s # Ls 0)" "sorted_key (okey get rank s) (Ls 0)"
    and "node_obj s new = ob" "new \<notin> set (sk_head s # Ls 0)" "\<forall>j<h. new \<in> dom (lnk s j)"
    and "\<forall>j<i. chain (lnk s j) (sk_head s) (Ls j) (sk_head s)" "chain (prv s) (sk_head s) (rev (Ls 0)) (sk_head s)"
    and "entry s Ls (\<lambda>p. okey get rank s p \<le> rank (get ob)) i p"
  shows "runs (sk_insert_from cmp get ob new h i p s) (\<lambda>s'. kept s s' \<and>
    (\<forall>j<i. chain (lnk s' j) (sk_head s) (ins_level (okey get rank s) new h Ls j) (sk_head s)) \<and>
    (\<forall>j. i \<le> j \<longrightarrow> lnk s' j = lnk s j) \<and>
    (0 < i \<longrightarrow> chain (prv s') (sk_head s) (rev (ins_key (okey get rank s) new (Ls 0))) (sk_head s)))"
  using assms(4-)
proof (induction i arbitrary: p s)
  case 0
  then show ?case by simp
next
  case (Suc i)
  let ?key = "okey get rank s" and ?pass = "\<lambda>p. okey get rank s p \<le> rank (get ob)" and ?hd = "sk_head s"
  let ?q = "stop_at ?hd ?pass (Ls i)"
  have sb: "subseq (Ls i) (Ls 0)" using nested[OF sub, of 0 i] by simp
  have dist: "distinct (?hd # Ls i)" and srt: "sorted_key ?key (Ls i)" and nw: "new \<notin> set (?hd # Ls i)"
    using subseq_distinct[OF sb] subseq_set[OF sb] subseq_sorted_key[OF sb] Suc.prems by auto
  have c: "chain (lnk s i) ?hd (Ls i) ?hd" using Suc.prems(6) by simp
  have w: "sk_walk get (\<lambda>k. cmp (get ob) k < 0) i p s = Some ?q"
    by (rule sk_walk_level[OF c dist srt]) (use Suc.prems(8) cmp_rankD[OF cmp] in \<open>auto simp: entry_def okey_def\<close>)
  have ins: "ins_key ?key new (Ls i) = takeWhile ?pass (Ls i) @ new # dropWhile ?pass (Ls i)"
    using Suc.prems(3) by (simp add: ins_key_def okey_def)
  let ?Q = "\<lambda>s'. kept s s' \<and> (\<forall>j<Suc i. chain (lnk s' j) ?hd (ins_level ?key new h Ls j) ?hd) \<and>
    (\<forall>j. Suc i \<le> j \<longrightarrow> lnk s' j = lnk s j) \<and> (0 < Suc i \<longrightarrow> chain (prv s') ?hd (rev (ins_key ?key new (Ls 0))) ?hd)"
  let ?link = "if i < h then do {
         l \<leftarrow> get_link i ?q s;
         s \<leftarrow> set_link i new l s;
         s \<leftarrow> set_link i ?q new s;
         if i = 0 then do { s \<leftarrow> set_prev new ?q s; l \<leftarrow> get_link i new s; set_prev l new s } else Some s }
       else Some s"
  have rest: "runs (sk_insert_from cmp get ob new h i ?q s1) ?Q"
    if s1: "kept s s1" "\<forall>j. j \<noteq> i \<longrightarrow> lnk s1 j = lnk s j" "chain (lnk s1 i) ?hd (ins_level ?key new h Ls i) ?hd"
      "if i = 0 then chain (prv s1) ?hd (rev (ins_key ?key new (Ls 0))) ?hd else prv s1 = prv s" for s1
  proof (cases "i = 0")
    case True
    then show ?thesis using s1 by simp
  next
    case False
    have k: "sk_head s1 = ?hd" "okey get rank s1 = ?key" "node_obj s1 = node_obj s" using s1(1) kept_okey[OF s1(1)] by (auto simp: kept_def)
    have "\<forall>j<h. new \<in> dom (lnk s1 j)"
    proof (intro allI impI)
      fix j assume "j < h"
      show "new \<in> dom (lnk s1 j)"
      proof (cases "j = i")
        case True
        then have "new \<in> set (ins_level ?key new h Ls i)" using \<open>j < h\<close> by (simp add: ins_level_def)
        then show ?thesis using chain_dom[OF s1(3)] True by auto
      qed (use s1(2) Suc.prems(5) \<open>j < h\<close> in simp)
    qed
    then have "runs (sk_insert_from cmp get ob new h i ?q s1) (\<lambda>s'. kept s1 s' \<and>
      (\<forall>j<i. chain (lnk s' j) (sk_head s1) (ins_level (okey get rank s1) new h Ls j) (sk_head s1)) \<and>
      (\<forall>j. i \<le> j \<longrightarrow> lnk s' j = lnk s1 j) \<and>
      (0 < i \<longrightarrow> chain (prv s') (sk_head s1) (rev (ins_key (okey get rank s1) new (Ls 0))) (sk_head s1)))"
      using Suc.prems s1(2,4) False entry_next[OF sub, of s ?pass i]
      by (intro Suc.IH) (auto simp: k entry_def)
    then show ?thesis
      by (rule runs_mono) (use s1 False in \<open>auto simp: k less_Suc_eq intro: kept_trans\<close>)
  qed
  have link: "runs ?link (\<lambda>s1. kept s s1 \<and> (\<forall>j. j \<noteq> i \<longrightarrow> lnk s1 j = lnk s j) \<and>
      chain (lnk s1 i) ?hd (ins_level ?key new h Ls i) ?hd \<and>
      (if i = 0 then chain (prv s1) ?hd (rev (ins_key ?key new (Ls 0))) ?hd else prv s1 = prv s))" (is "runs _ ?R")
  proof (cases "i < h")
    case False
    then show ?thesis using h c by (simp add: ins_level_def)
  next
    case True
    have dm: "new \<in> dom (lnk s i)" using Suc.prems(5) True by simp
    have "runs (do { s \<leftarrow> do { l \<leftarrow> get_link i ?q s; s \<leftarrow> set_link i new l s; set_link i ?q new s };
        if i = 0 then do { s \<leftarrow> set_prev new ?q s; l \<leftarrow> get_link i new s; set_prev l new s } else Some s }) ?R"
    proof (rule runs_bindI[OF link_level[OF c dist nw dm ins refl]], elim conjE)
      fix s1 assume s1: "kept s s1" "prv s1 = prv s" "\<forall>j. j \<noteq> i \<longrightarrow> lnk s1 j = lnk s j"
        "lnk s1 i new = Some (hd (dropWhile ?pass (Ls i) @ [?hd]))" "chain (lnk s1 i) ?hd (ins_key ?key new (Ls i)) ?hd"
      have k: "sk_head s1 = ?hd" using s1(1) by (simp add: kept_def)
      show "runs (if i = 0 then do { s \<leftarrow> set_prev new ?q s1; l \<leftarrow> get_link i new s; set_prev l new s } else Some s1) ?R"
      proof (cases "i = 0")
        case i0: True
        have "new \<in> dom (prv s1)" using lnk_prv_dom[OF dm] s1(2) by simp
        then have "runs (do { s \<leftarrow> set_prev new ?q s1; l \<leftarrow> get_link 0 new s; set_prev l new s })
          (\<lambda>s'. kept s1 s' \<and> lnk s' = lnk s1 \<and> chain (prv s') (sk_head s1) (rev (ins_key ?key new (Ls 0))) (sk_head s1))"
          using s1 i0 Suc.prems(7) dist nw ins by (intro link_back[where P = ?pass]) (auto simp: k)
        then show ?thesis using i0 s1 True h by (auto simp: k ins_level_def elim!: runs_mono intro: kept_trans)
      qed (use s1 True in \<open>simp add: ins_level_def\<close>)
    qed
    then show ?thesis using True by (simp add: Option.bind_assoc)
  qed
  have "runs (do { s \<leftarrow> ?link; sk_insert_from cmp get ob new h i ?q s }) ?Q"
    by (rule runs_bindI[OF link]) (use rest in blast)
  then show ?case using w by simp
qed


lemma rand_level_from_step:
  assumes "1 \<le> i" "i \<le> mx" "mx \<le> 30" "j = 2 ^ i"
  shows "\<exists>h. rand_level_from mx i j t = Some h \<and> i \<le> h \<and> h \<le> mx \<and>
    (\<forall>k. i \<le> k \<longrightarrow> k < h \<longrightarrow> t \<le> RAND_MAX div 2 ^ k) \<and> (h < mx \<longrightarrow> RAND_MAX div 2 ^ h < t)"
  using assms
proof (induction "mx - i" arbitrary: i j)
  case 0
  then show ?case by (subst rand_level_from.simps) simp
next
  case (Suc n)
  show ?case
  proof (cases "t > RAND_MAX div j")
    case True
    then show ?thesis using Suc by (subst rand_level_from.simps) auto
  next
    case False
    have "(2 :: int) ^ Suc i \<le> 2 ^ 30" using Suc.hyps(2) Suc.prems(3) by (intro power_increasing) auto
    then have lt: "j + j < 2 ^ 31" using Suc.prems(4) by simp
    obtain h where h: "rand_level_from mx (Suc i) (j + j) t = Some h" "Suc i \<le> h" "h \<le> mx"
      "\<forall>k. Suc i \<le> k \<longrightarrow> k < h \<longrightarrow> t \<le> RAND_MAX div 2 ^ k" "h < mx \<longrightarrow> RAND_MAX div 2 ^ h < t"
    proof -
      have "n = mx - Suc i" "Suc i \<le> mx" "j + j = 2 ^ Suc i" using Suc.hyps(2) Suc.prems by auto
      then show thesis using Suc.hyps(1)[of "Suc i" "j + j"] Suc.prems(3) that by auto
    qed
    have "rand_level_from mx i j t = Some h" using False lt h(1) Suc.hyps(2) by (subst rand_level_from.simps) auto
    moreover have "t \<le> RAND_MAX div 2 ^ k" if "i \<le> k" "k < h" for k
      using that h(4) False Suc.prems(4) by (cases "k = i") auto
    ultimately show ?thesis using h by (intro exI[of _ h]) auto
  qed
qed

definition sk_callbacks :: "sklist \<Rightarrow> (ptr \<Rightarrow> ptr \<Rightarrow> int) \<Rightarrow> (ptr \<Rightarrow> ptr) \<Rightarrow> bool" where
  "sk_callbacks s cmp get \<longleftrightarrow> sk_cmp s = Some cmp \<and> sk_get s = Some get"

lemma new_node_lnk:
  assumes "new \<noteq> NULL" "sk_nodes s new = None" "s' = s\<lparr>sk_nodes := (sk_nodes s)(new \<mapsto> \<lparr>sk_link = replicate h NULL, sk_prev = NULL, sk_height = h, sk_obj = ob\<rparr>)\<rparr>"
  shows "lnk s' j = (lnk s j)(new := if j < h then Some NULL else None)" "prv s' = (prv s)(new \<mapsto> NULL)"
    "node_obj s' = (node_obj s)(new := ob)"
  using assms by (auto simp: lnk_def get_link_def prv_def get_prev_def node_obj_def rd_def fun_eq_iff)

text \<open>A node's worth of fresh memory.\<close>

definition sk_fresh :: "sklist \<Rightarrow> ptr \<Rightarrow> bool" where
  "sk_fresh s p \<longleftrightarrow> p \<noteq> NULL \<and> sk_nodes s p = None"

lemma sk_rep_prv: "sk_rep get rank s Ls \<Longrightarrow> chain (prv s) (sk_head s) (rev (Ls 0)) (sk_head s)"
  by (simp add: sk_rep_def prv_def)

definition same_env :: "sklist \<Rightarrow> sklist \<Rightarrow> bool" where
  "same_env s s' \<longleftrightarrow> sk_head s' = sk_head s \<and> sk_max s' = sk_max s \<and> sk_cmp s' = sk_cmp s \<and> sk_get s' = sk_get s \<and> sk_destroy s' = sk_destroy s"

lemma same_env_callbacks: "same_env s s' \<Longrightarrow> sk_callbacks s cmp get \<Longrightarrow> sk_callbacks s' cmp get"
  by (simp add: same_env_def sk_callbacks_def)

definition inserted :: "(ptr \<Rightarrow> ptr) \<Rightarrow> (ptr \<Rightarrow> int) \<Rightarrow> (nat \<Rightarrow> ptr list) \<Rightarrow> ptr \<Rightarrow> ptr \<Rightarrow> sklist \<Rightarrow> sklist \<Rightarrow> bool" where
  "inserted get rank Ls mem ob s s' \<longleftrightarrow> same_env s s' \<and> 0 < sk_level s' \<and> sk_destroyed s' = sk_destroyed s \<and>
     node_obj s' = (node_obj s)(mem := ob) \<and> dom (sk_nodes s') = insert mem (dom (sk_nodes s)) \<and>
     (\<exists>h>0. sk_rep get rank s' (ins_level (okey get rank s') mem h Ls))"

lemma insert_step:
  assumes rep: "sk_rep get rank s Ls" and cmp: "cmp_rank cmp rank" "sk_callbacks s cmp get" and mx: "sk_max s \<le> 30"
    and fr: "sk_fresh s mem" and ob: "ob \<noteq> NULL"
  shows "runs (sklist_insert t mem True (Some s) ob) (\<lambda>(r, sk). r = 0 \<and> (\<exists>s'. sk = Some s' \<and> inserted get rank Ls mem ob s s'))"
proof -
  have r: "sk_head s \<noteq> NULL" "0 < sk_max s" "sk_level s \<le> sk_max s" "\<forall>i. subseq (Ls (Suc i)) (Ls i)"
    "distinct (sk_head s # Ls 0)" "sorted_key (okey get rank s) (Ls 0)" "dom (sk_nodes s) = set (sk_head s # Ls 0)"
    "\<forall>i. sk_level s \<le> i \<longrightarrow> Ls i = []" "\<forall>i < sk_max s. chain (lnk s i) (sk_head s) (Ls i) (sk_head s)"
    "\<forall>p\<in>set (Ls 0). node_obj s p \<noteq> NULL" "sk_size s = int (length (Ls 0))"
    using rep by (auto simp: sk_rep_def)
  obtain h where h: "rand_level_from (sk_max s) 1 2 t = Some h" "1 \<le> h" "h \<le> sk_max s"
    using rand_level_from_step[of 1 "sk_max s" 2 t] r(2) mx by auto
  let ?lv = "max h (sk_level s)"
  let ?n = "\<lparr>sk_link = replicate h NULL, sk_prev = NULL, sk_height = h, sk_obj = ob\<rparr>"
  let ?sl = "s\<lparr>sk_level := ?lv\<rparr>" and ?s = "s\<lparr>sk_level := ?lv, sk_nodes := (sk_nodes s)(mem \<mapsto> ?n)\<rparr>"
  have new: "mem \<noteq> NULL" "mem \<notin> dom (sk_nodes s)" "sk_nodes s mem = None"
    using fr by (auto simp: sk_fresh_def)
  note new = new(1) new(2)[unfolded r(7)] new(3)
  have lv: "?s = ?sl\<lparr>sk_nodes := (sk_nodes ?sl)(mem \<mapsto> ?n)\<rparr>" by simp
  have same: "lnk ?sl = lnk s" "prv ?sl = prv s" "node_obj ?sl = node_obj s"
    by (auto simp: lnk_def get_link_def prv_def get_prev_def node_obj_def)
  note nn = new_node_lnk[OF new(1) _ lv, unfolded same]
  have nn0: "sk_nodes ?sl mem = None" using new(3) by simp
  have obj: "node_obj ?s = (node_obj s)(mem := ob)" using nn(3)[OF nn0] .
  have key: "map (okey get rank ?s) xs = map (okey get rank s) xs" if "mem \<notin> set xs" for xs
    using that obj by (auto simp: okey_def)
  have ch: "chain (lnk ?s i) (sk_head s) (Ls i) (sk_head s)" if "i < ?lv" for i
  proof -
    have "mem \<notin> set (sk_head s # Ls i)" using new(2) subseq_set[OF rep_level(1)[OF rep, of i]] by auto
    then show ?thesis unfolding nn(1)[OF nn0] using r(3,9) that h(3) by (subst chain_upd) auto
  qed
  have chp: "chain (prv ?s) (sk_head s) (rev (Ls 0)) (sk_head s)"
    unfolding nn(2)[OF nn0] using sk_rep_prv[OF rep] new(2) by (subst chain_upd) auto
  have dm: "\<forall>j<h. mem \<in> dom (lnk ?s j)" unfolding nn(1)[OF nn0] by auto
  have srt: "sorted_key (okey get rank ?s) (Ls i)" for i
  proof -
    have "mem \<notin> set (Ls i)" using new(2) subseq_set[OF rep_level(1)[OF rep, of i]] by auto
    then show ?thesis unfolding key[OF \<open>mem \<notin> set (Ls i)\<close>] using rep_level(3)[OF rep] by blast
  qed
  have step: "runs (sk_insert_from cmp get ob mem h ?lv (sk_head s) ?s) (\<lambda>s'. kept ?s s' \<and>
    (\<forall>j< ?lv. chain (lnk s' j) (sk_head ?s) (ins_level (okey get rank ?s) mem h Ls j) (sk_head ?s)) \<and>
    (\<forall>j. ?lv \<le> j \<longrightarrow> lnk s' j = lnk ?s j) \<and>
    (0 < ?lv \<longrightarrow> chain (prv s') (sk_head ?s) (rev (ins_key (okey get rank ?s) mem (Ls 0))) (sk_head ?s)))"
    by (rule insert_from_step[OF cmp(1) _ r(4)]) (use h(2) r(5) srt obj new(2) dm ch chp in \<open>auto simp: entry_def\<close>)
  have "runs (do { s \<leftarrow> sk_insert_from cmp get ob mem h ?lv (sk_head s) ?s; Some (0, Some (s\<lparr>sk_size := sk_size s + 1\<rparr>)) })
    (\<lambda>(r, sk). r = 0 \<and> (\<exists>s'. sk = Some s' \<and> inserted get rank Ls mem ob s s'))"
  proof (rule runs_bindI[OF step], elim conjE)
    fix s1 assume s1: "kept ?s s1" "\<forall>j< ?lv. chain (lnk s1 j) (sk_head ?s) (ins_level (okey get rank ?s) mem h Ls j) (sk_head ?s)"
      "\<forall>j. ?lv \<le> j \<longrightarrow> lnk s1 j = lnk ?s j"
      "0 < ?lv \<longrightarrow> chain (prv s1) (sk_head ?s) (rev (ins_key (okey get rank ?s) mem (Ls 0))) (sk_head ?s)"
    let ?s1 = "s1\<lparr>sk_size := sk_size s1 + 1\<rparr>" and ?Ls = "ins_level (okey get rank ?s) mem h Ls"
    have k: "sk_head s1 = sk_head s" "sk_max s1 = sk_max s" "sk_level s1 = ?lv" "sk_size s1 = sk_size s" "node_obj s1 = node_obj ?s"
      "dom (sk_nodes s1) = insert mem (dom (sk_nodes s))" "sk_destroyed s1 = sk_destroyed s"
      "sk_cmp s1 = sk_cmp s" "sk_get s1 = sk_get s" "sk_destroy s1 = sk_destroy s" using s1(1) by (auto simp: kept_def)
    have e: "lnk ?s1 = lnk s1" "prv ?s1 = prv s1" "node_obj ?s1 = node_obj s1" "(\<lambda>p. get_prev p ?s1) = prv s1"
      by (auto simp: lnk_def get_link_def prv_def get_prev_def node_obj_def)
    have ok: "okey get rank ?s1 = okey get rank ?s" using k(5) e(3) by (auto simp: okey_def)
    have L0: "?Ls 0 = ins_key (okey get rank ?s) mem (Ls 0)" using h(2) by (simp add: ins_level_def)
    have chain_hi: "chain (lnk s1 i) (sk_head s) (?Ls i) (sk_head s)" if "i < sk_max s" for i
    proof (cases "i < ?lv")
      case False
      then have "?Ls i = Ls i" "Ls i = []" using r(8) by (auto simp: ins_level_def)
      moreover have "lnk s1 i = (lnk s i)(mem := None)" using s1(3) False nn(1)[OF nn0] by (auto simp: not_less)
      moreover have "chain (lnk s i) (sk_head s) (Ls i) (sk_head s)" using r(9) that by blast
      ultimately show ?thesis using new(2) by auto
    qed (use s1(2) in simp)
    have "sk_rep get rank ?s1 ?Ls"
      unfolding sk_rep_def ok e(1,3,4)
    proof (intro conjI)
      show "\<forall>i. subseq (?Ls (Suc i)) (?Ls i)" using subseq_ins_level[OF r(4) srt] by blast
      show "distinct (sk_head ?s1 # ?Ls 0)" unfolding L0 using r(5) new(2) by (auto simp: k distinct_ins_key)
      show "sorted_key (okey get rank ?s) (?Ls 0)" unfolding L0 by (rule sorted_ins_key[OF srt])
      show "\<forall>p\<in>set (?Ls 0). node_obj s1 p \<noteq> NULL" unfolding L0 using r(10) ob obj by (auto simp: k)
      show "chain (prv s1) (sk_head ?s1) (rev (?Ls 0)) (sk_head ?s1)" unfolding L0 using s1(4) h(2) by (simp add: k)
      show "\<forall>i. sk_level ?s1 \<le> i \<longrightarrow> ?Ls i = []" using r(8) by (auto simp: k ins_level_def)
      show "\<forall>i < sk_max ?s1. chain (lnk s1 i) (sk_head ?s1) (?Ls i) (sk_head ?s1)" using chain_hi by (simp add: k)
      show "dom (sk_nodes ?s1) = set (sk_head ?s1 # ?Ls 0)" unfolding L0 using k(6) r(7) by (auto simp: k(1))
      show "sk_size ?s1 = int (length (?Ls 0))" unfolding L0 using r(11) by (simp add: k)
      show "node_obj s1 (sk_head ?s1) = NULL" using rep obj new(2) by (auto simp: k sk_rep_def)
    qed (use r(1-3) h(3) in \<open>simp_all add: k\<close>)
    then have "\<exists>h>0. sk_rep get rank ?s1 (ins_level (okey get rank ?s1) mem h Ls)"
      unfolding ok using h(2) by (intro exI[of _ h]) simp
    moreover have "0 < sk_level ?s1" "same_env s ?s1" "node_obj ?s1 = (node_obj s)(mem := ob)"
      using h(2) k obj e(3) by (auto simp: same_env_def)
    ultimately show "runs (Some (0, Some ?s1)) (\<lambda>(r, sk). r = 0 \<and> (\<exists>s'. sk = Some s' \<and> inserted get rank Ls mem ob s s'))"
      using h(2) k by (auto simp: inserted_def)
  qed
  moreover have "sklist_insert t mem True (Some s) ob =
    do { s \<leftarrow> sk_insert_from cmp get ob mem h ?lv (sk_head s) ?s; Some (0, Some (s\<lparr>sk_size := sk_size s + 1\<rparr>)) }"
    using r(1) ob cmp(2) h(1) new(1)
    by (auto simp: sklist_insert_def sk_callbacks_def rand_level_def sk_new_node_def max_def Let_def)
  ultimately show ?thesis by simp
qed

end
