(* ===== verification/SkListDel.thy ===== *)
theory SkListDel
  imports SkListRep
begin

text \<open>
  Deletion from the generic skip list: the first node with the key leaves the bottom level and is
  destroyed, on every other level the first node with the key is unlinked, and \<^verbatim>\<open>level\<close> goes down
  by the number of levels that became empty.
\<close>

section \<open>One level\<close>

lemma level_upd [simp]:
  "lnk (s\<lparr>sk_level := n\<rparr>) = lnk s" "prv (s\<lparr>sk_level := n\<rparr>) = prv s" "node_obj (s\<lparr>sk_level := n\<rparr>) = node_obj s"
  "okey get rank (s\<lparr>sk_level := n\<rparr>) = okey get rank s"
  by (auto simp: lnk_def get_link_def prv_def get_prev_def node_obj_def okey_def)

lemma size_upd [simp]:
  "lnk (s\<lparr>sk_size := m\<rparr>) = lnk s" "prv (s\<lparr>sk_size := m\<rparr>) = prv s" "node_obj (s\<lparr>sk_size := m\<rparr>) = node_obj s"
  by (auto simp: lnk_def get_link_def prv_def get_prev_def node_obj_def)

text \<open>Like \<open>kept\<close>, with the level lowered by \<open>n\<close>.\<close>

definition kept_lv :: "nat \<Rightarrow> sklist \<Rightarrow> sklist \<Rightarrow> bool" where
  "kept_lv n s s' \<longleftrightarrow> kept (s\<lparr>sk_level := sk_level s - n\<rparr>) s'"

definition lowers :: "(ptr \<Rightarrow> int) \<Rightarrow> int \<Rightarrow> ptr list \<Rightarrow> nat" where
  "lowers key k xs = (if xs \<noteq> [] \<and> del_key key k xs = [] then 1 else 0)"

lemma unlink_level:
  assumes c: "chain (lnk s i) (sk_head s) xs (sk_head s)" "distinct (sk_head s # xs)" "sorted_key key xs"
    and y: "dropWhile (\<lambda>p. key p < k) xs = y # ys" "key y = k" and node: "node = stop_at (sk_head s) (\<lambda>p. key p < k) xs"
  shows "runs (do { l \<leftarrow> get_link i y s; s \<leftarrow> set_link i node l s; l \<leftarrow> get_link i node s;
      Some (if node = l then s\<lparr>sk_level := sk_level s - 1\<rparr> else s) })
    (\<lambda>s'. kept_lv (lowers key k xs) s s' \<and> prv s' = prv s \<and> (\<forall>j. j \<noteq> i \<longrightarrow> lnk s' j = lnk s j) \<and>
      lnk s' i y = Some (hd (ys @ [sk_head s])) \<and> chain (lnk s' i) (sk_head s) (del_key key k xs) (sk_head s))"
proof -
  let ?us = "takeWhile (\<lambda>p. key p < k) xs" and ?h = "sk_head s"
  let ?l = "hd (ys @ [?h])"
  have xs: "xs = ?us @ y # ys" using y(1) by (metis takeWhile_dropWhile_id)
  have del: "del_key key k xs = ?us @ ys" using del_key_split[OF c(3), of k] y by simp
  have nd: "node = last (?h # ?us)" using node by (simp add: stop_at_def)
  have d: "distinct (?h # ?us @ y # ys)" using c(2) xs by simp
  have ch: "chain (lnk s i) ?h (?us @ y # ys) ?h" using c(1) xs by simp
  have l: "get_link i y s = Some ?l"
    using chain_last[of "lnk s i" ?h "?us @ [y]" ys ?h] ch by (simp add: lnk_def)
  have ndin: "node \<in> set (?h # ?us)" unfolding nd by (rule last_in_set) simp
  then have dm: "node \<in> dom (lnk s i)" "node \<noteq> y" using chain_dom[OF ch] d by auto
  have ch': "chain ((lnk s i)(node \<mapsto> ?l)) ?h (del_key key k xs) ?h" unfolding nd del by (rule chain_remove[OF ch d])
  have eq: "(if node = ?l then 1 else 0) = lowers key k xs"
  proof (cases "?us @ ys = []")
    case True
    then show ?thesis using nd xs del by (simp add: lowers_def)
  next
    case False
    have "node \<noteq> ?l"
    proof (cases ys)
      case Nil
      then have "node \<in> set ?us" using False nd by simp
      then show ?thesis using d Nil by auto
    next
      case (Cons z zs)
      then show ?thesis using ndin d by auto
    qed
    then show ?thesis using False del by (simp add: lowers_def)
  qed
  have "runs (do { s \<leftarrow> set_link i node ?l s; l \<leftarrow> get_link i node s; Some (if node = l then s\<lparr>sk_level := sk_level s - 1\<rparr> else s) })
    (\<lambda>s'. kept_lv (lowers key k xs) s s' \<and> prv s' = prv s \<and> (\<forall>j. j \<noteq> i \<longrightarrow> lnk s' j = lnk s j) \<and>
      lnk s' i y = Some ?l \<and> chain (lnk s' i) (sk_head s) (del_key key k xs) (sk_head s))"
  proof (rule runs_bindI[OF set_link_step[OF dm(1), of ?l]], elim conjE)
    fix s1 assume s1: "kept s s1" "prv s1 = prv s" "lnk s1 = (lnk s)(i := (lnk s i)(node \<mapsto> ?l))"
    have "lnk s1 i node = Some ?l" using s1(3) by simp
    then have g: "get_link i node s1 = Some ?l" by (simp add: lnk_def)
    have lv: "sk_level s1 = sk_level s" using s1(1) by (simp add: kept_def)
    define s2 where "s2 = (if node = ?l then s1\<lparr>sk_level := sk_level s1 - 1\<rparr> else s1)"
    have "kept_lv (lowers key k xs) s s2"
      unfolding kept_lv_def eq[symmetric] s2_def using s1(1) lv by (simp add: kept_def)
    moreover have "lnk s i y = Some ?l" using l by (simp add: lnk_def)
    moreover have "prv s2 = prv s" "lnk s2 = lnk s1" using s1(2) by (simp_all add: s2_def)
    moreover have "do { l \<leftarrow> get_link i node s1; Some (if node = l then s1\<lparr>sk_level := sk_level s1 - 1\<rparr> else s1) } = Some s2"
      using g by (simp add: s2_def)
    ultimately show "runs (do { l \<leftarrow> get_link i node s1; Some (if node = l then s1\<lparr>sk_level := sk_level s1 - 1\<rparr> else s1) })
      (\<lambda>s'. kept_lv (lowers key k xs) s s' \<and> prv s' = prv s \<and> (\<forall>j. j \<noteq> i \<longrightarrow> lnk s' j = lnk s j) \<and>
      lnk s' i y = Some ?l \<and> chain (lnk s' i) (sk_head s) (del_key key k xs) (sk_head s))"
      using s1(3) ch' dm(2) by simp
  qed
  then show ?thesis using l by simp
qed

section \<open>The bottom level\<close>

text \<open>
  What the deletion does besides the links of the levels below \<open>i\<close>: \<open>g\<close> is the node that is destroyed,
  if there is one.
\<close>

definition dropped :: "ptr option \<Rightarrow> nat \<Rightarrow> ptr list \<Rightarrow> sklist \<Rightarrow> sklist \<Rightarrow> bool" where
  "dropped g i xs s s' \<longleftrightarrow> same_env s s' \<and> sk_size s' = sk_size s - (if g = None then 0 else 1) \<and>
     sk_destroyed s' = sk_destroyed s @ (case g of None \<Rightarrow> [] | Some p \<Rightarrow> if sk_destroy s then [node_obj s p] else []) \<and>
     dom (sk_nodes s') = dom (sk_nodes s) - set_option g \<and>
     (\<forall>q. q \<notin> set_option g \<longrightarrow> node_obj s' q = node_obj s q \<and> (\<forall>j\<ge>i. lnk s' j q = lnk s j q)) \<and>
     chain (prv s') (sk_head s) (rev xs) (sk_head s)"

lemma destroy_step:
  assumes "sk_nodes s p = Some n" "p \<noteq> NULL" "sk_obj n \<noteq> NULL"
  shows "runs (sk_destroy_node p s) (\<lambda>s'. same_env s s' \<and> sk_size s' = sk_size s \<and> sk_level s' = sk_level s \<and>
    sk_destroyed s' = sk_destroyed s @ (if sk_destroy s then [node_obj s p] else []) \<and>
    dom (sk_nodes s') = dom (sk_nodes s) - {p} \<and>
    (\<forall>q. q \<noteq> p \<longrightarrow> node_obj s' q = node_obj s q \<and> (\<forall>j. lnk s' j q = lnk s j q) \<and> prv s' q = prv s q))"
  using assms by (auto simp: sk_destroy_node_def rd_def same_env_def node_obj_def lnk_def get_link_def prv_def get_prev_def Let_def)

lemma bottom_level:
  assumes c: "chain (lnk s 0) (sk_head s) xs (sk_head s)" "distinct (sk_head s # xs)" "sorted_key key xs"
    and b: "chain (prv s) (sk_head s) (rev xs) (sk_head s)" and ob: "node_obj s y \<noteq> NULL"
    and y: "dropWhile (\<lambda>p. key p < k) xs = y # ys" "key y = k" and node: "node = stop_at (sk_head s) (\<lambda>p. key p < k) xs"
  shows "runs (do { l \<leftarrow> get_link 0 y s; s \<leftarrow> set_link 0 node l s; l \<leftarrow> get_link 0 node s;
      s \<leftarrow> Some (if node = l then s\<lparr>sk_level := sk_level s - 1\<rparr> else s);
      l \<leftarrow> get_link 0 y s; s \<leftarrow> set_prev l node s; s \<leftarrow> sk_destroy_node y s; Some (s\<lparr>sk_size := sk_size s - 1\<rparr>) })
    (\<lambda>s'. dropped (Some y) 1 (del_key key k xs) s s' \<and> sk_level s' = sk_level s - lowers key k xs \<and>
      chain (lnk s' 0) (sk_head s) (del_key key k xs) (sk_head s))"
proof -
  let ?us = "takeWhile (\<lambda>p. key p < k) xs" and ?h = "sk_head s" and ?ds = "del_key key k xs"
  let ?l = "hd (ys @ [?h])"
  have xs: "xs = ?us @ y # ys" using y(1) by (metis takeWhile_dropWhile_id)
  have del: "?ds = ?us @ ys" using del_key_split[OF c(3), of k] y by simp
  have d: "distinct (?h # ?us @ y # ys)" using c(2) xs by simp
  then have yn: "y \<notin> set (?h # ?ds)" unfolding del by auto
  let ?Q = "\<lambda>s'. dropped (Some y) 1 ?ds s s' \<and> sk_level s' = sk_level s - lowers key k xs \<and> chain (lnk s' 0) ?h ?ds ?h"
  have nd: "node = hd (rev ?us @ [?h])" unfolding node stop_at_def by (rule hd_rev_seam[symmetric])
  have rev: "rev xs = rev ys @ y # rev ?us" by (subst xs) simp
  have "distinct (?h # rev ys @ y # rev ?us)" using d by auto
  then have b': "chain ((prv s)(?l \<mapsto> node)) ?h (rev ?ds) ?h"
    using chain_remove[of "prv s" ?h "rev ys" y "rev ?us" ?h] b unfolding rev nd last_rev_seam del by simp
  have "runs (do { s \<leftarrow> do { l \<leftarrow> get_link 0 y s; s \<leftarrow> set_link 0 node l s; l \<leftarrow> get_link 0 node s;
      Some (if node = l then s\<lparr>sk_level := sk_level s - 1\<rparr> else s) };
      l \<leftarrow> get_link 0 y s; s \<leftarrow> set_prev l node s; s \<leftarrow> sk_destroy_node y s; Some (s\<lparr>sk_size := sk_size s - 1\<rparr>) }) ?Q"
  proof (rule runs_bindI[OF unlink_level[OF c y node]], elim conjE)
    fix s1 assume s1: "kept_lv (lowers key k xs) s s1" "prv s1 = prv s" "\<forall>j. j \<noteq> 0 \<longrightarrow> lnk s1 j = lnk s j"
      "lnk s1 0 y = Some ?l" "chain (lnk s1 0) ?h ?ds ?h"
    have k1: "same_env s s1" "sk_size s1 = sk_size s" "sk_level s1 = sk_level s - lowers key k xs" "sk_destroyed s1 = sk_destroyed s"
      "node_obj s1 = node_obj s" "dom (sk_nodes s1) = dom (sk_nodes s)" "sk_destroy s1 = sk_destroy s"
      using s1(1) by (auto simp: kept_lv_def kept_def same_env_def)
    have "?l \<in> set (?h # rev xs)" unfolding rev by (cases ys) auto
    then have lp: "?l \<in> dom (prv s1)" using chain_dom[OF b] s1(2) by auto
    have "runs (do { s \<leftarrow> set_prev ?l node s1; s \<leftarrow> sk_destroy_node y s; Some (s\<lparr>sk_size := sk_size s - 1\<rparr>) }) ?Q"
    proof (rule runs_bindI[OF set_prev_step[OF lp, of node]], elim conjE)
      fix s2 assume s2: "kept s1 s2" "lnk s2 = lnk s1" "prv s2 = (prv s1)(?l \<mapsto> node)"
      have k2: "same_env s1 s2" "sk_size s2 = sk_size s1" "sk_level s2 = sk_level s1" "sk_destroyed s2 = sk_destroyed s1"
        "node_obj s2 = node_obj s1" "dom (sk_nodes s2) = dom (sk_nodes s1)" "sk_destroy s2 = sk_destroy s1"
        using s2(1) by (auto simp: kept_def same_env_def)
      obtain n where n: "sk_nodes s2 y = Some n" "y \<noteq> NULL" using s1(4) s2(2) lnk_SomeD[of s2 0 y] by auto
      have "node_obj s2 y = sk_obj n" using n(1) by (simp add: node_obj_def)
      then have "sk_obj n \<noteq> NULL" using ob k1(5) k2(5) by simp
      note ds = destroy_step[OF n this]
      show "runs (do { s \<leftarrow> sk_destroy_node y s2; Some (s\<lparr>sk_size := sk_size s - 1\<rparr>) }) ?Q"
      proof (rule runs_bindI[OF ds], elim conjE)
        fix s3 assume s3: "same_env s2 s3" "sk_size s3 = sk_size s2" "sk_level s3 = sk_level s2"
          "sk_destroyed s3 = sk_destroyed s2 @ (if sk_destroy s2 then [node_obj s2 y] else [])"
          "dom (sk_nodes s3) = dom (sk_nodes s2) - {y}"
          "\<forall>q. q \<noteq> y \<longrightarrow> node_obj s3 q = node_obj s2 q \<and> (\<forall>j. lnk s3 j q = lnk s2 j q) \<and> prv s3 q = prv s2 q"
        let ?s3 = "s3\<lparr>sk_size := sk_size s3 - 1\<rparr>"
        have "chain (lnk s3 0) ?h ?ds ?h = chain (lnk s1 0) ?h ?ds ?h"
          by (rule chain_cong) (use s3(6) s2(2) yn in auto)
        moreover have "chain (prv s3) ?h (rev ?ds) ?h = chain (prv s2) ?h (rev ?ds) ?h"
          by (rule chain_cong) (use s3(6) yn in auto)
        moreover have "same_env s ?s3" using k1(1) k2(1) s3(1) by (simp add: same_env_def)
        ultimately show "runs (Some ?s3) ?Q"
          using s1(3,5) b' s2(2,3) s1(2) k1 k2 s3(2-6) by (simp add: dropped_def)
      qed
    qed
    then show "runs (do { l \<leftarrow> get_link 0 y s1; s \<leftarrow> set_prev l node s1; s \<leftarrow> sk_destroy_node y s; Some (s\<lparr>sk_size := sk_size s - 1\<rparr>) }) ?Q"
      using s1(4) by (simp add: lnk_def)
  qed
  then show ?thesis by (simp add: Option.bind_assoc)
qed

section \<open>All levels\<close>

definition emptied :: "(ptr \<Rightarrow> int) \<Rightarrow> int \<Rightarrow> (nat \<Rightarrow> ptr list) \<Rightarrow> nat \<Rightarrow> nat" where
  "emptied key k Ls i = (\<Sum>j<i. lowers key k (Ls j))"

lemma kept_lv_env:
  "kept_lv n s s' \<Longrightarrow> same_env s s' \<and> sk_size s' = sk_size s \<and> sk_level s' = sk_level s - n \<and> sk_destroyed s' = sk_destroyed s \<and>
    node_obj s' = node_obj s \<and> dom (sk_nodes s') = dom (sk_nodes s)"
  by (simp add: kept_lv_def kept_def same_env_def)

definition bottom_gone :: "(ptr \<Rightarrow> int) \<Rightarrow> int \<Rightarrow> ptr list \<Rightarrow> nat \<Rightarrow> ptr option" where
  "bottom_gone key k xs i = (if i = 0 then None else find (\<lambda>p. key p = k) xs)"

definition bottom_list :: "(ptr \<Rightarrow> int) \<Rightarrow> int \<Rightarrow> ptr list \<Rightarrow> nat \<Rightarrow> ptr list" where
  "bottom_list key k xs i = (if i = 0 then xs else del_key key k xs)"

text \<open>The result of the loop from level \<open>i\<close> down.\<close>

definition deleted :: "(ptr \<Rightarrow> int) \<Rightarrow> int \<Rightarrow> (nat \<Rightarrow> ptr list) \<Rightarrow> nat \<Rightarrow> sklist \<Rightarrow> sklist \<Rightarrow> bool" where
  "deleted key k Ls i s s' \<longleftrightarrow> dropped (bottom_gone key k (Ls 0) i) i (bottom_list key k (Ls 0) i) s s' \<and>
     sk_level s' = sk_level s - emptied key k Ls i \<and> (\<forall>j<i. chain (lnk s' j) (sk_head s) (del_key key k (Ls j)) (sk_head s))"

lemma dropped_kept:
  assumes "kept_lv n s s1" "prv s1 = prv s" "\<forall>j\<ge>Suc i. lnk s1 j = lnk s j" "dropped g i xs s1 s'"
  shows "dropped g (Suc i) xs s s'"
  using assms(2-4) kept_lv_env[OF assms(1)] by (cases g) (auto simp: dropped_def same_env_def)

lemma find_first: "\<forall>u\<in>set us. \<not> P u \<Longrightarrow> P y \<Longrightarrow> find P (us @ y # ys) = Some y"
  by (induction us) auto

lemma key_split:
  assumes "sorted_key key xs"
  shows "dropWhile (\<lambda>p. key p < k) xs = [] \<Longrightarrow> del_key key k xs = xs \<and> find (\<lambda>p. key p = k) xs = None"
    "dropWhile (\<lambda>p. key p < k) xs = y # ys \<Longrightarrow> key y \<noteq> k \<Longrightarrow> del_key key k xs = xs \<and> find (\<lambda>p. key p = k) xs = None"
    "dropWhile (\<lambda>p. key p < k) xs = y # ys \<Longrightarrow> key y = k \<Longrightarrow> find (\<lambda>p. key p = k) xs = Some y"
proof -
  have low: "key p \<noteq> k" if "p \<in> set (takeWhile (\<lambda>p. key p < k) xs)" for p using that by (auto dest: set_takeWhileD)
  have xs: "xs = takeWhile (\<lambda>p. key p < k) xs @ dropWhile (\<lambda>p. key p < k) xs" by simp
  show "dropWhile (\<lambda>p. key p < k) xs = y # ys \<Longrightarrow> key y = k \<Longrightarrow> find (\<lambda>p. key p = k) xs = Some y"
    by (subst xs) (use low in \<open>simp add: find_first\<close>)
  show "del_key key k xs = xs \<and> find (\<lambda>p. key p = k) xs = None" if "dropWhile (\<lambda>p. key p < k) xs = []"
  proof -
    have "k \<notin> key ` set xs" using that by (auto simp: dropWhile_eq_Nil_conv)
    then show ?thesis by (auto simp: find_None_iff del_key_absent)
  qed
  show "del_key key k xs = xs \<and> find (\<lambda>p. key p = k) xs = None" if d: "dropWhile (\<lambda>p. key p < k) xs = y # ys" "key y \<noteq> k"
  proof -
    have "\<not> key y < k" using d(1) by (metis dropWhile_eq_Cons_conv)
    moreover have "sorted_key key (takeWhile (\<lambda>p. key p < k) xs @ y # ys)" using assms xs d(1) by simp
    ultimately have "k \<notin> key ` set (takeWhile (\<lambda>p. key p < k) xs @ y # ys)" using low d(2) by (auto simp: sorted_append)
    then have "k \<notin> key ` set xs" unfolding d(1)[symmetric] takeWhile_dropWhile_id .
    then show ?thesis by (auto simp: find_None_iff del_key_absent)
  qed
qed

lemma delete_from_step:
  assumes cmp: "cmp_rank cmp rank" and sub: "\<forall>i. subseq (Ls (Suc i)) (Ls i)"
    and "okey get rank s = key" "distinct (sk_head s # Ls 0)" "sorted_key key (Ls 0)"
    and "\<forall>p\<in>set (Ls 0). node_obj s p \<noteq> NULL"
    and "\<forall>j<i. chain (lnk s j) (sk_head s) (Ls j) (sk_head s)" "chain (prv s) (sk_head s) (rev (Ls 0)) (sk_head s)"
    and "entry s Ls (\<lambda>p. key p < rank kp) i p"
  shows "runs (sk_delete_from cmp get kp i p s) (deleted key (rank kp) Ls i s)"
  using assms(3-)
proof (induction i arbitrary: p s)
  case 0
  then show ?case by (simp add: deleted_def dropped_def bottom_gone_def bottom_list_def emptied_def same_env_def)
next
  case (Suc i)
  let ?k = "rank kp" and ?pass = "\<lambda>p. key p < rank kp" and ?h = "sk_head s"
  let ?q = "stop_at ?h ?pass (Ls i)"
  have sb: "subseq (Ls i) (Ls 0)" using nested[OF sub, of 0 i] by simp
  have dist: "distinct (?h # Ls i)" and srt: "sorted_key key (Ls i)"
    using subseq_distinct[OF sb] subseq_set[OF sb] subseq_sorted_key[OF sb] Suc.prems(2,3) by auto
  have c: "chain (lnk s i) ?h (Ls i) ?h" using Suc.prems(5) by simp
  have key: "key x = rank (get (node_obj s x))" for x using Suc.prems(1) by (auto simp: okey_def)
  have w: "sk_walk get (\<lambda>k. cmp kp k \<le> 0) i p s = Some ?q"
    by (rule sk_walk_level[OF c dist srt]) (use Suc.prems(7) cmp_rankD[OF cmp] in \<open>auto simp: entry_def key\<close>)
  have nx: "get_link i ?q s = Some (hd (dropWhile ?pass (Ls i) @ [?h]))" using stop_at_next[OF c] by (simp add: lnk_def)
  have rest: "runs (sk_delete_from cmp get kp i ?q s1) (deleted key ?k Ls (Suc i) s)"
    if s1: "kept_lv (lowers key ?k (Ls i)) s s1" "prv s1 = prv s" "\<forall>j. j \<noteq> i \<longrightarrow> lnk s1 j = lnk s j"
      "chain (lnk s1 i) ?h (del_key key ?k (Ls i)) ?h" and bot: "i = 0 \<Longrightarrow> find (\<lambda>p. key p = ?k) (Ls 0) = None" for s1
  proof (cases "i = 0")
    case True
    have "del_key key ?k (Ls 0) = Ls 0" using bot[OF True] by (intro del_key_absent) (auto simp: find_None_iff)
    then show ?thesis using s1 bot True kept_lv_env[OF s1(1)] Suc.prems(6)
      by (simp add: deleted_def dropped_def bottom_gone_def bottom_list_def emptied_def)
  next
    case False
    have k: "sk_head s1 = ?h" "node_obj s1 = node_obj s" "okey get rank s1 = key"
      using kept_lv_env[OF s1(1)] Suc.prems(1) by (auto simp: same_env_def okey_def)
    have "runs (sk_delete_from cmp get kp i ?q s1) (deleted key ?k Ls i s1)"
      using Suc.prems s1(2,3) entry_next[OF sub, of s ?pass i] by (intro Suc.IH) (auto simp: k entry_def)
    then show ?thesis
    proof (rule runs_mono)
      fix s' assume s': "deleted key ?k Ls i s1 s'"
      let ?g = "find (\<lambda>p. key p = ?k) (Ls 0)"
      have d: "dropped ?g i (del_key key ?k (Ls 0)) s1 s'" using s' False by (simp add: deleted_def bottom_gone_def bottom_list_def)
      have "set_option ?g \<inter> set (?h # del_key key ?k (Ls i)) = {}"
        using del_key_gone[OF sb, of key ?k] Suc.prems(2) find_in[of "\<lambda>p. key p = ?k" "Ls 0"] by auto
      then have "chain (lnk s' i) ?h (del_key key ?k (Ls i)) ?h = chain (lnk s1 i) ?h (del_key key ?k (Ls i)) ?h"
        using d by (intro chain_cong) (auto simp: dropped_def)
      then show "deleted key ?k Ls (Suc i) s s'"
        using s' s1(3,4) dropped_kept[OF s1(1,2) _ d] kept_lv_env[OF s1(1)] False
        by (simp add: deleted_def bottom_gone_def bottom_list_def emptied_def k less_Suc_eq all_conj_distrib)
    qed
  qed
  show ?case
  proof (cases "dropWhile ?pass (Ls i)")
    case Nil
    note sp = key_split(1)[OF srt Nil]
    have "runs (sk_delete_from cmp get kp i ?q s) (deleted key ?k Ls (Suc i) s)"
      by (rule rest) (use sp c in \<open>auto simp: kept_lv_def kept_def lowers_def\<close>)
    then show ?thesis using w nx Nil by simp
  next
    case (Cons y ys)
    have "y \<in> set (Ls i)" using Cons by (metis list.set_intros(1) set_dropWhileD)
    then have y: "y \<noteq> ?h" "y \<in> set (Ls 0)" "y \<in> dom (lnk s i)" using dist subseq_set[OF sb] chain_dom[OF c] by auto
    then have ob: "get_obj y s = Some (node_obj s y)" "node_obj s y \<noteq> NULL" using Suc.prems(4) by (auto intro: get_obj_node)
    have eq: "cmp kp (get (node_obj s y)) = 0 \<longleftrightarrow> key y = ?k" using cmp_rankD[OF cmp] by (auto simp: key)
    show ?thesis
    proof (cases "key y = ?k")
      case False
      note sp = key_split(2)[OF srt Cons False]
      have "runs (sk_delete_from cmp get kp i ?q s) (deleted key ?k Ls (Suc i) s)"
        by (rule rest) (use sp c in \<open>auto simp: kept_lv_def kept_def lowers_def\<close>)
      then show ?thesis using w nx Cons y ob eq False by simp
    next
      case True
      have "runs (do { s \<leftarrow> do { l \<leftarrow> get_link i y s; s \<leftarrow> set_link i ?q l s; l \<leftarrow> get_link i ?q s;
            s \<leftarrow> Some (if ?q = l then s\<lparr>sk_level := sk_level s - 1\<rparr> else s);
            if i = 0 then do { l \<leftarrow> get_link i y s; s \<leftarrow> set_prev l ?q s; s \<leftarrow> sk_destroy_node y s; Some (s\<lparr>sk_size := sk_size s - 1\<rparr>) }
            else Some s };
          sk_delete_from cmp get kp i ?q s }) (deleted key ?k Ls (Suc i) s)"
      proof (cases "i = 0")
        case i0: True
        have "runs (do { l \<leftarrow> get_link 0 y s; s \<leftarrow> set_link 0 ?q l s; l \<leftarrow> get_link 0 ?q s;
            s \<leftarrow> Some (if ?q = l then s\<lparr>sk_level := sk_level s - 1\<rparr> else s);
            l \<leftarrow> get_link 0 y s; s \<leftarrow> set_prev l ?q s; s \<leftarrow> sk_destroy_node y s; Some (s\<lparr>sk_size := sk_size s - 1\<rparr>) })
            (deleted key ?k Ls (Suc 0) s)"
          by (rule runs_mono[OF bottom_level[where xs = "Ls 0" and ys = ys and key = key and k = ?k]])
            (use c dist srt Suc.prems(6) ob(2) Cons True i0 key_split(3)[OF srt Cons True] in
              \<open>auto simp: deleted_def bottom_gone_def bottom_list_def emptied_def\<close>)
        then show ?thesis using i0 by (simp add: runs_bind)
      next
        case False
        have "runs (do { s \<leftarrow> do { l \<leftarrow> get_link i y s; s \<leftarrow> set_link i ?q l s; l \<leftarrow> get_link i ?q s;
            Some (if ?q = l then s\<lparr>sk_level := sk_level s - 1\<rparr> else s) }; sk_delete_from cmp get kp i ?q s }) (deleted key ?k Ls (Suc i) s)"
          by (rule runs_bindI[OF unlink_level[OF c dist srt Cons True refl]]) (use rest False in blast)
        then show ?thesis using False by simp
      qed
      then show ?thesis using w nx Cons y ob eq True by (simp add: Let_def)
    qed
  qed
qed

section \<open>The operation\<close>

lemma emptied_bound:
  assumes sub: "\<forall>i. subseq (Ls (Suc i)) (Ls i)" and j: "del_key key k (Ls j) \<noteq> []" "j < n"
  shows "j < n - emptied key k Ls n"
proof -
  have ne: "del_key key k (Ls i) \<noteq> []" if "i \<le> j" for i
    using subseq_del_key[OF nested[OF sub, of i "j - i"], of key k] that j(1) by (auto simp: list_emb_Nil2)
  have "emptied key k Ls n \<le> (\<Sum>i<n. if j < i then 1 else 0)"
    unfolding emptied_def by (intro sum_mono) (use ne in \<open>auto simp: lowers_def not_le\<close>)
  also have "\<dots> = card {i \<in> {..<n}. j < i}" by (simp add: sum.If_cases Int_def)
  also have "{i \<in> {..<n}. j < i} = {Suc j..<n}" by auto
  finally show ?thesis using j(2) by simp
qed

text \<open>
  The result of a deletion: all levels without their first node with the key; the node that left the
  bottom level is freed and its object is given to \<^verbatim>\<open>destroy\<close>.
\<close>

definition removed :: "(ptr \<Rightarrow> ptr) \<Rightarrow> (ptr \<Rightarrow> int) \<Rightarrow> (nat \<Rightarrow> ptr list) \<Rightarrow> int \<Rightarrow> sklist \<Rightarrow> sklist \<Rightarrow> bool" where
  "removed get rank Ls k s s' \<longleftrightarrow> same_env s s' \<and>
     sk_rep get rank s' (\<lambda>i. del_key (okey get rank s) k (Ls i)) \<and>
     (\<forall>p\<in>set (sk_head s # del_key (okey get rank s) k (Ls 0)). node_obj s' p = node_obj s p) \<and>
     sk_destroyed s' = sk_destroyed s @ (case find (\<lambda>p. okey get rank s p = k) (Ls 0) of
       None \<Rightarrow> [] | Some p \<Rightarrow> if sk_destroy s then [node_obj s p] else [])"

lemma dom_del_key:
  assumes "distinct (h # xs)"
  shows "set (h # xs) - set_option (find (\<lambda>p. key p = k) xs) = set (h # del_key key k xs)"
  using assms
proof (induction xs)
  case (Cons x xs)
  have "set_option (find (\<lambda>p. key p = k) xs) \<subseteq> set xs" using find_in[of "\<lambda>p. key p = k" xs] by auto
  then show ?case using Cons by auto
qed simp

lemma delete_step:
  assumes rep: "sk_rep get rank s Ls" and cmp: "cmp_rank cmp rank" "sk_callbacks s cmp get" and kp: "kp \<noteq> NULL"
  shows "runs (sklist_delete (Some s) kp) (\<lambda>(r, sk). r = 0 \<and> (\<exists>s'. sk = Some s' \<and> removed get rank Ls (rank kp) s s'))"
proof -
  let ?key = "okey get rank s" and ?k = "rank kp" and ?h = "sk_head s"
  let ?Ls = "\<lambda>i. del_key ?key ?k (Ls i)" and ?g = "find (\<lambda>p. okey get rank s p = rank kp) (Ls 0)"
  have r: "?h \<noteq> NULL" "0 < sk_max s" "sk_level s \<le> sk_max s" "\<forall>i. subseq (Ls (Suc i)) (Ls i)"
    "distinct (?h # Ls 0)" "sorted_key ?key (Ls 0)" "dom (sk_nodes s) = set (?h # Ls 0)"
    "\<forall>i. sk_level s \<le> i \<longrightarrow> Ls i = []" "\<forall>i < sk_max s. chain (lnk s i) ?h (Ls i) ?h"
    "\<forall>p\<in>set (Ls 0). node_obj s p \<noteq> NULL" "sk_size s = int (length (Ls 0))"
    using rep by (auto simp: sk_rep_def)
  have step: "runs (sk_delete_from cmp get kp (sk_level s) ?h s) (deleted ?key ?k Ls (sk_level s) s)"
    by (rule delete_from_step[OF cmp(1) r(4) refl r(5,6,10) _ sk_rep_prv[OF rep]]) (use r(3,9) in \<open>auto simp: entry_def\<close>)
  have "removed get rank Ls ?k s s'" if s': "deleted ?key ?k Ls (sk_level s) s s'" for s'
  proof -
    have bg: "bottom_gone ?key ?k (Ls 0) (sk_level s) = ?g" "bottom_list ?key ?k (Ls 0) (sk_level s) = ?Ls 0"
      using r(8) by (auto simp: bottom_gone_def bottom_list_def)
    have d: "dropped ?g (sk_level s) (?Ls 0) s s'" "sk_level s' = sk_level s - emptied ?key ?k Ls (sk_level s)"
      "\<forall>j < sk_level s. chain (lnk s' j) ?h (?Ls j) ?h"
      using s' bg by (auto simp: deleted_def)
    have g: "set_option ?g \<inter> set (?h # ?Ls 0) = {}" using dom_del_key[OF r(5), of ?key ?k] by blast
    have ob: "\<forall>p\<in>set (?h # ?Ls 0). node_obj s' p = node_obj s p" using d(1) g by (auto simp: dropped_def)
    have key: "map (okey get rank s') (?Ls 0) = map ?key (?Ls 0)" using ob by (auto simp: okey_def)
    have hi: "chain (lnk s' i) ?h (?Ls i) ?h" if "i < sk_max s" for i
    proof (cases "i < sk_level s")
      case False
      then have "Ls i = []" using r(8) by simp
      moreover have "lnk s' i ?h = lnk s i ?h" using d(1) False g by (auto simp: dropped_def)
      moreover have "chain (lnk s i) ?h (Ls i) ?h" using r(9) that by blast
      ultimately show ?thesis by simp
    qed (use d(3) in simp)
    have env: "same_env s s'" using d(1) by (simp add: dropped_def)
    then have hd': "sk_head s' = ?h" and mx': "sk_max s' = sk_max s" by (simp_all add: same_env_def)
    have "sk_rep get rank s' ?Ls" unfolding sk_rep_def hd' mx'
    proof (intro conjI)
      show "\<forall>i. sk_level s' \<le> i \<longrightarrow> ?Ls i = []"
        using emptied_bound[OF r(4), of ?key ?k _ "sk_level s"] r(8) d(2) by (metis del_key.simps(1) not_le)
      show "\<forall>i. subseq (?Ls (Suc i)) (?Ls i)" using r(4) subseq_del_key by blast
      show "distinct (?h # ?Ls 0)" using r(5) distinct_del_key set_del_key_subset[of ?key ?k "Ls 0"] by auto
      show "sorted_key (okey get rank s') (?Ls 0)" unfolding key by (rule sorted_del_key[OF r(6)])
      show "\<forall>p\<in>set (?Ls 0). node_obj s' p \<noteq> NULL" using ob r(10) set_del_key_subset[of ?key ?k "Ls 0"] by auto
      show "chain (\<lambda>p. get_prev p s') ?h (rev (?Ls 0)) ?h" using d(1) by (simp add: dropped_def prv_def)
      show "dom (sk_nodes s') = set (?h # ?Ls 0)"
        using d(1) r(7) dom_del_key[OF r(5), of ?key ?k] by (simp add: dropped_def)
      show "sk_size s' = int (length (?Ls 0))"
      proof (cases ?g)
        case None
        then have "?Ls 0 = Ls 0" by (intro del_key_absent) (auto simp: find_None_iff)
        then show ?thesis using d(1) r(11) None by (simp add: dropped_def)
      next
        case (Some p)
        then have "?k \<in> ?key ` set (Ls 0)" using find_in[of "\<lambda>p. ?key p = ?k" "Ls 0" p] by (metis imageI)
        then have "Suc (length (?Ls 0)) = length (Ls 0)" by (rule length_del_key)
        then show ?thesis using d(1) r(11) Some by (simp add: dropped_def)
      qed
      show "\<forall>i < sk_max s. chain (lnk s' i) ?h (?Ls i) ?h" using hi by blast
      show "node_obj s' ?h = NULL" using ob rep by (simp add: sk_rep_def)
    qed (use r(1-3) d(2) in auto)
    then show ?thesis using env ob d(1) by (simp add: removed_def dropped_def)
  qed
  then have "runs (sk_delete_from cmp get kp (sk_level s) ?h s) (removed get rank Ls ?k s)" using runs_mono[OF step] by blast
  then show ?thesis using r(1) kp cmp(2) by (auto simp: sklist_delete_def sk_callbacks_def runs_bind elim!: runs_mono)
qed

end
