(* ===== verification/SkListSpec.thy ===== *)
theory SkListSpec
  imports SkListDel
begin

text \<open>
  The generic skip list: creation, destruction and iteration, and the properties of its interface.
\<close>

section \<open>Creation\<close>

lemma sk_init_links_step:
  assumes "sk_nodes s p = Some n" "p \<noteq> NULL" "sk_head s = p" "length (sk_link n) = i + m"
    "\<forall>j<i. sk_link n ! j = p"
  shows "sk_init_links m i s = Some (s\<lparr>sk_nodes := (sk_nodes s)(p \<mapsto> n\<lparr>sk_link := replicate (i + m) p\<rparr>)\<rparr>)"
  using assms
proof (induction m arbitrary: i s n)
  case 0
  then have "sk_link n = replicate i p" by (intro nth_equalityI) auto
  then have "n\<lparr>sk_link := replicate i p\<rparr> = n" by simp
  then show ?case using 0 by (simp add: fun_upd_idem)
next
  case (Suc m)
  let ?n = "n\<lparr>sk_link := (sk_link n)[i := p]\<rparr>"
  let ?t = "s\<lparr>sk_nodes := (sk_nodes s)(p \<mapsto> ?n)\<rparr>"
  have "set_link i (sk_head s) (sk_head s) s = Some ?t" using Suc.prems by (simp add: set_link_def rd_def)
  moreover have "sk_init_links m (Suc i) ?t =
    Some (?t\<lparr>sk_nodes := (sk_nodes ?t)(p \<mapsto> ?n\<lparr>sk_link := replicate (Suc i + m) p\<rparr>)\<rparr>)"
  proof (rule Suc.IH)
    have "i < length (sk_link n)" using Suc.prems(4) by simp
    then show "\<forall>j<Suc i. sk_link ?n ! j = p" using Suc.prems(5) by (auto simp: less_Suc_eq)
  qed (use Suc.prems in auto)
  ultimately show ?case by (simp, simp only: fun_upd_def)
qed

definition sk_empty :: "ptr \<Rightarrow> nat \<Rightarrow> sklist" where
  "sk_empty p m = \<lparr>sk_nodes = [p \<mapsto> \<lparr>sk_link = replicate m p, sk_prev = p, sk_height = m, sk_obj = NULL\<rparr>], sk_head = p,
     sk_max = m, sk_level = 0, sk_size = 0, sk_cmp = None, sk_get = None, sk_destroy = False, sk_destroyed = []\<rparr>"

lemma init_step:
  "sklist_init list_mem mem arr mx = Some (if mx \<le> 0 \<or> \<not> list_mem \<or> mem = NULL \<or> \<not> arr then None else Some (sk_empty mem (nat mx)))"
proof (cases "mx \<le> 0 \<or> \<not> list_mem \<or> mem = NULL \<or> \<not> arr")
  case True
  then show ?thesis by (auto simp: sklist_init_def sk_new_node_def Let_def)
next
  case False
  let ?n = "\<lparr>sk_link = replicate (nat mx) NULL, sk_prev = NULL, sk_height = nat mx, sk_obj = NULL\<rparr>"
  let ?s = "(sk_empty mem (nat mx))\<lparr>sk_nodes := [mem \<mapsto> ?n]\<rparr>"
  have "sk_init_links (nat mx) 0 ?s = Some (?s\<lparr>sk_nodes := (sk_nodes ?s)(mem \<mapsto> ?n\<lparr>sk_link := replicate (0 + nat mx) mem\<rparr>)\<rparr>)"
    by (rule sk_init_links_step) (use False in \<open>auto simp: sk_empty_def\<close>)
  then show ?thesis using False
    by (simp add: sklist_init_def sk_new_node_def Let_def sk_empty_def set_prev_def wr_def rd_def)
qed

lemma empty_rep: "p \<noteq> NULL \<Longrightarrow> 0 < m \<Longrightarrow> sk_rep get rank (sk_empty p m) (\<lambda>_. [])"
  by (auto simp: sk_rep_def sk_empty_def lnk_def get_link_def get_prev_def rd_def node_obj_def)

text \<open>The callbacks, which the client stores in the list.\<close>

definition set_callbacks :: "(ptr \<Rightarrow> ptr \<Rightarrow> int) \<Rightarrow> (ptr \<Rightarrow> ptr) \<Rightarrow> bool \<Rightarrow> sklist \<Rightarrow> sklist" where
  "set_callbacks cmp get d s = s\<lparr>sk_cmp := Some cmp, sk_get := Some get, sk_destroy := d\<rparr>"

lemma set_callbacks_rep:
  "sk_rep get rank s Ls \<Longrightarrow> sk_rep get rank (set_callbacks cmp get' d s) Ls" "sk_callbacks (set_callbacks cmp get d s) cmp get"
proof -
  have "okey get rank (set_callbacks cmp get' d s) = okey get rank s" by (auto simp: okey_def node_obj_def set_callbacks_def)
  then show "sk_rep get rank s Ls \<Longrightarrow> sk_rep get rank (set_callbacks cmp get' d s) Ls"
    by (simp add: sk_rep_def set_callbacks_def lnk_def get_link_def get_prev_def node_obj_def)
qed (simp add: set_callbacks_def sk_callbacks_def)

section \<open>Destruction\<close>

lemma rep_first:
  assumes "sk_rep get rank s Ls" "Ls 0 = p # xs"
  shows "get_link 0 p s = Some (hd (xs @ [sk_head s]))" "get_obj p s = Some (node_obj s p)" "p \<noteq> sk_head s"
proof -
  have c: "chain (lnk s 0) (sk_head s) (p # xs) (sk_head s)" "distinct (sk_head s # p # xs)" using assms by (auto simp: sk_rep_def)
  then have "chain (lnk s 0) p xs (sk_head s)" by simp
  then have "lnk s 0 p = Some (hd (xs @ [sk_head s]))" by (cases xs) auto
  then show "get_link 0 p s = Some (hd (xs @ [sk_head s]))" "get_obj p s = Some (node_obj s p)"
    using get_obj_node by (auto simp: lnk_def)
  show "p \<noteq> sk_head s" using c(2) by auto
qed

lemma free_from_step:
  assumes "cmp_rank cmp rank" "sk_rep get rank s Ls" "sk_callbacks s cmp get" "\<forall>p\<in>set (Ls 0). get (node_obj s p) \<noteq> NULL"
  shows "runs (sk_free_from (hd (Ls 0 @ [sk_head s])) s) (\<lambda>s'. same_env s s' \<and> dom (sk_nodes s') = {sk_head s} \<and>
    node_obj s' (sk_head s) = node_obj s (sk_head s) \<and>
    sk_destroyed s' = sk_destroyed s @ (if sk_destroy s then map (node_obj s) (Ls 0) else []))"
  using assms(2-)
proof (induction "Ls 0" arbitrary: Ls s)
  case Nil
  then show ?case by (subst sk_free_from.simps) (auto simp: same_env_def sk_rep_def)
next
  case (Cons p xs)
  let ?h = "sk_head s" and ?kp = "get (node_obj s p)"
  note L0 = Cons.hyps(2)[symmetric]
  note f = rep_first[OF Cons.prems(1) L0]
  have g: "sk_get s = Some get" using Cons.prems(2) by (simp add: sk_callbacks_def)
  have kp: "?kp \<noteq> NULL" using Cons.prems(3) L0 by simp
  have eq: "okey get rank s p = rank ?kp" by (simp add: okey_def)
  let ?Q = "\<lambda>s'. same_env s s' \<and> dom (sk_nodes s') = {?h} \<and> node_obj s' ?h = node_obj s ?h \<and>
    sk_destroyed s' = sk_destroyed s @ (if sk_destroy s then map (node_obj s) (Ls 0) else [])"
  have "runs (do { (_, sk) \<leftarrow> sklist_delete (Some s) ?kp; s \<leftarrow> sk; sk_free_from (hd (xs @ [?h])) s }) ?Q"
  proof (rule runs_bindI[OF delete_step[OF Cons.prems(1) assms(1) Cons.prems(2) kp]])
    fix r assume "case r of (r, sk) \<Rightarrow> r = 0 \<and> (\<exists>s'. sk = Some s' \<and> removed get rank Ls (rank ?kp) s s')"
    then obtain s1 where r: "r = (0, Some s1)" and s1: "removed get rank Ls (rank ?kp) s s1" by auto
    let ?Ls = "\<lambda>i. del_key (okey get rank s) (rank ?kp) (Ls i)"
    have d0: "?Ls 0 = xs" and fd: "find (\<lambda>q. okey get rank s q = rank ?kp) (Ls 0) = Some p" using L0 eq by simp_all
    have e: "same_env s s1" "sk_rep get rank s1 ?Ls" "\<forall>q\<in>set (?h # xs). node_obj s1 q = node_obj s q"
      "sk_destroyed s1 = sk_destroyed s @ (if sk_destroy s then [node_obj s p] else [])"
      using s1 unfolding removed_def d0 fd by auto
    have h1: "sk_head s1 = ?h" "sk_destroy s1 = sk_destroy s" using e(1) by (simp_all add: same_env_def)
    have "runs (sk_free_from (hd (?Ls 0 @ [sk_head s1])) s1) (\<lambda>s'. same_env s1 s' \<and> dom (sk_nodes s') = {sk_head s1} \<and>
      node_obj s' (sk_head s1) = node_obj s1 (sk_head s1) \<and>
      sk_destroyed s' = sk_destroyed s1 @ (if sk_destroy s1 then map (node_obj s1) (?Ls 0) else []))"
      by (rule Cons.hyps(1)) (use d0 e Cons.prems(2,3) L0 in \<open>auto intro: same_env_callbacks\<close>)
    then have "runs (sk_free_from (hd (xs @ [?h])) s1) ?Q"
      unfolding d0 h1 by (rule runs_mono) (use e L0 in \<open>auto simp: same_env_def\<close>)
    then show "runs (case r of (_, sk) \<Rightarrow> do { s \<leftarrow> sk; sk_free_from (hd (xs @ [?h])) s }) ?Q" using r by simp
  qed
  then show ?case using f g L0 by (subst sk_free_from.simps) simp
qed

lemma free_step:
  assumes cmp: "cmp_rank cmp rank" and rep: "sk_rep get rank s Ls" and cb: "sk_callbacks s cmp get"
    and "\<forall>p\<in>set (Ls 0). get (node_obj s p) \<noteq> NULL"
  shows "runs (sklist_free (Some s)) (\<lambda>sk. \<exists>s'. sk = Some s' \<and> sk_nodes s' = Map.empty \<and>
    sk_destroyed s' = sk_destroyed s @ (if sk_destroy s then map (node_obj s) (Ls 0) else []))"
proof -
  let ?h = "sk_head s"
  have h: "?h \<noteq> NULL" "node_obj s ?h = NULL" and c: "chain (lnk s 0) ?h (Ls 0) ?h" using rep by (auto simp: sk_rep_def)
  have "get_link 0 ?h s = Some (hd (Ls 0 @ [?h]))" using c by (cases "Ls 0") (auto simp: lnk_def)
  moreover have "runs (do { s \<leftarrow> sk_free_from (hd (Ls 0 @ [?h])) s; s \<leftarrow> sk_destroy_node (sk_head s) s; Some (Some s) })
    (\<lambda>sk. \<exists>s'. sk = Some s' \<and> sk_nodes s' = Map.empty \<and>
    sk_destroyed s' = sk_destroyed s @ (if sk_destroy s then map (node_obj s) (Ls 0) else []))"
  proof (rule runs_bindI[OF free_from_step[OF cmp rep cb assms(4)]], elim conjE)
    fix s1 assume s1: "same_env s s1" "dom (sk_nodes s1) = {?h}" "node_obj s1 ?h = node_obj s ?h"
      "sk_destroyed s1 = sk_destroyed s @ (if sk_destroy s then map (node_obj s) (Ls 0) else [])"
    then obtain n where n: "sk_nodes s1 = [?h \<mapsto> n]" "sk_head s1 = ?h" by (auto simp: dom_eq_singleton_conv same_env_def)
    then have "sk_obj n = NULL" using s1(3) h(2) by (simp add: node_obj_def)
    then have "sk_destroy_node (sk_head s1) s1 = Some (s1\<lparr>sk_nodes := Map.empty\<rparr>)"
      using n h by (simp add: sk_destroy_node_def rd_def)
    then show "runs (do { s \<leftarrow> sk_destroy_node (sk_head s1) s1; Some (Some s) }) (\<lambda>sk. \<exists>s'. sk = Some s' \<and> sk_nodes s' = Map.empty \<and>
    sk_destroyed s' = sk_destroyed s @ (if sk_destroy s then map (node_obj s) (Ls 0) else []))"
      using s1(4) by simp
  qed
  ultimately show ?thesis by (simp add: sklist_free_def)
qed

section \<open>Iteration\<close>

lemma foreach_end:
  "get_obj (sk_head s) s = Some ob \<Longrightarrow> sk_foreach_from adv body (sk_head s) (s, st) = Some (s, st)"
  "get_obj (sk_head s) s = Some ob \<Longrightarrow> adv (sk_head s) s \<noteq> None \<Longrightarrow> sk_foreach_safe_from adv body (sk_head s) (s, st) = Some (s, st)"
  by (subst sk_foreach_from.simps, simp) (subst sk_foreach_safe_from.simps, auto)

lemma foreach_visits:
  assumes "chain (\<lambda>p. adv p s) a xs (sk_head s)" "sk_head s \<notin> set (a # xs)" "\<And>p. p \<in> set (a # xs) \<Longrightarrow> get_obj p s = Some (node_obj s p)"
    "get_obj (sk_head s) s = Some ob" "\<And>st node data. body node data (s, st) = Some (s, f data st)" "adv (sk_head s) s \<noteq> None"
  shows "sk_foreach_from adv body a (s, st) = Some (s, fold f (map (node_obj s) (a # xs)) st)"
    "sk_foreach_safe_from adv body a (s, st) = Some (s, fold f (map (node_obj s) (a # xs)) st)"
  using assms
proof (induction xs arbitrary: a st)
  case Nil
  {
    case 1
    then show ?case by (subst sk_foreach_from.simps) (auto simp: foreach_end)
  next
    case 2
    then show ?case by (subst sk_foreach_safe_from.simps) (auto simp: foreach_end)
  }
next
  case (Cons x xs)
  {
    case 1
    then show ?case using Cons.IH(1)[of x "f (node_obj s a) st"] by (subst sk_foreach_from.simps) auto
  next
    case 2
    then show ?case using Cons.IH(2)[of x "f (node_obj s a) st"] by (subst sk_foreach_safe_from.simps) auto
  }
qed

lemma foreach_step:
  assumes rep: "sk_rep get rank s Ls" and body: "\<And>st node data. body node data (s, st) = Some (s, f data st)"
  shows "sklist_foreach body (s, st) = Some (s, fold f (map (node_obj s) (Ls 0)) st)"
    "sklist_foreach_safe body (s, st) = Some (s, fold f (map (node_obj s) (Ls 0)) st)"
    "sklist_foreach_reverse body (s, st) = Some (s, fold f (map (node_obj s) (rev (Ls 0))) st)"
    "sklist_foreach_safe_reverse body (s, st) = Some (s, fold f (map (node_obj s) (rev (Ls 0))) st)"
proof -
  let ?h = "sk_head s"
  have c: "chain (\<lambda>p. get_link 0 p s) ?h (Ls 0) ?h" "chain (\<lambda>p. get_prev p s) ?h (rev (Ls 0)) ?h" "distinct (?h # Ls 0)"
    using rep by (auto simp: sk_rep_def lnk_def)
  have ob: "get_obj p s = Some (node_obj s p)" "get_link 0 p s \<noteq> None" "get_prev p s \<noteq> None" if "p \<in> set (?h # Ls 0)" for p
    using chain_dom[OF c(1)] chain_dom[OF c(2)] that get_obj_node[of s 0 p] by (auto simp: lnk_def)
  have fwd: "do { node \<leftarrow> adv ?h s; sk_foreach_from adv body node (s, st) } = Some (s, fold f (map (node_obj s) xs) st) \<and>
    do { node \<leftarrow> adv ?h s; sk_foreach_safe_from adv body node (s, st) } = Some (s, fold f (map (node_obj s) xs) st)"
    if xs: "chain (\<lambda>p. adv p s) ?h xs ?h" "set xs = set (Ls 0)" "adv ?h s \<noteq> None" for adv xs
  proof (cases xs)
    case Nil
    then show ?thesis using xs(1,3) ob(1)[of ?h] by (simp add: foreach_end)
  next
    case (Cons a ys)
    have "?h \<notin> set (a # ys)" using c(3) xs(2) Cons by auto
    moreover have "get_obj p s = Some (node_obj s p)" if "p \<in> set (a # ys)" for p using ob(1) that xs(2) Cons by auto
    ultimately show ?thesis
      using xs(1,3) Cons foreach_visits[where adv = adv and a = a and xs = ys and body = body and f = f] ob(1)[of ?h] body by auto
  qed
  show "sklist_foreach body (s, st) = Some (s, fold f (map (node_obj s) (Ls 0)) st)"
    "sklist_foreach_safe body (s, st) = Some (s, fold f (map (node_obj s) (Ls 0)) st)"
    using fwd[of "get_link 0" "Ls 0"] c(1) ob[of ?h] by (simp_all add: sklist_foreach_def sklist_foreach_safe_def)
  show "sklist_foreach_reverse body (s, st) = Some (s, fold f (map (node_obj s) (rev (Ls 0))) st)"
    "sklist_foreach_safe_reverse body (s, st) = Some (s, fold f (map (node_obj s) (rev (Ls 0))) st)"
    using fwd[of get_prev "rev (Ls 0)"] c(2) ob[of ?h] by (simp_all add: sklist_foreach_reverse_def sklist_foreach_safe_reverse_def)
qed

section \<open>The abstraction\<close>

text \<open>The list holds the objects \<open>xs\<close> in this order.\<close>

definition sk_elems :: "(ptr \<Rightarrow> ptr \<Rightarrow> int) \<Rightarrow> (ptr \<Rightarrow> ptr) \<Rightarrow> (ptr \<Rightarrow> int) \<Rightarrow> sklist \<Rightarrow> ptr list \<Rightarrow> bool" where
  "sk_elems cmp get rank s xs \<longleftrightarrow> cmp_rank cmp rank \<and> sk_callbacks s cmp get \<and> sk_max s \<le> 30 \<and>
     (\<exists>Ls. sk_rep get rank s Ls \<and> xs = map (node_obj s) (Ls 0))"

abbreviation (input) obj_key :: "(ptr \<Rightarrow> ptr) \<Rightarrow> (ptr \<Rightarrow> int) \<Rightarrow> ptr \<Rightarrow> int" where
  "obj_key get rank ob \<equiv> rank (get ob)"

lemma okey_eq: "okey get rank s = (\<lambda>p. obj_key get rank (node_obj s p))"
  by (simp add: okey_def fun_eq_iff)

lemma find_map: "find P (map f xs) = map_option f (find (\<lambda>x. P (f x)) xs)"
  by (induction xs) auto

lemma elems_insert:
  assumes "sk_elems cmp get rank s xs" "sk_fresh s mem" "ob \<noteq> NULL"
  shows "runs (sklist_insert t mem True (Some s) ob) (\<lambda>(r, sk). r = 0 \<and> (\<exists>s'. sk = Some s' \<and>
    sk_elems cmp get rank s' (ins_key (obj_key get rank) ob xs) \<and> sk_size s' = sk_size s + 1 \<and> sk_destroyed s' = sk_destroyed s \<and> sk_destroy s' = sk_destroy s))"
proof -
  obtain Ls where Ls: "sk_rep get rank s Ls" "xs = map (node_obj s) (Ls 0)" "cmp_rank cmp rank" "sk_callbacks s cmp get" "sk_max s \<le> 30"
    using assms(1) by (auto simp: sk_elems_def)
  have "mem \<notin> dom (sk_nodes s)" using assms(2) by (auto simp: sk_fresh_def)
  then have mem: "mem \<notin> set (Ls 0)" "sk_size s = int (length (Ls 0))" using Ls(1) by (simp_all add: sk_rep_def)
  have "sk_elems cmp get rank s' (ins_key (obj_key get rank) ob xs) \<and> sk_size s' = sk_size s + 1 \<and> sk_destroyed s' = sk_destroyed s \<and> sk_destroy s' = sk_destroy s"
    if s': "inserted get rank Ls mem ob s s'" for s'
  proof -
    obtain h where h: "0 < h" "sk_rep get rank s' (ins_level (okey get rank s') mem h Ls)" "node_obj s' = (node_obj s)(mem := ob)"
      "same_env s s'" "sk_destroyed s' = sk_destroyed s" using s' by (auto simp: inserted_def)
    let ?xs = "ins_level (okey get rank s') mem h Ls 0"
    have "?xs = ins_key (okey get rank s') mem (Ls 0)" using h(1) by (simp add: ins_level_def)
    moreover have "map (node_obj s') (Ls 0) = xs" "node_obj s' mem = ob" using h(3) Ls(2) mem(1) by auto
    ultimately have "map (node_obj s') ?xs = ins_key (obj_key get rank) ob xs" "length ?xs = Suc (length (Ls 0))"
      unfolding okey_eq using map_ins_key[of "node_obj s'" "obj_key get rank" mem "Ls 0"] by auto
    moreover have "sk_size s' = int (length ?xs)" using h(2) by (simp add: sk_rep_def)
    ultimately show ?thesis using h Ls(3-5) mem(2) same_env_callbacks[OF h(4)] by (auto simp: sk_elems_def same_env_def)
  qed
  then show ?thesis by (intro runs_mono[OF insert_step[OF Ls(1,3-5) assms(2,3)]]) auto
qed

lemma elems_delete:
  assumes "sk_elems cmp get rank s xs" "kp \<noteq> NULL"
  shows "runs (sklist_delete (Some s) kp) (\<lambda>(r, sk). r = 0 \<and> (\<exists>s'. sk = Some s' \<and>
    sk_elems cmp get rank s' (del_key (obj_key get rank) (rank kp) xs) \<and> sk_destroy s' = sk_destroy s \<and>
    sk_destroyed s' = sk_destroyed s @ (case find (\<lambda>ob. obj_key get rank ob = rank kp) xs of
      None \<Rightarrow> [] | Some ob \<Rightarrow> if sk_destroy s then [ob] else [])))"
proof -
  obtain Ls where Ls: "sk_rep get rank s Ls" "xs = map (node_obj s) (Ls 0)" "cmp_rank cmp rank" "sk_callbacks s cmp get" "sk_max s \<le> 30"
    using assms(1) by (auto simp: sk_elems_def)
  have fd: "find (\<lambda>ob. obj_key get rank ob = rank kp) xs = map_option (node_obj s) (find (\<lambda>p. okey get rank s p = rank kp) (Ls 0))"
    unfolding Ls(2) okey_eq by (rule find_map)
  have "sk_elems cmp get rank s' (del_key (obj_key get rank) (rank kp) xs)" if s': "removed get rank Ls (rank kp) s s'" for s'
  proof -
    let ?ds = "del_key (okey get rank s) (rank kp) (Ls 0)"
    have "map (node_obj s') ?ds = map (node_obj s) ?ds" using s' by (auto simp: removed_def)
    also have "\<dots> = del_key (obj_key get rank) (rank kp) xs" unfolding okey_eq Ls(2) by (rule map_del_key)
    finally show ?thesis using s' Ls(3-5) same_env_callbacks[of s s'] by (auto simp: removed_def sk_elems_def same_env_def)
  qed
  then show ?thesis
    by (intro runs_mono[OF delete_step[OF Ls(1,3,4) assms(2)]]) (auto simp: removed_def same_env_def fd split: option.splits)
qed

lemma elems_search:
  assumes "sk_elems cmp get rank s xs" "kp \<noteq> NULL"
  shows "runs (sklist_search (Some s) kp) (\<lambda>ob. if ob = NULL then rank kp \<notin> obj_key get rank ` set xs else ob \<in> set xs \<and> obj_key get rank ob = rank kp)"
proof -
  obtain Ls where Ls: "sk_rep get rank s Ls" "xs = map (node_obj s) (Ls 0)" "cmp_rank cmp rank" "sk_cmp s = Some cmp" "sk_get s = Some get"
    using assms(1) by (auto simp: sk_elems_def sk_callbacks_def)
  have im: "okey get rank s ` set (Ls 0) = obj_key get rank ` set xs" unfolding okey_eq Ls(2) by (auto simp: image_image)
  obtain ob pos where r: "sk_search_node (Some s) kp = Some (ob, pos)" and f: "found (okey get rank s) (rank kp) s (Ls 0) True (ob, pos)"
    using search_step[OF Ls(1,3-5) assms(2)] by (auto simp: runs_def)
  have "if ob = NULL then rank kp \<notin> obj_key get rank ` set xs else ob \<in> set xs \<and> obj_key get rank ob = rank kp"
    using f by (auto simp: found_def im Ls(2) okey_eq split: if_splits)
  then show ?thesis using r by (simp add: sklist_search_def)
qed

definition sk_insert_op :: "int \<times> ptr \<Rightarrow> ptr \<Rightarrow> sklist \<Rightarrow> sklist option" where
  "sk_insert_op e ob s = do { (r, sk) \<leftarrow> sklist_insert (fst e) (snd e) True (Some s) ob; sk }"

definition sk_delete_op :: "ptr \<Rightarrow> sklist \<Rightarrow> sklist option" where
  "sk_delete_op kp s = do { (r, sk) \<leftarrow> sklist_delete (Some s) kp; sk }"

definition sk_member_op :: "ptr \<Rightarrow> sklist \<Rightarrow> bool option" where
  "sk_member_op kp s = do { ob \<leftarrow> sklist_search (Some s) kp; Some (ob \<noteq> NULL) }"

interpretation sk: ordered_bag "sk_elems cmp get rank" "obj_key get rank" rank sk_insert_op sk_delete_op sk_member_op
  "\<lambda>e ob s. sk_fresh s (snd e) \<and> ob \<noteq> NULL" "\<lambda>kp. kp \<noteq> NULL" "\<lambda>s. True"
proof
  fix s xs assume "sk_elems cmp get rank s xs"
  then show "sorted_key (obj_key get rank) xs" by (auto simp: sk_elems_def sk_rep_def okey_eq o_def)
next
  fix s xs x and e :: "int \<times> ptr" assume a: "sk_elems cmp get rank s xs" "sk_fresh s (snd e) \<and> x \<noteq> NULL"
  then show "runs (sk_insert_op e x s) (\<lambda>s'. sk_elems cmp get rank s' (ins_key (obj_key get rank) x xs) \<and> True)"
    unfolding sk_insert_op_def by (intro runs_bindI[OF elems_insert[OF a(1), of "snd e" x "fst e"]]) auto
next
  fix s xs kp assume a: "sk_elems cmp get rank s xs" "kp \<noteq> NULL"
  show "runs (sk_delete_op kp s) (\<lambda>s'. sk_elems cmp get rank s' (del_key (obj_key get rank) (rank kp) xs) \<and> True)"
    unfolding sk_delete_op_def by (intro runs_bindI[OF elems_delete[OF a]]) auto
  have "sk_member_op kp s = Some (rank kp \<in> obj_key get rank ` set xs)" if "runs (sklist_search (Some s) kp) (\<lambda>ob. if ob = NULL then rank kp \<notin> obj_key get rank ` set xs else ob \<in> set xs \<and> obj_key get rank ob = rank kp)"
    using that by (auto simp: sk_member_op_def runs_def split: if_splits) (metis (mono_tags, lifting) image_eqI)
  then show "sk_member_op kp s = Some (rank kp \<in> obj_key get rank ` set xs)" using elems_search[OF a] by blast
qed

section \<open>Reachable lists\<close>

text \<open>
  The lists that a client gets by creating a list, storing its callbacks and calling insertion and
  deletion, where allocations may fail, with the objects that the list has accepted.
\<close>

inductive sk_reach :: "(ptr \<Rightarrow> ptr \<Rightarrow> int) \<Rightarrow> (ptr \<Rightarrow> ptr) \<Rightarrow> sklist \<Rightarrow> ptr list \<Rightarrow> bool" for cmp get where
  new: "mx \<le> 30 \<Longrightarrow> sklist_init list_mem mem arr mx = Some (Some s) \<Longrightarrow> sk_reach cmp get (set_callbacks cmp get True s) []"
| ins: "sk_reach cmp get s obs \<Longrightarrow> mem = NULL \<or> sk_fresh s mem \<Longrightarrow> get ob \<noteq> NULL \<Longrightarrow>
    sklist_insert t mem arr (Some s) ob = Some (r, Some s') \<Longrightarrow> sk_reach cmp get s' (if r = 0 then ob # obs else obs)"
| del: "sk_reach cmp get s obs \<Longrightarrow> sklist_delete (Some s) kp = Some (r, Some s') \<Longrightarrow> sk_reach cmp get s' obs"

definition sk_balance :: "(ptr \<Rightarrow> ptr \<Rightarrow> int) \<Rightarrow> (ptr \<Rightarrow> ptr) \<Rightarrow> (ptr \<Rightarrow> int) \<Rightarrow> sklist \<Rightarrow> ptr list \<Rightarrow> bool" where
  "sk_balance cmp get rank s obs \<longleftrightarrow> (\<exists>xs. sk_elems cmp get rank s xs \<and> mset obs = mset xs + mset (sk_destroyed s) \<and>
     sk_destroy s \<and> (\<forall>ob\<in>set xs. get ob \<noteq> NULL))"

lemma runs_not_None: "runs m Q \<Longrightarrow> m \<noteq> None"
  by (auto simp: runs_def)

lemma insert_refused:
  assumes "sk_elems cmp get rank s xs" "mem = NULL \<or> \<not> arr \<or> ob = NULL"
  shows "runs (sklist_insert t mem arr (Some s) ob) (\<lambda>(r, sk). r = -1 \<and> (\<exists>s'. sk = Some s' \<and>
    sk_elems cmp get rank s' xs \<and> sk_destroyed s' = sk_destroyed s \<and> sk_destroy s' = sk_destroy s))"
proof -
  obtain Ls where Ls: "sk_rep get rank s Ls" "xs = map (node_obj s) (Ls 0)" "cmp_rank cmp rank" "sk_callbacks s cmp get" "sk_max s \<le> 30"
    using assms(1) by (auto simp: sk_elems_def)
  obtain h where h: "rand_level_from (sk_max s) 1 2 t = Some h" "h \<le> sk_max s"
    using rand_level_from_step[of 1 "sk_max s" 2 t] Ls(1,5) by (auto simp: sk_rep_def)
  have e: "\<And>p. get_prev p (s\<lparr>sk_level := h\<rparr>) = get_prev p s" by (simp add: get_prev_def)
  have "sk_rep get rank (s\<lparr>sk_level := h\<rparr>) Ls" if "sk_level s < h" using Ls(1) that h(2) by (simp add: sk_rep_def e)
  then have "sk_level s < h \<Longrightarrow> sk_elems cmp get rank (s\<lparr>sk_level := h\<rparr>) xs" using Ls by (auto simp: sk_elems_def sk_callbacks_def)
  then show ?thesis using assms Ls(4) h(1)
    by (auto simp: sklist_insert_def sk_callbacks_def rand_level_def sk_new_node_def Let_def)
qed

lemma reach_balance:
  assumes cmp: "cmp_rank cmp rank" and "sk_reach cmp get s obs"
  shows "sk_balance cmp get rank s obs"
  using assms(2)
proof induction
  case (new mx list_mem mem arr s)
  then have s: "s = sk_empty mem (nat mx)" "mem \<noteq> NULL" "0 < nat mx" by (auto simp: init_step split: if_splits)
  have "sk_rep get rank (set_callbacks cmp get True s) (\<lambda>_. [])" unfolding s(1) by (intro set_callbacks_rep empty_rep s)
  moreover have "sk_max (set_callbacks cmp get True s) \<le> 30" "sk_destroyed (set_callbacks cmp get True s) = []"
    using new(1) s(1) by (simp_all add: set_callbacks_def sk_empty_def)
  ultimately show ?case using cmp set_callbacks_rep(2)
    by (auto simp: sk_balance_def sk_elems_def intro!: exI[of _ "[]"]) (simp add: set_callbacks_def)
next
  case (ins s obs mem ob t arr r s')
  obtain xs where xs: "sk_elems cmp get rank s xs" "mset obs = mset xs + mset (sk_destroyed s)" "sk_destroy s" "\<forall>ob\<in>set xs. get ob \<noteq> NULL"
    using ins.IH by (auto simp: sk_balance_def)
  show ?case
  proof (cases "mem = NULL \<or> \<not> arr \<or> ob = NULL")
    case True
    then show ?thesis using insert_refused[OF xs(1) True, of t] ins.hyps(4) xs by (auto simp: sk_balance_def)
  next
    case False
    then have "runs (sklist_insert t mem arr (Some s) ob) (\<lambda>(r, sk). r = 0 \<and> (\<exists>s'. sk = Some s' \<and>
      sk_elems cmp get rank s' (ins_key (obj_key get rank) ob xs) \<and> sk_size s' = sk_size s + 1 \<and> sk_destroyed s' = sk_destroyed s \<and> sk_destroy s' = sk_destroy s))"
      using elems_insert[OF xs(1), of mem ob t] ins.hyps(2) by auto
    then have r: "r = 0" "sk_elems cmp get rank s' (ins_key (obj_key get rank) ob xs)" "sk_destroyed s' = sk_destroyed s" "sk_destroy s'"
      using ins.hyps(4) xs(3) by auto
    moreover have "mset (ob # obs) = mset (ins_key (obj_key get rank) ob xs) + mset (sk_destroyed s')" using xs(2) r(3) by (simp add: mset_ins_key)
    moreover have "\<forall>o'\<in>set (ins_key (obj_key get rank) ob xs). get o' \<noteq> NULL" using xs(4) ins.hyps(3) by simp
    ultimately show ?thesis unfolding sk_balance_def by (intro exI[of _ "ins_key (obj_key get rank) ob xs"]) simp
  qed
next
  case (del s obs kp r s')
  obtain xs where xs: "sk_elems cmp get rank s xs" "mset obs = mset xs + mset (sk_destroyed s)" "sk_destroy s" "\<forall>ob\<in>set xs. get ob \<noteq> NULL"
    using del.IH by (auto simp: sk_balance_def)
  show ?case
  proof (cases "kp = NULL")
    case True
    then show ?thesis using del.hyps(2) del.IH by (auto simp: sklist_delete_def split: if_splits)
  next
    case False
    let ?xs = "del_key (obj_key get rank) (rank kp) xs"
    have s': "sk_elems cmp get rank s' ?xs" "sk_destroy s'"
      "sk_destroyed s' = sk_destroyed s @ (case find (\<lambda>ob. obj_key get rank ob = rank kp) xs of None \<Rightarrow> [] | Some ob \<Rightarrow> [ob])"
      using elems_delete[OF xs(1) False] del.hyps(2) xs(3) by (auto split: option.splits)
    have "mset obs = mset ?xs + mset (sk_destroyed s')"
      using xs(2) s'(3) mset_del_key[of xs "obj_key get rank" "rank kp"] by (auto split: option.splits)
    moreover have "\<forall>ob\<in>set ?xs. get ob \<noteq> NULL" using xs(4) set_del_key_subset[of "obj_key get rank" "rank kp" xs] by blast
    ultimately show ?thesis using s' by (auto simp: sk_balance_def)
  qed
qed

lemma elems_free:
  assumes "sk_elems cmp get rank s xs" "\<forall>ob\<in>set xs. get ob \<noteq> NULL"
  shows "runs (sklist_free (Some s)) (\<lambda>sk. \<exists>s'. sk = Some s' \<and> sk_nodes s' = Map.empty \<and>
    sk_destroyed s' = sk_destroyed s @ (if sk_destroy s then xs else []))"
proof -
  obtain Ls where Ls: "sk_rep get rank s Ls" "xs = map (node_obj s) (Ls 0)" "cmp_rank cmp rank" "sk_callbacks s cmp get"
    using assms(1) by (auto simp: sk_elems_def)
  show ?thesis unfolding Ls(2) by (rule free_step[OF Ls(3,1,4)]) (use assms(2) Ls(2) in auto)
qed

section \<open>Properties\<close>

text \<open>
  (C20) Insertion into a list that holds the objects \<open>xs\<close> in key order returns 0 and puts the object
  behind all objects whose key is not greater, whatever height the random number gives the new node;
  the size goes up by one and no object is destroyed.
\<close>

theorem sklist_insert_spec:
  assumes "sk_elems cmp get rank s xs" "sk_fresh s mem" "ob \<noteq> NULL"
  shows "runs (sklist_insert t mem True (Some s) ob) (\<lambda>(r, sk). r = 0 \<and> (\<exists>s'. sk = Some s' \<and>
    sk_elems cmp get rank s' (ins_key (obj_key get rank) ob xs) \<and> sk_size s' = sk_size s + 1 \<and>
    sk_destroyed s' = sk_destroyed s \<and> sk_destroy s' = sk_destroy s))"
  by (rule elems_insert[OF assms])

definition sk_demo :: sklist where
  "sk_demo = set_callbacks (\<lambda>a b. uint a - uint b) (\<lambda>ob. ob) True (sk_empty 8 4)"

lemma sk_demo_cmp: "cmp_rank (\<lambda>a b. uint a - uint b) uint"
  by (simp add: cmp_rank_def)

lemma sk_demo_elems: "sk_elems (\<lambda>a b. uint a - uint b) (\<lambda>ob. ob) uint sk_demo []"
proof -
  have "sk_rep (\<lambda>ob. ob) uint sk_demo (\<lambda>_. [])" unfolding sk_demo_def by (intro set_callbacks_rep empty_rep) auto
  then show ?thesis using sk_demo_cmp set_callbacks_rep(2) by (auto simp: sk_elems_def sk_demo_def set_callbacks_def sk_callbacks_def sk_empty_def)
qed

lemma sk_demo_fresh: "sk_fresh sk_demo 16"
  by (simp add: sk_fresh_def sk_demo_def set_callbacks_def sk_empty_def)

theorem sklist_insert_spec_witness:
  "runs (sklist_insert 5 16 True (Some sk_demo) 100) (\<lambda>(r, sk). r = 0 \<and> (\<exists>s'. sk = Some s' \<and>
    sk_elems (\<lambda>a b. uint a - uint b) (\<lambda>ob. ob) uint s' [100] \<and> sk_size s' = 1))"
  by (rule runs_mono[OF sklist_insert_spec[OF sk_demo_elems sk_demo_fresh, of 100 5]])
    (auto simp: ins_key_def sk_demo_def set_callbacks_def sk_empty_def)

lemma sk_demo_one: "\<exists>s. sk_insert_op (5, 16) 100 sk_demo = Some s \<and> sk_elems (\<lambda>a b. uint a - uint b) (\<lambda>ob. ob) uint s [100]"
  using elems_insert[OF sk_demo_elems sk_demo_fresh, of 100 5] by (auto simp: sk_insert_op_def runs_def ins_key_def)

text \<open>
  (C21) Deletion removes the first object with the key and passes it to \<^verbatim>\<open>destroy\<close>; without such an
  object nothing changes. It returns 0 in both cases.
\<close>

theorem sklist_delete_spec:
  assumes "sk_elems cmp get rank s xs" "kp \<noteq> NULL"
  shows "runs (sklist_delete (Some s) kp) (\<lambda>(r, sk). r = 0 \<and> (\<exists>s'. sk = Some s' \<and>
    sk_elems cmp get rank s' (del_key (obj_key get rank) (rank kp) xs) \<and> sk_destroy s' = sk_destroy s \<and>
    sk_destroyed s' = sk_destroyed s @ (case find (\<lambda>ob. obj_key get rank ob = rank kp) xs of
      None \<Rightarrow> [] | Some ob \<Rightarrow> if sk_destroy s then [ob] else [])))"
  by (rule elems_delete[OF assms])

theorem sklist_delete_spec_witness:
  "\<exists>s. sk_insert_op (5, 16) 100 sk_demo = Some s \<and> runs (sklist_delete (Some s) 100) (\<lambda>(r, sk). r = 0 \<and>
    (\<exists>s'. sk = Some s' \<and> sk_elems (\<lambda>a b. uint a - uint b) (\<lambda>ob. ob) uint s' []))"
proof -
  obtain s where s: "sk_insert_op (5, 16) 100 sk_demo = Some s" "sk_elems (\<lambda>a b. uint a - uint b) (\<lambda>ob. ob) uint s [100]" using sk_demo_one by blast
  have "runs (sklist_delete (Some s) 100) (\<lambda>(r, sk). r = 0 \<and> (\<exists>s'. sk = Some s' \<and> sk_elems (\<lambda>a b. uint a - uint b) (\<lambda>ob. ob) uint s' []))"
    by (rule runs_mono[OF sklist_delete_spec[OF s(2), of 100]]) auto
  then show ?thesis using s(1) by blast
qed

text \<open>
  A search on a list in the invariant returns an object whose key compares equal, and its node
  as the position, if and only if there is one; otherwise the position is the last node with a
  smaller key, or the head.
\<close>

theorem sklist_search_spec:
  assumes "sk_rep get rank s Ls" "cmp_rank cmp rank" "sk_cmp s = Some cmp" "sk_get s = Some get" "kp \<noteq> NULL"
  shows "runs (sklist_search_ext (Some s) kp) (\<lambda>(ob, pos). sklist_search (Some s) kp = Some ob \<and>
    (if ob = NULL then rank kp \<notin> okey get rank s ` set (Ls 0) \<and> pos = stop_at (sk_head s) (\<lambda>p. okey get rank s p < rank kp) (Ls 0)
     else pos \<in> set (Ls 0) \<and> ob = node_obj s pos \<and> okey get rank s pos = rank kp))"
proof -
  obtain ob pos where r: "sk_search_node (Some s) kp = Some (ob, pos)" and f: "found (okey get rank s) (rank kp) s (Ls 0) True (ob, pos)"
    using search_step[OF assms] by (auto simp: runs_def)
  then show ?thesis by (simp add: sklist_search_ext_def sklist_search_def found_def)
qed

theorem sklist_search_spec_witness:
  "runs (sklist_search_ext (Some sk_demo) 100) (\<lambda>(ob, pos). ob = NULL \<and> pos = 8)"
proof -
  have rep: "sk_rep (\<lambda>ob. ob) uint sk_demo (\<lambda>_. [])" unfolding sk_demo_def by (intro set_callbacks_rep empty_rep) auto
  show ?thesis
    by (rule runs_mono[OF sklist_search_spec[OF rep sk_demo_cmp, of 100]])
      (auto simp: sk_demo_def set_callbacks_def sk_empty_def stop_at_def split: if_splits)
qed

text \<open>
  Inserting an object whose key is not in the list and deleting that key gives back a list with
  the same objects in the same order.
\<close>

theorem sklist_insert_delete_roundtrip:
  assumes "sk_elems cmp get rank s xs" "sk_fresh s mem" "ob \<noteq> NULL" "kp \<noteq> NULL" "rank kp = obj_key get rank ob"
    "obj_key get rank ob \<notin> obj_key get rank ` set xs"
  shows "runs (do { s \<leftarrow> sk_insert_op (t, mem) ob s; sk_delete_op kp s }) (\<lambda>s'. sk_elems cmp get rank s' xs)"
  using sk.insert_then_delete[OF assms(1) _ assms(4-6), of "(t, mem)"] assms(2,3) by simp

theorem sklist_insert_delete_roundtrip_witness:
  "runs (do { s \<leftarrow> sk_insert_op (5, 16) 100 sk_demo; sk_delete_op 100 s }) (\<lambda>s'. sk_elems (\<lambda>a b. uint a - uint b) (\<lambda>ob. ob) uint s' [])"
  using sklist_insert_delete_roundtrip[OF sk_demo_elems sk_demo_fresh, of 100 100 5] by simp

text \<open>
  The height of a new node lies between 1 and the maximal level, and is the first number \<open>h\<close>
  such that the random number exceeds \<^verbatim>\<open>RAND_MAX\<close> divided by \<open>2 ^ h\<close>; the level of the list is
  raised to it. This needs a maximal level of at most 30.
\<close>

theorem sklist_rand_level:
  assumes "0 < sk_max s" "sk_max s \<le> 30"
  shows "runs (rand_level t s) (\<lambda>(h, s'). 1 \<le> h \<and> h \<le> sk_max s \<and> s' = s\<lparr>sk_level := max h (sk_level s)\<rparr> \<and>
    (\<forall>k. 1 \<le> k \<and> k < h \<longrightarrow> t \<le> RAND_MAX div 2 ^ k) \<and> (h < sk_max s \<longrightarrow> RAND_MAX div 2 ^ h < t))"
  using rand_level_from_step[of 1 "sk_max s" 2 t] assms by (auto simp: rand_level_def max_def)

theorem sklist_rand_level_witness:
  "runs (rand_level 600000000 sk_demo) (\<lambda>(h, s'). h = 2)"
proof -
  have "h = 2" if h: "1 \<le> h" "h \<le> 4" "\<forall>k. 1 \<le> k \<and> k < h \<longrightarrow> 600000000 \<le> RAND_MAX div 2 ^ k" "h < 4 \<longrightarrow> RAND_MAX div 2 ^ h < 600000000" for h :: nat
    using h(1,2,4) h(3)[rule_format, of 2] by (cases "h = 1"; cases "h = 2") (auto simp: RAND_MAX_def)
  moreover have "sk_max sk_demo = 4" by (simp add: sk_demo_def set_callbacks_def sk_empty_def)
  ultimately show ?thesis by (intro runs_mono[OF sklist_rand_level[of sk_demo 600000000]]) auto
qed

text \<open>
  With a maximal level of 31 or more the doubled divisor overflows an \<^verbatim>\<open>int\<close> when the random number is
  0 or 1: undefined behaviour.
\<close>

lemma rand_level_overflow: "rand_level 1 (sk_empty 8 31) = None"
  by (simp add: rand_level_def sk_empty_def RAND_MAX_def rand_level_from.simps)

text \<open>
  The comment in \<^verbatim>\<open>search_node\<close> says that the first matching object is returned; with equal keys it is the
  first on the highest level that has one. Here 100 and 101 compare equal, 100 is in front, and the
  search finds 101.
\<close>

definition dup_list :: "sklist option" where
  "dup_list = do {
     s \<leftarrow> sk_insert_op (RAND_MAX, 16) 100 (set_callbacks (\<lambda>a b. uint a div 2 - uint b div 2) (\<lambda>ob. ob) True (sk_empty 8 4));
     sk_insert_op (600000000, 24) 101 s }"

lemma search_not_first:
  "do { s \<leftarrow> dup_list; node \<leftarrow> get_link 0 (sk_head s) s; get_obj node s } = Some 100"
  "do { s \<leftarrow> dup_list; sklist_search (Some s) 100 } = Some 101"
  by code_simp+


lemma sk_demo_reach: "sk_reach (\<lambda>a b. uint a - uint b) (\<lambda>ob. ob) sk_demo []"
  unfolding sk_demo_def by (rule sk_reach.new[of 4 True 8 True]) (auto simp: init_step)




end
