(* ===== verification/SkR.thy ===== *)
theory SkR
  imports SkList
begin

text \<open>
  The recursive skip list of integers of \<^verbatim>\<open>c_data_structure/skiplist/skiplist.r.c\<close>. Its levels end with
  NULL, indices are \<^verbatim>\<open>int\<close>s, and an index outside the array of links is an error (\<open>None\<close>). The
  global \<^verbatim>\<open>COUNT\<close> of comparisons is passed through the search.
\<close>

section \<open>Data\<close>

record rnode =
  r_link :: "ptr list"
  r_height :: nat
  r_key :: int

record rlist =
  r_nodes :: "rnode heap"
  r_head :: ptr
  r_max :: nat
  r_level :: nat
  r_size :: int

definition r_get_link :: "int \<Rightarrow> ptr \<Rightarrow> rlist \<Rightarrow> ptr option" where
  "r_get_link n p s = do {
     x \<leftarrow> rd (r_nodes s) p;
     if 0 \<le> n \<and> n < int (length (r_link x)) then Some (r_link x ! nat n) else None }"

definition r_set_link :: "int \<Rightarrow> ptr \<Rightarrow> ptr \<Rightarrow> rlist \<Rightarrow> rlist option" where
  "r_set_link n p q s = do {
     x \<leftarrow> rd (r_nodes s) p;
     if 0 \<le> n \<and> n < int (length (r_link x))
     then Some (s\<lparr>r_nodes := (r_nodes s)(p \<mapsto> x\<lparr>r_link := (r_link x)[nat n := q]\<rparr>)\<rparr>)
     else None }"

definition r_get_key :: "ptr \<Rightarrow> rlist \<Rightarrow> int option" where
  "r_get_key p s = do { x \<leftarrow> rd (r_nodes s) p; Some (r_key x) }"

definition r_get_height :: "ptr \<Rightarrow> rlist \<Rightarrow> nat option" where
  "r_get_height p s = do { x \<leftarrow> rd (r_nodes s) p; Some (r_height x) }"

section \<open>Nodes\<close>

definition r_new_node :: "ptr \<Rightarrow> bool \<Rightarrow> int \<Rightarrow> nat \<Rightarrow> rlist \<Rightarrow> ptr \<times> rlist" where
  "r_new_node mem arr key n s =
     (if mem = NULL then (NULL, s)
      else if \<not> arr then (NULL, s)
      else (mem, s\<lparr>r_nodes := (r_nodes s)(mem \<mapsto> \<lparr>r_link = replicate n NULL, r_height = n, r_key = key\<rparr>)\<rparr>))"

definition r_destroy_node :: "ptr \<Rightarrow> rlist \<Rightarrow> rlist option" where
  "r_destroy_node p s =
     (if p = NULL then Some s
      else do { _ \<leftarrow> rd (r_nodes s) p; Some (s\<lparr>r_nodes := (r_nodes s)(p := None)\<rparr>) })"

section \<open>Search\<close>

partial_function (option) r_search_node :: "ptr \<Rightarrow> int \<Rightarrow> int \<Rightarrow> rlist \<Rightarrow> int \<Rightarrow> (ptr \<times> int) option" where
  "r_search_node node key n s c =
     (if node = NULL then Some (NULL, c)
      else do {
        k \<leftarrow> r_get_key node s;
        if k = key then Some (node, c + 1)
        else do {
          l \<leftarrow> r_get_link n node s;
          stop \<leftarrow> (if l = NULL then Some True else do { lk \<leftarrow> r_get_key l s; Some (key < lk) });
          if stop then
            if n = 0 then Some (NULL, c + 2) else r_search_node node key (n - 1) s (c + 2)
          else r_search_node l key n s (c + 2) }})"

definition r_search :: "int \<Rightarrow> rlist \<Rightarrow> int \<Rightarrow> (ptr \<times> int) option" where
  "r_search key s c = r_search_node (r_head s) key (int (r_level s) - 1) s c"

section \<open>Insertion\<close>

definition r_rand_level :: "int \<Rightarrow> rlist \<Rightarrow> (nat \<times> rlist) option" where
  "r_rand_level t s = do {
     i \<leftarrow> rand_level_from (r_max s) 1 2 t;
     Some (i, if i > r_level s then s\<lparr>r_level := i\<rparr> else s) }"

partial_function (option) r_insert_node :: "ptr \<Rightarrow> ptr \<Rightarrow> int \<Rightarrow> rlist \<Rightarrow> rlist option" where
  "r_insert_node node new n s = do {
     l \<leftarrow> r_get_link n node s;
     stop \<leftarrow> (if l = NULL then Some True else do { k \<leftarrow> r_get_key new s; lk \<leftarrow> r_get_key l s; Some (k < lk) });
     if stop then do {
       h \<leftarrow> r_get_height new s;
       s \<leftarrow> (if n < int h then do {
           l \<leftarrow> r_get_link n node s;
           s \<leftarrow> r_set_link n new l s;
           r_set_link n node new s }
         else Some s);
       if n = 0 then Some s else r_insert_node node new (n - 1) s }
     else r_insert_node l new n s }"

definition r_insert :: "int \<Rightarrow> ptr \<Rightarrow> bool \<Rightarrow> int \<Rightarrow> rlist \<Rightarrow> rlist option" where
  "r_insert t mem arr key s = do {
     (h, s) \<leftarrow> r_rand_level t s;
     let (node, s) = r_new_node mem arr key h s;
     s \<leftarrow> r_insert_node (r_head s) node (int (r_level s) - 1) s;
     Some (s\<lparr>r_size := r_size s + 1\<rparr>) }"

section \<open>Deletion\<close>

partial_function (option) r_delete_node :: "ptr \<Rightarrow> int \<Rightarrow> int \<Rightarrow> rlist \<Rightarrow> rlist option" where
  "r_delete_node node key n s = do {
     l \<leftarrow> r_get_link n node s;
     stop \<leftarrow> (if l = NULL then Some True else do { lk \<leftarrow> r_get_key l s; Some (key \<le> lk) });
     if stop then do {
       hit \<leftarrow> (if l = NULL then Some False else do { lk \<leftarrow> r_get_key l s; Some (key = lk) });
       if hit then do {
         l' \<leftarrow> r_get_link n l s;
         s \<leftarrow> r_set_link n node l' s;
         if n = 0 then r_destroy_node l s
         else r_delete_node node key (n - 1) s }
       else if n = 0 then Some s
       else r_delete_node node key (n - 1) s }
     else r_delete_node l key n s }"

definition r_delete :: "int \<Rightarrow> rlist \<Rightarrow> rlist option" where
  "r_delete key s = do {
     s \<leftarrow> r_delete_node (r_head s) key (int (r_level s) - 1) s;
     Some (s\<lparr>r_size := r_size s - 1\<rparr>) }"

section \<open>Creation\<close>

definition r_init :: "bool \<Rightarrow> ptr \<Rightarrow> bool \<Rightarrow> nat \<Rightarrow> rlist option" where
  "r_init list_mem mem arr mx =
     (if \<not> list_mem then None
      else
        let s = \<lparr>r_nodes = Map.empty, r_head = NULL, r_max = 0, r_level = 0, r_size = 0\<rparr>;
          (hd, s) = r_new_node mem arr (-1) mx s;
          s = s\<lparr>r_head := hd\<rparr> in
        if hd = NULL then None else Some (s\<lparr>r_max := mx\<rparr>))"

declare r_search_node.simps [code] r_insert_node.simps [code] r_delete_node.simps [code]

end
