(* ===== verification/SkRSpec.thy ===== *)
theory SkRSpec
  imports SkR SkListDel
begin

text \<open>
  The recursive skip list represents a list of integers in order: the invariant, what search,
  insertion and deletion do to it, and where they fail.
\<close>

section \<open>The invariant\<close>

definition rlnk :: "rlist \<Rightarrow> nat \<Rightarrow> ptr \<rightharpoonup> ptr" where
  "rlnk s i = (\<lambda>p. r_get_link (int i) p s)"

definition rkey :: "rlist \<Rightarrow> ptr \<Rightarrow> int" where
  "rkey s p = r_key (the (r_nodes s p))"

definition r_rep :: "rlist \<Rightarrow> (nat \<Rightarrow> ptr list) \<Rightarrow> bool" where
  "r_rep s Ls \<longleftrightarrow> r_head s \<noteq> NULL \<and> 0 < r_max s \<and> r_level s \<le> r_max s \<and> rkey s (r_head s) = -1 \<and>
     (\<forall>i< r_max s. chain (rlnk s i) (r_head s) (Ls i) NULL) \<and>
     (\<forall>i. r_level s \<le> i \<longrightarrow> Ls i = []) \<and> (\<forall>i. subseq (Ls (Suc i)) (Ls i)) \<and>
     distinct (r_head s # Ls 0) \<and> NULL \<notin> set (Ls 0) \<and> sorted_key (rkey s) (Ls 0) \<and>
     dom (r_nodes s) = set (r_head s # Ls 0)"

lemma rlnk_SomeD: "rlnk s i p = Some q \<Longrightarrow> p \<noteq> NULL \<and> (\<exists>n. r_nodes s p = Some n)"
  by (auto simp: rlnk_def r_get_link_def rd_def bind_Some_conv split: if_splits)

lemma r_get_key_node: "p \<in> dom (rlnk s i) \<Longrightarrow> r_get_key p s = Some (rkey s p)"
  by (auto simp: r_get_key_def rkey_def rd_def dest: rlnk_SomeD)

lemma chain_key:
  assumes "chain (rlnk s i) a ys b" "p \<in> set (a # ys)"
  shows "r_get_key p s = Some (rkey s p)"
  using chain_dom[OF assms(1)] assms(2) r_get_key_node by blast

section \<open>Search\<close>

lemma r_search_end:
  assumes "r_get_link n p s = Some l" "l = NULL \<or> (r_get_key l s = Some lk \<and> k < lk)" "r_get_key p s = Some pk" "pk \<noteq> k" "p \<noteq> NULL"
  shows "r_search_node p k n s c = (if n = 0 then Some (NULL, c + 2) else r_search_node p k (n - 1) s (c + 2))"
  using assms by (subst r_search_node.simps) auto

lemma r_search_walk:
  assumes "chain (rlnk s n) p ys NULL" "NULL \<notin> set ys" "sorted_key (rkey s) ys" "rkey s p \<noteq> k"
  shows "\<exists>c'. r_search_node p k (int n) s c =
    (if k \<in> rkey s ` set ys then Some (hd (dropWhile (\<lambda>x. rkey s x < k) ys), c')
     else if n = 0 then Some (NULL, c')
     else r_search_node (last (p # takeWhile (\<lambda>x. rkey s x < k) ys)) k (int n - 1) s c')"
  using assms
proof (induction ys arbitrary: p c)
  case Nil
  have p: "p \<noteq> NULL" using Nil.prems(1) rlnk_SomeD by auto
  show ?case using r_search_end[of "int n" p s NULL _ k "rkey s p" c] Nil.prems p chain_key[OF Nil.prems(1), of p]
    by (auto simp: rlnk_def)
next
  case (Cons y ys)
  have p: "p \<noteq> NULL" "y \<noteq> NULL" using Cons.prems(1,2) rlnk_SomeD[of s n p y] by auto
  have k: "r_get_key p s = Some (rkey s p)" "r_get_key y s = Some (rkey s y)" using chain_key[OF Cons.prems(1)] by auto
  have l: "r_get_link (int n) p s = Some y" using Cons.prems(1) by (simp add: rlnk_def)
  consider "k < rkey s y" | "rkey s y = k" | "rkey s y < k" by linarith
  then show ?case
  proof cases
    case 1
    then have "k \<notin> rkey s ` set (y # ys)" using Cons.prems(3) by auto
    then show ?thesis using r_search_end[OF l _ k(1) Cons.prems(4) p(1), of "rkey s y" c] 1 k(2) by auto
  next
    case 2
    have "r_search_node p k (int n) s c = r_search_node y k (int n) s (c + 2)"
      using p k l Cons.prems(4) 2 by (subst r_search_node.simps) simp
    also have "\<dots> = Some (y, c + 3)" using p k 2 by (subst r_search_node.simps) simp
    finally show ?thesis using 2 by auto
  next
    case 3
    have e: "r_search_node p k (int n) s c = r_search_node y k (int n) s (c + 2)"
      using p k l Cons.prems(4) 3 by (subst r_search_node.simps) simp
    have IH: "\<exists>c'. r_search_node y k (int n) s (c + 2) =
      (if k \<in> rkey s ` set ys then Some (hd (dropWhile (\<lambda>x. rkey s x < k) ys), c')
       else if n = 0 then Some (NULL, c')
       else r_search_node (last (y # takeWhile (\<lambda>x. rkey s x < k) ys)) k (int n - 1) s c')"
      by (rule Cons.IH) (use Cons.prems 3 in auto)
    have kk: "k \<in> rkey s ` set (y # ys) \<longleftrightarrow> k \<in> rkey s ` set ys" using 3 by auto
    have tw: "takeWhile (\<lambda>x. rkey s x < k) (y # ys) = y # takeWhile (\<lambda>x. rkey s x < k) ys"
      "dropWhile (\<lambda>x. rkey s x < k) (y # ys) = dropWhile (\<lambda>x. rkey s x < k) ys" using 3 by simp_all
    have lt: "last (p # y # zs) = last (y # zs)" for zs by simp
    show ?thesis unfolding e kk tw lt using IH .
  qed
qed

definition r_found :: "rlist \<Rightarrow> ptr list \<Rightarrow> int \<Rightarrow> ptr \<times> int \<Rightarrow> bool" where
  "r_found s xs k = (\<lambda>(p, c). if p = NULL then k \<notin> rkey s ` set xs else p \<in> set xs \<and> rkey s p = k)"

lemma first_with_key:
  assumes "sorted_key key xs" "k \<in> key ` set xs"
  shows "hd (dropWhile (\<lambda>x. key x < k) xs) \<in> set xs \<and> key (hd (dropWhile (\<lambda>x. key x < k) xs)) = k"
  using assms by (induction xs) (auto split: if_splits)

lemma r_search_step:
  assumes sub: "\<forall>i. subseq (Ls (Suc i)) (Ls i)" and "\<forall>j\<le>n. chain (rlnk s j) (r_head s) (Ls j) NULL"
    and L0: "NULL \<notin> set (Ls 0)" "sorted_key (rkey s) (Ls 0)" and k: "rkey s (r_head s) \<noteq> k"
    and "p = r_head s \<or> (p \<in> set (Ls n) \<and> rkey s p < k)"
  shows "runs (r_search_node p k (int n) s c) (r_found s (Ls 0) k)"
  using assms(2,6)
proof (induction n arbitrary: p c)
  case (0 p c)
  have pk: "rkey s p \<noteq> k" using 0(2) k by auto
  obtain ys where ys: "chain (rlnk s 0) p ys NULL" "set ys \<subseteq> set (Ls 0)" "sorted_key (rkey s) ys" "\<forall>x\<in>set (Ls 0). x \<in> set ys \<or> rkey s x < k"
    using chain_suffix[of "rlnk s 0" "r_head s" "Ls 0" NULL "rkey s" "\<lambda>x. rkey s x < k" p] 0 L0(2) by auto
  have kk: "k \<in> rkey s ` set ys \<longleftrightarrow> k \<in> rkey s ` set (Ls 0)" using ys(2,4) by fastforce
  have nn: "NULL \<notin> set ys" using L0(1) ys(2) by blast
  obtain c' where "r_search_node p k (int 0) s c =
    (if k \<in> rkey s ` set ys then Some (hd (dropWhile (\<lambda>x. rkey s x < k) ys), c') else Some (NULL, c'))"
    using r_search_walk[OF ys(1) nn ys(3) pk, of c] by (simp only: simp_thms if_True) blast
  then show ?case using first_with_key[OF ys(3), of k] kk ys(2) L0(1) by (auto simp: r_found_def)
next
  case (Suc n p c)
  let ?q = "stop_at (r_head s) (\<lambda>x. rkey s x < k) (Ls (Suc n))"
  have sb: "subseq (Ls (Suc n)) (Ls 0)" "subseq (Ls (Suc n)) (Ls n)" using nested[OF sub, of 0 "Suc n"] sub by simp_all
  have pk: "rkey s p \<noteq> k" using Suc.prems(2) k by auto
  obtain ys where ys: "chain (rlnk s (Suc n)) p ys NULL" "set ys \<subseteq> set (Ls (Suc n))" "sorted_key (rkey s) ys"
      "last (p # takeWhile (\<lambda>x. rkey s x < k) ys) = ?q"
    using chain_suffix[of "rlnk s (Suc n)" "r_head s" "Ls (Suc n)" NULL "rkey s" "\<lambda>x. rkey s x < k" p] Suc.prems
      subseq_sorted_key[OF sb(1) L0(2)] by auto
  have in0: "set ys \<subseteq> set (Ls 0)" using ys(2) subseq_set[OF sb(1)] by blast
  then have nn: "NULL \<notin> set ys" using L0(1) by blast
  obtain c' where e: "r_search_node p k (int (Suc n)) s c =
    (if k \<in> rkey s ` set ys then Some (hd (dropWhile (\<lambda>x. rkey s x < k) ys), c') else r_search_node ?q k (int (Suc n) - 1) s c')"
    using r_search_walk[OF ys(1) nn ys(3) pk, of c] unfolding ys(4) by (simp only: nat.simps if_False) blast
  have "runs (r_search_node ?q k (int n) s c') (r_found s (Ls 0) k)"
    using Suc.prems(1) stop_at_cases[of "r_head s" "\<lambda>x. rkey s x < k" "Ls (Suc n)"] subseq_set[OF sb(2)] by (intro Suc.IH) auto
  moreover have "r_found s (Ls 0) k (hd (dropWhile (\<lambda>x. rkey s x < k) ys), c')" if "k \<in> rkey s ` set ys"
    using first_with_key[OF ys(3) that] in0 L0(1) by (auto simp: r_found_def)
  ultimately show ?case unfolding e by simp
qed

section \<open>Insertion\<close>

definition rkept :: "rlist \<Rightarrow> rlist \<Rightarrow> bool" where
  "rkept s s' \<longleftrightarrow> r_head s' = r_head s \<and> r_max s' = r_max s \<and> r_level s' = r_level s \<and> r_size s' = r_size s \<and>
     rkey s' = rkey s \<and> (\<forall>p. r_get_height p s' = r_get_height p s) \<and> dom (r_nodes s') = dom (r_nodes s)"

lemma rkept_refl [simp]: "rkept s s"
  by (simp add: rkept_def)

lemma rkept_trans: "rkept s s' \<Longrightarrow> rkept s' s'' \<Longrightarrow> rkept s s''"
  by (simp add: rkept_def)

lemma r_set_link_step:
  assumes "p \<in> dom (rlnk s i)"
  shows "runs (r_set_link (int i) p q s) (\<lambda>s'. rkept s s' \<and> rlnk s' = (rlnk s)(i := (rlnk s i)(p \<mapsto> q)))"
proof -
  obtain n where n: "p \<noteq> NULL" "r_nodes s p = Some n" "i < length (r_link n)"
    using assms by (auto simp: rlnk_def r_get_link_def rd_def bind_Some_conv split: if_splits)
  then show ?thesis
    by (auto simp: r_set_link_def rd_def rkept_def rkey_def r_get_height_def rlnk_def r_get_link_def fun_eq_iff)
qed

lemma r_link_level:
  assumes c: "chain (rlnk s i) h xs NULL" "distinct (h # xs)" and new: "new \<notin> set (h # xs)" "new \<in> dom (rlnk s i)"
    and ins: "ins_key key new xs = takeWhile P xs @ new # dropWhile P xs" and node: "node = stop_at h P xs"
  shows "runs (do { l \<leftarrow> r_get_link (int i) node s; s \<leftarrow> r_set_link (int i) new l s; r_set_link (int i) node new s })
    (\<lambda>s'. rkept s s' \<and> (\<forall>j. j \<noteq> i \<longrightarrow> rlnk s' j = rlnk s j) \<and> chain (rlnk s' i) h (ins_key key new xs) NULL)"
proof -
  let ?l = "hd (dropWhile P xs @ [NULL])"
  have l: "r_get_link (int i) node s = Some ?l" using stop_at_next[OF c(1), of P] node by (simp add: rlnk_def)
  have nd: "node \<in> set (h # xs)" using stop_at_cases[of h P xs] node by auto
  then have dm: "node \<in> dom (rlnk s i)" "node \<noteq> new" using chain_dom[OF c(1)] new by auto
  have ch: "chain ((rlnk s i)(new \<mapsto> ?l, node \<mapsto> new)) h (ins_key key new xs) NULL"
    unfolding ins node stop_at_def using chain_insert[of "rlnk s i" h "takeWhile P xs" "dropWhile P xs" NULL new] c new by simp
  have "runs (do { s \<leftarrow> r_set_link (int i) new ?l s; r_set_link (int i) node new s })
    (\<lambda>s'. rkept s s' \<and> (\<forall>j. j \<noteq> i \<longrightarrow> rlnk s' j = rlnk s j) \<and> chain (rlnk s' i) h (ins_key key new xs) NULL)"
  proof (rule runs_bindI[OF r_set_link_step[OF new(2), of ?l]], elim conjE)
    fix s1 assume s1: "rkept s s1" "rlnk s1 = (rlnk s)(i := (rlnk s i)(new \<mapsto> ?l))"
    have "node \<in> dom (rlnk s1 i)" using s1(2) dm by simp
    then show "runs (r_set_link (int i) node new s1) (\<lambda>s'. rkept s s' \<and> (\<forall>j. j \<noteq> i \<longrightarrow> rlnk s' j = rlnk s j) \<and>
        chain (rlnk s' i) h (ins_key key new xs) NULL)"
      by (intro runs_mono[OF r_set_link_step]) (use s1 ch in \<open>auto intro: rkept_trans\<close>)
  qed
  then show ?thesis using l by simp
qed

lemma r_insert_walk:
  assumes "chain (rlnk s n) p ys NULL" "NULL \<notin> set ys" "r_get_key new s = Some k"
  shows "r_insert_node p new (int n) s = r_insert_node (last (p # takeWhile (\<lambda>x. rkey s x \<le> k) ys)) new (int n) s"
  using assms(1,2)
proof (induction ys arbitrary: p)
  case (Cons y ys)
  have k: "r_get_key y s = Some (rkey s y)" using chain_key[OF Cons.prems(1)] by auto
  have l: "r_get_link (int n) p s = Some y" "y \<noteq> NULL" using Cons.prems by (auto simp: rlnk_def)
  show ?case
  proof (cases "rkey s y \<le> k")
    case True
    then have "r_insert_node p new (int n) s = r_insert_node y new (int n) s"
      using k l assms(3) by (subst r_insert_node.simps) simp
    then show ?thesis using Cons True by simp
  qed simp
qed simp

lemma r_insert_stop:
  assumes "r_get_link n q s = Some l" "l = NULL \<or> (r_get_key l s = Some lk \<and> k < lk)" "r_get_key new s = Some k" "r_get_height new s = Some h"
  shows "r_insert_node q new n s = do {
    s \<leftarrow> (if n < int h then do { l \<leftarrow> r_get_link n q s; s \<leftarrow> r_set_link n new l s; r_set_link n q new s } else Some s);
    if n = 0 then Some s else r_insert_node q new (n - 1) s }"
  using assms by (subst r_insert_node.simps) auto

lemma r_insert_level:
  assumes h: "0 < h" and sub: "\<forall>i. subseq (Ls (Suc i)) (Ls i)" and NL: "NULL \<notin> set (Ls 0)"
    and key: "rkey s = key" and L: "distinct (r_head s # Ls 0)" "sorted_key key (Ls 0)"
    and new: "new \<notin> set (r_head s # Ls 0)" "r_get_height new s = Some h" "\<forall>j<h. new \<in> dom (rlnk s j)"
    and c: "chain (rlnk s n) (r_head s) (Ls n) NULL"
    and p: "p = r_head s \<or> (p \<in> set (Ls n) \<and> key p \<le> key new)" and q: "q = stop_at (r_head s) (\<lambda>x. key x \<le> key new) (Ls n)"
    and rest: "\<And>s1. rkept s s1 \<Longrightarrow> \<forall>j. j \<noteq> n \<longrightarrow> rlnk s1 j = rlnk s j \<Longrightarrow> chain (rlnk s1 n) (r_head s) (ins_level key new h Ls n) NULL \<Longrightarrow>
      runs (if n = 0 then Some s1 else r_insert_node q new (int n - 1) s1) Q"
  shows "runs (r_insert_node p new (int n) s) Q"
proof -
  let ?h = "r_head s" and ?pass = "\<lambda>x. key x \<le> key new"
  have sb: "subseq (Ls n) (Ls 0)" using nested[OF sub, of 0 n] by simp
  have dist: "distinct (?h # Ls n)" and srt: "sorted_key key (Ls n)" and nw: "new \<notin> set (?h # Ls n)" and nl: "NULL \<notin> set (Ls n)"
    using subseq_distinct[OF sb] subseq_set[OF sb] subseq_sorted_key[OF sb] L new(1) NL by auto
  have nk: "r_get_key new s = Some (key new)" using r_get_key_node[of new s 0] new(3) h key by auto
  obtain ys where ys: "chain (rlnk s n) p ys NULL" "set ys \<subseteq> set (Ls n)" "last (p # takeWhile ?pass ys) = q"
    using chain_suffix[OF c srt, of ?pass p] p q by auto
  have walk: "r_insert_node p new (int n) s = r_insert_node q new (int n) s"
    using r_insert_walk[OF ys(1) _ nk] nl ys(2,3) key by auto
  let ?l = "hd (dropWhile ?pass (Ls n) @ [NULL])"
  have l: "r_get_link (int n) q s = Some ?l" using stop_at_next[OF c] q by (simp add: rlnk_def)
  have "?l = NULL \<or> (r_get_key ?l s = Some (key ?l) \<and> key new < key ?l)"
  proof (cases "dropWhile ?pass (Ls n)")
    case (Cons y zs)
    then have "y \<in> set (Ls n)" "\<not> ?pass y" by (metis list.set_intros(1) set_dropWhileD, metis Cons dropWhile_eq_Cons_conv)
    then show ?thesis using Cons chain_key[OF c, of y] key by simp
  next
    case Nil
    show ?thesis unfolding Nil by simp
  qed
  note stop = r_insert_stop[OF l this nk new(2)]
  have ins: "ins_key key new (Ls n) = takeWhile ?pass (Ls n) @ new # dropWhile ?pass (Ls n)" by (simp add: ins_key_def)
  have "runs (if int n < int h then do { l \<leftarrow> r_get_link (int n) q s; s \<leftarrow> r_set_link (int n) new l s; r_set_link (int n) q new s } else Some s)
    (\<lambda>s1. rkept s s1 \<and> (\<forall>j. j \<noteq> n \<longrightarrow> rlnk s1 j = rlnk s j) \<and> chain (rlnk s1 n) ?h (ins_level key new h Ls n) NULL)"
  proof (cases "n < h")
    case True
    then show ?thesis using r_link_level[OF c dist nw _ ins q] new(3) by (simp add: ins_level_def)
  qed (use c in \<open>simp add: ins_level_def\<close>)
  then show ?thesis unfolding walk stop by (rule runs_bindI) (use rest in auto)
qed

lemma r_insert_from_step:
  assumes h: "0 < h" and sub: "\<forall>i. subseq (Ls (Suc i)) (Ls i)" and NL: "NULL \<notin> set (Ls 0)"
    and "rkey s = key" "distinct (r_head s # Ls 0)" "sorted_key key (Ls 0)"
    and "new \<notin> set (r_head s # Ls 0)" "r_get_height new s = Some h" "\<forall>j<h. new \<in> dom (rlnk s j)"
    and "\<forall>j\<le>n. chain (rlnk s j) (r_head s) (Ls j) NULL"
    and "p = r_head s \<or> (p \<in> set (Ls n) \<and> key p \<le> key new)"
  shows "runs (r_insert_node p new (int n) s) (\<lambda>s'. rkept s s' \<and>
    (\<forall>j\<le>n. chain (rlnk s' j) (r_head s) (ins_level key new h Ls j) NULL) \<and> (\<forall>j>n. rlnk s' j = rlnk s j))"
  using assms(4-)
proof (induction n arbitrary: p s)
  case (0 p s)
  show ?case by (rule r_insert_level[OF h sub NL 0(1-6) _ 0(8) refl]) (use 0(7) in auto)
next
  case (Suc n p s)
  let ?q = "stop_at (r_head s) (\<lambda>x. key x \<le> key new) (Ls (Suc n))"
  have sb: "set (Ls (Suc n)) \<subseteq> set (Ls n)" using sub subseq_set by blast
  show ?case
  proof (rule r_insert_level[OF h sub NL Suc.prems(1-6) _ Suc.prems(8) refl])
    show "chain (rlnk s (Suc n)) (r_head s) (Ls (Suc n)) NULL" using Suc.prems(7) by blast
  next
    fix s1 assume s1: "rkept s s1" "\<forall>j. j \<noteq> Suc n \<longrightarrow> rlnk s1 j = rlnk s j" "chain (rlnk s1 (Suc n)) (r_head s) (ins_level key new h Ls (Suc n)) NULL"
    have k: "r_head s1 = r_head s" "rkey s1 = key" "\<And>p. r_get_height p s1 = r_get_height p s" using s1(1) Suc.prems(1) by (auto simp: rkept_def)
    have "\<forall>j<h. new \<in> dom (rlnk s1 j)"
    proof (intro allI impI)
      fix j assume "j < h"
      show "new \<in> dom (rlnk s1 j)"
      proof (cases "j = Suc n")
        case True
        then have "new \<in> set (ins_level key new h Ls (Suc n))" using \<open>j < h\<close> by (simp add: ins_level_def)
        then show ?thesis using chain_dom[OF s1(3)] True by auto
      qed (use s1(2) Suc.prems(6) \<open>j < h\<close> in simp)
    qed
    then have "runs (r_insert_node ?q new (int n) s1) (\<lambda>s'. rkept s1 s' \<and>
      (\<forall>j\<le>n. chain (rlnk s' j) (r_head s1) (ins_level key new h Ls j) NULL) \<and> (\<forall>j>n. rlnk s' j = rlnk s1 j))"
      using Suc.prems s1(2) stop_at_cases[of "r_head s" "\<lambda>x. key x \<le> key new" "Ls (Suc n)"] sb
      by (intro Suc.IH) (auto simp: k)
    then show "runs (if Suc n = 0 then Some s1 else r_insert_node ?q new (int (Suc n) - 1) s1) (\<lambda>s'. rkept s s' \<and>
      (\<forall>j\<le>Suc n. chain (rlnk s' j) (r_head s) (ins_level key new h Ls j) NULL) \<and> (\<forall>j>Suc n. rlnk s' j = rlnk s j))"
      by (simp, elim runs_mono) (use s1 in \<open>auto simp: k le_Suc_eq intro: rkept_trans\<close>)
  qed
qed

definition r_fresh :: "rlist \<Rightarrow> ptr \<Rightarrow> bool" where
  "r_fresh s p \<longleftrightarrow> p \<noteq> NULL \<and> r_nodes s p = None"

definition r_inserted :: "(nat \<Rightarrow> ptr list) \<Rightarrow> ptr \<Rightarrow> int \<Rightarrow> rlist \<Rightarrow> rlist \<Rightarrow> bool" where
  "r_inserted Ls mem k s s' \<longleftrightarrow> 0 < r_level s' \<and> r_max s' = r_max s \<and> r_size s' = r_size s + 1 \<and> rkey s' = (rkey s)(mem := k) \<and>
     (\<exists>h>0. r_rep s' (ins_level (rkey s') mem h Ls))"

lemma r_insert_step:
  assumes rep: "r_rep s Ls" and mx: "r_max s \<le> 30" and fr: "r_fresh s mem"
  shows "runs (r_insert t mem True k s) (r_inserted Ls mem k s)"
proof -
  have r: "r_head s \<noteq> NULL" "0 < r_max s" "r_level s \<le> r_max s" "\<forall>i. subseq (Ls (Suc i)) (Ls i)"
    "distinct (r_head s # Ls 0)" "sorted_key (rkey s) (Ls 0)" "dom (r_nodes s) = set (r_head s # Ls 0)"
    "\<forall>i. r_level s \<le> i \<longrightarrow> Ls i = []" "\<forall>i < r_max s. chain (rlnk s i) (r_head s) (Ls i) NULL"
    "NULL \<notin> set (Ls 0)" "rkey s (r_head s) = -1"
    using rep unfolding r_rep_def by blast+
  obtain h where h: "rand_level_from (r_max s) 1 2 t = Some h" "1 \<le> h" "h \<le> r_max s"
    using rand_level_from_step[of 1 "r_max s" 2 t] r(2) mx by auto
  let ?lv = "max h (r_level s)"
  let ?s = "s\<lparr>r_level := ?lv, r_nodes := (r_nodes s)(mem \<mapsto> \<lparr>r_link = replicate h NULL, r_height = h, r_key = k\<rparr>)\<rparr>"
  have "mem \<notin> dom (r_nodes s)" using fr by (auto simp: r_fresh_def)
  then have new: "mem \<noteq> NULL" "r_nodes s mem = None" "mem \<notin> set (r_head s # Ls 0)" unfolding r(7)[symmetric] using fr by (auto simp: r_fresh_def)
  have lk: "rlnk ?s j = (rlnk s j)(mem := if j < h then Some NULL else None)" for j
    using new(1,2) by (auto simp: rlnk_def r_get_link_def rd_def fun_eq_iff)
  have ky: "rkey ?s = (rkey s)(mem := k)" by (auto simp: rkey_def fun_eq_iff)
  have nin: "mem \<notin> set (r_head s # Ls i)" for i using new(3) nested[OF r(4), of 0 i] subseq_set by fastforce
  have ch: "chain (rlnk ?s i) (r_head s) (Ls i) NULL" if "i < r_max s" for i
    unfolding lk using r(9) that nin by (subst chain_upd) auto
  have srt: "sorted_key (rkey ?s) (Ls i)" for i
  proof -
    have e: "map (rkey ?s) (Ls i) = map (rkey s) (Ls i)" unfolding ky using nin[of i] by auto
    show ?thesis unfolding e using subseq_sorted_key[OF _ r(6)] nested[OF r(4), of 0 i] by simp
  qed
  let ?Ls = "ins_level (rkey ?s) mem h Ls"
  have "runs (r_insert_node (r_head s) mem (int (?lv - 1)) ?s) (\<lambda>s'. rkept ?s s' \<and>
    (\<forall>j\<le> ?lv - 1. chain (rlnk s' j) (r_head ?s) (?Ls j) NULL) \<and> (\<forall>j> ?lv - 1. rlnk s' j = rlnk ?s j))"
    by (rule r_insert_from_step[OF _ r(4,10) refl _ srt])
      (use h r(3,5) new lk ch in \<open>auto simp: r_get_height_def rd_def\<close>)
  moreover have "int (?lv - 1) = int ?lv - 1" using h(2) by simp
  ultimately have step: "runs (r_insert_node (r_head s) mem (int ?lv - 1) ?s) (\<lambda>s'. rkept ?s s' \<and>
    (\<forall>j< ?lv. chain (rlnk s' j) (r_head s) (?Ls j) NULL) \<and> (\<forall>j\<ge> ?lv. rlnk s' j = rlnk ?s j))"
    using h(2) by (auto elim!: runs_mono)
  have ok: "r_inserted Ls mem k s (s1\<lparr>r_size := r_size s1 + 1\<rparr>)"
    if s1: "rkept ?s s1" "\<forall>j< ?lv. chain (rlnk s1 j) (r_head s) (?Ls j) NULL" "\<forall>j\<ge> ?lv. rlnk s1 j = rlnk ?s j" for s1
  proof -
    let ?s1 = "s1\<lparr>r_size := r_size s1 + 1\<rparr>"
    have k: "r_head s1 = r_head s" "r_max s1 = r_max s" "r_level s1 = ?lv" "r_size s1 = r_size s" "rkey s1 = rkey ?s"
      "dom (r_nodes s1) = insert mem (dom (r_nodes s))" using s1(1) by (auto simp: rkept_def)
    have e: "rlnk ?s1 = rlnk s1" "rkey ?s1 = rkey s1" by (auto simp: rlnk_def r_get_link_def rkey_def)
    have L0: "?Ls 0 = ins_key (rkey ?s) mem (Ls 0)" using h(2) by (simp add: ins_level_def)
    have hi: "chain (rlnk s1 i) (r_head s) (?Ls i) NULL" if "i < r_max s" for i
    proof (cases "i < ?lv")
      case False
      then have "?Ls i = Ls i" by (auto simp: ins_level_def)
      moreover have "rlnk s1 i = rlnk ?s i" using s1(3) False by (meson not_less)
      ultimately show ?thesis using ch[OF that] by simp
    qed (use s1(2) in simp)
    have "r_rep ?s1 ?Ls" unfolding r_rep_def e k(5)
    proof (intro conjI)
      show "\<forall>i. subseq (?Ls (Suc i)) (?Ls i)" using subseq_ins_level[OF r(4) srt] by blast
      show "distinct (r_head ?s1 # ?Ls 0)" unfolding L0 using r(5) new(3) by (auto simp: k distinct_ins_key)
      show "sorted_key (rkey ?s) (?Ls 0)" unfolding L0 by (rule sorted_ins_key[OF srt])
      show "NULL \<notin> set (?Ls 0)" unfolding L0 using r(10) new(1) by simp
      show "\<forall>i. r_level ?s1 \<le> i \<longrightarrow> ?Ls i = []" using r(8) by (auto simp: k ins_level_def)
      show "\<forall>i < r_max ?s1. chain (rlnk s1 i) (r_head ?s1) (?Ls i) NULL" using hi by (simp add: k)
      show "dom (r_nodes ?s1) = set (r_head ?s1 # ?Ls 0)" unfolding L0 using k(6) r(7) by (auto simp: k(1))
      show "rkey ?s (r_head ?s1) = -1" unfolding ky using r(11) new(3) by (auto simp: k(1))
    qed (use r(1-3) h(3) in \<open>simp_all add: k\<close>)
    then have "\<exists>h>0. r_rep ?s1 (ins_level (rkey ?s1) mem h Ls)" unfolding e k(5) using h(2) by (intro exI[of _ h]) simp
    then show ?thesis using k h(2) ky e by (simp add: r_inserted_def)
  qed
  have "r_insert t mem True k s = do { s \<leftarrow> r_insert_node (r_head s) mem (int ?lv - 1) ?s; Some (s\<lparr>r_size := r_size s + 1\<rparr>) }"
    using h(1) new(1) by (auto simp: r_insert_def r_rand_level_def r_new_node_def max_def Let_def)
  then show ?thesis using runs_bindI[OF step, of "\<lambda>s. Some (s\<lparr>r_size := r_size s + 1\<rparr>)"] ok by auto
qed

section \<open>Deletion\<close>

lemma r_delete_walk:
  assumes "chain (rlnk s n) p ys NULL" "NULL \<notin> set ys"
  shows "r_delete_node p k (int n) s = r_delete_node (last (p # takeWhile (\<lambda>x. rkey s x < k) ys)) k (int n) s"
  using assms
proof (induction ys arbitrary: p)
  case (Cons y ys)
  have k: "r_get_key y s = Some (rkey s y)" using chain_key[OF Cons.prems(1)] by auto
  have l: "r_get_link (int n) p s = Some y" "y \<noteq> NULL" using Cons.prems by (auto simp: rlnk_def)
  show ?case
  proof (cases "rkey s y < k")
    case True
    then have "r_delete_node p k (int n) s = r_delete_node y k (int n) s" using k l by (subst r_delete_node.simps) simp
    then show ?thesis using Cons True by simp
  qed simp
qed simp

text \<open>\<open>g\<close> is the node that is freed, if there is one; the links from level \<open>i\<close> up of all others stay.\<close>

definition r_dropped :: "ptr option \<Rightarrow> nat \<Rightarrow> rlist \<Rightarrow> rlist \<Rightarrow> bool" where
  "r_dropped g i s s' \<longleftrightarrow> r_head s' = r_head s \<and> r_max s' = r_max s \<and> r_level s' = r_level s \<and> r_size s' = r_size s \<and>
     dom (r_nodes s') = dom (r_nodes s) - set_option g \<and>
     (\<forall>q. q \<notin> set_option g \<longrightarrow> rkey s' q = rkey s q \<and> (\<forall>j\<ge>i. rlnk s' j q = rlnk s j q))"

lemma r_unlink_level:
  assumes c: "chain (rlnk s i) h xs NULL" "distinct (h # xs)" "sorted_key key xs"
    and y: "dropWhile (\<lambda>p. key p < k) xs = y # ys" "key y = k" and node: "node = stop_at h (\<lambda>p. key p < k) xs"
  shows "runs (do { l \<leftarrow> r_get_link (int i) y s; r_set_link (int i) node l s })
    (\<lambda>s'. rkept s s' \<and> (\<forall>j. j \<noteq> i \<longrightarrow> rlnk s' j = rlnk s j) \<and> y \<in> dom (rlnk s' i) \<and> chain (rlnk s' i) h (del_key key k xs) NULL)"
proof -
  let ?us = "takeWhile (\<lambda>p. key p < k) xs" and ?l = "hd (ys @ [NULL])"
  have xs: "xs = ?us @ y # ys" using y(1) by (metis takeWhile_dropWhile_id)
  have del: "del_key key k xs = ?us @ ys" using del_key_split[OF c(3), of k] y by simp
  have d: "distinct (h # ?us @ y # ys)" and ch: "chain (rlnk s i) h (?us @ y # ys) NULL" using c(1,2) xs by simp_all
  have l: "r_get_link (int i) y s = Some ?l"
    using chain_last[of "rlnk s i" h "?us @ [y]" ys NULL] ch by (simp add: rlnk_def)
  have nd: "node = last (h # ?us)" using node by (simp add: stop_at_def)
  have "node \<in> set (h # ?us)" unfolding nd by (rule last_in_set) simp
  then have dm: "node \<in> dom (rlnk s i)" "y \<in> dom (rlnk s i)" using chain_dom[OF ch] by auto
  have "chain ((rlnk s i)(node \<mapsto> ?l)) h (del_key key k xs) NULL" unfolding nd del by (rule chain_remove[OF ch d])
  then have "runs (r_set_link (int i) node ?l s)
    (\<lambda>s'. rkept s s' \<and> (\<forall>j. j \<noteq> i \<longrightarrow> rlnk s' j = rlnk s j) \<and> y \<in> dom (rlnk s' i) \<and> chain (rlnk s' i) h (del_key key k xs) NULL)"
    by (intro runs_mono[OF r_set_link_step[OF dm(1)]]) (use dm(2) in auto)
  then show ?thesis using l by simp
qed

lemma r_destroy_step:
  assumes "p \<in> dom (rlnk s 0)"
  shows "runs (r_destroy_node p s) (r_dropped (Some p) 0 s)"
proof -
  obtain n where "p \<noteq> NULL" "r_nodes s p = Some n" using assms rlnk_SomeD[of s 0 p] by auto
  then show ?thesis by (auto simp: r_destroy_node_def rd_def r_dropped_def rkey_def rlnk_def r_get_link_def)
qed

text \<open>One level of the deletion, for the bottom level and for the others.\<close>

lemma r_delete_level:
  assumes sub: "\<forall>i. subseq (Ls (Suc i)) (Ls i)" and NL: "NULL \<notin> set (Ls 0)"
    and key: "rkey s = key" and L: "distinct (r_head s # Ls 0)" "sorted_key key (Ls 0)"
    and c: "chain (rlnk s n) (r_head s) (Ls n) NULL"
    and p: "p = r_head s \<or> (p \<in> set (Ls n) \<and> key p < k)" and q: "q = stop_at (r_head s) (\<lambda>x. key x < k) (Ls n)"
    and rest: "\<And>s1. rkept s s1 \<Longrightarrow> \<forall>j. j \<noteq> n \<longrightarrow> rlnk s1 j = rlnk s j \<Longrightarrow> chain (rlnk s1 n) (r_head s) (del_key key k (Ls n)) NULL \<Longrightarrow>
      0 < n \<Longrightarrow> runs (r_delete_node q k (int n - 1) s1) Q"
    and bottom: "\<And>s1. n = 0 \<Longrightarrow> r_dropped (find (\<lambda>x. key x = k) (Ls 0)) 1 s s1 \<Longrightarrow>
      chain (rlnk s1 0) (r_head s) (del_key key k (Ls 0)) NULL \<Longrightarrow> Q s1"
  shows "runs (r_delete_node p k (int n) s) Q"
proof -
  let ?h = "r_head s" and ?pass = "\<lambda>x. key x < k"
  have sb: "subseq (Ls n) (Ls 0)" using nested[OF sub, of 0 n] by simp
  have dist: "distinct (?h # Ls n)" and srt: "sorted_key key (Ls n)" and nl: "NULL \<notin> set (Ls n)"
    using subseq_distinct[OF sb] subseq_set[OF sb] subseq_sorted_key[OF sb] L NL by auto
  obtain ys where ys: "chain (rlnk s n) p ys NULL" "set ys \<subseteq> set (Ls n)" "last (p # takeWhile ?pass ys) = q"
    using chain_suffix[OF c srt, of ?pass p] p q by auto
  have walk: "r_delete_node p k (int n) s = r_delete_node q k (int n) s" using r_delete_walk[OF ys(1), of k] nl ys(2,3) key by auto
  let ?l = "hd (dropWhile ?pass (Ls n) @ [NULL])"
  have l: "r_get_link (int n) q s = Some ?l" using stop_at_next[OF c] q by (simp add: rlnk_def)
  have miss: "runs (if n = 0 then Some s else r_delete_node q k (int n - 1) s) Q"
    if "del_key key k (Ls n) = Ls n \<and> find (\<lambda>x. key x = k) (Ls n) = None"
    using that rest[of s] bottom[of s] c by (cases "n = 0") (auto simp: r_dropped_def)
  show ?thesis
  proof (cases "dropWhile ?pass (Ls n)")
    case Nil
    have "r_delete_node q k (int n) s = (if n = 0 then Some s else r_delete_node q k (int n - 1) s)"
      using l unfolding Nil by (subst r_delete_node.simps) simp
    then show ?thesis unfolding walk using miss key_split(1)[OF srt Nil] by simp
  next
    case (Cons y zs)
    have y: "y \<in> set (Ls n)" "\<not> ?pass y" using Cons by (metis list.set_intros(1) set_dropWhileD) (metis Cons dropWhile_eq_Cons_conv)
    have yk: "r_get_key y s = Some (key y)" "y \<noteq> NULL" "r_get_link (int n) q s = Some y" using chain_key[OF c, of y] y(1) nl key l Cons by auto
    show ?thesis
    proof (cases "key y = k")
      case False
      then have "r_delete_node q k (int n) s = (if n = 0 then Some s else r_delete_node q k (int n - 1) s)"
        using yk y(2) by (subst r_delete_node.simps) auto
      then show ?thesis unfolding walk using miss key_split(2)[OF srt Cons False] by simp
    next
      case True
      then have e: "r_delete_node q k (int n) s = do { s \<leftarrow> do { l \<leftarrow> r_get_link (int n) y s; r_set_link (int n) q l s };
          if int n = 0 then r_destroy_node y s else r_delete_node q k (int n - 1) s }"
        using yk by (subst r_delete_node.simps) (simp add: Option.bind_assoc)
      show ?thesis unfolding walk e
      proof (rule runs_bindI[OF r_unlink_level[OF c dist srt Cons True q]], elim conjE)
        fix s1 assume s1: "rkept s s1" "\<forall>j. j \<noteq> n \<longrightarrow> rlnk s1 j = rlnk s j" "y \<in> dom (rlnk s1 n)" "chain (rlnk s1 n) ?h (del_key key k (Ls n)) NULL"
        show "runs (if int n = 0 then r_destroy_node y s1 else r_delete_node q k (int n - 1) s1) Q"
        proof (cases "n = 0")
          case n0: True
          have f: "find (\<lambda>x. key x = k) (Ls 0) = Some y" using key_split(3)[OF srt Cons True] n0 by simp
          have yn: "y \<notin> set (?h # del_key key k (Ls 0))" using dom_del_key[OF L(1), of key k] f by auto
          have "runs (r_destroy_node y s1) (r_dropped (Some y) 0 s1)" using r_destroy_step s1(3) n0 by simp
          then have "runs (r_destroy_node y s1) Q"
          proof (rule runs_mono)
            fix s2 assume s2: "r_dropped (Some y) 0 s1 s2"
            have "chain (rlnk s2 0) ?h (del_key key k (Ls 0)) NULL = chain (rlnk s1 0) ?h (del_key key k (Ls 0)) NULL"
              by (rule chain_cong) (use s2 yn in \<open>auto simp: r_dropped_def\<close>)
            then show "Q s2" using bottom[OF n0, of s2] s1 s2 n0 f by (simp add: r_dropped_def rkept_def)
          qed
          then show ?thesis using n0 by simp
        qed (use rest s1 in simp)
      qed
    qed
  qed
qed

lemma r_delete_from_step:
  assumes sub: "\<forall>i. subseq (Ls (Suc i)) (Ls i)" and NL: "NULL \<notin> set (Ls 0)"
    and "rkey s = key" "distinct (r_head s # Ls 0)" "sorted_key key (Ls 0)"
    and "\<forall>j\<le>n. chain (rlnk s j) (r_head s) (Ls j) NULL" "p = r_head s \<or> (p \<in> set (Ls n) \<and> key p < k)"
  shows "runs (r_delete_node p k (int n) s) (\<lambda>s'. r_dropped (find (\<lambda>x. key x = k) (Ls 0)) (Suc n) s s' \<and>
    (\<forall>j\<le>n. chain (rlnk s' j) (r_head s) (del_key key k (Ls j)) NULL))"
  using assms(3-)
proof (induction n arbitrary: p s)
  case (0 p s)
  show ?case by (rule r_delete_level[OF sub NL 0(1-3) _ 0(5) refl]) (use 0(4) in auto)
next
  case (Suc n p s)
  let ?q = "stop_at (r_head s) (\<lambda>x. key x < k) (Ls (Suc n))" and ?g = "find (\<lambda>x. key x = k) (Ls 0)"
  have sb: "set (Ls (Suc n)) \<subseteq> set (Ls n)" "subseq (Ls (Suc n)) (Ls 0)" using sub subseq_set nested[OF sub, of 0 "Suc n"] by auto
  show ?case
  proof (rule r_delete_level[OF sub NL Suc.prems(1-3) _ Suc.prems(5) refl])
    show "chain (rlnk s (Suc n)) (r_head s) (Ls (Suc n)) NULL" using Suc.prems(4) by blast
  next
    fix s1 assume s1: "rkept s s1" "\<forall>j. j \<noteq> Suc n \<longrightarrow> rlnk s1 j = rlnk s j" "chain (rlnk s1 (Suc n)) (r_head s) (del_key key k (Ls (Suc n))) NULL"
    have k: "r_head s1 = r_head s" "rkey s1 = key" using s1(1) Suc.prems(1) by (auto simp: rkept_def)
    have IH: "runs (r_delete_node ?q k (int n) s1) (\<lambda>s'. r_dropped ?g (Suc n) s1 s' \<and>
      (\<forall>j\<le>n. chain (rlnk s' j) (r_head s1) (del_key key k (Ls j)) NULL))"
      using Suc.prems s1(2) stop_at_cases[of "r_head s" "\<lambda>x. key x < k" "Ls (Suc n)"] sb(1) by (intro Suc.IH) (auto simp: k)
    have ch: "chain (rlnk s' (Suc n)) (r_head s) (del_key key k (Ls (Suc n))) NULL" if s': "r_dropped ?g (Suc n) s1 s'" for s'
    proof -
      have "set_option ?g \<inter> set (r_head s # del_key key k (Ls (Suc n))) = {}"
        using del_key_gone[OF sb(2), of key k] Suc.prems(2) find_in[of "\<lambda>p. key p = k" "Ls 0"] by auto
      then have "chain (rlnk s' (Suc n)) (r_head s) (del_key key k (Ls (Suc n))) NULL = chain (rlnk s1 (Suc n)) (r_head s) (del_key key k (Ls (Suc n))) NULL"
        using s' by (intro chain_cong) (auto simp: r_dropped_def)
      then show ?thesis using s1(3) by simp
    qed
    have "r_dropped ?g (Suc (Suc n)) s s'" if "r_dropped ?g (Suc n) s1 s'" for s' using that s1(1,2) by (auto simp: r_dropped_def rkept_def)
    then have "runs (r_delete_node ?q k (int n) s1) (\<lambda>s'. r_dropped ?g (Suc (Suc n)) s s' \<and>
      (\<forall>j\<le>Suc n. chain (rlnk s' j) (r_head s) (del_key key k (Ls j)) NULL))"
      by (intro runs_mono[OF IH]) (use ch in \<open>auto simp: k le_Suc_eq\<close>)
    then show "runs (r_delete_node ?q k (int (Suc n) - 1) s1) (\<lambda>s'. r_dropped ?g (Suc (Suc n)) s s' \<and>
      (\<forall>j\<le>Suc n. chain (rlnk s' j) (r_head s) (del_key key k (Ls j)) NULL))" by simp
  qed simp
qed

definition r_removed :: "(nat \<Rightarrow> ptr list) \<Rightarrow> int \<Rightarrow> rlist \<Rightarrow> rlist \<Rightarrow> bool" where
  "r_removed Ls k s s' \<longleftrightarrow> r_rep s' (\<lambda>i. del_key (rkey s) k (Ls i)) \<and> r_max s' = r_max s \<and> r_level s' = r_level s \<and> r_size s' = r_size s - 1 \<and>
     (\<forall>p\<in>set (del_key (rkey s) k (Ls 0)). rkey s' p = rkey s p)"

lemma r_delete_step:
  assumes rep: "r_rep s Ls" and lv: "0 < r_level s"
  shows "runs (r_delete k s) (r_removed Ls k s)"
proof -
  let ?h = "r_head s" and ?Ls = "\<lambda>i. del_key (rkey s) k (Ls i)" and ?g = "find (\<lambda>x. rkey s x = k) (Ls 0)"
  have r: "?h \<noteq> NULL" "0 < r_max s" "r_level s \<le> r_max s" "\<forall>i. subseq (Ls (Suc i)) (Ls i)"
    "distinct (?h # Ls 0)" "sorted_key (rkey s) (Ls 0)" "dom (r_nodes s) = set (?h # Ls 0)"
    "\<forall>i. r_level s \<le> i \<longrightarrow> Ls i = []" "\<forall>i < r_max s. chain (rlnk s i) ?h (Ls i) NULL"
    "NULL \<notin> set (Ls 0)" "rkey s ?h = -1"
    using rep unfolding r_rep_def by blast+
  have "runs (r_delete_node ?h k (int (r_level s - 1)) s) (\<lambda>s'. r_dropped ?g (Suc (r_level s - 1)) s s' \<and>
    (\<forall>j\<le>r_level s - 1. chain (rlnk s' j) ?h (?Ls j) NULL))"
    by (rule r_delete_from_step[OF r(4,10) refl r(5,6)]) (use r(3,9) lv in auto)
  moreover have "int (r_level s - 1) = int (r_level s) - 1" using lv by simp
  ultimately have step: "runs (r_delete_node ?h k (int (r_level s) - 1) s) (\<lambda>s'. r_dropped ?g (r_level s) s s' \<and>
    (\<forall>j < r_level s. chain (rlnk s' j) ?h (?Ls j) NULL))"
    using lv by (auto elim!: runs_mono)
  have ok: "r_removed Ls k s (s1\<lparr>r_size := r_size s1 - 1\<rparr>)"
    if d: "r_dropped ?g (r_level s) s s1" "\<forall>j < r_level s. chain (rlnk s1 j) ?h (?Ls j) NULL" for s1
  proof -
    let ?s1 = "s1\<lparr>r_size := r_size s1 - 1\<rparr>"
    have e: "rlnk ?s1 = rlnk s1" "rkey ?s1 = rkey s1" by (auto simp: rlnk_def r_get_link_def rkey_def)
    have g: "set_option ?g \<inter> set (?h # ?Ls 0) = {}" using dom_del_key[OF r(5), of "rkey s" k] by blast
    have ky: "\<forall>p\<in>set (?h # ?Ls 0). rkey s1 p = rkey s p" using d(1) g by (auto simp: r_dropped_def)
    have mk: "map (rkey s1) (?Ls 0) = map (rkey s) (?Ls 0)" using ky by auto
    have hd': "r_head ?s1 = ?h" "r_max ?s1 = r_max s" "r_level ?s1 = r_level s" using d(1) by (simp_all add: r_dropped_def)
    have hi: "chain (rlnk s1 i) ?h (?Ls i) NULL" if "i < r_max s" for i
    proof (cases "i < r_level s")
      case False
      then have "Ls i = []" using r(8) by simp
      moreover have "rlnk s1 i ?h = rlnk s i ?h" using d(1) False g by (auto simp: r_dropped_def)
      moreover have "chain (rlnk s i) ?h (Ls i) NULL" using r(9) that by blast
      ultimately show ?thesis by simp
    qed (use d(2) in simp)
    have "r_rep ?s1 ?Ls" unfolding r_rep_def hd' e
    proof (intro conjI)
      show "\<forall>i. subseq (?Ls (Suc i)) (?Ls i)" using r(4) subseq_del_key by blast
      show "distinct (?h # ?Ls 0)" using r(5) distinct_del_key set_del_key_subset[of "rkey s" k "Ls 0"] by auto
      show "NULL \<notin> set (?Ls 0)" using r(10) set_del_key_subset[of "rkey s" k "Ls 0"] by auto
      show "sorted_key (rkey s1) (?Ls 0)" unfolding mk by (rule sorted_del_key[OF r(6)])
      show "dom (r_nodes ?s1) = set (?h # ?Ls 0)" using d(1) r(7) dom_del_key[OF r(5), of "rkey s" k] by (simp add: r_dropped_def)
      show "\<forall>i < r_max s. chain (rlnk s1 i) ?h (?Ls i) NULL" using hi by blast
      show "rkey s1 ?h = -1" using ky r(11) by simp
    qed (use r(1-3,8) in auto)
    then show ?thesis using ky d(1) e by (simp add: r_removed_def r_dropped_def)
  qed
  show ?thesis unfolding r_delete_def by (rule runs_bindI[OF step]) (use ok in auto)
qed

section \<open>The abstraction\<close>

definition r_elems :: "rlist \<Rightarrow> int list \<Rightarrow> bool" where
  "r_elems s xs \<longleftrightarrow> r_max s \<le> 30 \<and> (\<exists>Ls. r_rep s Ls \<and> xs = map (rkey s) (Ls 0))"

lemma r_elems_insert:
  assumes "r_elems s xs" "r_fresh s mem"
  shows "runs (r_insert t mem True k s) (\<lambda>s'. r_elems s' (ins_key (\<lambda>x. x) k xs) \<and> 0 < r_level s' \<and> r_size s' = r_size s + 1)"
proof -
  obtain Ls where Ls: "r_rep s Ls" "xs = map (rkey s) (Ls 0)" "r_max s \<le> 30" using assms(1) by (auto simp: r_elems_def)
  have "mem \<notin> dom (r_nodes s)" using assms(2) by (auto simp: r_fresh_def)
  then have mem: "mem \<notin> set (Ls 0)" using Ls(1) by (simp add: r_rep_def)
  have "r_elems s' (ins_key (\<lambda>x. x) k xs) \<and> 0 < r_level s' \<and> r_size s' = r_size s + 1" if s': "r_inserted Ls mem k s s'" for s'
  proof -
    obtain h where h: "0 < h" "r_rep s' (ins_level (rkey s') mem h Ls)" "rkey s' = (rkey s)(mem := k)" using s' by (auto simp: r_inserted_def)
    have "map (rkey s') (ins_key (rkey s') mem (Ls 0)) = ins_key (\<lambda>x. x) (rkey s' mem) (map (rkey s') (Ls 0))"
      using map_ins_key[of "rkey s'" "\<lambda>x. x" mem "Ls 0"] by simp
    moreover have "map (rkey s') (Ls 0) = xs" "rkey s' mem = k" using h(3) Ls(2) mem by auto
    ultimately have "map (rkey s') (ins_level (rkey s') mem h Ls 0) = ins_key (\<lambda>x. x) k xs" using h(1) by (simp add: ins_level_def)
    then show ?thesis using s' h(2) Ls(3) by (auto simp: r_elems_def r_inserted_def)
  qed
  then show ?thesis by (rule runs_mono[OF r_insert_step[OF Ls(1,3) assms(2)]])
qed

lemma r_elems_delete:
  assumes "r_elems s xs" "0 < r_level s"
  shows "runs (r_delete k s) (\<lambda>s'. r_elems s' (del_key (\<lambda>x. x) k xs) \<and> 0 < r_level s' \<and> r_size s' = r_size s - 1)"
proof -
  obtain Ls where Ls: "r_rep s Ls" "xs = map (rkey s) (Ls 0)" "r_max s \<le> 30" using assms(1) by (auto simp: r_elems_def)
  have "r_elems s' (del_key (\<lambda>x. x) k xs)" if s': "r_removed Ls k s s'" for s'
  proof -
    have "map (rkey s') (del_key (rkey s) k (Ls 0)) = map (rkey s) (del_key (rkey s) k (Ls 0))" using s' by (auto simp: r_removed_def)
    also have "\<dots> = del_key (\<lambda>x. x) k xs" unfolding Ls(2) using map_del_key[of "rkey s" "\<lambda>x. x" k "Ls 0"] by simp
    finally show ?thesis using s' Ls(3) by (auto simp: r_removed_def r_elems_def)
  qed
  then show ?thesis using assms(2) by (intro runs_mono[OF r_delete_step[OF Ls(1) assms(2)]]) (auto simp: r_removed_def)
qed

lemma r_elems_search:
  assumes "r_elems s xs" "0 < r_level s" "k \<noteq> -1"
  shows "runs (r_search k s c) (\<lambda>(p, c'). if p = NULL then k \<notin> set xs else k \<in> set xs \<and> r_get_key p s = Some k)"
proof -
  obtain Ls where Ls: "r_rep s Ls" "xs = map (rkey s) (Ls 0)" using assms(1) by (auto simp: r_elems_def)
  have r: "\<forall>i. subseq (Ls (Suc i)) (Ls i)" "sorted_key (rkey s) (Ls 0)" "\<forall>i < r_max s. chain (rlnk s i) (r_head s) (Ls i) NULL"
    "NULL \<notin> set (Ls 0)" "rkey s (r_head s) = -1" "r_level s \<le> r_max s" using Ls(1) unfolding r_rep_def by blast+
  have "runs (r_search_node (r_head s) k (int (r_level s - 1)) s c) (r_found s (Ls 0) k)"
    by (rule r_search_step[OF r(1) _ r(4,2)]) (use r assms(2,3) in auto)
  moreover have "int (r_level s - 1) = int (r_level s) - 1" using assms(2) by simp
  ultimately have "runs (r_search k s c) (r_found s (Ls 0) k)" by (simp add: r_search_def)
  moreover have "chain (rlnk s 0) (r_head s) (Ls 0) NULL" using r(3,6) assms(2) by simp
  ultimately show ?thesis using chain_key[of s 0 "r_head s" "Ls 0" NULL]
    by (elim runs_mono) (auto simp: r_found_def Ls(2) split: if_splits)
qed

definition r_insert_op :: "int \<times> ptr \<Rightarrow> int \<Rightarrow> rlist \<Rightarrow> rlist option" where
  "r_insert_op e k s = r_insert (fst e) (snd e) True k s"

definition r_member_op :: "int \<Rightarrow> rlist \<Rightarrow> bool option" where
  "r_member_op k s = do { (p, c) \<leftarrow> r_search k s 0; Some (p \<noteq> NULL) }"

interpretation rsk: ordered_bag r_elems "\<lambda>x. x" "\<lambda>k. k" r_insert_op r_delete r_member_op
  "\<lambda>e k s. r_fresh s (snd e)" "\<lambda>k. k \<noteq> -1" "\<lambda>s. 0 < r_level s"
proof
  fix s xs assume a: "r_elems s xs"
  then show "sorted_key (\<lambda>x. x) xs" by (auto simp: r_elems_def r_rep_def)
  show "runs (r_insert_op e k s) (\<lambda>s'. r_elems s' (ins_key (\<lambda>x. x) k xs) \<and> 0 < r_level s')" if "r_fresh s (snd e)" for e :: "int \<times> ptr" and k
    unfolding r_insert_op_def by (rule runs_mono[OF r_elems_insert[OF a that]]) auto
  show "runs (r_delete k s) (\<lambda>s'. r_elems s' (del_key (\<lambda>x. x) k xs) \<and> 0 < r_level s')" if "0 < r_level s" for k
    by (rule runs_mono[OF r_elems_delete[OF a that]]) auto
  show "r_member_op k s = Some (k \<in> (\<lambda>x. x) ` set xs)" if "k \<noteq> -1" "0 < r_level s" for k
    using r_elems_search[OF a that(2,1), of 0] by (auto simp: r_member_op_def runs_def split: if_splits)
qed

section \<open>Creation\<close>

definition r_empty :: "ptr \<Rightarrow> nat \<Rightarrow> rlist" where
  "r_empty p m = \<lparr>r_nodes = [p \<mapsto> \<lparr>r_link = replicate m NULL, r_height = m, r_key = -1\<rparr>], r_head = p, r_max = m, r_level = 0, r_size = 0\<rparr>"

lemma r_init_step: "mem \<noteq> NULL \<Longrightarrow> r_init True mem True mx = Some (r_empty mem mx)"
  by (simp add: r_init_def r_new_node_def r_empty_def Let_def)

lemma r_empty_elems:
  assumes "p \<noteq> NULL" "0 < m" "m \<le> 30"
  shows "r_elems (r_empty p m) []"
proof -
  have "r_rep (r_empty p m) (\<lambda>_. [])" using assms by (auto simp: r_rep_def r_empty_def rlnk_def r_get_link_def rd_def rkey_def)
  then show ?thesis using assms(3) by (auto simp: r_elems_def r_empty_def)
qed

section \<open>Properties\<close>



text \<open>
  A search directly after an insertion finds the new key and every older one and nothing else, and
  deleting a key that was not there before its insertion restores the list.
\<close>

theorem recursive_list_insert_then:
  assumes "r_elems s xs" "r_fresh s mem" "k \<noteq> -1" "j \<noteq> -1" "k \<notin> set xs"
  shows "runs (do { s \<leftarrow> r_insert_op (t, mem) k s; r_member_op j s }) (\<lambda>b. b \<longleftrightarrow> j = k \<or> j \<in> set xs) \<and>
    runs (do { s \<leftarrow> r_insert_op (t, mem) k s; r_delete k s }) (\<lambda>s'. r_elems s' xs)"
  using rsk.insert_then_member[where s = s and xs = xs and e = "(t, mem)" and x = k and k = j] rsk.insert_then_delete[of s xs "(t, mem)" k k] assms by simp

theorem recursive_list_insert_then_witness:
  "runs (do { s \<leftarrow> r_insert_op (5, 16) 42 (r_empty 8 4); r_member_op 42 s }) (\<lambda>b. b) \<and>
   runs (do { s \<leftarrow> r_insert_op (5, 16) 42 (r_empty 8 4); r_delete 42 s }) (\<lambda>s'. r_elems s' [])"
proof -
  have f: "r_fresh (r_empty 8 4) 16" by (simp add: r_fresh_def r_empty_def)
  show ?thesis using recursive_list_insert_then[OF r_empty_elems[of 8 4] f, of 42 42 5] by simp
qed

text \<open>
  On a list that has never had an element \<^verbatim>\<open>level\<close> is 0, and both search and deletion read \<^verbatim>\<open>link[-1]\<close>.
\<close>

lemma r_empty_undefined: "k \<noteq> -1 \<Longrightarrow> r_search k (r_empty 8 4) c = None" "r_delete k (r_empty 8 4) = None"
  by (simp add: r_search_def, subst r_search_node.simps, simp add: r_empty_def r_get_key_def r_get_link_def rd_def)
    (simp add: r_delete_def, subst r_delete_node.simps, simp add: r_empty_def r_get_link_def rd_def)

text \<open>A search for \<open>-1\<close> returns the head, whose key is \<open>-1\<close>, although the key was never inserted.\<close>

lemma r_search_sentinel: "r_search (-1) (r_empty 8 4) c = Some (8, c + 1)"
  by (simp add: r_search_def, subst r_search_node.simps, simp add: r_empty_def r_get_key_def rd_def)

end
