(* ===== verification/Slist.thy ===== *)
theory Slist
  imports Prelude
begin

text \<open>
  The singly linked list of strings, \<^verbatim>\<open>c_data_structure/slist.c\<close>, on a heap of nodes. The addresses that \<^verbatim>\<open>malloc\<close> returns
  are arguments; the string of a node is kept in the node, with a flag for the success of its own allocation. The
  code does not check the results of \<^verbatim>\<open>malloc\<close>: a failure is a bad access, \<open>None\<close>.
\<close>

section \<open>The code\<close>

record snode =
  sn_data :: string
  sn_next :: ptr

record slist =
  lst_size :: "64 word"
  lst_head :: ptr
  lst_tail :: ptr

definition slist_empty :: slist where
  "slist_empty = \<lparr>lst_size = 0, lst_head = NULL, lst_tail = NULL\<rparr>"

definition new_snode :: "ptr \<Rightarrow> bool \<Rightarrow> string \<Rightarrow> snode heap \<Rightarrow> (ptr \<times> snode heap) option" where
  "new_snode node data_ok dat h =
     (if node = NULL then None
      else if \<not> data_ok then None
      else Some (node, h(node \<mapsto> \<lparr>sn_data = dat, sn_next = NULL\<rparr>)))"

definition add_snode :: "ptr \<Rightarrow> slist \<times> snode heap \<Rightarrow> (slist \<times> snode heap) option" where
  "add_snode node = (\<lambda>(l, h).
     if lst_size l > 0 then do {
       h \<leftarrow> wr (\<lambda>n. n\<lparr>sn_next := node\<rparr>) (lst_tail l) h;
       n \<leftarrow> rd h (lst_tail l);
       let l = l\<lparr>lst_tail := sn_next n\<rparr>;
       Some (l\<lparr>lst_size := lst_size l + 1\<rparr>, h) }
     else do {
       let l = l\<lparr>lst_tail := node\<rparr>;
       let l = l\<lparr>lst_head := lst_tail l\<rparr>;
       Some (l\<lparr>lst_size := lst_size l + 1\<rparr>, h) })"

text \<open>The loop of \<^verbatim>\<open>main\<close> over the nodes, which prints each string on a line of its own.\<close>

partial_function (option) print_snodes :: "snode heap \<Rightarrow> ptr \<Rightarrow> string option" where
  "print_snodes h p =
     (if p = NULL then Some []
      else do {
        n \<leftarrow> rd h p;
        rest \<leftarrow> print_snodes h (sn_next n);
        Some (sn_data n @ ''\<newline>'' @ rest) })"

fun slist_fill :: "(ptr \<times> string) list \<Rightarrow> slist \<times> snode heap \<Rightarrow> (slist \<times> snode heap) option" where
  "slist_fill [] lh = Some lh"
| "slist_fill ((p, d) # xs) lh = do {
     (node, h) \<leftarrow> new_snode p True d (snd lh);
     lh \<leftarrow> add_snode node (fst lh, h);
     slist_fill xs lh }"

definition slist_main :: "ptr list \<Rightarrow> string option" where
  "slist_main ps = do {
     (l, h) \<leftarrow> slist_fill (zip ps [''aa'', ''bb'', ''cc'', '''', ''dd'']) (slist_empty, Map.empty);
     print_snodes h (lst_head l) }"

section \<open>Lists in memory\<close>

fun snodes_at :: "snode heap \<Rightarrow> ptr \<Rightarrow> (ptr \<times> string) list \<Rightarrow> bool" where
  "snodes_at h p [] \<longleftrightarrow> p = NULL"
| "snodes_at h p ((q, d) # xs) \<longleftrightarrow> p = q \<and> p \<noteq> NULL \<and> (\<exists>n. h p = Some n \<and> sn_data n = d \<and> snodes_at h (sn_next n) xs)"

definition slist_holds :: "(ptr \<times> string) list \<Rightarrow> slist \<times> snode heap \<Rightarrow> bool" where
  "slist_holds xs lh \<longleftrightarrow> snodes_at (snd lh) (lst_head (fst lh)) xs \<and> distinct (map fst xs) \<and> length xs < 2 ^ 64 \<and>
     lst_size (fst lh) = word_of_nat (length xs) \<and> (xs \<noteq> [] \<longrightarrow> lst_tail (fst lh) = fst (last xs))"

lemma snodes_upd_other: "p \<notin> fst ` set xs \<Longrightarrow> snodes_at (h(p \<mapsto> n)) q xs = snodes_at h q xs"
  by (induction xs arbitrary: q) auto

lemma snodes_last:
  assumes "snodes_at h p xs" "xs \<noteq> []"
  shows "fst (last xs) \<noteq> NULL \<and> (\<exists>n. h (fst (last xs)) = Some n)"
  using assms
proof (induction xs arbitrary: p)
  case (Cons x xs)
  then show ?case by (cases x; cases xs) auto
qed simp

lemma snodes_append:
  assumes "snodes_at h p xs" "xs \<noteq> []" "distinct (map fst xs)" "h (fst (last xs)) = Some n" "q \<noteq> NULL" "q \<notin> fst ` set xs" "h q = Some m" "sn_next m = NULL"
  shows "snodes_at (h(fst (last xs) \<mapsto> n\<lparr>sn_next := q\<rparr>)) p (xs @ [(q, sn_data m)])"
  using assms
proof (induction xs arbitrary: p)
  case (Cons x xs)
  obtain a d where x: "x = (a, d)" by fastforce
  show ?case
  proof (cases "xs = []")
    case True
    then show ?thesis using Cons.prems x by auto
  next
    case False
    then have "fst (last xs) \<in> fst ` set xs" by simp
    then have "a \<noteq> fst (last xs)" using Cons.prems(3) x by auto
    then show ?thesis using Cons x False by auto
  qed
qed simp

lemma slist_holds_add:
  assumes "slist_holds xs (l, h)" "p \<noteq> NULL" "p \<notin> fst ` set xs" "length xs + 1 < 2 ^ 64"
  shows "runs (add_snode p (l, h(p \<mapsto> \<lparr>sn_data = d, sn_next = NULL\<rparr>))) (slist_holds (xs @ [(p, d)]))"
proof -
  let ?h = "h(p \<mapsto> \<lparr>sn_data = d, sn_next = NULL\<rparr>)"
  have c: "snodes_at ?h (lst_head l) xs" "distinct (map fst xs)" "lst_size l = word_of_nat (length xs)" "xs \<noteq> [] \<Longrightarrow> lst_tail l = fst (last xs)"
    using assms(1,3) by (simp_all add: slist_holds_def snodes_upd_other)
  have z: "lst_size l > 0 \<longleftrightarrow> xs \<noteq> []"
  proof -
    have "word_of_nat (length xs) = (0 :: 64 word) \<longleftrightarrow> length xs = 0"
      using assms(4) by (simp add: word_of_nat_eq_0_iff nat_dvd_not_less[of "length xs" "2 ^ 64"]) (use nat_dvd_not_less in force)
    then show ?thesis using c(3) by (simp add: word_greater_zero_iff)
  qed
  show ?thesis
  proof (cases "xs = []")
    case True
    then show ?thesis using z c(1,3) assms(2) by (simp add: add_snode_def slist_holds_def)
  next
    case False
    let ?t = "fst (last xs)"
    obtain n where n: "?t \<noteq> NULL" "?h ?t = Some n" using snodes_last[OF c(1) False] by auto
    have "snodes_at (?h(?t \<mapsto> n\<lparr>sn_next := p\<rparr>)) (lst_head l) (xs @ [(p, d)])"
      using snodes_append[OF c(1) False c(2) n(2) assms(2,3) fun_upd_same] by (simp only: snode.select_convs simp_thms)
    then show ?thesis using z False n c(2-4) assms(3,4)
      by (simp add: add_snode_def wr_Some rd_Some slist_holds_def)
  qed
qed

lemma slist_fill_holds:
  assumes "slist_holds xs lh" "distinct (map fst (xs @ ys))" "NULL \<notin> fst ` set ys" "length (xs @ ys) < 2 ^ 64"
  shows "runs (slist_fill ys lh) (slist_holds (xs @ ys))"
  using assms
proof (induction ys arbitrary: xs lh)
  case (Cons y ys)
  obtain p d where y: "y = (p, d)" by fastforce
  obtain l h where lh: "lh = (l, h)" by fastforce
  have p: "p \<noteq> NULL" "p \<notin> fst ` set xs" "length xs + 1 < 2 ^ 64" using Cons.prems y by auto
  have "runs (add_snode p (l, h(p \<mapsto> \<lparr>sn_data = d, sn_next = NULL\<rparr>))) (slist_holds (xs @ [(p, d)]))"
    by (rule slist_holds_add[OF Cons.prems(1)[unfolded lh] p])
  then have "runs (Option.bind (add_snode p (l, h(p \<mapsto> \<lparr>sn_data = d, sn_next = NULL\<rparr>))) (slist_fill ys)) (slist_holds (xs @ y # ys))"
    by (rule runs_bindI) (use Cons.IH[of "xs @ [(p, d)]"] Cons.prems y in auto)
  then show ?case using p(1) by (simp add: y lh new_snode_def)
qed simp

lemma print_snodes_at: "snodes_at h p xs \<Longrightarrow> print_snodes h p = Some (concat (map (\<lambda>(_, d). d @ ''\<newline>'') xs))"
proof (induction xs arbitrary: p)
  case Nil
  then show ?case by (subst print_snodes.simps) simp
next
  case (Cons x xs)
  then show ?case by (cases x; subst print_snodes.simps) (auto simp: rd_Some)
qed

section \<open>Properties\<close>

text \<open>
  Strings that are appended one after the other at new addresses are all in the list, in order: the loop over the
  nodes ends and prints them in the order in which they were added, and the size is their number.
\<close>

theorem slist_appends:
  assumes "distinct (map fst xs)" "NULL \<notin> fst ` set xs" "length xs < 2 ^ 64"
  shows "runs (slist_fill xs (slist_empty, Map.empty)) (\<lambda>(l, h).
    print_snodes h (lst_head l) = Some (concat (map (\<lambda>(_, d). d @ ''\<newline>'') xs)) \<and> unat (lst_size l) = length xs)"
proof -
  have "slist_holds [] (slist_empty, Map.empty)" by (simp add: slist_holds_def slist_empty_def)
  then have "runs (slist_fill xs (slist_empty, Map.empty)) (slist_holds xs)" using slist_fill_holds[of "[]"] assms by simp
  then show ?thesis
  proof (rule runs_mono, clarify)
    fix l h
    assume r: "slist_holds xs (l, h)"
    then have "snodes_at h (lst_head l) xs" "lst_size l = word_of_nat (length xs)" by (simp_all add: slist_holds_def)
    then show "print_snodes h (lst_head l) = Some (concat (map (\<lambda>(_, d). d @ ''\<newline>'') xs)) \<and> unat (lst_size l) = length xs"
      using assms(3) print_snodes_at by (simp add: unsigned_of_nat take_bit_nat_eq_self)
  qed
qed

theorem slist_appends_witness:
  "slist_main [16, 32, 48, 64, 80] = Some ''aa\<newline>bb\<newline>cc\<newline>\<newline>dd\<newline>''"
proof -
  let ?xs = "[(16 :: ptr, ''aa''), (32, ''bb''), (48, ''cc''), (64, ''''), (80, ''dd'')]"
  have "runs (slist_fill ?xs (slist_empty, Map.empty)) (\<lambda>(l, h). print_snodes h (lst_head l) = Some (concat (map (\<lambda>(_, d). d @ ''\<newline>'') ?xs)) \<and> unat (lst_size l) = length ?xs)"
    by (rule slist_appends) simp_all
  then obtain l h where "slist_fill ?xs (slist_empty, Map.empty) = Some (l, h)" "print_snodes h (lst_head l) = Some ''aa\<newline>bb\<newline>cc\<newline>\<newline>dd\<newline>''"
    unfolding runs_def by auto
  moreover have "zip [16, 32, 48, 64, 80] [''aa'', ''bb'', ''cc'', '''', ''dd''] = ?xs" by simp
  ultimately show ?thesis unfolding slist_main_def by (simp only: bind.bind_lunit prod.case)
qed

end
