(* ===== verification/StdMap.thy ===== *)
theory StdMap
  imports Prelude
begin

text \<open>
  \<^verbatim>\<open>std::map\<close> as the programs under \<^verbatim>\<open>cpp_console\<close> use it: a list of entries in the order of the keys, with
  \<^verbatim>\<open>m[k] = v\<close> as \<open>map_put\<close> and the library's \<open>map_of\<close> for lookups; the contract of the container as a locale.
\<close>

fun map_put :: "'k::linorder \<Rightarrow> 'v \<Rightarrow> ('k \<times> 'v) list \<Rightarrow> ('k \<times> 'v) list" where
  "map_put k v [] = [(k, v)]"
| "map_put k v ((k', v') # es) =
     (if k < k' then (k, v) # (k', v') # es else if k = k' then (k, v) # es else (k', v') # map_put k v es)"

text \<open>\<open>map_at d m k\<close> is \<^verbatim>\<open>m[k]\<close> where a missing entry is created with the value \<open>d\<close>.\<close>

definition map_at :: "'v \<Rightarrow> ('k \<times> 'v) list \<Rightarrow> 'k \<Rightarrow> 'v" where
  "map_at d m k = (case map_of m k of Some v \<Rightarrow> v | None \<Rightarrow> d)"

abbreviation ordered :: "('k::linorder \<times> 'v) list \<Rightarrow> bool" where
  "ordered m \<equiv> sorted_wrt (<) (map fst m)"

section \<open>The contract\<close>

locale finite_map =
  fixes get :: "'m \<Rightarrow> 'k \<Rightarrow> 'v option"
    and put :: "'k \<Rightarrow> 'v \<Rightarrow> 'm \<Rightarrow> 'm"
    and wf :: "'m \<Rightarrow> bool"
  assumes get_put: "wf m \<Longrightarrow> get (put k v m) = (get m)(k \<mapsto> v)"
    and wf_put: "wf m \<Longrightarrow> wf (put k v m)"
begin

abbreviation at :: "'v \<Rightarrow> 'm \<Rightarrow> 'k \<Rightarrow> 'v" where
  "at d m k \<equiv> (case get m k of Some v \<Rightarrow> v | None \<Rightarrow> d)"

text \<open>A sequence of updates \<^verbatim>\<open>m[k] = f(m[k], x)\<close> leaves under each key the fold of its own arguments.\<close>

lemma get_updates:
  assumes "wf m"
  shows "wf (fold (\<lambda>(k, x) m. put k (f (at d m k) x) m) xs m)"
    and "get (fold (\<lambda>(k, x) m. put k (f (at d m k) x) m) xs m) k =
      (if \<exists>x. (k, x) \<in> set xs then Some (foldl f (at d m k) (map snd (filter (\<lambda>p. fst p = k) xs))) else get m k)"
  using assms
proof (induction xs arbitrary: m)
  case (Cons p xs)
  obtain k0 x0 where p: "p = (k0, x0)" by fastforce
  {
    case 1
    then show ?case using Cons.IH(1) by (simp add: p wf_put)
  next
    case 2
    let ?m = "put k0 (f (at d m k0) x0) m"
    have IH: "get (fold (\<lambda>(k, x) m. put k (f (at d m k) x) m) xs ?m) k =
      (if \<exists>x. (k, x) \<in> set xs then Some (foldl f (at d ?m k) (map snd (filter (\<lambda>p. fst p = k) xs))) else get ?m k)"
      by (rule Cons.IH(2)[OF wf_put[OF 2]])
    show ?case
    proof (cases "k0 = k")
      case True
      have "filter (\<lambda>p. fst p = k) xs = []" if "\<forall>x. (k, x) \<notin> set xs"
        using that by (auto simp: filter_empty_conv)
      then show ?thesis using IH by (auto simp: p True get_put[OF 2])
    next
      case False
      then show ?thesis using IH by (auto simp: p get_put[OF 2])
    qed
  }
qed simp_all

end

section \<open>The ordered list keeps it\<close>

lemma map_put_keys: "set (map fst (map_put k v m)) = insert k (set (map fst m))"
  by (induction k v m rule: map_put.induct) auto

lemma map_put_ordered: "ordered m \<Longrightarrow> ordered (map_put k v m)"
proof (induction k v m rule: map_put.induct)
  case (2 k v k' v' es)
  then show ?case using map_put_keys[of k v es] by (auto simp del: set_map)
qed simp

lemma map_of_put: "map_of (map_put k v m) = (map_of m)(k \<mapsto> v)"
  by (induction k v m rule: map_put.induct) auto

lemma map_of_fst: "ordered m \<Longrightarrow> (k, v) \<in> set m \<Longrightarrow> map_of m k = Some v"
  by (rule map_of_is_SomeI) (auto simp: strict_sorted_iff)

interpretation std: finite_map map_of map_put ordered
  by unfold_locales (simp_all add: map_of_put map_put_ordered del: map_of_map)

end
