(* ===== verification/Stree.thy ===== *)
theory Stree
  imports StdMap
begin

text \<open>
  The tree container of \<^verbatim>\<open>cpp_console/stree.h\<close>. A tree allocates one node per key and keeps it until it is
  destroyed, so a pointer to a node is modelled by the key of the node (\<open>None\<close> is the null pointer) and
  \<^verbatim>\<open>_nodes\<close> together with the nodes it points to is one map. An operation returns \<open>None\<close> where the program
  has undefined behaviour or does not end. The data of a node that has only been mentioned as a
  neighbour, and the \<^verbatim>\<open>root\<close> of a new tree, are not initialised.
\<close>

section \<open>Positions\<close>

text \<open>The pairs of a flag and a key: \<open>None\<close> where the flag is false.\<close>

record 'k node_pos =
  pos_parent :: "'k option"
  pos_left :: "'k option"
  pos_right :: "'k option"

definition stree_node_pos :: "'k node_pos" where
  "stree_node_pos = \<lparr>pos_parent = None, pos_left = None, pos_right = None\<rparr>"

definition set_pos_parent :: "bool \<Rightarrow> 'k \<Rightarrow> 'k node_pos \<Rightarrow> 'k node_pos" where
  "set_pos_parent b k pos = pos\<lparr>pos_parent := if b then Some k else None\<rparr>"

definition set_pos_left :: "bool \<Rightarrow> 'k \<Rightarrow> 'k node_pos \<Rightarrow> 'k node_pos" where
  "set_pos_left b k pos = pos\<lparr>pos_left := if b then Some k else None\<rparr>"

definition set_pos_right :: "bool \<Rightarrow> 'k \<Rightarrow> 'k node_pos \<Rightarrow> 'k node_pos" where
  "set_pos_right b k pos = pos\<lparr>pos_right := if b then Some k else None\<rparr>"

section \<open>The helper\<close>

text \<open>\<^verbatim>\<open>_node_data\<close> is iterated over, so it is kept as a list in the order of the keys.\<close>

record ('k, 'd) helper =
  h_node_pos :: "'k \<rightharpoonup> 'k node_pos"
  h_node_data :: "('k \<times> 'd) list"

definition helper_add_node :: "'k::linorder \<Rightarrow> 'd \<Rightarrow> ('k, 'd) helper \<Rightarrow> ('k, 'd) helper" where
  "helper_add_node k d h = h\<lparr>h_node_data := map_put k d (h_node_data h)\<rparr>"

fun helper_add_nodes :: "('k::linorder \<times> 'd) list \<Rightarrow> ('k, 'd) helper \<Rightarrow> ('k, 'd) helper" where
  "helper_add_nodes [] h = h"
| "helper_add_nodes ((k, d) # vec) h = helper_add_nodes vec (helper_add_node k d h)"

text \<open>The loop of \<^verbatim>\<open>add_pos_info\<close> over the keys from \<^verbatim>\<open>it\<close> on; \<open>prev\<close> is the key before it.\<close>

fun pos_loop :: "'k \<Rightarrow> 'k option \<Rightarrow> 'k list \<Rightarrow> ('k \<rightharpoonup> 'k node_pos) \<Rightarrow> ('k \<rightharpoonup> 'k node_pos)" where
  "pos_loop p prev [] m = m"
| "pos_loop p prev (x # xs) m =
     (let pos = set_pos_parent True p stree_node_pos;
        pos = (case prev of Some y \<Rightarrow> set_pos_left True y pos | None \<Rightarrow> pos);
        pos = (case xs of y # _ \<Rightarrow> set_pos_right True y pos | [] \<Rightarrow> pos) in
      pos_loop p (Some x) xs (m(x \<mapsto> pos)))"

definition helper_add_pos_info :: "'k \<Rightarrow> 'k list \<Rightarrow> ('k, 'd) helper \<Rightarrow> ('k, 'd) helper" where
  "helper_add_pos_info p vec h =
     (if vec = [] then h
      else
        let m = h_node_pos h;
          m = (if m p = None then m(p \<mapsto> stree_node_pos) else m) in
        h\<lparr>h_node_pos := pos_loop p None vec m\<rparr>)"

section \<open>The tree\<close>

record ('k, 'd) stree_node =
  nd_key :: 'k
  nd_data :: "'d option"
  nd_parent :: "'k option"
  nd_left_child :: "'k option"
  nd_right_sibling :: "'k option"

record ('k, 'd) stree =
  st_root :: "'k option"
  st_nodes :: "'k \<rightharpoonup> ('k, 'd) stree_node"

definition stree_new :: "('k, 'd) stree" where
  "stree_new = \<lparr>st_root = None, st_nodes = Map.empty\<rparr>"

definition new_stree_node :: "'k \<Rightarrow> ('k, 'd) stree_node" where
  "new_stree_node k = \<lparr>nd_key = k, nd_data = None, nd_parent = None, nd_left_child = None, nd_right_sibling = None\<rparr>"

definition upd_tree_node :: "(('k, 'd) stree_node \<Rightarrow> ('k, 'd) stree_node) \<Rightarrow> 'k \<Rightarrow> ('k, 'd) stree \<Rightarrow> ('k, 'd) stree option" where
  "upd_tree_node f k t = do { n \<leftarrow> st_nodes t k; Some (t\<lparr>st_nodes := (st_nodes t)(k \<mapsto> f n)\<rparr>) }"

text \<open>\<^verbatim>\<open>get_node\<close> returns the pointer, that is \<open>k\<close>; the function gives the tree afterwards.\<close>

definition get_node :: "'k \<Rightarrow> ('k, 'd) stree \<Rightarrow> ('k, 'd) stree" where
  "get_node k t = (if st_nodes t k = None then t\<lparr>st_nodes := (st_nodes t)(k \<mapsto> new_stree_node k)\<rparr> else t)"

definition set_node :: "'k \<Rightarrow> 'd \<Rightarrow> ('k, 'd) stree \<Rightarrow> ('k, 'd) stree option" where
  "set_node k d t = upd_tree_node (\<lambda>n. n\<lparr>nd_data := Some d\<rparr>) k (get_node k t)"

partial_function (option) rightmost_from :: "'k option \<Rightarrow> ('k, 'd) stree \<Rightarrow> 'k option option" where
  "rightmost_from q t = (case q of
     None \<Rightarrow> Some None
   | Some k \<Rightarrow> do {
       n \<leftarrow> st_nodes t k;
       if nd_right_sibling n = None then Some q else rightmost_from (nd_right_sibling n) t })"

definition rightmost_child :: "'k option \<Rightarrow> ('k, 'd) stree \<Rightarrow> 'k option option" where
  "rightmost_child p t = (case p of
     None \<Rightarrow> Some None
   | Some k \<Rightarrow> do { n \<leftarrow> st_nodes t k; rightmost_from (nd_left_child n) t })"

definition add_child :: "'k option \<Rightarrow> 'k option \<Rightarrow> 'k option \<Rightarrow> 'k \<Rightarrow> ('k, 'd) stree \<Rightarrow> ('k, 'd) stree option" where
  "add_child p l r n t = (case p of
     None \<Rightarrow> Some (t\<lparr>st_root := Some n\<rparr>)
   | Some pk \<Rightarrow> (case (l, r) of
       (Some lk, Some rk) \<Rightarrow> do {
         t \<leftarrow> upd_tree_node (\<lambda>x. x\<lparr>nd_right_sibling := Some n\<rparr>) lk t;
         t \<leftarrow> upd_tree_node (\<lambda>x. x\<lparr>nd_parent := Some pk\<rparr>) n t;
         upd_tree_node (\<lambda>x. x\<lparr>nd_right_sibling := Some rk\<rparr>) n t }
     | (Some lk, None) \<Rightarrow> do {
         t \<leftarrow> upd_tree_node (\<lambda>x. x\<lparr>nd_right_sibling := Some n\<rparr>) lk t;
         upd_tree_node (\<lambda>x. x\<lparr>nd_parent := Some pk\<rparr>) n t }
     | (None, Some rk) \<Rightarrow> do {
         t \<leftarrow> upd_tree_node (\<lambda>x. x\<lparr>nd_right_sibling := Some rk\<rparr>) n t;
         t \<leftarrow> upd_tree_node (\<lambda>x. x\<lparr>nd_parent := Some pk\<rparr>) n t;
         upd_tree_node (\<lambda>x. x\<lparr>nd_left_child := Some n\<rparr>) pk t }
     | (None, None) \<Rightarrow> do {
         rc \<leftarrow> rightmost_child p t;
         (case rc of
            Some c \<Rightarrow> do {
              t \<leftarrow> upd_tree_node (\<lambda>x. x\<lparr>nd_right_sibling := Some n\<rparr>) c t;
              upd_tree_node (\<lambda>x. x\<lparr>nd_parent := Some pk\<rparr>) n t }
          | None \<Rightarrow> do {
              t \<leftarrow> upd_tree_node (\<lambda>x. x\<lparr>nd_left_child := Some n\<rparr>) pk t;
              upd_tree_node (\<lambda>x. x\<lparr>nd_parent := Some pk\<rparr>) n t }) }))"

definition get_node_opt :: "'k option \<Rightarrow> ('k, 'd) stree \<Rightarrow> ('k, 'd) stree" where
  "get_node_opt q t = (case q of None \<Rightarrow> t | Some k \<Rightarrow> get_node k t)"

definition stree_add_node :: "'k node_pos \<Rightarrow> 'k \<Rightarrow> 'd \<Rightarrow> ('k, 'd) stree \<Rightarrow> ('k, 'd) stree option" where
  "stree_add_node pos k d t = do {
     t \<leftarrow> set_node k d t;
     let t = get_node_opt (pos_parent pos) t;
     let t = get_node_opt (pos_left pos) t;
     let t = get_node_opt (pos_right pos) t;
     add_child (pos_parent pos) (pos_left pos) (pos_right pos) k t }"

fun build_from :: "('k \<rightharpoonup> 'k node_pos) \<Rightarrow> ('k \<times> 'd) list \<Rightarrow> ('k, 'd) stree \<Rightarrow> ('k, 'd) stree option" where
  "build_from m [] t = Some t"
| "build_from m ((k, d) # es) t = do {
     t \<leftarrow> (case m k of Some pos \<Rightarrow> stree_add_node pos k d t | None \<Rightarrow> Some t);
     build_from m es t }"

definition stree_build :: "('k::linorder, 'd) helper \<Rightarrow> ('k, 'd) stree \<Rightarrow> ('k, 'd) stree option" where
  "stree_build h t = build_from (h_node_pos h) (h_node_data h) t"

section \<open>Traversals\<close>

text \<open>The loop over the children of a node, which appends them to a vector or a queue.\<close>

partial_function (option) push_children ::
  "nat \<Rightarrow> 'k option \<Rightarrow> (nat \<times> 'k) list \<Rightarrow> ('k, 'd) stree \<Rightarrow> (nat \<times> 'k) list option"
where
  "push_children d child vec t = (case child of
     None \<Rightarrow> Some vec
   | Some c \<Rightarrow> do {
       n \<leftarrow> st_nodes t c;
       push_children d (nd_right_sibling n) (vec @ [(d, c)]) t })"

function drain :: "'a list \<Rightarrow> 'a list \<Rightarrow> 'a list" where
  "drain stack vec = (if vec = [] then stack else drain (stack @ [last vec]) (butlast vec))"
  by pat_completeness auto
termination by (relation "measure (\<lambda>(s, v). length v)") auto

partial_function (option) depth_loop ::
  "(nat \<times> 'k) list \<Rightarrow> (nat \<times> 'k) list \<Rightarrow> ('k, 'd) stree \<Rightarrow> (nat \<times> 'k) list option"
where
  "depth_loop stack result t =
     (if stack = [] then Some result
      else do {
        let n = last stack;
        let stack = butlast stack;
        let result = result @ [n];
        x \<leftarrow> st_nodes t (snd n);
        vec \<leftarrow> push_children (fst n + 1) (nd_left_child x) [] t;
        depth_loop (drain stack vec) result t })"

definition depth_traversal :: "(nat \<times> 'k) list \<Rightarrow> ('k, 'd) stree \<Rightarrow> (nat \<times> (nat \<times> 'k) list) option" where
  "depth_traversal result t = do {
     root \<leftarrow> st_root t;
     result \<leftarrow> depth_loop [(0, root)] result t;
     Some (length result, result) }"

partial_function (option) breadth_loop ::
  "(nat \<times> 'k) list \<Rightarrow> (nat \<times> 'k) list \<Rightarrow> ('k, 'd) stree \<Rightarrow> (nat \<times> 'k) list option"
where
  "breadth_loop que result t =
     (if que = [] then Some result
      else do {
        let n = hd que;
        let que = tl que;
        let result = result @ [n];
        x \<leftarrow> st_nodes t (snd n);
        que \<leftarrow> push_children (fst n + 1) (nd_left_child x) que t;
        breadth_loop que result t })"

definition breadth_traversal :: "(nat \<times> 'k) list \<Rightarrow> ('k, 'd) stree \<Rightarrow> (nat \<times> (nat \<times> 'k) list) option" where
  "breadth_traversal result t = do {
     root \<leftarrow> st_root t;
     result \<leftarrow> breadth_loop [(0, root)] result t;
     Some (length result, result) }"

section \<open>Printing and destruction\<close>

text \<open>\<open>sk\<close> and \<open>sd\<close> are what \<^verbatim>\<open>operator<<\<close> prints for a key and for the data.\<close>

definition show_node :: "('k \<Rightarrow> string) \<Rightarrow> ('d \<Rightarrow> string) \<Rightarrow> 'k \<Rightarrow> ('k, 'd) stree \<Rightarrow> string option" where
  "show_node sk sd k t = do {
     n \<leftarrow> st_nodes t k;
     d \<leftarrow> nd_data n;
     Some (sk (nd_key n) @ '': '' @ sd d) }"

fun print_depth :: "('k \<Rightarrow> string) \<Rightarrow> ('d \<Rightarrow> string) \<Rightarrow> (nat \<times> 'k) list \<Rightarrow> ('k, 'd) stree \<Rightarrow> string option" where
  "print_depth sk sd [] t = Some []"
| "print_depth sk sd ((i, k) # vec) t = do {
     s \<leftarrow> show_node sk sd k t;
     rest \<leftarrow> print_depth sk sd vec t;
     Some (replicate (i * 2) CHR '' '' @ s @ ''\<newline>'' @ rest) }"

fun print_breadth :: "('k \<Rightarrow> string) \<Rightarrow> ('d \<Rightarrow> string) \<Rightarrow> bool \<Rightarrow> nat \<Rightarrow> (nat \<times> 'k) list \<Rightarrow> ('k, 'd) stree \<Rightarrow> string option" where
  "print_breadth sk sd first depth [] t = Some []"
| "print_breadth sk sd first depth ((i, k) # vec) t = do {
     let sep = (if i > depth then ''\<newline>'' else if \<not> first then '' '' else []);
     let depth = (if i > depth then i else depth);
     s \<leftarrow> show_node sk sd k t;
     rest \<leftarrow> print_breadth sk sd False depth vec t;
     Some (sep @ s @ rest) }"

definition stree_print :: "('k \<Rightarrow> string) \<Rightarrow> ('d \<Rightarrow> string) \<Rightarrow> ('k, 'd) stree \<Rightarrow> string option" where
  "stree_print sk sd t = do {
     (n, vec) \<leftarrow> depth_traversal [] t;
     s1 \<leftarrow> (if n > 0 then print_depth sk sd vec t else Some []);
     (n, vec) \<leftarrow> breadth_traversal [] t;
     s2 \<leftarrow> (if n > 0 then print_breadth sk sd True 0 vec t else Some []);
     Some (''***depth traversal***\<newline>'' @ s1 @ ''***breadth traversal***\<newline>'' @ s2) }"

text \<open>The destructor deletes every node and clears the root.\<close>

definition stree_destroy :: "('k, 'd) stree \<Rightarrow> ('k, 'd) stree" where
  "stree_destroy t = t\<lparr>st_nodes := (\<lambda>k. None), st_root := None\<rparr>"

declare rightmost_from.simps [code] push_children.simps [code] depth_loop.simps [code] breadth_loop.simps [code]
declare drain.simps [simp del]

end
