(* ===== verification/StreeSpec.thy ===== *)
theory StreeSpec
  imports Stree "HOL-Library.Multiset"
begin

text \<open>
  The tree container against ordered trees: what \<^verbatim>\<open>build\<close> makes of the positions given to the helper, and
  that the two traversals list a tree in preorder and level by level.
\<close>

section \<open>Ordered trees\<close>

datatype 'k rtree = Node (tkey: 'k) (kids: "'k rtree list")

fun tsize :: "'k rtree \<Rightarrow> nat" where
  "tsize (Node k ts) = Suc (sum_list (map tsize ts))"

fun subtrees :: "'k rtree \<Rightarrow> 'k rtree list" where
  "subtrees (Node k ts) = Node k ts # concat (map subtrees ts)"

definition keys :: "'k rtree \<Rightarrow> 'k list" where
  "keys T = map tkey (subtrees T)"

fun preorder :: "nat \<Rightarrow> 'k rtree \<Rightarrow> (nat \<times> 'k) list" where
  "preorder d (Node k ts) = (d, k) # concat (map (preorder (Suc d)) ts)"

abbreviation fsize :: "'k rtree list \<Rightarrow> nat" where
  "fsize ts \<equiv> sum_list (map tsize ts)"

lemma tsize_kids: "tsize T = Suc (fsize (kids T))"
  by (cases T) simp

lemma fsize_kids: "ts \<noteq> [] \<Longrightarrow> fsize (concat (map kids ts)) < fsize ts"
proof (induction ts)
  case (Cons T ts)
  then show ?case using tsize_kids[of T] by (cases "ts = []") auto
qed simp

text \<open>The nodes of a forest level by level, from left to right.\<close>

function levels :: "nat \<Rightarrow> 'k rtree list \<Rightarrow> (nat \<times> 'k) list" where
  "levels d ts = (if ts = [] then [] else map (\<lambda>T. (d, tkey T)) ts @ levels (Suc d) (concat (map kids ts)))"
  by pat_completeness auto
termination by (relation "measure (\<lambda>(d, ts). fsize ts)") (auto simp del: fsize_kids intro: fsize_kids)

declare levels.simps [simp del]

section \<open>Trees in memory\<close>

definition hd_opt :: "'a list \<Rightarrow> 'a option" where
  "hd_opt xs = (case xs of [] \<Rightarrow> None | x # _ \<Rightarrow> Some x)"

lemma hd_opt_simps [simp]: "hd_opt [] = None" "hd_opt (x # xs) = Some x"
  by (simp_all add: hd_opt_def)

text \<open>The keys \<open>cs\<close> are the children of \<open>p\<close> from one on: linked by \<^verbatim>\<open>right_sibling\<close>, with \<open>p\<close> as the parent.\<close>

fun linked :: "('k, 'd) stree \<Rightarrow> 'k \<Rightarrow> 'k list \<Rightarrow> bool" where
  "linked t p [] \<longleftrightarrow> True"
| "linked t p (c # cs) \<longleftrightarrow> (\<exists>n. st_nodes t c = Some n \<and> nd_right_sibling n = hd_opt cs \<and> nd_parent n = Some p) \<and> linked t p cs"

fun holds :: "('k, 'd) stree \<Rightarrow> 'k rtree \<Rightarrow> bool" where
  "holds t (Node k ts) \<longleftrightarrow> (\<exists>n. st_nodes t k = Some n \<and> nd_left_child n = hd_opt (map tkey ts)) \<and>
     linked t k (map tkey ts) \<and> (\<forall>T\<in>set ts. holds t T)"

definition represents :: "('k, 'd) stree \<Rightarrow> 'k rtree \<Rightarrow> bool" where
  "represents t T \<longleftrightarrow> st_root t = Some (tkey T) \<and> holds t T"

section \<open>Traversals\<close>

lemma push_children_linked: "linked t p cs \<Longrightarrow> push_children d (hd_opt cs) vec t = Some (vec @ map (Pair d) cs)"
proof (induction cs arbitrary: vec)
  case (Cons c cs)
  then obtain n where n: "st_nodes t c = Some n" "nd_right_sibling n = hd_opt cs" "linked t p cs" by auto
  then show ?case using Cons.IH[of "vec @ [(d, c)]"] by (subst push_children.simps) simp
qed (subst push_children.simps, simp)

lemma holds_children:
  assumes "holds t T"
  shows "\<exists>n. st_nodes t (tkey T) = Some n \<and>
    (\<forall>vec. push_children d (nd_left_child n) vec t = Some (vec @ map (Pair d) (map tkey (kids T))))"
  using assms push_children_linked[of t "tkey T" "map tkey (kids T)"] by (cases T) auto

lemma holds_kids: "holds t T \<Longrightarrow> U \<in> set (kids T) \<Longrightarrow> holds t U"
  by (cases T) auto

lemma drain_eq: "drain stack vec = stack @ rev vec"
proof (induction vec arbitrary: stack rule: rev_induct)
  case Nil
  then show ?case by (subst drain.simps) simp
next
  case (snoc x xs)
  then show ?case by (subst drain.simps) simp
qed

abbreviation marks :: "(nat \<times> 'k rtree) list \<Rightarrow> (nat \<times> 'k) list" where
  "marks fs \<equiv> map (\<lambda>(d, T). (d, tkey T)) fs"

lemma depth_loop_step:
  assumes "\<forall>(d, T)\<in>set fs. holds t T"
  shows "depth_loop (rev (marks fs)) result t = Some (result @ concat (map (\<lambda>(d, T). preorder d T) fs))"
  using assms
proof (induction "fsize (map snd fs)" arbitrary: fs result rule: less_induct)
  case less
  show ?case
  proof (cases fs)
    case Nil
    then show ?thesis by (subst depth_loop.simps) simp
  next
    case (Cons f gs)
    obtain d T where f: "f = (d, T)" by (cases f)
    let ?ks = "map (Pair (Suc d)) (kids T)"
    have h: "holds t T" using less.prems Cons f by simp
    obtain n where n: "st_nodes t (tkey T) = Some n"
      "push_children (Suc d) (nd_left_child n) [] t = Some (map (Pair (Suc d)) (map tkey (kids T)))"
      using holds_children[OF h, of "Suc d"] by auto
    have "\<forall>(d, T)\<in>set (?ks @ gs). holds t T" using less.prems Cons h by (cases T) auto
    moreover have "fsize (map snd (?ks @ gs)) < fsize (map snd fs)" using Cons f tsize_kids[of T] by (simp add: o_def)
    ultimately have IH: "depth_loop (rev (marks (?ks @ gs))) (result @ [(d, tkey T)]) t =
      Some ((result @ [(d, tkey T)]) @ concat (map (\<lambda>(d, T). preorder d T) (?ks @ gs)))" by (rule less.hyps[rotated])
    have "depth_loop (rev (marks fs)) result t = depth_loop (rev (marks (?ks @ gs))) (result @ [(d, tkey T)]) t"
      using Cons f n by (subst depth_loop.simps) (simp add: drain_eq rev_map o_def)
    moreover have "preorder d T = (d, tkey T) # concat (map (\<lambda>(d, T). preorder d T) ?ks)" by (cases T) (simp add: o_def)
    ultimately show ?thesis using IH Cons f by simp
  qed
qed

lemma breadth_loop_step:
  assumes "\<forall>T\<in>set xs \<union> set ys. holds t T"
  shows "breadth_loop (map (\<lambda>T. (d, tkey T)) xs @ map (\<lambda>T. (Suc d, tkey T)) ys) result t =
    Some (result @ map (\<lambda>T. (d, tkey T)) xs @ levels (Suc d) (ys @ concat (map kids xs)))"
  using assms
proof (induction "fsize xs + fsize ys" arbitrary: xs ys d result rule: less_induct)
  case less
  have step: "breadth_loop (map (\<lambda>T. (e, tkey T)) (T # us) @ map (\<lambda>T. (Suc e, tkey T)) vs) result t =
    Some (result @ map (\<lambda>T. (e, tkey T)) (T # us) @ levels (Suc e) (vs @ concat (map kids (T # us))))"
    if a: "fsize (T # us) + fsize vs = fsize xs + fsize ys" "\<forall>T\<in>set (T # us) \<union> set vs. holds t T" for e T us vs
  proof -
    have h: "holds t T" using a(2) by simp
    obtain n where n: "st_nodes t (tkey T) = Some n" "\<And>vec. push_children (Suc e) (nd_left_child n) vec t = Some (vec @ map (Pair (Suc e)) (map tkey (kids T)))"
      using holds_children[OF h, of "Suc e"] by auto
    have "breadth_loop (map (\<lambda>T. (e, tkey T)) us @ map (\<lambda>T. (Suc e, tkey T)) (vs @ kids T)) (result @ [(e, tkey T)]) t =
      Some ((result @ [(e, tkey T)]) @ map (\<lambda>T. (e, tkey T)) us @ levels (Suc e) ((vs @ kids T) @ concat (map kids us)))"
      by (rule less.hyps) (use a tsize_kids[of T] holds_kids[OF h] in auto)
    then show ?thesis using n by (subst breadth_loop.simps) (simp add: o_def)
  qed
  show ?case
  proof (cases xs)
    case (Cons T us)
    then show ?thesis using step[of T us ys d] less.prems by simp
  next
    case xs: Nil
    show ?thesis
    proof (cases ys)
      case Nil
      then show ?thesis using xs by (subst breadth_loop.simps) (simp add: levels.simps)
    next
      case (Cons T us)
      then show ?thesis using step[of T us "[]" "Suc d"] less.prems xs by (simp add: levels.simps[of "Suc d"])
    qed
  qed
qed

lemma traversals:
  assumes "represents t T"
  shows "depth_traversal [] t = Some (length (preorder 0 T), preorder 0 T)"
    "breadth_traversal [] t = Some (length (levels 0 [T]), levels 0 [T])"
  using assms depth_loop_step[of "[(0, T)]" t "[]"] breadth_loop_step[of "[T]" "[]" t 0 "[]"]
  by (simp_all add: represents_def depth_traversal_def breadth_traversal_def levels.simps[of 0])

section \<open>Positions\<close>

text \<open>The lists of children of a tree, as they are given to \<^verbatim>\<open>add_pos_info\<close>.\<close>

definition edges :: "'k rtree \<Rightarrow> ('k \<times> 'k list) list" where
  "edges T = map (\<lambda>U. (tkey U, map tkey (kids U))) (filter (\<lambda>U. kids U \<noteq> []) (subtrees T))"

text \<open>The neighbours of a child in its list.\<close>

fun next_in :: "'k \<Rightarrow> 'k list \<Rightarrow> 'k option" where
  "next_in k [] = None"
| "next_in k (x # xs) = (if k = x then hd_opt xs else next_in k xs)"

fun prev_in :: "'k option \<Rightarrow> 'k \<Rightarrow> 'k list \<Rightarrow> 'k option" where
  "prev_in p k [] = None"
| "prev_in p k (x # xs) = (if k = x then p else prev_in (Some x) k xs)"

lemma pos_loop_eq:
  "distinct xs \<Longrightarrow> pos_loop p prev xs m k =
    (if k \<in> set xs then Some \<lparr>pos_parent = Some p, pos_left = prev_in prev k xs, pos_right = next_in k xs\<rparr> else m k)"
proof (induction xs arbitrary: prev m)
  case (Cons x xs)
  then show ?case
    by (auto simp: Let_def set_pos_parent_def set_pos_left_def set_pos_right_def stree_node_pos_def split: option.splits list.splits)
qed simp

definition add_positions :: "('k \<times> 'k list) list \<Rightarrow> ('k, 'd) helper \<Rightarrow> ('k, 'd) helper" where
  "add_positions es h = fold (\<lambda>(p, vec). helper_add_pos_info p vec) es h"

text \<open>The position of a key that the lists give.\<close>

definition pos_of :: "('k \<times> 'k list) list \<Rightarrow> 'k \<Rightarrow> 'k node_pos option" where
  "pos_of es k = (case find (\<lambda>(p, cs). k \<in> set cs) es of
     Some (p, cs) \<Rightarrow> Some \<lparr>pos_parent = Some p, pos_left = prev_in None k cs, pos_right = next_in k cs\<rparr>
   | None \<Rightarrow> if k \<in> fst ` set es then Some stree_node_pos else None)"

lemma find_snoc: "find P (xs @ [x]) = (case find P xs of Some y \<Rightarrow> Some y | None \<Rightarrow> if P x then Some x else None)"
  by (induction xs) auto

lemma add_positions_eq:
  assumes "distinct (concat (map snd es))" "\<forall>(p, cs)\<in>set es. cs \<noteq> []" "h_node_pos h = Map.empty"
  shows "h_node_pos (add_positions es h) = pos_of es \<and> h_node_data (add_positions es h) = h_node_data h"
  using assms
proof (induction es rule: rev_induct)
  case Nil
  then show ?case by (auto simp: add_positions_def pos_of_def)
next
  case (snoc e es)
  obtain p cs where e: "e = (p, cs)" by (cases e)
  let ?h = "add_positions es h"
  have IH: "h_node_pos ?h = pos_of es" "h_node_data ?h = h_node_data h" using snoc by auto
  have cs: "cs \<noteq> []" "distinct cs" using snoc.prems e by auto
  have none: "find (\<lambda>(p, cs). k \<in> set cs) es = None" if "k \<in> set cs" for k
    using snoc.prems(1) that e by (fastforce simp: find_None_iff)
  have "add_positions (es @ [e]) h = helper_add_pos_info p cs ?h" by (simp add: add_positions_def e)
  moreover have "pos_loop p None cs (if pos_of es p = None then (pos_of es)(p \<mapsto> stree_node_pos) else pos_of es) k = pos_of (es @ [e]) k" for k
    unfolding pos_loop_eq[OF cs(2)] using none[of k]
    by (auto simp: pos_of_def find_snoc e split: option.splits if_splits)
  ultimately show ?case using IH cs(1) by (auto simp: helper_add_pos_info_def Let_def fun_eq_iff)
qed

lemma next_in_split: "distinct cs \<Longrightarrow> next_in l cs = Some k \<longleftrightarrow> (\<exists>us vs. cs = us @ l # k # vs)"
proof (induction cs)
  case (Cons x xs)
  show ?case
  proof (cases "l = x")
    case True
    have "hd_opt xs = Some k \<longleftrightarrow> (\<exists>vs. xs = k # vs)" by (cases xs) auto
    moreover have "(\<exists>us vs. x # xs = us @ x # k # vs) \<longleftrightarrow> (\<exists>vs. xs = k # vs)"
    proof
      assume "\<exists>us vs. x # xs = us @ x # k # vs"
      then obtain us vs where e: "x # xs = us @ x # k # vs" by blast
      then show "\<exists>vs. xs = k # vs" using Cons.prems by (cases us) auto
    qed force
    ultimately show ?thesis using True by simp
  next
    case False
    have "(\<exists>us vs. x # xs = us @ l # k # vs) \<longleftrightarrow> (\<exists>us vs. xs = us @ l # k # vs)"
      using False by (metis append_Cons append_Nil list.exhaust list.inject)
    then show ?thesis using Cons False by simp
  qed
qed simp

lemma prev_in_split:
  "distinct cs \<Longrightarrow> prev_in p k cs = Some l \<longleftrightarrow> (p = Some l \<and> (\<exists>vs. cs = k # vs)) \<or> (\<exists>us vs. cs = us @ l # k # vs)"
proof (induction cs arbitrary: p)
  case (Cons x xs)
  show ?case
  proof (cases "k = x")
    case True
    have "\<nexists>us vs. x # xs = us @ l # x # vs"
    proof
      assume "\<exists>us vs. x # xs = us @ l # x # vs"
      then obtain us vs where e: "x # xs = us @ l # x # vs" by blast
      then show False using Cons.prems by (cases us) auto
    qed
    then show ?thesis using True by auto
  next
    case False
    have "(\<exists>us vs. x # xs = us @ l # k # vs) \<longleftrightarrow> (x = l \<and> (\<exists>vs. xs = k # vs)) \<or> (\<exists>us vs. xs = us @ l # k # vs)"
      by (metis append_Cons append_Nil list.exhaust list.inject)
    then show ?thesis using Cons False by auto
  qed
qed simp

lemma next_prev: "distinct cs \<Longrightarrow> next_in l cs = Some k \<longleftrightarrow> prev_in None k cs = Some l"
  by (simp add: next_in_split prev_in_split)

lemma prev_first: "distinct cs \<Longrightarrow> k \<in> set cs \<Longrightarrow> prev_in None k cs = None \<longleftrightarrow> hd_opt cs = Some k"
proof -
  assume d: "distinct cs" and k: "k \<in> set cs"
  obtain us vs where cs: "cs = us @ k # vs" using k by (metis split_list)
  show ?thesis
  proof (cases us rule: rev_cases)
    case Nil
    then show ?thesis using cs by simp
  next
    case (snoc ws l)
    then have "prev_in None k cs = Some l" using cs d by (auto simp: prev_in_split)
    moreover have "hd_opt cs \<noteq> Some k" using cs snoc d by (cases ws) auto
    ultimately show ?thesis by simp
  qed
qed

lemma next_in_mem: "next_in k cs = Some n \<Longrightarrow> k \<in> set cs"
  by (induction cs) (auto split: if_splits)

section \<open>Building\<close>

text \<open>Well-formed lists of children: no key has two lists, is a child twice or its own child.\<close>

definition proper :: "('k \<times> 'k list) list \<Rightarrow> bool" where
  "proper es \<longleftrightarrow> distinct (map fst es) \<and> distinct (concat (map snd es)) \<and> (\<forall>(p, cs)\<in>set es. cs \<noteq> [] \<and> p \<notin> set cs)"

definition nxt :: "('k \<times> 'k list) list \<Rightarrow> 'k \<Rightarrow> 'k option" where
  "nxt es k = Option.bind (pos_of es k) pos_right"

definition prv :: "('k \<times> 'k list) list \<Rightarrow> 'k \<Rightarrow> 'k option" where
  "prv es k = Option.bind (pos_of es k) pos_left"

definition par :: "('k \<times> 'k list) list \<Rightarrow> 'k \<Rightarrow> 'k option" where
  "par es k = Option.bind (pos_of es k) pos_parent"

definition chl :: "('k \<times> 'k list) list \<Rightarrow> 'k \<Rightarrow> 'k option" where
  "chl es k = Option.bind (map_of es k) hd_opt"

lemma pos_of_child:
  assumes "proper es" "(p, cs) \<in> set es" "k \<in> set cs"
  shows "pos_of es k = Some \<lparr>pos_parent = Some p, pos_left = prev_in None k cs, pos_right = next_in k cs\<rparr>"
proof -
  have "find (\<lambda>(p, cs). k \<in> set cs) es = Some (p, cs)"
    using assms unfolding proper_def
  proof (induction es)
    case (Cons e es)
    show ?case
    proof (cases "e = (p, cs)")
      case False
      then have "k \<notin> set (snd e)" using Cons.prems by fastforce
      then show ?thesis using Cons False by (cases e) auto
    qed (use Cons.prems in auto)
  qed simp
  then show ?thesis by (simp add: pos_of_def)
qed

lemma find_mem: "find P xs = Some x \<Longrightarrow> x \<in> set xs \<and> P x"
  by (auto simp: find_Some_iff)

lemma pos_of_cases:
  assumes "pos_of es k = Some pos"
  obtains (top) "pos = stree_node_pos" "k \<in> fst ` set es" | (child) p cs where "(p, cs) \<in> set es" "k \<in> set cs"
proof (cases "find (\<lambda>(p, cs). k \<in> set cs) es")
  case None
  then show thesis using assms top by (auto simp: pos_of_def split: if_splits)
next
  case (Some e)
  then show thesis using find_mem[OF Some] child by (cases e) auto
qed

lemma proper_distinct: "proper es \<Longrightarrow> (p, cs) \<in> set es \<Longrightarrow> distinct cs"
  by (fastforce simp: proper_def distinct_concat_iff)

lemma child_pos:
  assumes "proper es" "(p, cs) \<in> set es" "k \<in> set cs"
  shows "par es k = Some p" "prv es k = prev_in None k cs" "nxt es k = next_in k cs"
  using pos_of_child[OF assms] by (simp_all add: par_def prv_def nxt_def)

lemma pos_child:
  assumes "par es k = Some p \<or> prv es k = Some l \<or> nxt es k = Some l"
  obtains p cs where "(p, cs) \<in> set es" "k \<in> set cs"
proof -
  obtain pos where pos: "pos_of es k = Some pos" using assms by (auto simp: par_def prv_def nxt_def bind_Some_conv)
  then show thesis
  proof (cases rule: pos_of_cases)
    case top
    then show thesis using assms pos by (auto simp: par_def prv_def nxt_def stree_node_pos_def)
  qed (rule that)
qed

lemma nxt_prv:
  assumes "proper es"
  shows "nxt es l = Some k \<longleftrightarrow> prv es k = Some l"
proof
  assume a: "nxt es l = Some k"
  then obtain p cs where e: "(p, cs) \<in> set es" "l \<in> set cs" using pos_child[of es l _ k] by metis
  have d: "distinct cs" using proper_distinct[OF assms e(1)] .
  have "next_in l cs = Some k" using child_pos(3)[OF assms e] a by simp
  moreover from this have "k \<in> set cs" using d by (auto simp: next_in_split)
  ultimately show "prv es k = Some l" using child_pos(2)[OF assms e(1)] next_prev[OF d] by simp
next
  assume a: "prv es k = Some l"
  then obtain p cs where e: "(p, cs) \<in> set es" "k \<in> set cs" using pos_child[of es k _ l] by metis
  have d: "distinct cs" using proper_distinct[OF assms e(1)] .
  have n: "next_in l cs = Some k" using child_pos(2)[OF assms e] a next_prev[OF d] by simp
  then have "l \<in> set cs" by (rule next_in_mem)
  then show "nxt es l = Some k" using child_pos(3)[OF assms e(1)] n by simp
qed

lemma chl_par:
  assumes "proper es"
  shows "chl es p = Some k \<longleftrightarrow> par es k = Some p \<and> prv es k = None"
proof
  assume "chl es p = Some k"
  then obtain cs where e: "(p, cs) \<in> set es" "hd_opt cs = Some k" by (auto simp: chl_def bind_Some_conv dest: map_of_SomeD)
  then have k: "k \<in> set cs" by (cases cs) auto
  show "par es k = Some p \<and> prv es k = None"
    using child_pos[OF assms e(1) k] prev_first[OF proper_distinct[OF assms e(1)] k] e(2) by simp
next
  assume a: "par es k = Some p \<and> prv es k = None"
  then obtain q cs where e: "(q, cs) \<in> set es" "k \<in> set cs" using pos_child[of es k p] by metis
  have q: "q = p" "hd_opt cs = Some k"
    using child_pos[OF assms e] a prev_first[OF proper_distinct[OF assms e(1)] e(2)] by auto
  have "map_of es p = Some cs" using assms e(1) q(1) by (auto simp: proper_def intro: map_of_is_SomeI)
  then show "chl es p = Some k" using q(2) by (simp add: chl_def)
qed

text \<open>
  The fields of a node when the keys in \<open>S\<close> have been added: each addition sets the links to the
  right of the node and to the node itself.
\<close>

definition expected :: "('k \<times> 'k list) list \<Rightarrow> ('k \<Rightarrow> 'd) \<Rightarrow> 'k set \<Rightarrow> 'k \<Rightarrow> ('k, 'd) stree_node" where
  "expected es dat S k =
     \<lparr>nd_key = k, nd_data = (if k \<in> S then Some (dat k) else None), nd_parent = (if k \<in> S then par es k else None),
      nd_left_child = (case chl es k of Some c \<Rightarrow> if c \<in> S then Some c else None | None \<Rightarrow> None),
      nd_right_sibling = (case nxt es k of Some n \<Rightarrow> if k \<in> S \<or> n \<in> S then Some n else None | None \<Rightarrow> None)\<rparr>"

definition node_of :: "('k, 'd) stree \<Rightarrow> 'k \<Rightarrow> ('k, 'd) stree_node" where
  "node_of t k = (case st_nodes t k of None \<Rightarrow> new_stree_node k | Some n \<Rightarrow> n)"

lemma get_node_of: "node_of (get_node k t) = node_of t" "dom (st_nodes (get_node k t)) = insert k (dom (st_nodes t))" "st_root (get_node k t) = st_root t"
  by (auto simp: get_node_def node_of_def fun_eq_iff split: option.splits)

lemma get_node_opt_of:
  "node_of (get_node_opt q t) = node_of t" "dom (st_nodes (get_node_opt q t)) = set_option q \<union> dom (st_nodes t)" "st_root (get_node_opt q t) = st_root t"
  by (auto simp: get_node_opt_def get_node_of split: option.splits)

lemma upd_node_eq:
  "k \<in> dom (st_nodes t) \<Longrightarrow> upd_tree_node f k t = Some (t\<lparr>st_nodes := (st_nodes t)(k \<mapsto> f (node_of t k))\<rparr>)"
  by (auto simp: upd_tree_node_def node_of_def)

lemma node_of_upd [simp]:
  "node_of (t\<lparr>st_nodes := m(k \<mapsto> n)\<rparr>) = (node_of (t\<lparr>st_nodes := m\<rparr>))(k := n)" "node_of (t\<lparr>st_root := r\<rparr>) = node_of t"
  by (auto simp: node_of_def fun_eq_iff)

definition built :: "('k \<times> 'k list) list \<Rightarrow> ('k \<Rightarrow> 'd) \<Rightarrow> 'k set \<Rightarrow> ('k, 'd) stree \<Rightarrow> bool" where
  "built es dat S t \<longleftrightarrow> node_of t = expected es dat S \<and> S \<subseteq> dom (st_nodes t) \<and>
     (\<forall>k. st_root t = Some k \<longleftrightarrow> k \<in> S \<and> pos_of es k = Some stree_node_pos)"

lemma not_self:
  assumes "proper es"
  shows "par es k \<noteq> Some k" "prv es k \<noteq> Some k"
proof -
  show "par es k \<noteq> Some k"
  proof
    assume a: "par es k = Some k"
    then obtain p cs where e: "(p, cs) \<in> set es" "k \<in> set cs" using pos_child[of es k k] by metis
    then show False using child_pos(1)[OF assms e] a assms by (auto simp: proper_def)
  qed
  show "prv es k \<noteq> Some k"
  proof
    assume a: "prv es k = Some k"
    then obtain p cs where e: "(p, cs) \<in> set es" "k \<in> set cs" using pos_child[of es k _ k] by metis
    have d: "distinct cs" using proper_distinct[OF assms e(1)] .
    have "prev_in None k cs = Some k" using child_pos(2)[OF assms e] a by simp
    then show False using prev_in_split[OF d, of None k k] d by auto
  qed
qed

lemma expected_insert:
  assumes "proper es" "k \<notin> S"
  shows "expected es dat (insert k S) x =
    (let n = expected es dat S x;
       n = (if x = k then n\<lparr>nd_data := Some (dat k), nd_parent := par es k, nd_right_sibling := nxt es k\<rparr> else n);
       n = (if prv es k = Some x then n\<lparr>nd_right_sibling := Some k\<rparr> else n) in
     if par es k = Some x \<and> prv es k = None then n\<lparr>nd_left_child := Some k\<rparr> else n)"
  using nxt_prv[OF assms(1), of x k] chl_par[OF assms(1), of x k] not_self[OF assms(1), of k] assms(2)
  by (auto simp: expected_def Let_def split: option.splits)

lemma add_child_step:
  assumes es: "proper es" "k \<notin> S" "pos_of es k = Some pos"
    and t: "node_of t = (expected es dat S)(k := (expected es dat S k)\<lparr>nd_data := Some (dat k)\<rparr>)"
    and d: "insert k (set_option (pos_parent pos) \<union> set_option (pos_left pos) \<union> set_option (pos_right pos)) \<subseteq> dom (st_nodes t)"
  shows "runs (add_child (pos_parent pos) (pos_left pos) (pos_right pos) k t) (\<lambda>t'. node_of t' = expected es dat (insert k S) \<and>
    dom (st_nodes t') = dom (st_nodes t) \<and> st_root t' = (if pos_parent pos = None then Some k else st_root t))"
proof -
  have pos: "par es k = pos_parent pos" "prv es k = pos_left pos" "nxt es k = pos_right pos"
    using es(3) by (simp_all add: par_def prv_def nxt_def)
  note new = expected_insert[OF es(1,2), of dat, unfolded pos]
  note self = not_self[OF es(1), of k, unfolded pos]
  show ?thesis
  proof (cases "pos_parent pos")
    case None
    have p: "pos = stree_node_pos" using es(3)
    proof (cases rule: pos_of_cases)
      case (child p cs)
      then show ?thesis using pos_of_child[OF es(1) child] es(3) None by simp
    qed
    have "node_of t = expected es dat (insert k S)"
    proof
      fix x show "node_of t x = expected es dat (insert k S) x"
        unfolding t new using pos(1,3) p by (auto simp: stree_node_pos_def expected_def)
    qed
    then show ?thesis using None by (simp add: add_child_def)
  next
    case (Some p)
    note [simp] = upd_node_eq
    consider (mid) l r where "pos_left pos = Some l" "pos_right pos = Some r" | (last) l where "pos_left pos = Some l" "pos_right pos = None"
      | (first) r where "pos_left pos = None" "pos_right pos = Some r" | (only) "pos_left pos = None" "pos_right pos = None" by (cases "pos_left pos"; cases "pos_right pos") auto
    then show ?thesis
    proof cases
      case mid
      have "(node_of t)(l := (node_of t l)\<lparr>nd_right_sibling := Some k\<rparr>,
          k := (node_of t k)\<lparr>nd_parent := Some p, nd_right_sibling := Some r\<rparr>) = expected es dat (insert k S)"
        unfolding t fun_eq_iff new using mid Some self by (auto simp: Let_def)
      then show ?thesis using mid Some d self by (simp add: add_child_def runs_bind insert_absorb)
    next
      case last
      have "(node_of t)(l := (node_of t l)\<lparr>nd_right_sibling := Some k\<rparr>, k := (node_of t k)\<lparr>nd_parent := Some p\<rparr>) = expected es dat (insert k S)"
        unfolding t fun_eq_iff new using last Some self pos by (auto simp: Let_def expected_def)
      then show ?thesis using last Some d self by (simp add: add_child_def runs_bind insert_absorb)
    next
      case first
      have "(node_of t)(k := (node_of t k)\<lparr>nd_right_sibling := Some r, nd_parent := Some p\<rparr>,
          p := (node_of t p)\<lparr>nd_left_child := Some k\<rparr>) = expected es dat (insert k S)"
        unfolding t fun_eq_iff new using first Some self by (auto simp: Let_def)
      then show ?thesis using first Some d self by (simp add: add_child_def runs_bind insert_absorb)
    next
      case only
      have "chl es p = Some k" using chl_par[OF es(1)] pos Some only by simp
      then have "nd_left_child (node_of t p) = None" using es(2) Some self t by (simp add: expected_def)
      then have "rightmost_child (Some p) t = Some None"
        using d Some by (auto simp: rightmost_child_def node_of_def rightmost_from.simps split: option.splits)
      moreover have "(node_of t)(p := (node_of t p)\<lparr>nd_left_child := Some k\<rparr>, k := (node_of t k)\<lparr>nd_parent := Some p\<rparr>) = expected es dat (insert k S)"
        unfolding t fun_eq_iff new using only Some self pos by (auto simp: Let_def expected_def)
      ultimately show ?thesis using only Some d self by (simp add: add_child_def runs_bind insert_absorb)
    qed
  qed
qed

lemma add_node_step:
  assumes es: "proper es" "k \<notin> S" "pos_of es k = Some pos" and root: "\<And>x. pos_of es x = Some stree_node_pos \<Longrightarrow> x = r"
    and t: "built es dat S t"
  shows "runs (stree_add_node pos k (dat k) t) (built es dat (insert k S))"
proof -
  have B: "node_of t = expected es dat S" "S \<subseteq> dom (st_nodes t)" "\<And>x. st_root t = Some x \<longleftrightarrow> x \<in> S \<and> pos_of es x = Some stree_node_pos"
    using t by (auto simp: built_def)
  let ?t = "(get_node k t)\<lparr>st_nodes := (st_nodes (get_node k t))(k \<mapsto> (node_of t k)\<lparr>nd_data := Some (dat k)\<rparr>)\<rparr>"
  have set: "set_node k (dat k) t = Some ?t" by (simp add: set_node_def upd_node_eq get_node_of)
  let ?u = "get_node_opt (pos_right pos) (get_node_opt (pos_left pos) (get_node_opt (pos_parent pos) ?t))"
  have nu: "node_of ?u = (expected es dat S)(k := (expected es dat S k)\<lparr>nd_data := Some (dat k)\<rparr>)"
    by (simp add: get_node_opt_of get_node_of B(1))
  have du: "dom (st_nodes ?u) = set_option (pos_right pos) \<union> (set_option (pos_left pos) \<union> (set_option (pos_parent pos) \<union> insert k (dom (st_nodes t))))"
    by (simp add: get_node_opt_of get_node_of)
  have ru: "st_root ?u = st_root t" by (simp add: get_node_opt_of get_node_of)
  have top: "pos_parent pos = None \<longleftrightarrow> pos = stree_node_pos"
    using es(3) by (cases rule: pos_of_cases) (use pos_of_child[OF es(1)] es(3) in \<open>auto simp: stree_node_pos_def\<close>)
  have "runs (add_child (pos_parent pos) (pos_left pos) (pos_right pos) k ?u) (built es dat (insert k S))"
    by (rule runs_mono[OF add_child_step[OF es nu]])
      (use du ru B(2,3) top es root in \<open>auto simp: built_def\<close>)
  then show ?thesis by (simp add: stree_add_node_def set Let_def)
qed

lemma build_from_step:
  assumes es: "proper es" and root: "\<And>x. pos_of es x = Some stree_node_pos \<Longrightarrow> x = r"
    and "built es dat S t" "distinct ks" "set ks \<inter> S = {}" "\<forall>k\<in>set ks. pos_of es k \<noteq> None"
  shows "runs (build_from (pos_of es) (map (\<lambda>k. (k, dat k)) ks) t) (built es dat (S \<union> set ks))"
  using assms(3-)
proof (induction ks arbitrary: S t)
  case (Cons k ks)
  obtain pos where pos: "pos_of es k = Some pos" using Cons.prems(4) by auto
  have "runs (do { t \<leftarrow> stree_add_node pos k (dat k) t; build_from (pos_of es) (map (\<lambda>k. (k, dat k)) ks) t }) (built es dat (S \<union> set (k # ks)))"
  proof (rule runs_bindI[OF add_node_step[OF es _ pos root Cons.prems(1)]])
    fix t1 assume "built es dat (insert k S) t1"
    then show "runs (build_from (pos_of es) (map (\<lambda>k. (k, dat k)) ks) t1) (built es dat (S \<union> set (k # ks)))"
      using Cons.IH[of "insert k S" t1] Cons.prems by auto
  qed (use Cons.prems in auto)
  then show ?case using pos by simp
qed simp

lemma built_new: "built es dat {} stree_new"
  by (auto simp: built_def stree_new_def node_of_def expected_def new_stree_node_def fun_eq_iff split: option.splits)

section \<open>The lists of children of a tree\<close>

definition child_keys :: "'k rtree \<Rightarrow> 'k list" where
  "child_keys T = concat (map (\<lambda>U. map tkey (kids U)) (subtrees T))"

lemma concat_edges: "concat (map snd (edges T)) = child_keys T"
proof -
  have "concat (map snd (map (\<lambda>U. (tkey U, map tkey (kids U))) (filter (\<lambda>U. kids U \<noteq> []) us))) = concat (map (\<lambda>U. map tkey (kids U)) us)" for us
    by (induction us) auto
  then show ?thesis by (simp add: edges_def child_keys_def)
qed

lemma child_keys_Node: "child_keys (Node k ts) = map tkey ts @ concat (map child_keys ts)"
proof -
  have "concat (map (\<lambda>U. map tkey (kids U)) (concat (map subtrees us))) = concat (map child_keys us)" for us :: "'a rtree list"
    by (induction us) (auto simp: child_keys_def)
  then show ?thesis by (simp add: child_keys_def)
qed

lemma mset_keys: "mset (keys T) = add_mset (tkey T) (mset (child_keys T))"
proof (induction T)
  case (Node k ts)
  have "mset (keys (Node k ts)) = add_mset k (\<Sum>U\<leftarrow>ts. mset (keys U))"
    by (simp add: keys_def mset_concat map_concat o_def)
  also have "(\<Sum>U\<leftarrow>ts. mset (keys U)) = (\<Sum>U\<leftarrow>ts. {#tkey U#} + mset (child_keys U))"
    using Node by (metis (no_types, lifting) add_mset_add_single add.commute map_eq_conv)
  also have "\<dots> = mset (map tkey ts) + (\<Sum>U\<leftarrow>ts. mset (child_keys U))" by (induction ts) auto
  also have "\<dots> = mset (child_keys (Node k ts))"
    by (simp add: child_keys_Node mset_concat o_def)
  finally show ?case by simp
qed

lemma subtree_self: "T \<in> set (subtrees T)"
  by (cases T) simp

lemma subtree_kids: "U \<in> set (subtrees T) \<Longrightarrow> V \<in> set (kids U) \<Longrightarrow> V \<in> set (subtrees T)"
proof (induction T)
  case (Node k ts)
  show ?case
  proof (cases "U = Node k ts")
    case True
    then show ?thesis using Node.prems(2) subtree_self by auto
  next
    case False
    then obtain W where "W \<in> set ts" "U \<in> set (subtrees W)" using Node.prems(1) by auto
    then show ?thesis using Node.IH Node.prems(2) by auto
  qed
qed

lemma subtree_distinct: "distinct (keys T) \<Longrightarrow> U \<in> set (subtrees T) \<Longrightarrow> distinct (keys U)"
proof (induction T)
  case (Node k ts)
  have d: "distinct (keys W)" if "W \<in> set ts" for W
    using Node.prems(1) that by (auto simp: keys_def map_concat distinct_concat_iff)
  show ?case
  proof (cases "U = Node k ts")
    case False
    then obtain W where "W \<in> set ts" "U \<in> set (subtrees W)" using Node.prems(2) by auto
    then show ?thesis using Node.IH d by blast
  qed (use Node.prems in simp)
qed

lemma distinct_child_keys: "distinct (keys T) \<Longrightarrow> distinct (tkey T # child_keys T)"
  using mset_keys[of T] by (metis mset.simps(2) mset_eq_imp_distinct_iff)

lemma set_keys: "set (keys T) = insert (tkey T) (set (child_keys T))"
  using mset_keys[of T] by (metis set_mset_add_mset_insert set_mset_mset)

text \<open>The lists may be given in any order.\<close>

lemma edges_proper:
  assumes d: "distinct (keys T)" and es: "mset es = mset (edges T)"
  shows "proper es" "set (concat (map snd es)) = set (child_keys T)" "fst ` set es \<subseteq> set (keys T)"
    "kids T \<noteq> [] \<Longrightarrow> tkey T \<in> fst ` set es"
proof -
  have se: "set es = set (edges T)" using es by (metis set_mset_mset)
  have mf: "mset (map fst es) = mset (map fst (edges T))" using es by simp
  have mc: "mset (concat (map snd es)) = mset (child_keys T)"
    unfolding concat_edges[symmetric] mset_concat using es by (simp flip: sum_mset_sum_list)
  have "distinct (map fst (edges T))" using d by (auto simp: edges_def keys_def o_def intro: distinct_map_filter)
  then have 1: "distinct (map fst es)" using mset_eq_imp_distinct_iff[OF mf] by blast
  have 2: "distinct (concat (map snd es))" using mset_eq_imp_distinct_iff[OF mc] distinct_child_keys[OF d] by simp
  have 3: "cs \<noteq> [] \<and> p \<notin> set cs" if pc: "(p, cs) \<in> set es" for p cs
  proof -
    obtain U where U: "U \<in> set (subtrees T)" "kids U \<noteq> []" "p = tkey U" "cs = map tkey (kids U)"
      using pc[unfolded se] by (auto simp: edges_def)
    have "set (map tkey (kids U)) \<subseteq> set (child_keys U)" using subtree_self[of U] by (auto simp: child_keys_def)
    then show ?thesis using distinct_child_keys[OF subtree_distinct[OF d U(1)]] U by auto
  qed
  show "proper es" using 1 2 3 by (auto simp: proper_def)
  show "set (concat (map snd es)) = set (child_keys T)" using mc by (metis set_mset_mset)
  show "fst ` set es \<subseteq> set (keys T)" using se by (auto simp: edges_def keys_def)
  show "kids T \<noteq> [] \<Longrightarrow> tkey T \<in> fst ` set es" using se subtree_self[of T] by (force simp: edges_def)
qed

lemma edges_pos:
  assumes d: "distinct (keys T)" and es: "mset es = mset (edges T)" and k: "kids T \<noteq> []"
  shows "pos_of es (tkey T) = Some stree_node_pos" "pos_of es x = Some stree_node_pos \<Longrightarrow> x = tkey T"
    "x \<in> set (keys T) \<Longrightarrow> pos_of es x \<noteq> None"
proof -
  note p = edges_proper[OF d es]
  have dc: "tkey T \<notin> set (child_keys T)" using distinct_child_keys[OF d] by simp
  have "find (\<lambda>(p, cs). tkey T \<in> set cs) es = None" using dc p(2) by (fastforce simp: find_None_iff)
  then show top: "pos_of es (tkey T) = Some stree_node_pos" using p(4)[OF k] by (simp add: pos_of_def)
  have child: "\<exists>p cs. (p, cs) \<in> set es \<and> x \<in> set cs" if "x \<in> set (child_keys T)" for x
    using that unfolding p(2)[symmetric] by fastforce
  show "x = tkey T" if a: "pos_of es x = Some stree_node_pos"
  proof (rule ccontr)
    assume "x \<noteq> tkey T"
    moreover have "x \<in> set (keys T)" using a
    proof (cases rule: pos_of_cases)
      case top
      then show ?thesis using p(3) by auto
    next
      case (child p' cs)
      then have "x \<in> set (concat (map snd es))" by force
      then show ?thesis unfolding p(2) set_keys by simp
    qed
    ultimately have "x \<in> set (child_keys T)" by (simp add: set_keys)
    then obtain q cs where "(q, cs) \<in> set es" "x \<in> set cs" using child by blast
    then show False using pos_of_child[OF p(1)] a by (simp add: stree_node_pos_def)
  qed
  show "pos_of es x \<noteq> None" if x: "x \<in> set (keys T)"
  proof (cases "x = tkey T")
    case False
    then obtain q cs where "(q, cs) \<in> set es" "x \<in> set cs" using x child[of x] by (auto simp: set_keys)
    then show ?thesis using pos_of_child[OF p(1)] by simp
  qed (use top in simp)
qed

lemma next_in_append: "c \<notin> set us \<Longrightarrow> next_in c (us @ c # vs) = hd_opt vs"
  by (induction us) auto

lemma built_node: "built es dat S t \<Longrightarrow> k \<in> S \<Longrightarrow> st_nodes t k = Some (expected es dat S k)"
  by (auto simp: built_def node_of_def fun_eq_iff dom_def split: option.splits)

lemma built_linked:
  assumes p: "proper es" and b: "built es dat S t" and e: "(p, us @ vs) \<in> set es" and S: "set (us @ vs) \<subseteq> S"
  shows "linked t p vs"
  using e S
proof (induction vs arbitrary: us)
  case (Cons c vs)
  have d: "distinct (us @ c # vs)" using proper_distinct[OF p Cons.prems(1)] .
  have "nxt es c = hd_opt vs" "par es c = Some p"
    using child_pos[OF p Cons.prems(1), of c] next_in_append[of c us vs] d by auto
  moreover have "st_nodes t c = Some (expected es dat S c)" using built_node[OF b] Cons.prems(2) by simp
  moreover have "c \<in> S" using Cons.prems(2) by simp
  ultimately have "\<exists>n. st_nodes t c = Some n \<and> nd_right_sibling n = hd_opt vs \<and> nd_parent n = Some p"
    by (auto simp: expected_def split: option.splits)
  moreover have "linked t p vs" using Cons.IH[of "us @ [c]"] Cons.prems by simp
  ultimately show ?case by simp
qed simp

lemma built_represents:
  assumes d: "distinct (keys T)" and es: "mset es = mset (edges T)" and k: "kids T \<noteq> []" and b: "built es dat (set (keys T)) t"
  shows "represents t T"
proof -
  note p = edges_proper[OF d es]
  have se: "set es = set (edges T)" using es by (metis set_mset_mset)
  have inj: "U = V" if "U \<in> set (subtrees T)" "V \<in> set (subtrees T)" "tkey U = tkey V" for U V
    using d that by (auto simp: keys_def distinct_map inj_on_def)
  have "holds t U" if "U \<in> set (subtrees T)" for U
    using that
  proof (induction U)
    case (Node x ts)
    let ?cs = "map tkey ts"
    have S: "x \<in> set (keys T)" "set ?cs \<subseteq> set (keys T)"
      using Node.prems subtree_kids[OF Node.prems] by (auto simp: keys_def intro: rev_image_eqI)
    have e: "map_of es x = (if ts = [] then None else Some ?cs)"
    proof (cases "ts = []")
      case True
      have "x \<notin> fst ` set es"
      proof
        assume "x \<in> fst ` set es"
        then obtain U where "U \<in> set (subtrees T)" "kids U \<noteq> []" "tkey U = x" unfolding se by (auto simp: edges_def)
        then show False using inj[of U "Node x ts"] Node.prems True by simp
      qed
      then show ?thesis using True by (simp add: map_of_eq_None_iff)
    next
      case False
      have "(x, ?cs) \<in> set es" unfolding se edges_def using Node.prems False by (force intro: rev_image_eqI)
      then show ?thesis using False p(1) by (auto simp: proper_def intro: map_of_is_SomeI)
    qed
    have "nd_left_child (expected es dat (set (keys T)) x) = hd_opt ?cs"
      using S(2) e by (cases ts) (auto simp: expected_def chl_def)
    moreover have "linked t x ?cs"
      using built_linked[OF p(1) b, of x "[]" ?cs] S(2) map_of_SomeD[of es x ?cs] e by (cases "ts = []") auto
    moreover have "\<forall>U\<in>set ts. holds t U" using Node.IH subtree_kids[OF Node.prems] by simp
    ultimately show ?case using built_node[OF b S(1)] by simp
  qed
  moreover have "st_root t = Some (tkey T)" using b edges_pos(1)[OF d es k] by (auto simp: built_def set_keys)
  ultimately show ?thesis using subtree_self by (auto simp: represents_def)
qed

definition helper_new :: "('k, 'd) helper" where
  "helper_new = \<lparr>h_node_pos = Map.empty, h_node_data = []\<rparr>"

text \<open>A map that is filled with \<open>dat k\<close> for each key \<open>k\<close> has one entry per key.\<close>

lemma map_put_sorted:
  assumes "sorted_wrt (<) ks"
  shows "\<exists>ks'. map_put k (dat k) (map (\<lambda>k. (k, dat k)) ks) = map (\<lambda>k. (k, dat k)) ks' \<and> sorted_wrt (<) ks' \<and> set ks' = insert k (set ks)"
  using assms
proof (induction ks)
  case (Cons x ks)
  then obtain ks' where ks': "map_put k (dat k) (map (\<lambda>k. (k, dat k)) ks) = map (\<lambda>k. (k, dat k)) ks'" "sorted_wrt (<) ks'" "set ks' = insert k (set ks)" by auto
  consider "k < x" | "k = x" | "x < k" by force
  then show ?case
  proof cases
    case 1
    then show ?thesis using Cons.prems by (intro exI[of _ "k # x # ks"]) auto
  next
    case 2
    then show ?thesis using Cons.prems by (intro exI[of _ "x # ks"]) auto
  next
    case 3
    then show ?thesis using Cons.prems ks' by (intro exI[of _ "x # ks'"]) auto
  qed
qed (auto intro: exI[of _ "[k]"])

lemma add_nodes_data:
  assumes "h_node_data h = map (\<lambda>k. (k, dat k)) ks0" "sorted_wrt (<) ks0"
  shows "h_node_pos (helper_add_nodes (map (\<lambda>k. (k, dat k)) ks) h) = h_node_pos h \<and>
    (\<exists>ks'. h_node_data (helper_add_nodes (map (\<lambda>k. (k, dat k)) ks) h) = map (\<lambda>k. (k, dat k)) ks' \<and> distinct ks' \<and> set ks' = set ks0 \<union> set ks)"
  using assms
proof (induction ks arbitrary: h ks0)
  case Nil
  then show ?case by (auto simp: strict_sorted_iff)
next
  case (Cons k ks)
  obtain ks1 where ks1: "map_put k (dat k) (map (\<lambda>k. (k, dat k)) ks0) = map (\<lambda>k. (k, dat k)) ks1" "sorted_wrt (<) ks1" "set ks1 = insert k (set ks0)"
    using map_put_sorted[OF Cons.prems(2), of k dat] by blast
  show ?case using Cons.IH[of "helper_add_node k (dat k) h" ks1] ks1 Cons.prems(1) by (simp add: helper_add_node_def)
qed

lemma build_tree:
  assumes d: "distinct (keys T)" and k: "kids T \<noteq> []" and es: "mset es = mset (edges T)" and ks: "set ks = set (keys T)"
  shows "runs (stree_build (add_positions es (helper_add_nodes (map (\<lambda>k. (k, dat k)) ks) helper_new)) stree_new)
    (\<lambda>t. represents t T \<and> built es dat (set (keys T)) t)"
proof -
  note p = edges_proper[OF d es]
  let ?h = "helper_add_nodes (map (\<lambda>k. (k, dat k)) ks) helper_new"
  obtain ks' where ks': "h_node_pos ?h = Map.empty" "h_node_data ?h = map (\<lambda>k. (k, dat k)) ks'" "distinct ks'" "set ks' = set (keys T)"
    using add_nodes_data[of helper_new dat "[]" ks] ks by (auto simp: helper_new_def)
  have h: "h_node_pos (add_positions es ?h) = pos_of es" "h_node_data (add_positions es ?h) = map (\<lambda>k. (k, dat k)) ks'"
    using add_positions_eq[of es ?h] p(1) ks' by (auto simp: proper_def)
  have "runs (build_from (pos_of es) (map (\<lambda>k. (k, dat k)) ks') stree_new) (built es dat ({} \<union> set ks'))"
    by (rule build_from_step[OF p(1) edges_pos(2)[OF d es k] built_new ks'(3)]) (use edges_pos(3)[OF d es k] ks'(4) in auto)
  then show ?thesis unfolding stree_build_def h using ks'(4) built_represents[OF d es k] by (auto elim!: runs_mono)
qed

section \<open>Properties\<close>

text \<open>
  (C25) When the keys with their data and the list of children of every inner node of a tree are given to
  the helper, in any order, \<^verbatim>\<open>build\<close> makes exactly this tree: the root, the first child, the siblings
  in order, the parents and the data. The tree must have more than one node.
\<close>

theorem stree_build_tree:
  assumes "distinct (keys T)" "kids T \<noteq> []" "mset es = mset (edges T)" "set ks = set (keys T)"
  shows "runs (stree_build (add_positions es (helper_add_nodes (map (\<lambda>k. (k, dat k)) ks) helper_new)) stree_new)
    (\<lambda>t. represents t T \<and> (\<forall>k\<in>set (keys T). \<exists>n. st_nodes t k = Some n \<and> nd_key n = k \<and> nd_data n = Some (dat k)))"
  by (rule runs_mono[OF build_tree[OF assms]]) (auto dest: built_node simp: expected_def)

definition demo_tree :: "nat rtree" where
  "demo_tree = Node 5 [Node 3 [Node 8 []], Node 1 [], Node 9 [Node 2 [], Node 7 []]]"

theorem stree_build_tree_witness:
  "runs (stree_build (add_positions [(9, [2, 7]), (5, [3, 1, 9]), (3, [8])] (helper_add_nodes (map (\<lambda>k. (k, k * k)) [1, 2, 3, 5, 7, 8, 9]) helper_new)) stree_new)
    (\<lambda>t. represents t demo_tree)"
  by (rule runs_mono[OF stree_build_tree]) (auto simp: demo_tree_def keys_def edges_def)

text \<open>
  (C26) The two traversals end and visit every node once, with its depth: the one with the stack in
  preorder, the one with the queue level by level from left to right.
\<close>

theorem stree_traversals:
  assumes "represents t T"
  shows "depth_traversal [] t = Some (length (preorder 0 T), preorder 0 T) \<and>
    breadth_traversal [] t = Some (length (levels 0 [T]), levels 0 [T])"
  using traversals[OF assms] by blast

theorem stree_traversals_witness:
  "runs (stree_build (add_positions [(5, [3, 1]), (3, [8])] (helper_add_nodes [(1, ''a''), (3, ''b''), (5, ''c''), (8, ''d'')] helper_new)) stree_new)
    (\<lambda>t. depth_traversal [] t = Some (4, [(0, 5), (1, 3), (2, 8), (1, 1 :: nat)]) \<and>
      breadth_traversal [] t = Some (4, [(0, 5), (1, 3), (1, 1), (2, 8)]))"
proof -
  let ?T = "Node (5 :: nat) [Node 3 [Node 8 []], Node 1 []]"
  let ?dat = "\<lambda>k :: nat. if k = 1 then ''a'' else if k = 3 then ''b'' else if k = 5 then ''c'' else ''d''"
  have lv: "levels 0 [?T] = [(0, 5), (1, 3), (1, 1), (2, 8)]" by (simp add: levels.simps)
  have pre: "preorder 0 ?T = [(0, 5), (1, 3), (2, 8), (1, 1)]" by (simp add: numeral_2_eq_2)
  have four: "length [a, b, c, d] = 4" for a b c d :: "nat \<times> nat" by simp
  have tr: "depth_traversal [] t = Some (4, [(0, 5), (1, 3), (2, 8), (1, 1)]) \<and> breadth_traversal [] t = Some (4, [(0, 5), (1, 3), (1, 1), (2, 8)])"
    if "represents t ?T" for t :: "(nat, string) stree"
    using stree_traversals[OF that] unfolding pre lv four .
  have dat: "map (\<lambda>k. (k, ?dat k)) [1, 3, 5, 8] = [(1, ''a''), (3, ''b''), (5, ''c''), (8, ''d'')]" by simp
  have R: "runs (stree_build (add_positions [(5, [3, 1]), (3, [8])] (helper_add_nodes (map (\<lambda>k. (k, ?dat k)) [1, 3, 5, 8]) helper_new)) stree_new)
    (\<lambda>t. represents t ?T \<and> built [(5, [3, 1]), (3, [8])] ?dat (set (keys ?T)) t)"
    by (rule build_tree) (auto simp: keys_def edges_def)
  show ?thesis by (rule runs_mono[OF R[unfolded dat]]) (use tr in blast)
qed

text \<open>
  A tree with a single node cannot be built: a key gets a position only as a parent or as a child, so the
  node is skipped and \<^verbatim>\<open>root\<close> stays uninitialised.
\<close>

lemma single_node_lost:
  "do { t \<leftarrow> stree_build (add_positions [(1, [])] (helper_add_nodes [(1 :: nat, ''a'')] helper_new)) stree_new; Some (st_root t) } = Some None"
  by code_simp

text \<open>Building twice makes an only child its own right sibling: the traversals then do not end.\<close>

lemma build_twice_cycle:
  "do { let h = add_positions [(1, [2])] (helper_add_nodes [(1 :: nat, ''a''), (2, ''b'')] helper_new);
     t \<leftarrow> stree_build h stree_new; t \<leftarrow> stree_build h t; n \<leftarrow> st_nodes t 2; Some (nd_right_sibling n) } = Some (Some 2)"
  by code_simp

end
