(* ===== verification/Sstring.thy ===== *)
theory Sstring
  imports Prelude
begin

text \<open>
  The string functions of \<^verbatim>\<open>cpp_console/sstring.h\<close> with the number formats of \<^verbatim>\<open>numeric_traits.h\<close>. A
  \<^verbatim>\<open>std::string\<close> is a list of characters. The formatted output and input of integers, \<^verbatim>\<open>sprintf\<close> and
  \<^verbatim>\<open>operator>>\<close>, are modelled as far as these functions use them.
\<close>

section \<open>Splitting and trimming\<close>

fun split_loop :: "string \<Rightarrow> bool \<Rightarrow> string \<Rightarrow> string \<Rightarrow> string list \<Rightarrow> string list" where
  "split_loop delims remove_empty [] sub result =
     (if \<not> (remove_empty \<and> sub = []) then result @ [sub] else result)"
| "split_loop delims remove_empty (c # str) sub result =
     (if c \<notin> set delims then split_loop delims remove_empty str (sub @ [c]) result
      else if \<not> (remove_empty \<and> sub = []) then split_loop delims remove_empty str [] (result @ [sub])
      else split_loop delims remove_empty str sub result)"

definition split_str :: "string \<Rightarrow> string \<Rightarrow> bool \<Rightarrow> string list" where
  "split_str str delims remove_empty =
     (if str = [] then [] else split_loop delims remove_empty str [] [])"

definition isspace :: "char \<Rightarrow> bool" where
  "isspace c \<longleftrightarrow> of_char c = (32 :: nat) \<or> 9 \<le> (of_char c :: nat) \<and> (of_char c :: nat) \<le> 13"

text \<open>The second loop of \<^verbatim>\<open>trim\<close>: the iterator goes back from index \<open>i\<close> until it reaches \<open>beg\<close>.\<close>

fun trim_back :: "string \<Rightarrow> nat \<Rightarrow> nat \<Rightarrow> nat" where
  "trim_back src beg 0 = 0"
| "trim_back src beg (Suc i) = (if Suc i \<noteq> beg \<and> isspace (src ! Suc i) then trim_back src beg i else Suc i)"

fun trim_front :: "string \<Rightarrow> nat" where
  "trim_front [] = 0"
| "trim_front (c # src) = (if isspace c then Suc (trim_front src) else 0)"

definition trim :: "string \<Rightarrow> string" where
  "trim src =
     (let it = trim_front src in
      if it = length src then []
      else
        let beg = it;
          it = trim_back src beg (length src - 1) in
        take (it + 1 - beg) (drop beg src))"

section \<open>Printing integers\<close>

definition digit :: "nat \<Rightarrow> char" where
  "digit n = ''0123456789'' ! n"

fun dec :: "nat \<Rightarrow> string" where
  "dec n = (if n < 10 then [digit n] else dec (n div 10) @ [digit (n mod 10)])"

declare dec.simps [simp del]

text \<open>\<^verbatim>\<open>%d\<close>, with a minimal width and zeros as padding for \<^verbatim>\<open>%02d\<close> and \<^verbatim>\<open>%03d\<close>.\<close>

definition fmt_int :: "nat \<Rightarrow> int \<Rightarrow> string" where
  "fmt_int w n =
     (let s = dec (nat \<bar>n\<bar>); sg = (if n < 0 then ''-'' else '''') in
      sg @ replicate (w - length sg - length s) CHR ''0'' @ s)"

definition max_length :: nat where
  "max_length = 32"

text \<open>\<^verbatim>\<open>to_string<int>\<close> and \<^verbatim>\<open>to_string<unsigned>\<close>: the characters and a terminator go to a buffer of \<open>max_length\<close>.\<close>

definition to_buf :: "nat \<Rightarrow> string \<Rightarrow> string option" where
  "to_buf n s = (if length s < n then Some s else None)"

definition to_string_int :: "int \<Rightarrow> string option" where
  "to_string_int t = to_buf max_length (fmt_int 0 t)"

definition to_string_unsigned :: "32 word \<Rightarrow> string option" where
  "to_string_unsigned t = to_buf max_length (dec (unat t))"

definition to_ordinal :: "32 word \<Rightarrow> string option" where
  "to_ordinal num = do {
     str \<leftarrow> to_string_unsigned num;
     let tens_digit = unat ((num mod 100) div 10);
     if tens_digit = 1 then Some (str @ ''th'')
     else do {
       let units_digit = unat (num mod 10);
       let table = [''th'', ''st'', ''nd'', ''rd'', ''th'', ''th'', ''th'', ''th'', ''th'', ''th''];
       Some (str @ table ! units_digit) }}"

section \<open>The table of numeric types\<close>

text \<open>\<^verbatim>\<open>numeric_traits\<close>, where the compiler is not Microsoft's: the buffer size, the name and the format of each type.\<close>

datatype num_type = T_int | T_long | T_long_long | T_unsigned | T_unsigned_long | T_unsigned_long_long
  | T_float | T_double | T_long_double

primrec traits_max_length :: "num_type \<Rightarrow> nat" where
  "traits_max_length T_int = 32"
| "traits_max_length T_long = 32"
| "traits_max_length T_long_long = 32"
| "traits_max_length T_unsigned = 32"
| "traits_max_length T_unsigned_long = 32"
| "traits_max_length T_unsigned_long_long = 32"
| "traits_max_length T_float = 512"
| "traits_max_length T_double = 512"
| "traits_max_length T_long_double = 512"

primrec traits_name :: "num_type \<Rightarrow> string" where
  "traits_name T_int = ''int''"
| "traits_name T_long = ''long''"
| "traits_name T_long_long = ''long long''"
| "traits_name T_unsigned = ''unsigned''"
| "traits_name T_unsigned_long = ''unsigned long''"
| "traits_name T_unsigned_long_long = ''unsigned long long''"
| "traits_name T_float = ''float''"
| "traits_name T_double = ''double''"
| "traits_name T_long_double = ''long double''"

primrec traits_fmt_str :: "num_type \<Rightarrow> string" where
  "traits_fmt_str T_int = ''%d''"
| "traits_fmt_str T_long = ''%ld''"
| "traits_fmt_str T_long_long = ''%lld''"
| "traits_fmt_str T_unsigned = ''%u''"
| "traits_fmt_str T_unsigned_long = ''%lu''"
| "traits_fmt_str T_unsigned_long_long = ''%llu''"
| "traits_fmt_str T_float = ''%f''"
| "traits_fmt_str T_double = ''%f''"
| "traits_fmt_str T_long_double = ''%Lf''"

text \<open>
  \<^verbatim>\<open>sprintf\<close> with one argument: an integer, or a finite floating-point number as its sign and its absolute value in
  millionths, rounded as \<^verbatim>\<open>%f\<close> does. \<open>None\<close> if the argument does not have the type that the format asks for.
\<close>

datatype num_value = Integral int | Fixed bool nat

definition fmt_fixed :: "bool \<Rightarrow> nat \<Rightarrow> string" where
  "fmt_fixed neg m =
     (if neg then ''-'' else '''') @ dec (m div 1000000) @ ''.'' @ fmt_int 6 (int (m mod 1000000))"

definition sprintf1 :: "string \<Rightarrow> num_value \<Rightarrow> string option" where
  "sprintf1 fmt v =
     (case v of
        Integral n \<Rightarrow> if fmt \<in> {''%d'', ''%ld'', ''%lld'', ''%u'', ''%lu'', ''%llu''} then Some (fmt_int 0 n) else None
      | Fixed neg m \<Rightarrow> if fmt \<in> {''%f'', ''%Lf''} then Some (fmt_fixed neg m) else None)"

text \<open>\<^verbatim>\<open>to_string<T>\<close>.\<close>

definition to_string_num :: "num_type \<Rightarrow> num_value \<Rightarrow> string option" where
  "to_string_num T v = do {
     s \<leftarrow> sprintf1 (traits_fmt_str T) v;
     to_buf (traits_max_length T) s }"

section \<open>Reading integers\<close>

definition digit_val :: "char \<Rightarrow> nat" where
  "digit_val c =
     (let k = of_char c in
      if 48 \<le> k \<and> k \<le> 57 then k - 48
      else if 97 \<le> k \<and> k \<le> 102 then k - 87
      else if 65 \<le> k \<and> k \<le> 70 then k - 55
      else 99)"

definition digits_val :: "nat \<Rightarrow> string \<Rightarrow> nat" where
  "digits_val base s = foldl (\<lambda>v c. v * base + digit_val c) 0 s"

text \<open>
  \<open>num_get base lo hi s\<close>: the extraction of an integer from a stream that holds \<open>s\<close>, into a type with the range
  from \<open>lo\<close> to \<open>hi\<close>: whether it fails, whether the end of the stream is reached, and the value. It reads a
  sign and the prefix of a hexadecimal number (\<open>num_prefix\<close> is what follows them), and the digits.
\<close>

definition num_prefix :: "nat \<Rightarrow> string \<Rightarrow> string" where
  "num_prefix base s =
     (let s = (if s \<noteq> [] \<and> (hd s = CHR ''-'' \<or> hd s = CHR ''+'') then tl s else s) in
      if base = 16 \<and> 2 \<le> length s \<and> hd s = CHR ''0'' \<and> (s ! 1 = CHR ''x'' \<or> s ! 1 = CHR ''X'') then drop 2 s else s)"

definition num_get :: "nat \<Rightarrow> int \<Rightarrow> int \<Rightarrow> string \<Rightarrow> bool \<times> bool \<times> int" where
  "num_get base lo hi s =
     (let neg = (s \<noteq> [] \<and> hd s = CHR ''-'');
        s = num_prefix base s;
        ds = takeWhile (\<lambda>c. digit_val c < base) s;
        eof = (length ds = length s);
        v = (if neg then - int (digits_val base ds) else int (digits_val base ds)) in
      if ds = [] then (True, eof, 0)
      else if v < lo then (True, eof, lo)
      else if hi < v then (True, eof, hi)
      else (False, eof, v))"

text \<open>What is left in the stream after a number.\<close>

definition num_rest :: "nat \<Rightarrow> string \<Rightarrow> string" where
  "num_rest base s = dropWhile (\<lambda>c. digit_val c < base) (num_prefix base s)"

definition str_to_integer :: "int \<Rightarrow> int \<Rightarrow> string \<Rightarrow> int \<Rightarrow> bool \<times> int" where
  "str_to_integer lo hi s base =
     (let str = trim s in
      if str = [] then (False, 0)
      else
        let sign = (if hd str = CHR ''+'' then 1 else 0 :: int);
          sign = (if hd str = CHR ''-'' then -1 else sign);
          base =
            (if base = 0 then
               let off = nat \<bar>sign\<bar> in
               if 2 \<le> length str - off \<and> str ! off = CHR ''0''
               then if str ! (off + 1) = CHR ''x'' \<or> str ! (off + 1) = CHR ''X'' then 16 else 8
               else 10
             else base);
          (fail, eof, val) =
            (if base = 16 then num_get 16 lo hi str
             else if base = 8 then num_get 8 lo hi str
             else num_get 10 lo hi str) in
        if \<not> fail \<and> eof then
          if val < 0 \<and> sign \<noteq> -1 then (False, 0) else (True, val)
        else (False, 0))"

definition str_to_int :: "string \<Rightarrow> int \<Rightarrow> bool \<times> int" where
  "str_to_int s base = str_to_integer (- (2 ^ 31)) (2 ^ 31 - 1) s base"

definition str_to_ll :: "string \<Rightarrow> int \<Rightarrow> bool \<times> int" where
  "str_to_ll s base = str_to_integer (- (2 ^ 63)) (2 ^ 63 - 1) s base"

end
