(* ===== verification/ConsoleMain.thy ===== *)
theory ConsoleMain
  imports StreeSpec Sstring
begin

text \<open>
  The program \<^verbatim>\<open>cpp_console/main.cpp\<close>: it describes a tree of sixteen named nodes to the helper, builds it and prints it
  with both traversals. What \<^verbatim>\<open>print\<close> writes is stated for every tree.
\<close>

section \<open>The code\<close>

text \<open>\<^verbatim>\<open>array_as_vector\<close> takes \<open>count\<close> arguments off the list of those that were passed.\<close>

fun array_as_vector :: "nat \<Rightarrow> 'a list \<Rightarrow> 'a list option" where
  "array_as_vector 0 args = Some []"
| "array_as_vector (Suc n) [] = None"
| "array_as_vector (Suc n) (t # args) = do { vec \<leftarrow> array_as_vector n args; Some (t # vec) }"

definition console_nodes :: "(int \<times> string) list" where
  "console_nodes = [
     (0, ''pgrlink''), (1, ''link init''), (2, ''link analyze''), (3, ''load aa files''), (4, ''link model''), (5, ''link check''),
     (6, ''load ao files''), (7, ''sn check''), (8, ''pm chech''), (9, ''Extraction_TypeNameLink''), (10, ''Extraction_TagNameLink''),
     (11, ''Extraction_ObjectLink''), (12, ''GetAppearNodeInfotomap''), (13, ''CheckNouseObj''),
     (14, ''CheckObjectUsedinParallelFunction''), (15, ''link display'')]"

definition console_main :: "string option" where
  "console_main = do {
     let helper = helper_add_nodes console_nodes helper_new;
     v0 \<leftarrow> array_as_vector 4 [1, 2, 5, 15];
     let helper = helper_add_pos_info 0 v0 helper;
     v2 \<leftarrow> array_as_vector 2 [3, 4];
     let helper = helper_add_pos_info 2 v2 helper;
     v5 \<leftarrow> array_as_vector 3 [6, 7, 8];
     let helper = helper_add_pos_info 5 v5 helper;
     v8 \<leftarrow> array_as_vector 3 [9, 10, 11];
     let helper = helper_add_pos_info 8 v8 helper;
     v11 \<leftarrow> array_as_vector 3 [12, 13, 14];
     let helper = helper_add_pos_info 11 v11 helper;
     tree \<leftarrow> stree_build helper stree_new;
     stree_print (fmt_int 0) (\<lambda>s. s) tree }"

section \<open>What is printed\<close>

lemma array_as_vector_all: "array_as_vector (length xs) xs = Some xs"
  by (induction xs) simp_all

text \<open>A line per node in preorder, indented by its depth; and a line per level.\<close>

definition depth_text :: "('k \<Rightarrow> string) \<Rightarrow> (nat \<times> 'k) list \<Rightarrow> string" where
  "depth_text lab vec = concat (map (\<lambda>(i, k). replicate (i * 2) CHR '' '' @ lab k @ ''\<newline>'') vec)"

fun breadth_text :: "('k \<Rightarrow> string) \<Rightarrow> bool \<Rightarrow> nat \<Rightarrow> (nat \<times> 'k) list \<Rightarrow> string" where
  "breadth_text lab first depth [] = []"
| "breadth_text lab first depth ((i, k) # vec) =
     (if i > depth then ''\<newline>'' else if \<not> first then '' '' else []) @ lab k
     @ breadth_text lab False (max i depth) vec"

lemma print_depth_text:
  assumes "\<forall>k \<in> snd ` set vec. show_node sk sd k t = Some (lab k)"
  shows "print_depth sk sd vec t = Some (depth_text lab vec)"
  using assms by (induction vec) (auto simp: depth_text_def)

lemma print_breadth_text:
  assumes "\<forall>k \<in> snd ` set vec. show_node sk sd k t = Some (lab k)"
  shows "print_breadth sk sd first depth vec t = Some (breadth_text lab first depth vec)"
  using assms by (induction vec arbitrary: first depth) (auto simp: Let_def max_def)

lemma keys_Node: "set (keys (Node k ts)) = insert k (\<Union>T\<in>set ts. set (keys T))"
  by (auto simp: keys_def)

lemma keys_kids: "tkey T \<in> set (keys T)" "U \<in> set (kids T) \<Longrightarrow> set (keys U) \<subseteq> set (keys T)"
  by (cases T; auto simp: keys_Node)+

lemma preorder_keys: "(i, k) \<in> set (preorder d T) \<Longrightarrow> k \<in> set (keys T)"
proof (induction d T rule: preorder.induct)
  case (1 d k' ts)
  then show ?case by (auto simp: keys_Node)
qed

lemma levels_keys: "(i, k) \<in> set (levels d ts) \<Longrightarrow> \<exists>T\<in>set ts. k \<in> set (keys T)"
proof (induction d ts rule: levels.induct)
  case (1 d ts)
  consider "ts \<noteq> []" "(i, k) \<in> set (map (\<lambda>T. (d, tkey T)) ts)" | "ts \<noteq> []" "(i, k) \<in> set (levels (Suc d) (concat (map kids ts)))"
    using 1(2) by (subst (asm) levels.simps) (auto split: if_splits)
  then show ?case
  proof cases
    case 1
    then show ?thesis using keys_kids(1) by auto
  next
    case 2
    then obtain U where "U \<in> set (concat (map kids ts))" "k \<in> set (keys U)" using 1(1) by blast
    then show ?thesis using keys_kids(2) by fastforce
  qed
qed

text \<open>What \<^verbatim>\<open>print\<close> writes for a tree with data.\<close>

lemma stree_print_text:
  assumes "represents t T"
    and dat: "\<And>k. k \<in> set (keys T) \<Longrightarrow> \<exists>n. st_nodes t k = Some n \<and> nd_key n = k \<and> nd_data n = Some (dat k)"
  shows "stree_print sk sd t = Some (''***depth traversal***\<newline>'' @ depth_text (\<lambda>k. sk k @ '': '' @ sd (dat k)) (preorder 0 T)
    @ ''***breadth traversal***\<newline>'' @ breadth_text (\<lambda>k. sk k @ '': '' @ sd (dat k)) True 0 (levels 0 [T]))"
proof -
  let ?lab = "\<lambda>k. sk k @ '': '' @ sd (dat k)"
  have lab: "show_node sk sd k t = Some (?lab k)" if "k \<in> set (keys T)" for k
    using dat [OF that] by (auto simp: show_node_def)
  have "print_depth sk sd (preorder 0 T) t = Some (depth_text ?lab (preorder 0 T))"
    by (rule print_depth_text) (use lab preorder_keys in fastforce)
  moreover have "print_breadth sk sd True 0 (levels 0 [T]) t = Some (breadth_text ?lab True 0 (levels 0 [T]))"
    by (rule print_breadth_text) (use lab levels_keys [of _ _ 0 "[T]"] in fastforce)
  moreover have "preorder 0 T \<noteq> []" "levels 0 [T] \<noteq> []"
    by (cases T; simp add: levels.simps)+
  ultimately show ?thesis
    using traversals [OF assms(1)] by (simp add: stree_print_def)
qed

section \<open>The program\<close>

definition console_tree :: "int rtree" where
  "console_tree = Node 0 [Node 1 [], Node 2 [Node 3 [], Node 4 []],
     Node 5 [Node 6 [], Node 7 [], Node 8 [Node 9 [], Node 10 [], Node 11 [Node 12 [], Node 13 [], Node 14 []]]], Node 15 []]"

definition console_dat :: "int \<Rightarrow> string" where
  "console_dat k = the (map_of console_nodes k)"

text \<open>
  The program prints the tree that it describes: sixteen lines in preorder, then the levels from left to right.
\<close>

lemma console_main_prints:
  "console_main = Some (''***depth traversal***\<newline>''
     @ depth_text (\<lambda>k. fmt_int 0 k @ '': '' @ console_dat k)
         [(0, 0), (1, 1), (1, 2), (2, 3), (2, 4), (1, 5), (2, 6), (2, 7), (2, 8), (3, 9), (3, 10), (3, 11), (4, 12), (4, 13), (4, 14), (1, 15)]
     @ ''***breadth traversal***\<newline>''
     @ breadth_text (\<lambda>k. fmt_int 0 k @ '': '' @ console_dat k) True 0
         [(0, 0), (1, 1), (1, 2), (1, 5), (1, 15), (2, 3), (2, 4), (2, 6), (2, 7), (2, 8), (3, 9), (3, 10), (3, 11), (4, 12), (4, 13), (4, 14)])"
proof -
  let ?es = "[(0 :: int, [1, 2, 5, 15]), (2, [3, 4]), (5, [6, 7, 8]), (8, [9, 10, 11]), (11, [12, 13, 14])]"
  let ?h = "add_positions ?es (helper_add_nodes (map (\<lambda>k. (k, console_dat k)) (map fst console_nodes)) helper_new)"
  have four: "array_as_vector 4 [a, b, c, d] = Some [a, b, c, d]" for a b c d :: int
    using array_as_vector_all [of "[a, b, c, d]"] by (simp add: eval_nat_numeral)
  have three: "array_as_vector 3 [a, b, c] = Some [a, b, c]" for a b c :: int
    using array_as_vector_all [of "[a, b, c]"] by (simp add: eval_nat_numeral)
  have two: "array_as_vector 2 [a, b] = Some [a, b]" for a b :: int
    using array_as_vector_all [of "[a, b]"] by (simp add: eval_nat_numeral)
  have nodes: "map (\<lambda>k. (k, console_dat k)) (map fst console_nodes) = console_nodes"
    by (simp add: console_dat_def console_nodes_def)
  have "runs (stree_build ?h stree_new) (\<lambda>t. represents t console_tree \<and> built ?es console_dat (set (keys console_tree)) t)"
    by (rule build_tree) (simp_all add: console_tree_def keys_def edges_def console_nodes_def insert_commute)
  then obtain t where t: "stree_build ?h stree_new = Some t" "represents t console_tree" "built ?es console_dat (set (keys console_tree)) t"
    by (auto simp: runs_def)
  have dat: "\<exists>n. st_nodes t k = Some n \<and> nd_key n = k \<and> nd_data n = Some (console_dat k)" if "k \<in> set (keys console_tree)" for k
    using built_node [OF t(3) that] that by (simp add: expected_def)
  have main: "console_main = stree_print (fmt_int 0) (\<lambda>s. s) t"
    using t(1) unfolding nodes by (simp add: console_main_def add_positions_def four three two)
  have pre: "preorder 0 console_tree =
      [(0, 0), (1, 1), (1, 2), (2, 3), (2, 4), (1, 5), (2, 6), (2, 7), (2, 8), (3, 9), (3, 10), (3, 11), (4, 12), (4, 13), (4, 14), (1, 15)]"
    by (simp add: console_tree_def eval_nat_numeral)
  have lev: "levels 0 [console_tree] =
      [(0, 0), (1, 1), (1, 2), (1, 5), (1, 15), (2, 3), (2, 4), (2, 6), (2, 7), (2, 8), (3, 9), (3, 10), (3, 11), (4, 12), (4, 13), (4, 14)]"
    by (simp add: console_tree_def levels.simps eval_nat_numeral)
  show ?thesis
    using stree_print_text [OF t(2) dat, of "fmt_int 0" "\<lambda>s. s"] unfolding main pre lev by simp
qed

end
