(* ===== verification/Stime.thy ===== *)
theory Stime
  imports Sstring "HOL-Library.Signed_Division"
begin

text \<open>
  Times of day and durations, \<^verbatim>\<open>cpp_console/stime.h\<close>. The values are C's \<^verbatim>\<open>int\<close> (32 bits) and \<^verbatim>\<open>long\<close> (64 bits): an arithmetic
  operation that leaves its type is undefined behaviour, \<open>None\<close>; the conversion from \<^verbatim>\<open>long\<close> to \<^verbatim>\<open>int\<close> wraps.
  Division truncates.
\<close>

section \<open>Machine arithmetic\<close>

definition int_ok :: "int \<Rightarrow> int option" where
  "int_ok x = (if - (2 ^ 31) \<le> x \<and> x < 2 ^ 31 then Some x else None)"

definition long_val :: "int \<Rightarrow> int option" where
  "long_val x = (if - (2 ^ 63) \<le> x \<and> x < 2 ^ 63 then Some x else None)"

definition long_to_int :: "int \<Rightarrow> int" where
  "long_to_int x = (x + 2 ^ 31) mod 2 ^ 32 - 2 ^ 31"

section \<open>Durations\<close>

text \<open>The only field of a \<^verbatim>\<open>stime_duration\<close> is \<^verbatim>\<open>_milliseconds\<close>.\<close>

datatype stime_duration = Duration (dur_milliseconds: int)

definition duration_zero :: stime_duration where
  "duration_zero = Duration 0"

definition duration_hmsm :: "int \<Rightarrow> int \<Rightarrow> int \<Rightarrow> int \<Rightarrow> stime_duration option" where
  "duration_hmsm h m s ms = do {
     x \<leftarrow> int_ok (h * 60);
     x \<leftarrow> int_ok (x + m);
     x \<leftarrow> int_ok (x * 60);
     x \<leftarrow> int_ok (x + s);
     x \<leftarrow> int_ok (x * 1000);
     x \<leftarrow> int_ok (x + ms);
     Some (Duration x) }"

definition hours :: "stime_duration \<Rightarrow> int" where
  "hours d = long_to_int (dur_milliseconds d sdiv 3600000)"

definition minutes :: "stime_duration \<Rightarrow> int" where
  "minutes d = long_to_int ((dur_milliseconds d smod 3600000) sdiv 60000)"

definition seconds :: "stime_duration \<Rightarrow> int" where
  "seconds d = long_to_int (((dur_milliseconds d smod 3600000) smod 60000) sdiv 1000)"

definition milliseconds :: "stime_duration \<Rightarrow> int" where
  "milliseconds d = long_to_int (((dur_milliseconds d smod 3600000) smod 60000) smod 1000)"

text \<open>\<^verbatim>\<open>operator+\<close> and \<^verbatim>\<open>operator+=\<close>, \<^verbatim>\<open>operator-\<close> and \<^verbatim>\<open>operator-=\<close>.\<close>

definition duration_plus :: "stime_duration \<Rightarrow> stime_duration \<Rightarrow> stime_duration option" where
  "duration_plus a b = do { x \<leftarrow> long_val (dur_milliseconds a + dur_milliseconds b); Some (Duration x) }"

definition duration_minus :: "stime_duration \<Rightarrow> stime_duration \<Rightarrow> stime_duration option" where
  "duration_minus a b = do { x \<leftarrow> long_val (dur_milliseconds a - dur_milliseconds b); Some (Duration x) }"

section \<open>Times of day\<close>

record stime =
  hour :: int
  minute :: int
  second :: int
  millisecond :: int

definition stime_zero :: stime where
  "stime_zero = \<lparr>hour = 0, minute = 0, second = 0, millisecond = 0\<rparr>"

definition stime_hmsm :: "int \<Rightarrow> int \<Rightarrow> int \<Rightarrow> int \<Rightarrow> stime" where
  "stime_hmsm h m s ms = \<lparr>hour = h, minute = m, second = s, millisecond = ms\<rparr>"

text \<open>An access to a vector behind its end is undefined.\<close>

definition part :: "string list \<Rightarrow> nat \<Rightarrow> string option" where
  "part parts i = (if i < length parts then Some (parts ! i) else None)"

definition parse :: "string \<Rightarrow> stime \<Rightarrow> stime option" where
  "parse time_str t = do {
     let parts = split_str time_str '':.'' True;
     p \<leftarrow> part parts 0;
     let t = t\<lparr>hour := snd (str_to_int p 10)\<rparr>;
     p \<leftarrow> part parts 1;
     let t = t\<lparr>minute := snd (str_to_int p 10)\<rparr>;
     p \<leftarrow> part parts 2;
     let t = t\<lparr>second := snd (str_to_int p 10)\<rparr>;
     p \<leftarrow> part parts 3;
     let t = t\<lparr>millisecond := snd (str_to_int p 10)\<rparr>;
     Some t }"

definition stime_str :: "string \<Rightarrow> stime option" where
  "stime_str time_str = parse time_str stime_zero"

definition stime_to_string :: "stime \<Rightarrow> string option" where
  "stime_to_string t = to_buf 16
     (fmt_int 2 (hour t) @ '':'' @ fmt_int 2 (minute t) @ '':'' @ fmt_int 2 (second t) @ ''.'' @ fmt_int 3 (millisecond t))"

text \<open>
  \<^verbatim>\<open>cur_time\<close> on POSIX: the arguments are the microseconds from \<^verbatim>\<open>gettimeofday\<close> and the broken-down time from
  \<^verbatim>\<open>localtime\<close>, \<open>None\<close> for NULL.
\<close>

definition cur_time :: "int \<Rightarrow> (int \<times> int \<times> int) option \<Rightarrow> stime option" where
  "cur_time tv_usec ts = do {
     (tm_hour, tm_min, tm_sec) \<leftarrow> ts;
     Some (stime_hmsm tm_hour tm_min tm_sec (long_to_int (tv_usec sdiv 1000))) }"

definition time_of_day :: "stime \<Rightarrow> stime_duration option" where
  "time_of_day t = duration_hmsm (hour t) (minute t) (second t) (millisecond t)"

definition stime_minus :: "stime \<Rightarrow> stime \<Rightarrow> stime_duration option" where
  "stime_minus a b = do {
     x \<leftarrow> time_of_day a;
     y \<leftarrow> time_of_day b;
     duration_minus x y }"

end
