(* ===== verification/TimeAcc.thy ===== *)
theory TimeAcc
  imports Stime StdMap "HOL-Library.Log_Nat" "HOL-Library.Char_ord" "HOL-Library.List_Lexorder" "HOL-Library.Product_Lexorder"
begin

text \<open>
  The report of running times, \<^verbatim>\<open>cpp_console/time_accumulator.h\<close>: pairs of a start and an end time are filed
  under a group and an item, and each item is reported with the number of its records and the sum of their
  durations. The maps are lists in the order of the keys (strings are compared byte by byte).
\<close>

section \<open>Collecting\<close>

type_synonym result = "nat \<times> stime_duration"
type_synonym result_map = "(string \<times> result) list"

record time_accumulator =
  ta_data :: "((string \<times> string) \<times> (stime \<times> stime) list) list"
  ta_result :: "(string \<times> result_map) list"

definition time_accumulator_new :: time_accumulator where
  "time_accumulator_new = \<lparr>ta_data = [], ta_result = []\<rparr>"

definition ta_add :: "string \<times> string \<Rightarrow> stime \<times> stime \<Rightarrow> time_accumulator \<Rightarrow> time_accumulator" where
  "ta_add key val a = a\<lparr>ta_data := map_put key (map_at [] (ta_data a) key @ [val]) (ta_data a)\<rparr>"

fun sum_records :: "(stime \<times> stime) list \<Rightarrow> stime_duration \<Rightarrow> stime_duration option" where
  "sum_records [] acc = Some acc"
| "sum_records (r # records) acc = do {
     d \<leftarrow> stime_minus (snd r) (fst r);
     acc \<leftarrow> duration_plus acc d;
     sum_records records acc }"

fun accumulate_from :: "((string \<times> string) \<times> (stime \<times> stime) list) list \<Rightarrow> (string \<times> result_map) list \<Rightarrow> (string \<times> result_map) list option" where
  "accumulate_from [] result = Some result"
| "accumulate_from (((group_name, item_name), records) # data) result = do {
     acc \<leftarrow> sum_records records duration_zero;
     accumulate_from data
       (map_put group_name (map_put item_name (length records, acc) (map_at [] result group_name)) result) }"

definition accumulate :: "time_accumulator \<Rightarrow> time_accumulator option" where
  "accumulate a = do { r \<leftarrow> accumulate_from (ta_data a) []; Some (a\<lparr>ta_result := r\<rparr>) }"

section \<open>Reporting\<close>

text \<open>
  \<^verbatim>\<open>total_milliseconds\<close> converts to \<^verbatim>\<open>double\<close>, which has 53 bits of precision and rounds to the nearest even
  number; the report converts back to \<^verbatim>\<open>long\<close>.
\<close>

definition round_shift :: "nat \<Rightarrow> nat \<Rightarrow> nat" where
  "round_shift a e =
     (let q = a div 2 ^ e; r = a mod 2 ^ e in
      if 2 * r > 2 ^ e \<or> (2 * r = 2 ^ e \<and> odd q) then q + 1 else q)"

definition long_to_double :: "int \<Rightarrow> int" where
  "long_to_double x =
     (let a = nat \<bar>x\<bar>; e = floorlog 2 a - 53 in sgn x * int (round_shift a e * 2 ^ e))"

definition total_milliseconds :: "stime_duration \<Rightarrow> int" where
  "total_milliseconds d = long_to_double (dur_milliseconds d)"

definition setw :: "nat \<Rightarrow> string \<Rightarrow> string" where
  "setw n s = replicate (n - length s) CHR '' '' @ s"

fun print_items :: "result_map \<Rightarrow> 64 word \<Rightarrow> 64 word \<Rightarrow> (string \<times> 64 word \<times> 64 word) option" where
  "print_items [] total_records total_time = Some ([], total_records, total_time)"
| "print_items ((name, (n, d)) # items) total_records total_time = do {
     total_time_of_item \<leftarrow> long_val (total_milliseconds d);
     let line = setw 30 name @ setw 20 (dec n) @ setw 10 (fmt_int 0 total_time_of_item) @ ''\<newline>'';
     (rest, total_records, total_time) \<leftarrow> print_items items (total_records + word_of_nat n) (total_time + word_of_int total_time_of_item);
     Some (line @ rest, total_records, total_time) }"

definition do_print :: "string \<Rightarrow> result_map \<Rightarrow> string option" where
  "do_print group_name result = do {
     (items, total_records, total_time) \<leftarrow> print_items result 0 0;
     Some (''-----------------------------'' @ group_name @ ''-----------------------------\<newline>''
       @ setw 30 ''Item Name'' @ setw 20 ''Record Num'' @ setw 10 ''Time'' @ ''\<newline>''
       @ items
       @ setw 50 (dec (unat total_records)) @ setw 10 (dec (unat total_time)) @ ''\<newline>'') }"

text \<open>What \<^verbatim>\<open>print\<close> writes to the file, if it could be opened.\<close>

fun ta_print_from :: "(string \<times> result_map) list \<Rightarrow> string option" where
  "ta_print_from [] = Some []"
| "ta_print_from ((group_name, result) # groups) = do {
     s \<leftarrow> do_print group_name result;
     rest \<leftarrow> ta_print_from groups;
     Some (s @ rest) }"

definition ta_print :: "time_accumulator \<Rightarrow> string option" where
  "ta_print a = ta_print_from (ta_result a)"

end
