(* ===== verification/SstringSpec.thy ===== *)
theory SstringSpec
  imports Sstring
begin

text \<open>
  The string functions against reference definitions: splitting at delimiters, trimming, and reading back the
  integers that are printed.
\<close>

section \<open>Splitting\<close>

text \<open>The pieces between the delimiters, empty ones included.\<close>

fun pieces :: "string \<Rightarrow> string \<Rightarrow> string list" where
  "pieces delims [] = [[]]"
| "pieces delims (c # s) = (if c \<in> set delims then [] # pieces delims s else (c # hd (pieces delims s)) # tl (pieces delims s))"

lemma pieces_not_Nil [simp]: "pieces delims s \<noteq> []"
  by (cases s) auto

lemma split_loop_eq:
  "split_loop delims re str sub result =
    result @ filter (\<lambda>p. re \<longrightarrow> p \<noteq> []) ((sub @ hd (pieces delims str)) # tl (pieces delims str))"
proof (induction str arbitrary: sub result)
  case (Cons c str)
  obtain p ps where "pieces delims str = p # ps" by (cases "pieces delims str") auto
  then show ?case using Cons by (cases re) simp_all
qed simp

lemma split_str_eq: "split_str str delims re = (if str = [] then [] else filter (\<lambda>p. re \<longrightarrow> p \<noteq> []) (pieces delims str))"
  by (simp add: split_str_def split_loop_eq)

fun join :: "char \<Rightarrow> string list \<Rightarrow> string" where
  "join c [] = []"
| "join c [p] = p"
| "join c (p # q # ps) = p @ c # join c (q # ps)"

lemma pieces_append:
  assumes "\<forall>x\<in>set p. x \<notin> set delims"
  shows "pieces delims (p @ s) = (p @ hd (pieces delims s)) # tl (pieces delims s)"
  using assms by (induction p) auto

lemma pieces_join:
  assumes "c \<in> set delims" "ps \<noteq> []" "\<forall>p\<in>set ps. \<forall>x\<in>set p. x \<notin> set delims"
  shows "pieces delims (join c ps) = ps"
  using assms
proof (induction c ps rule: join.induct)
  case (2 c p)
  then show ?case using pieces_append[of p delims "[]"] by simp
next
  case (3 c p q ps)
  then show ?case using pieces_append[of p delims "c # join c (q # ps)"] by simp
qed simp

section \<open>Trimming\<close>

lemma trim_front_eq: "trim_front src = length (takeWhile isspace src)"
  by (induction src) auto

lemma trim_back_eq:
  assumes "beg \<le> i" "i < length src" "\<not> isspace (src ! beg)"
  shows "take (trim_back src beg i + 1 - beg) (drop beg src) = rev (dropWhile isspace (rev (take (i + 1 - beg) (drop beg src))))"
  using assms
proof (induction i)
  case 0
  then show ?case by (simp add: take_Suc) (cases src; simp)
next
  case (Suc i)
  have last: "take (Suc (Suc i) - beg) (drop beg src) = take (Suc i - beg) (drop beg src) @ [src ! Suc i]"
    using Suc.prems by (simp add: Suc_diff_le take_Suc_conv_app_nth)
  show ?case
  proof (cases "Suc i \<noteq> beg \<and> isspace (src ! Suc i)")
    case True
    then show ?thesis using Suc last by auto
  next
    case False
    then have "\<not> isspace (src ! Suc i)" using Suc.prems(3) by auto
    then show ?thesis using False last by auto
  qed
qed

lemma trim_eq: "trim s = rev (dropWhile isspace (rev (dropWhile isspace s)))"
proof -
  let ?b = "length (takeWhile isspace s)"
  have d: "drop ?b s = dropWhile isspace s" by (metis append_eq_conv_conj takeWhile_dropWhile_id)
  show ?thesis
  proof (cases "?b = length s")
    case True
    have "dropWhile isspace s = []" unfolding d[symmetric] True by simp
    then show ?thesis using True by (simp add: trim_def trim_front_eq del: dropWhile_eq_Nil_conv)
  next
    case False
    then have lt: "?b < length s" using length_takeWhile_le[of isspace s] by linarith
    then have "\<not> isspace (s ! ?b)" by (rule nth_length_takeWhile)
    then have "take (trim_back s ?b (length s - 1) + 1 - ?b) (drop ?b s) = rev (dropWhile isspace (rev (take (length s - 1 + 1 - ?b) (drop ?b s))))"
      using lt by (intro trim_back_eq) auto
    moreover have "length s - 1 + 1 - ?b = length (drop ?b s)" using lt by simp
    ultimately show ?thesis using False by (simp add: trim_def trim_front_eq Let_def d)
  qed
qed

lemma trim_id:
  assumes "s \<noteq> []" "\<not> isspace (hd s)" "\<not> isspace (last s)"
  shows "trim s = s"
proof -
  have "dropWhile isspace s = s" using assms(1,2) by (cases s) auto
  moreover have "dropWhile isspace (rev s) = rev s" using assms(1,3) by (cases s rule: rev_cases) auto
  ultimately show ?thesis by (simp add: trim_eq)
qed

section \<open>Integers\<close>

lemma digit_cases: "(n :: nat) < 10 \<Longrightarrow> n \<in> {0, 1, 2, 3, 4, 5, 6, 7, 8, 9}"
  by auto

lemma digit_props:
  assumes "n < 10"
  shows "digit_val (digit n) = n" "\<not> isspace (digit n)" "digit n \<noteq> CHR ''-''" "digit n \<noteq> CHR ''+''" "digit n \<noteq> CHR '':''" "digit n \<noteq> CHR ''.''"
    "digit n = CHR ''0'' \<longleftrightarrow> n = 0" "digit n \<noteq> CHR ''x''" "digit n \<noteq> CHR ''X''"
  using digit_cases[OF assms] by (auto simp: digit_def digit_val_def isspace_def Let_def)

definition digits :: "string \<Rightarrow> bool" where
  "digits s \<longleftrightarrow> s \<noteq> [] \<and> (\<forall>c\<in>set s. \<exists>n<10. c = digit n)"

lemma digits_dec: "digits (dec n)"
proof (induction n rule: dec.induct)
  case (1 n)
  have "\<exists>k<10. digit (n mod 10) = digit k" by (intro exI[of _ "n mod 10"]) simp
  then show ?case using 1 by (subst dec.simps) (auto simp: digits_def)
qed

lemma digits_val_snoc: "digits_val b (s @ [c]) = digits_val b s * b + digit_val c"
  by (simp add: digits_val_def)

lemma digits_val_dec: "digits_val 10 (dec n) = n"
proof (induction n rule: dec.induct)
  case (1 n)
  show ?case
  proof (cases "n < 10")
    case True
    then show ?thesis by (subst dec.simps) (simp add: digits_val_def digit_props)
  next
    case False
    then show ?thesis using 1 by (subst dec.simps) (simp add: digits_val_snoc digit_props)
  qed
qed

lemma digits_val_zeros: "digits_val 10 (replicate k CHR ''0'' @ s) = digits_val 10 s"
proof (induction k)
  case (Suc k)
  have "digit_val CHR ''0'' = 0" by (simp add: digit_val_def)
  then show ?case using Suc by (simp add: digits_val_def)
qed simp

lemma digits_zeros: "digits s \<Longrightarrow> digits (replicate k CHR ''0'' @ s)"
proof -
  have "CHR ''0'' = digit 0" by (simp add: digit_def)
  then show "digits s \<Longrightarrow> digits (replicate k CHR ''0'' @ s)" by (auto simp: digits_def intro: exI[of _ 0])
qed

text \<open>A number as it is written: a sign and digits.\<close>

definition written_as :: "int \<Rightarrow> string \<Rightarrow> bool" where
  "written_as n s \<longleftrightarrow> (\<exists>t. digits t \<and> digits_val 10 t = nat \<bar>n\<bar> \<and> s = (if n < 0 then CHR ''-'' # t else t))"

lemma fmt_int_written: "written_as n (fmt_int w n)"
  unfolding written_as_def fmt_int_def Let_def
  by (intro exI[of _ "replicate (w - length (if n < 0 then ''-'' else '''') - length (dec (nat \<bar>n\<bar>))) CHR ''0'' @ dec (nat \<bar>n\<bar>)"])
    (auto simp: digits_val_zeros digits_val_dec intro: digits_zeros digits_dec)

lemma digits_hd: "digits s \<Longrightarrow> hd s \<noteq> CHR ''-'' \<and> hd s \<noteq> CHR ''+'' \<and> \<not> isspace (hd s) \<and> \<not> isspace (last s)"
  using digit_props(2-4) unfolding digits_def by (metis hd_in_set last_in_set)

lemma digits_takeWhile: "digits s \<Longrightarrow> takeWhile (\<lambda>c. digit_val c < 10) s = s"
  using digit_props(1) by (auto simp: digits_def takeWhile_eq_all_conv)

lemma trim_written:
  assumes "written_as n s"
  shows "trim s = s" "s \<noteq> []"
proof -
  obtain t where t: "digits t" "s = (if n < 0 then CHR ''-'' # t else t)" using assms by (auto simp: written_as_def)
  have ne: "t \<noteq> []" using t(1) by (simp add: digits_def)
  then show "s \<noteq> []" using t(2) by auto
  have "\<not> isspace CHR ''-''" by (simp add: isspace_def)
  then show "trim s = s" using digits_hd[OF t(1)] ne t(2) by (intro trim_id) auto
qed

lemma num_get_written:
  assumes "written_as n s" "lo \<le> n" "n \<le> hi"
  shows "num_get 10 lo hi s = (False, True, n)"
proof -
  obtain t where t: "digits t" "digits_val 10 t = nat \<bar>n\<bar>" "s = (if n < 0 then CHR ''-'' # t else t)" using assms(1) by (auto simp: written_as_def)
  have ne: "t \<noteq> []" using t(1) by (simp add: digits_def)
  note facts = digits_hd[OF t(1)] digits_takeWhile[OF t(1)] ne t(2) assms(2,3)
  show ?thesis
  proof (cases "n < 0")
    case True
    then show ?thesis using facts t(3) by (simp add: num_get_def num_prefix_def Let_def del: takeWhile_eq_all_conv)
  next
    case False
    then show ?thesis using facts t(3) by (simp add: num_get_def num_prefix_def Let_def del: takeWhile_eq_all_conv)
  qed
qed

lemma hd_written:
  assumes "written_as n s"
  shows "hd s = CHR ''-'' \<longleftrightarrow> n < 0" "hd s \<noteq> CHR ''+''"
proof -
  obtain t where t: "digits t" "s = (if n < 0 then CHR ''-'' # t else t)" using assms by (auto simp: written_as_def)
  show "hd s = CHR ''-'' \<longleftrightarrow> n < 0" "hd s \<noteq> CHR ''+''" using digits_hd[OF t(1)] t(2) by (simp_all split: if_splits)
qed

lemma str_to_integer_written:
  assumes "written_as n s" "lo \<le> n" "n \<le> hi"
    and base: "base = 10 \<or> (base = 0 \<and> \<not> (2 \<le> length s - (if n < 0 then 1 else 0) \<and> s ! (if n < 0 then 1 else 0) = CHR ''0''))"
  shows "str_to_integer lo hi s base = (True, n)"
  using base hd_written[OF assms(1)] trim_written[OF assms(1)] num_get_written[OF assms(1-3)]
  by (cases "n < 0") (auto simp: str_to_integer_def Let_def)

lemma dec_hd: "0 < n \<Longrightarrow> hd (dec n) \<noteq> CHR ''0''"
proof (induction n rule: dec.induct)
  case (1 n)
  have ne: "dec m \<noteq> []" for m using digits_dec by (simp add: digits_def)
  show ?case
  proof (cases "n < 10")
    case True
    then show ?thesis using 1(2) by (subst dec.simps) (simp add: digit_props)
  next
    case False
    then show ?thesis using 1 ne by (subst dec.simps) simp
  qed
qed

lemma dec_length: "n < 10 ^ k \<Longrightarrow> 0 < k \<Longrightarrow> length (dec n) \<le> k"
proof (induction n arbitrary: k rule: dec.induct)
  case (1 n)
  show ?case
  proof (cases "n < 10")
    case True
    then show ?thesis using 1(3) by (subst dec.simps) simp
  next
    case False
    then obtain j where j: "k = Suc j" "0 < j" using 1(2,3) by (cases k; cases "k - 1") auto
    then have "n div 10 < 10 ^ j" using 1(2) by (simp add: less_mult_imp_div_less mult.commute)
    then show ?thesis using 1(1)[OF False _ j(2)] False j(1) by (subst dec.simps) simp
  qed
qed

section \<open>Numbers of every type\<close>

text \<open>The values that a type can have: integers of its width, and floating-point numbers below its largest.\<close>

primrec in_range :: "num_type \<Rightarrow> num_value \<Rightarrow> bool" where
  "in_range T_int v \<longleftrightarrow> (\<exists>n. v = Integral n \<and> - (2 ^ 31) \<le> n \<and> n < 2 ^ 31)"
| "in_range T_long v \<longleftrightarrow> (\<exists>n. v = Integral n \<and> - (2 ^ 63) \<le> n \<and> n < 2 ^ 63)"
| "in_range T_long_long v \<longleftrightarrow> (\<exists>n. v = Integral n \<and> - (2 ^ 63) \<le> n \<and> n < 2 ^ 63)"
| "in_range T_unsigned v \<longleftrightarrow> (\<exists>n. v = Integral n \<and> 0 \<le> n \<and> n < 2 ^ 32)"
| "in_range T_unsigned_long v \<longleftrightarrow> (\<exists>n. v = Integral n \<and> 0 \<le> n \<and> n < 2 ^ 64)"
| "in_range T_unsigned_long_long v \<longleftrightarrow> (\<exists>n. v = Integral n \<and> 0 \<le> n \<and> n < 2 ^ 64)"
| "in_range T_float v \<longleftrightarrow> (\<exists>s m. v = Fixed s m \<and> m < 2 ^ 128 * 10 ^ 6)"
| "in_range T_double v \<longleftrightarrow> (\<exists>s m. v = Fixed s m \<and> m < 2 ^ 1024 * 10 ^ 6)"
| "in_range T_long_double v \<longleftrightarrow> (\<exists>s m. v = Fixed s m \<and> m < 2 ^ 16384 * 10 ^ 6)"

lemma fmt_int_length: "\<bar>n\<bar> < 10 ^ k \<Longrightarrow> 0 < k \<Longrightarrow> length (fmt_int 0 n) \<le> k + 1"
  using dec_length [of "nat \<bar>n\<bar>" k] by (auto simp: fmt_int_def Let_def nat_less_iff abs_if split: if_splits)

lemma fmt_int_fits: "\<bar>n\<bar> < 10 ^ 20 \<Longrightarrow> length (fmt_int 0 n) < 32"
  using fmt_int_length [of n 20] by simp

lemma fmt_fixed_length:
  assumes "m < 10 ^ k * 1000000" "0 < k"
  shows "length (fmt_fixed neg m) \<le> k + 8"
proof -
  have "length (dec (m div 1000000)) \<le> k"
    using assms by (intro dec_length) (simp_all add: less_mult_imp_div_less)
  moreover have "length (dec (m mod 1000000)) \<le> 6" by (rule dec_length) simp_all
  ultimately show ?thesis by (simp add: fmt_fixed_def fmt_int_def Let_def)
qed

lemma fmt_fixed_fits: "m < 10 ^ 400 * 1000000 \<Longrightarrow> length (fmt_fixed neg m) < 512"
  using fmt_fixed_length [of m 400 neg] by simp

text \<open>The buffer of \<^verbatim>\<open>to_string\<close> holds every value of every type but \<^verbatim>\<open>long double\<close>.\<close>

lemma to_string_num_fits:
  assumes "in_range T v" "T \<noteq> T_long_double"
  shows "\<exists>s. to_string_num T v = Some s"
proof -
  have d: "m < 2 ^ 1024 * 10 ^ 6 \<Longrightarrow> m < 10 ^ 400 * 1000000" "m < 2 ^ 128 * 10 ^ 6 \<Longrightarrow> m < 10 ^ 400 * 1000000" for m :: nat
    by simp_all
  show ?thesis
    using assms
    by (cases T) (auto simp: to_string_num_def sprintf1_def to_buf_def intro!: fmt_int_fits fmt_fixed_fits dest: d)
qed

lemma dec_length_lower: "10 ^ k \<le> n \<Longrightarrow> k < length (dec n)"
proof (induction k arbitrary: n)
  case 0
  then show ?case using digits_dec [of n] by (simp add: digits_def)
next
  case (Suc k)
  then have "10 ^ k \<le> n div 10" by (simp add: less_eq_div_iff_mult_less_eq mult.commute)
  moreover have "\<not> n < 10"
  proof -
    have "(1 :: nat) \<le> 10 ^ k" by simp
    then have "10 \<le> 10 * (10 :: nat) ^ k" by linarith
    then show ?thesis using Suc.prems by (simp only: power_Suc not_less)
  qed
  ultimately show ?case using Suc.IH [of "n div 10"] by (subst dec.simps) simp
qed

text \<open>A \<^verbatim>\<open>long double\<close> from 10 to the 512 on, which the type can hold, overruns it.\<close>

lemma to_string_long_double_overrun:
  "10 ^ 512 * 1000000 \<le> m \<Longrightarrow> to_string_num T_long_double (Fixed neg m) = None"
  using dec_length_lower [of 512 "m div 1000000"]
  by (simp add: to_string_num_def sprintf1_def to_buf_def fmt_fixed_def less_eq_div_iff_mult_less_eq)

lemma long_double_reaches: "in_range T_long_double (Fixed neg (10 ^ 512 * 1000000))"
proof -
  have "(10 :: nat) ^ 512 \<le> 16 ^ 512" by (rule power_mono) simp_all
  also have "\<dots> = 2 ^ (4 * 512)" by (simp add: power_mult)
  also have "\<dots> < 2 ^ 16384" by (rule power_strict_increasing) simp_all
  finally show ?thesis by simp
qed

section \<open>Ordinals\<close>

definition ordinal_suffix :: "nat \<Rightarrow> string" where
  "ordinal_suffix n =
     (if n mod 10 = 1 \<and> n mod 100 \<noteq> 11 then ''st''
      else if n mod 10 = 2 \<and> n mod 100 \<noteq> 12 then ''nd''
      else if n mod 10 = 3 \<and> n mod 100 \<noteq> 13 then ''rd'' else ''th'')"

section \<open>Properties\<close>

text \<open>
  (C27) Every \<^verbatim>\<open>int\<close> that \<^verbatim>\<open>to_string\<close> prints is read back by \<^verbatim>\<open>str_to_int\<close>, with the base given as 10 and with the
  base detected.
\<close>

theorem int_string_roundtrip:
  assumes "- (2 ^ 31) \<le> n" "n < 2 ^ 31"
  shows "runs (to_string_int n) (\<lambda>s. str_to_int s 10 = (True, n) \<and> str_to_int s 0 = (True, n))"
proof -
  let ?s = "fmt_int 0 n"
  have s: "?s = (if n < 0 then CHR ''-'' # dec (nat \<bar>n\<bar>) else dec (nat \<bar>n\<bar>))" by (simp add: fmt_int_def Let_def)
  have ne: "dec m \<noteq> []" for m using digits_dec by (simp add: digits_def)
  have "nat \<bar>n\<bar> < 10 ^ 10" using assms by simp
  then have "length (dec (nat \<bar>n\<bar>)) \<le> 10" by (rule dec_length) simp
  then have "to_string_int n = Some ?s" by (auto simp: to_string_int_def to_buf_def max_length_def s)
  moreover have "\<not> (2 \<le> length ?s - (if n < 0 then 1 else 0) \<and> ?s ! (if n < 0 then 1 else 0) = CHR ''0'')"
  proof (cases "n = 0")
    case True
    then show ?thesis by (simp add: fmt_int_def dec.simps digit_def Let_def)
  next
    case False
    then have "hd (dec (nat \<bar>n\<bar>)) \<noteq> CHR ''0''" by (intro dec_hd) simp
    then show ?thesis using ne by (auto simp: s hd_conv_nth)
  qed
  ultimately show ?thesis
    using str_to_integer_written[OF fmt_int_written, of "- (2 ^ 31)" n "2 ^ 31 - 1"] assms by (simp add: str_to_int_def)
qed

theorem int_string_roundtrip_witness:
  "runs (to_string_int (-2147483648)) (\<lambda>s. str_to_int s 10 = (True, -2147483648))"
  using int_string_roundtrip[of "-2147483648"] by (auto elim!: runs_mono)

text \<open>
  \<^verbatim>\<open>split\<close> gives the pieces between delimiters, without the empty ones if asked so; joining pieces that
  contain no delimiter with a delimiter and splitting gives the pieces back, unless the joined string is empty.
\<close>

theorem split_pieces:
  "split_str str delims re = (if str = [] then [] else filter (\<lambda>p. re \<longrightarrow> p \<noteq> []) (pieces delims str)) \<and>
   (c \<in> set delims \<and> join c ps \<noteq> [] \<and> (\<forall>p\<in>set ps. \<forall>x\<in>set p. x \<notin> set delims) \<longrightarrow> split_str (join c ps) delims False = ps)"
  using split_str_eq pieces_join[of c delims ps] by (cases ps) auto

theorem split_pieces_witness:
  "split_str ''a,,b'' '',;'' False = [''a'', [], ''b''] \<and> split_str ''a,,b'' '',;'' True = [''a'', ''b'']"
  using split_pieces[of "''a,,b''" "'',;''" True "CHR '',''" "[''a'', [], ''b'']"] by simp

text \<open>
  \<^verbatim>\<open>to_ordinal\<close> appends the English ordinal ending.
\<close>

lemma ordinal_table:
  assumes "(t :: nat) \<noteq> 1" "u < 10" "t < 10" "n mod 100 = 10 * t + u" "n mod 10 = u"
  shows "[''th'', ''st'', ''nd'', ''rd'', ''th'', ''th'', ''th'', ''th'', ''th'', ''th''] ! u = ordinal_suffix n"
  using digit_cases[OF assms(2)] assms by (auto simp: ordinal_suffix_def)

lemma to_ordinal_suffix: "to_ordinal num = Some (dec (unat num) @ ordinal_suffix (unat num))"
proof -
  let ?n = "unat num"
  have "?n < 2 ^ 32" using unsigned_less[where ?'a = nat and ?'b = 32, of num] by simp
  then have "length (dec ?n) < 32" using dec_length[of ?n 10] by simp
  then have str: "to_string_unsigned num = Some (dec ?n)" by (simp add: to_string_unsigned_def to_buf_def max_length_def)
  have u: "unat ((num mod 100) div 10) = ?n mod 100 div 10" "unat (num mod 10) = ?n mod 10"
    by (simp_all add: unat_div unat_mod)
  have m: "?n mod 100 mod 10 = ?n mod 10" by (simp add: mod_mod_cancel)
  have split: "?n mod 100 = 10 * (?n mod 100 div 10) + ?n mod 10" unfolding m[symmetric] by simp
  show ?thesis
  proof (cases "?n mod 100 div 10 = 1")
    case True
    then have "ordinal_suffix ?n = ''th''" using split by (auto simp: ordinal_suffix_def)
    then show ?thesis using True str by (simp add: to_ordinal_def u)
  next
    case False
    have "?n mod 100 div 10 < 10" by (simp add: less_mult_imp_div_less)
    then show ?thesis using ordinal_table[OF False _ _ split] str False by (simp add: to_ordinal_def u)
  qed
qed

end
