(* ===== verification/StimeSpec.thy ===== *)
theory StimeSpec
  imports Stime SstringSpec
begin

text \<open>
  Times of day: reading back what is printed, the parts of a duration, and the differences of two times.
\<close>

text \<open>A time of day as a clock shows it, and the milliseconds since midnight.\<close>

definition valid_time :: "stime \<Rightarrow> bool" where
  "valid_time t \<longleftrightarrow> hour t \<in> {0..<24} \<and> minute t \<in> {0..<60} \<and> second t \<in> {0..<60} \<and> millisecond t \<in> {0..<1000}"

definition midnight_ms :: "stime \<Rightarrow> int" where
  "midnight_ms t = ((hour t * 60 + minute t) * 60 + second t) * 1000 + millisecond t"

lemma midnight_bounds:
  assumes "valid_time t"
  shows "0 \<le> midnight_ms t" "midnight_ms t < 86400000"
  using assms by (auto simp: valid_time_def midnight_ms_def)

lemma time_of_day_valid:
  assumes "valid_time t"
  shows "time_of_day t = Some (Duration (midnight_ms t))"
  using assms by (auto simp: valid_time_def midnight_ms_def time_of_day_def duration_hmsm_def int_ok_def)

lemma stime_minus_valid:
  assumes "valid_time a" "valid_time b"
  shows "stime_minus a b = Some (Duration (midnight_ms a - midnight_ms b))"
  using time_of_day_valid[OF assms(1)] time_of_day_valid[OF assms(2)] midnight_bounds[OF assms(1)] midnight_bounds[OF assms(2)]
  by (simp add: stime_minus_def duration_minus_def long_val_def)

lemma long_to_int_id: "- (2 ^ 31) \<le> x \<Longrightarrow> x < 2 ^ 31 \<Longrightarrow> long_to_int x = x"
  by (simp add: long_to_int_def)

lemma sdiv_pos: "0 \<le> (a :: int) \<Longrightarrow> 0 < b \<Longrightarrow> a sdiv b = a div b \<and> a smod b = a mod b"
  by (simp add: signed_divide_int_def signed_modulo_int_def zsgn_def)

lemma duration_parts:
  assumes "0 \<le> x" "x < 3600000 * 2 ^ 31"
  shows "hours (Duration x) = x div 3600000" "minutes (Duration x) = x mod 3600000 div 60000"
    "seconds (Duration x) = x mod 3600000 mod 60000 div 1000" "milliseconds (Duration x) = x mod 3600000 mod 60000 mod 1000"
proof -
  have "x div 3600000 < 2 ^ 31" using assms by simp
  moreover have "0 \<le> x div 3600000" using assms by simp
  ultimately show "hours (Duration x) = x div 3600000"
    using assms by (simp add: hours_def sdiv_pos long_to_int_id)
  let ?r = "x mod 3600000"
  have r: "0 \<le> ?r" "?r < 3600000" by simp_all
  then have "0 \<le> ?r div 60000" "?r div 60000 < 60" by simp_all
  then show "minutes (Duration x) = ?r div 60000" using assms r by (simp add: minutes_def sdiv_pos long_to_int_id)
  let ?q = "?r mod 60000"
  have q: "0 \<le> ?q" "?q < 60000" by simp_all
  then have "0 \<le> ?q div 1000" "?q div 1000 < 60" by simp_all
  then show "seconds (Duration x) = ?q div 1000" using assms r q by (simp add: seconds_def sdiv_pos long_to_int_id)
  have "0 \<le> ?q mod 1000" "?q mod 1000 < 1000" by simp_all
  then show "milliseconds (Duration x) = ?q mod 1000" using assms r q by (simp add: milliseconds_def sdiv_pos long_to_int_id)
qed

lemma div_mod_add:
  assumes "0 \<le> b" "b < (n :: int)"
  shows "(a * n + b) div n = a" "(a * n + b) mod n = b"
  using assms by simp_all

lemma parts_midnight:
  assumes "valid_time t"
  shows "midnight_ms t div 3600000 = hour t" "midnight_ms t mod 3600000 div 60000 = minute t"
    "midnight_ms t mod 3600000 mod 60000 div 1000 = second t" "midnight_ms t mod 3600000 mod 60000 mod 1000 = millisecond t"
proof -
  have v: "0 \<le> hour t" "0 \<le> minute t" "minute t < 60" "0 \<le> second t" "second t < 60" "0 \<le> millisecond t" "millisecond t < 1000"
    using assms by (auto simp: valid_time_def)
  let ?m = "minute t * 60000 + second t * 1000 + millisecond t" and ?s = "second t * 1000 + millisecond t"
  have e: "midnight_ms t = ?m + hour t * 3600000" by (simp add: midnight_ms_def)
  have mb: "0 \<le> ?m" "?m < 3600000" using v by simp_all
  have d: "midnight_ms t div 3600000 = hour t" "midnight_ms t mod 3600000 = ?m" unfolding e using mb by simp_all
  have sb: "0 \<le> ?s" "?s < 60000" using v by simp_all
  have d2: "?m div 60000 = minute t" "?m mod 60000 = ?s" using div_mod_add[OF sb, of "minute t"] by (simp_all add: add.assoc)
  have d3: "?s div 1000 = second t" "?s mod 1000 = millisecond t" using v div_mod_add[of "millisecond t" 1000 "second t"] by simp_all
  show "midnight_ms t div 3600000 = hour t" by (rule d(1))
  show "midnight_ms t mod 3600000 div 60000 = minute t" unfolding d(2) by (rule d2(1))
  show "midnight_ms t mod 3600000 mod 60000 div 1000 = second t" unfolding d(2) d2(2) by (rule d3(1))
  show "midnight_ms t mod 3600000 mod 60000 mod 1000 = millisecond t" unfolding d(2) d2(2) by (rule d3(2))
qed

lemma split_bounds:
  fixes x h m s ms r q :: int
  assumes "x = h * 3600000 + r" "r = m * 60000 + q" "q = s * 1000 + ms"
    "0 \<le> r" "r < 3600000" "0 \<le> q" "q < 60000" "0 \<le> ms" "ms < 1000" "0 \<le> x" "x < 86400000"
  shows "0 \<le> h \<and> h < 24 \<and> m \<in> {0..<60} \<and> s \<in> {0..<60} \<and> ms \<in> {0..<1000} \<and> ((h * 60 + m) * 60 + s) * 1000 + ms = x"
proof -
  have "0 \<le> h" "h < 24" "0 \<le> m" "m < 60" "0 \<le> s" "s < 60" using assms by linarith+
  moreover have "((h * 60 + m) * 60 + s) * 1000 + ms = x" by (simp add: assms(1-3))
  ultimately show ?thesis using assms(8,9) by simp
qed

lemma split_ms:
  assumes "0 \<le> x" "x < (86400000 :: int)"
  defines "h \<equiv> x div 3600000" and "m \<equiv> x mod 3600000 div 60000" and "s \<equiv> x mod 3600000 mod 60000 div 1000" and "ms \<equiv> x mod 3600000 mod 60000 mod 1000"
  shows "0 \<le> h \<and> h < 24 \<and> m \<in> {0..<60} \<and> s \<in> {0..<60} \<and> ms \<in> {0..<1000} \<and> ((h * 60 + m) * 60 + s) * 1000 + ms = x"
  unfolding h_def m_def s_def ms_def
  by (rule split_bounds[of x _ "x mod 3600000" _ "x mod 3600000 mod 60000"]) (rule div_mult_mod_eq[symmetric] assms(1,2) | simp)+

section \<open>Printing and parsing\<close>

lemma fmt_int_len:
  assumes "0 \<le> n" "n < 10 ^ w" "0 < w"
  shows "length (fmt_int w n) = w"
proof -
  have "nat n < 10 ^ w" using assms by (simp add: nat_less_iff)
  then have "length (dec (nat n)) \<le> w" using assms(3) by (rule dec_length)
  then show ?thesis using assms(1) by (simp add: fmt_int_def Let_def)
qed

lemma written_chars:
  assumes "written_as n s" "0 \<le> n"
  shows "s \<noteq> []" "\<forall>x\<in>set s. x \<notin> set '':.''"
  using assms digit_props(5,6) by (fastforce simp: written_as_def digits_def)+

lemma pieces_sep:
  assumes "\<forall>x\<in>set p. x \<notin> set delims" "c \<in> set delims"
  shows "pieces delims (p @ c # s) = p # pieces delims s"
  using assms by (simp add: pieces_append)

text \<open>Four numbers with delimiters between them.\<close>

lemma split_four:
  assumes "\<forall>p\<in>{a, b, c, d}. p \<noteq> [] \<and> (\<forall>x\<in>set p. x \<notin> set '':.'')"
  shows "split_str (a @ '':'' @ b @ '':'' @ c @ ''.'' @ d) '':.'' True = [a, b, c, d]"
proof -
  have "pieces '':.'' d = [d]" using assms pieces_append[of d "'':.''" "[]"] by simp
  then have "pieces '':.'' (a @ '':'' @ b @ '':'' @ c @ ''.'' @ d) = [a, b, c, d]"
    using assms by (simp add: pieces_sep)
  then show ?thesis using assms by (simp add: split_str_eq)
qed

lemma parse_written:
  assumes "written_as h a" "written_as m b" "written_as s c" "written_as ms d"
    and r: "\<forall>x\<in>{h, m, s, ms}. 0 \<le> x \<and> x < 2 ^ 31"
  shows "parse (a @ '':'' @ b @ '':'' @ c @ ''.'' @ d) t = Some (stime_hmsm h m s ms)"
proof -
  have i: "str_to_int x 10 = (True, n)" if "written_as n x" "0 \<le> n" "n < 2 ^ 31" for x n
    using str_to_integer_written[OF that(1), of "- (2 ^ 31)" "2 ^ 31 - 1" 10] that(2,3) by (simp add: str_to_int_def)
  have "split_str (a @ '':'' @ b @ '':'' @ c @ ''.'' @ d) '':.'' True = [a, b, c, d]"
    using assms written_chars by (intro split_four) blast
  then show ?thesis using i assms by (simp add: parse_def part_def stime_hmsm_def)
qed

section \<open>Properties\<close>

text \<open>
  (C28) A valid time of day is printed without an overrun of the buffer, and parsing the text gives the
  time back.
\<close>

theorem stime_roundtrip:
  assumes "valid_time t"
  shows "runs (stime_to_string t) (\<lambda>s. length s = 12 \<and> stime_str s = Some t)"
proof -
  have v: "hour t \<in> {0..<24}" "minute t \<in> {0..<60}" "second t \<in> {0..<60}" "millisecond t \<in> {0..<1000}"
    using assms by (auto simp: valid_time_def)
  let ?s = "fmt_int 2 (hour t) @ '':'' @ fmt_int 2 (minute t) @ '':'' @ fmt_int 2 (second t) @ ''.'' @ fmt_int 3 (millisecond t)"
  have "length ?s = 12" using v by (simp add: fmt_int_len)
  moreover have "stime_str ?s = Some t"
    using v unfolding stime_str_def by (subst parse_written[OF fmt_int_written fmt_int_written fmt_int_written fmt_int_written]) (auto simp: stime_hmsm_def)
  ultimately show ?thesis by (simp add: stime_to_string_def to_buf_def)
qed

theorem stime_roundtrip_witness:
  "runs (stime_to_string (stime_hmsm 7 5 0 42)) (\<lambda>s. s = ''07:05:00.042'' \<and> stime_str s = Some (stime_hmsm 7 5 0 42))"
proof -
  have "stime_to_string (stime_hmsm 7 5 0 42) = Some ''07:05:00.042''"
    by (simp add: stime_to_string_def stime_hmsm_def to_buf_def fmt_int_def dec.simps digit_def Let_def)
  then show ?thesis using stime_roundtrip[of "stime_hmsm 7 5 0 42"] by (simp add: valid_time_def stime_hmsm_def)
qed

text \<open>
  The parts of the time of day are the fields of the time, and the parts of the difference of two times,
  the later one first, are in their ranges and add up to the exact difference, without overflow.
\<close>

theorem time_difference:
  assumes "valid_time a" "valid_time b" "midnight_ms b \<le> midnight_ms a"
  shows "runs (time_of_day a) (\<lambda>d. hours d = hour a \<and> minutes d = minute a \<and> seconds d = second a \<and> milliseconds d = millisecond a) \<and>
    runs (stime_minus a b) (\<lambda>d. 0 \<le> hours d \<and> hours d < 24 \<and> minutes d \<in> {0..<60} \<and> seconds d \<in> {0..<60} \<and> milliseconds d \<in> {0..<1000} \<and>
      ((hours d * 60 + minutes d) * 60 + seconds d) * 1000 + milliseconds d = midnight_ms a - midnight_ms b)"
proof
  note ma = midnight_bounds[OF assms(1)] and mb = midnight_bounds[OF assms(2)]
  show "runs (time_of_day a) (\<lambda>d. hours d = hour a \<and> minutes d = minute a \<and> seconds d = second a \<and> milliseconds d = millisecond a)"
    using ma duration_parts[of "midnight_ms a"] parts_midnight[OF assms(1)] by (simp add: time_of_day_valid[OF assms(1)])
  let ?x = "midnight_ms a - midnight_ms b"
  have x: "0 \<le> ?x" "?x < 86400000" using ma mb assms(3) by linarith+
  then have p: "hours (Duration ?x) = ?x div 3600000" "minutes (Duration ?x) = ?x mod 3600000 div 60000"
    "seconds (Duration ?x) = ?x mod 3600000 mod 60000 div 1000" "milliseconds (Duration ?x) = ?x mod 3600000 mod 60000 mod 1000"
    by (auto intro: duration_parts)
  show "runs (stime_minus a b) (\<lambda>d. 0 \<le> hours d \<and> hours d < 24 \<and> minutes d \<in> {0..<60} \<and> seconds d \<in> {0..<60} \<and> milliseconds d \<in> {0..<1000} \<and>
      ((hours d * 60 + minutes d) * 60 + seconds d) * 1000 + milliseconds d = ?x)"
    unfolding stime_minus_valid[OF assms(1,2)] runs_Some p by (rule split_ms[OF x])
qed

theorem time_difference_witness:
  "runs (stime_minus (stime_hmsm 10 0 0 5) (stime_hmsm 8 59 59 7)) (\<lambda>d. ((hours d * 60 + minutes d) * 60 + seconds d) * 1000 + milliseconds d = 3600998)"
proof -
  have "valid_time (stime_hmsm 10 0 0 5)" "valid_time (stime_hmsm 8 59 59 7)" "midnight_ms (stime_hmsm 8 59 59 7) \<le> midnight_ms (stime_hmsm 10 0 0 5)"
    by (simp_all add: valid_time_def midnight_ms_def stime_hmsm_def)
  from time_difference[OF this] show ?thesis by (auto elim!: runs_mono simp: midnight_ms_def stime_hmsm_def)
qed

section \<open>Outside the valid times\<close>

text \<open>
  The constructor of a duration computes in \<^verbatim>\<open>int\<close> although the field is a \<^verbatim>\<open>long\<close>: from 597 hours on it overflows.
\<close>

lemma duration_overflow: "duration_hmsm 597 0 0 0 = None"
  by (simp add: duration_hmsm_def int_ok_def)

text \<open>A time with fewer than four parts reads behind the end of the vector; an hour of six digits overruns the buffer.\<close>

lemma parse_short: "parse ''12:30'' t = None"
  by (simp add: parse_def part_def split_str_def)

lemma to_string_overrun: "stime_to_string (stime_hmsm 1000000 0 0 0) = None"
  by (simp add: stime_to_string_def stime_hmsm_def to_buf_def fmt_int_def dec.simps digit_def Let_def)

end
