(* ===== verification/TimeAccSpec.thy ===== *)
theory TimeAccSpec
  imports TimeAcc StimeSpec
begin

text \<open>
  The accumulated times: after any sequence of \<^verbatim>\<open>add\<close> calls the report holds, for each group and item, the
  number of its records and the exact sum of their durations.
\<close>

section \<open>The records\<close>

text \<open>The records of one item, in the order in which they were added.\<close>

definition records_of :: "((string \<times> string) \<times> stime \<times> stime) list \<Rightarrow> string \<times> string \<Rightarrow> (stime \<times> stime) list" where
  "records_of xs k = map snd (filter (\<lambda>p. fst p = k) xs)"

definition add_all :: "((string \<times> string) \<times> stime \<times> stime) list \<Rightarrow> time_accumulator" where
  "add_all xs = fold (\<lambda>(k, v). ta_add k v) xs time_accumulator_new"

lemma fold_ta_add:
  "fold (\<lambda>(k, v). ta_add k v) xs a =
    a\<lparr>ta_data := fold (\<lambda>(k, x) m. map_put k ((case map_of m k of Some v \<Rightarrow> v | None \<Rightarrow> []) @ [x]) m) xs (ta_data a)\<rparr>"
  by (induction xs arbitrary: a) (auto simp: ta_add_def map_at_def)

lemma foldl_snoc: "foldl (\<lambda>vs x. vs @ [x]) ys xs = ys @ xs"
  by (induction xs arbitrary: ys) simp_all

lemma add_all_data:
  "ordered (ta_data (add_all xs))"
  "map_of (ta_data (add_all xs)) k = (if records_of xs k = [] then None else Some (records_of xs k))"
proof -
  have e: "records_of xs k = [] \<longleftrightarrow> \<not> (\<exists>x. (k, x) \<in> set xs)"
    by (force simp: records_of_def filter_empty_conv)
  show "ordered (ta_data (add_all xs))"
    unfolding add_all_def fold_ta_add time_accumulator_new_def
    using std.get_updates(1)[of "[]" "\<lambda>vs x. vs @ [x]" "[]" xs] by simp
  show "map_of (ta_data (add_all xs)) k = (if records_of xs k = [] then None else Some (records_of xs k))"
    unfolding add_all_def fold_ta_add time_accumulator_new_def e
    using std.get_updates(2)[of "[]" "\<lambda>vs x. vs @ [x]" "[]" xs k] by (simp add: foldl_snoc records_of_def)
qed

section \<open>The sums\<close>

definition total_ms :: "(stime \<times> stime) list \<Rightarrow> int" where
  "total_ms rs = (\<Sum>(a, b)\<leftarrow>rs. midnight_ms b - midnight_ms a)"

lemma sum_records_valid:
  assumes "\<forall>(a, b)\<in>set rs. valid_time a \<and> valid_time b"
    and "\<bar>dur_milliseconds d\<bar> + 86400000 * int (length rs) < 2 ^ 63"
  shows "sum_records rs d = Some (Duration (dur_milliseconds d + total_ms rs))"
  using assms
proof (induction rs arbitrary: d)
  case (Cons r rs)
  obtain a b where r: "r = (a, b)" by fastforce
  let ?x = "midnight_ms b - midnight_ms a"
  have v: "valid_time a" "valid_time b" using Cons.prems(1) r by auto
  have x: "\<bar>?x\<bar> \<le> 86400000" using midnight_bounds[OF v(1)] midnight_bounds[OF v(2)] by linarith
  have "duration_plus d (Duration ?x) = Some (Duration (dur_milliseconds d + ?x))"
    using x Cons.prems(2) by (simp add: duration_plus_def long_val_def) linarith
  moreover have "\<bar>dur_milliseconds d + ?x\<bar> + 86400000 * int (length rs) < 2 ^ 63" using x Cons.prems(2) by simp
  ultimately show ?case
    using Cons.IH[of "Duration (dur_milliseconds d + ?x)"] Cons.prems(1) by (simp add: r stime_minus_valid[OF v(2,1)] total_ms_def)
qed (simp add: total_ms_def)

section \<open>The report\<close>

text \<open>The entry for a group and an item.\<close>

definition lookup_result :: "(string \<times> result_map) list \<Rightarrow> string \<Rightarrow> string \<Rightarrow> result option" where
  "lookup_result r g i = map_of (map_at [] r g) i"

definition short :: "(stime \<times> stime) list \<Rightarrow> bool" where
  "short rs \<longleftrightarrow> (\<forall>(a, b)\<in>set rs. valid_time a \<and> valid_time b) \<and> length rs < 2 ^ 36"

lemma accumulate_from_valid:
  assumes "ordered data" "\<forall>(k, rs)\<in>set data. short rs"
  shows "\<exists>r. accumulate_from data r0 = Some r \<and>
    (\<forall>g i. lookup_result r g i = (case map_of data (g, i) of
       Some rs \<Rightarrow> Some (length rs, Duration (total_ms rs)) | None \<Rightarrow> lookup_result r0 g i))"
  using assms
proof (induction data r0 rule: accumulate_from.induct)
  case (2 g0 i0 rs data r0)
  have "short rs" using 2(3) by simp
  then have s: "sum_records rs duration_zero = Some (Duration (total_ms rs))"
    using sum_records_valid[of rs duration_zero] by (simp add: duration_zero_def short_def)
  let ?r = "map_put g0 (map_put i0 (length rs, Duration (total_ms rs)) (map_at [] r0 g0)) r0"
  have step: "lookup_result ?r g i = (if (g, i) = (g0, i0) then Some (length rs, Duration (total_ms rs)) else lookup_result r0 g i)" for g i
    by (simp add: lookup_result_def map_at_def map_of_put)
  have no: "map_of data (g0, i0) = None" using 2(2) by (force simp: map_of_eq_None_iff)
  obtain r where r: "accumulate_from data ?r = Some r"
    "\<forall>g i. lookup_result r g i = (case map_of data (g, i) of Some rs \<Rightarrow> Some (length rs, Duration (total_ms rs)) | None \<Rightarrow> lookup_result ?r g i)"
    using 2(1)[OF s] 2(2,3) by auto
  show ?case using r no by (auto simp: s step split: option.splits)
qed simp

section \<open>Properties\<close>

text \<open>
  (C29) After any sequence of \<^verbatim>\<open>add\<close> calls with valid times, \<^verbatim>\<open>accumulate\<close> stores for every group and item the
  number of its records and the exact sum of the differences between end and start, and nothing else.
\<close>

theorem accumulate_sums:
  assumes "\<forall>(k, a, b)\<in>set xs. valid_time a \<and> valid_time b" "length xs < 2 ^ 36"
  shows "runs (accumulate (add_all xs)) (\<lambda>acc. ta_data acc = ta_data (add_all xs) \<and>
    (\<forall>g i. let rs = records_of xs (g, i) in lookup_result (ta_result acc) g i =
      (if rs = [] then None else Some (length rs, Duration (\<Sum>(a, b)\<leftarrow>rs. midnight_ms b - midnight_ms a)))))"
proof -
  have s: "short (records_of xs k)" for k
  proof -
    have "length (records_of xs k) < 2 ^ 36"
      using le_less_trans[OF length_filter_le assms(2)] by (simp add: records_of_def)
    then show ?thesis using assms(1) by (auto simp: short_def records_of_def)
  qed
  have "short rs" if "(k, rs) \<in> set (ta_data (add_all xs))" for k rs
    using map_of_fst[OF add_all_data(1) that] s[of k] by (auto simp: add_all_data(2) split: if_splits)
  then obtain r where r: "accumulate_from (ta_data (add_all xs)) [] = Some r"
    "\<forall>g i. lookup_result r g i = (case map_of (ta_data (add_all xs)) (g, i) of
       Some rs \<Rightarrow> Some (length rs, Duration (total_ms rs)) | None \<Rightarrow> lookup_result [] g i)"
    using accumulate_from_valid[OF add_all_data(1), of xs "[]"] by blast
  have "lookup_result [] g i = None" for g i by (simp add: lookup_result_def map_at_def)
  then show ?thesis using r by (simp add: accumulate_def add_all_data(2) Let_def total_ms_def)
qed

theorem accumulate_sums_witness:
  "runs (accumulate (add_all [((''db'', ''read''), stime_hmsm 9 0 0 0, stime_hmsm 9 0 1 500),
      ((''db'', ''write''), stime_hmsm 9 1 0 0, stime_hmsm 9 1 0 7), ((''db'', ''read''), stime_hmsm 10 0 0 0, stime_hmsm 9 59 59 0)]))
    (\<lambda>acc. lookup_result (ta_result acc) ''db'' ''read'' = Some (2, Duration 500))"
  by (rule runs_mono[OF accumulate_sums]) (simp_all add: valid_time_def stime_hmsm_def records_of_def midnight_ms_def Let_def)

text \<open>
  A total that is negative, as for an interval over midnight, is reported as an item correctly but the
  total of the group is a \<^verbatim>\<open>size_t\<close> and wraps.
\<close>

lemma long_to_double_exact:
  assumes "\<bar>x\<bar> < 2 ^ 53"
  shows "long_to_double x = x"
proof -
  have "nat \<bar>x\<bar> < 2 ^ 53" using assms by (simp add: nat_less_iff)
  then have "floorlog 2 (nat \<bar>x\<bar>) \<le> 53" by (intro floorlog_leI) simp_all
  then show ?thesis by (simp add: long_to_double_def round_shift_def sgn_mult_abs)
qed

lemma negative_total_wraps:
  "print_items [(''n'', (1, Duration (-5)))] 0 0 =
    Some (setw 30 ''n'' @ setw 20 ''1'' @ setw 10 ''-5'' @ ''\<newline>'', 1, 18446744073709551611)"
  by (simp add: total_milliseconds_def long_to_double_exact long_val_def fmt_int_def dec.simps digit_def Let_def)

end
