(* ===== verification/StopWatch.thy ===== *)
theory StopWatch
  imports TimeAccSpec
begin

text \<open>
  The stop watch of \<^verbatim>\<open>cpp_console/stop_watch.h\<close> and the logger of \<^verbatim>\<open>cpp_console/slog.h\<close>, two clients of the times of
  day. The time of the system is an argument of the operations that read it.
\<close>

section \<open>The stop watch\<close>

record stop_watch =
  sw_running :: bool
  sw_duration :: stime_duration
  sw_time_point :: stime

definition new_stop_watch :: stop_watch where
  "new_stop_watch = \<lparr>sw_running = False, sw_duration = duration_zero, sw_time_point = stime_zero\<rparr>"

definition is_running :: "stop_watch \<Rightarrow> bool" where
  "is_running w = sw_running w"

definition sw_reset :: "stop_watch \<Rightarrow> stop_watch" where
  "sw_reset w = w\<lparr>sw_duration := Duration 0, sw_running := False\<rparr>"

definition sw_restart :: "stime \<Rightarrow> stop_watch \<Rightarrow> stop_watch" where
  "sw_restart now w = w\<lparr>sw_duration := Duration 0, sw_time_point := now, sw_running := True\<rparr>"

definition sw_start :: "stime \<Rightarrow> stop_watch \<Rightarrow> stop_watch" where
  "sw_start now w = (if \<not> sw_running w then w\<lparr>sw_time_point := now, sw_running := True\<rparr> else w)"

definition sw_stop :: "stime \<Rightarrow> stop_watch \<Rightarrow> stop_watch option" where
  "sw_stop now w =
     (if sw_running w then do {
        d \<leftarrow> stime_minus now (sw_time_point w);
        x \<leftarrow> duration_plus (sw_duration w) d;
        Some (w\<lparr>sw_duration := x, sw_running := False\<rparr>) }
      else Some w)"

definition sw_elapsed :: "stop_watch \<Rightarrow> int option" where
  "sw_elapsed w = long_val (total_milliseconds (sw_duration w))"

section \<open>The logger\<close>

text \<open>What has been written to the file and the number of records, an \<^verbatim>\<open>int\<close>.\<close>

record simple_logger =
  log_text :: string
  rec_num :: int

definition new_simple_logger :: simple_logger where
  "new_simple_logger = \<lparr>log_text = [], rec_num = 0\<rparr>"

definition log_append :: "stime \<Rightarrow> string \<Rightarrow> int \<Rightarrow> simple_logger \<Rightarrow> simple_logger option" where
  "log_append now msg line l = do {
     time_str \<leftarrow> stime_to_string now;
     n \<leftarrow> int_ok (rec_num l + 1);
     Some (l\<lparr>rec_num := n, log_text := log_text l @ ''['' @ fmt_int 0 n @ '']'' @ ''['' @ time_str @ '']''
       @ ''['' @ fmt_int 0 line @ '']'' @ '' -> '' @ msg @ ''\<newline>''\<rparr>) }"

section \<open>Measuring\<close>

text \<open>A sequence of intervals, each started and stopped.\<close>

fun measure_all :: "(stime \<times> stime) list \<Rightarrow> stop_watch \<Rightarrow> stop_watch option" where
  "measure_all [] w = Some w"
| "measure_all (r # rs) w = do { w \<leftarrow> sw_stop (snd r) (sw_start (fst r) w); measure_all rs w }"

lemma measure_all_sum:
  assumes "\<not> sw_running w"
  shows "map_option (\<lambda>w'. (sw_running w', sw_duration w')) (measure_all rs w) = map_option (\<lambda>d. (False, d)) (sum_records rs (sw_duration w))"
  using assms
proof (induction rs arbitrary: w)
  case (Cons r rs)
  show ?case
  proof (cases "Option.bind (stime_minus (snd r) (fst r)) (duration_plus (sw_duration w))")
    case None
    then show ?thesis using Cons.prems by (cases "stime_minus (snd r) (fst r)") (auto simp: sw_start_def sw_stop_def)
  next
    case (Some x)
    then obtain d where d: "stime_minus (snd r) (fst r) = Some d" "duration_plus (sw_duration w) d = Some x" by (auto simp: bind_Some_conv)
    let ?w = "w\<lparr>sw_running := False, sw_duration := x, sw_time_point := fst r\<rparr>"
    have "sw_stop (snd r) (sw_start (fst r) w) = Some ?w" using Cons.prems d by (simp add: sw_start_def sw_stop_def)
    then show ?thesis using Cons.IH[of ?w] d by simp
  qed
qed simp

section \<open>Properties\<close>

text \<open>
  The stop watch shows the exact sum of the intervals between its starts and stops, for intervals within a day; a second
  start while it runs and a second stop change nothing.
\<close>

lemma stop_watch_sums:
  assumes "\<forall>(a, b)\<in>set rs. valid_time a \<and> valid_time b" "length rs < 2 ^ 20"
  shows "runs (measure_all rs new_stop_watch) (\<lambda>w. \<not> is_running w \<and> sw_elapsed w = Some (\<Sum>(a, b)\<leftarrow>rs. midnight_ms b - midnight_ms a))"
    and "sw_start t (sw_start t' w) = sw_start t' w"
    and "sw_stop t' w = Some w' \<Longrightarrow> sw_stop t w' = Some w'"
proof -
  have s: "sum_records rs duration_zero = Some (Duration (total_ms rs))"
    using sum_records_valid[of rs duration_zero] assms by (simp add: duration_zero_def)
  then obtain w where w: "measure_all rs new_stop_watch = Some w" "\<not> sw_running w" "sw_duration w = Duration (total_ms rs)"
    using measure_all_sum[of new_stop_watch rs] by (auto simp: new_stop_watch_def)
  have "\<bar>total_ms rs\<bar> \<le> 86400000 * int (length rs)" using assms(1)
  proof (induction rs)
    case (Cons r rs)
    obtain a b where r: "r = (a, b)" by fastforce
    have "\<bar>midnight_ms b - midnight_ms a\<bar> \<le> 86400000" using Cons.prems midnight_bounds[of a] midnight_bounds[of b] r by auto
    then show ?case using Cons by (simp add: total_ms_def r abs_if split: if_splits)
  qed (simp add: total_ms_def)
  moreover have "86400000 * int (length rs) < 2 ^ 53" using assms(2) by simp
  ultimately have "\<bar>total_ms rs\<bar> < 2 ^ 53" by linarith
  then have "sw_elapsed w = Some (total_ms rs)"
    using w(3) by (simp add: sw_elapsed_def total_milliseconds_def long_to_double_exact long_val_def abs_less_iff)
  then show "runs (measure_all rs new_stop_watch) (\<lambda>w. \<not> is_running w \<and> sw_elapsed w = Some (\<Sum>(a, b)\<leftarrow>rs. midnight_ms b - midnight_ms a))"
    using w(1,2) by (simp add: is_running_def total_ms_def)
  show "sw_start t (sw_start t' w) = sw_start t' w" for w by (simp add: sw_start_def)
  show "sw_stop t' w = Some w' \<Longrightarrow> sw_stop t w' = Some w'" for w by (auto simp: sw_stop_def bind_Some_conv split: if_splits)
qed

text \<open>The records of the log are numbered from 1 on, one line each.\<close>

lemma log_append_first:
  assumes "valid_time now"
  shows "runs (log_append now msg line new_simple_logger) (\<lambda>l. rec_num l = 1)"
proof -
  obtain s where "stime_to_string now = Some s" using assms fmt_int_len[of _ 2] fmt_int_len[of _ 3]
    by (simp add: stime_to_string_def to_buf_def valid_time_def)
  then show ?thesis by (simp add: log_append_def new_simple_logger_def int_ok_def)
qed

end
