(* ===== verification/SrcFile.thy ===== *)
theory SrcFile
  imports SstringSpec
begin

text \<open>
  The source text of the preprocessor, \<^verbatim>\<open>preprocess/SrcLine\<close>, \<^verbatim>\<open>SrcFile\<close> and \<^verbatim>\<open>SrcIter\<close>: a file is
  read into lines of words, and the words of all lines are accessed by an index and by iterators. Sizes and
  indices are natural numbers (a \<^verbatim>\<open>size_t\<close> counts words in memory), the number of a line is an \<^verbatim>\<open>int\<close>. An access
  through an invalid iterator is \<open>None\<close>. The contents of a file is an argument, \<open>None\<close> if it cannot be opened.
\<close>

section \<open>Lines\<close>

record src_line =
  sl_line :: int
  sl_file :: string
  sl_data :: "string list"

definition new_src_line :: "string \<Rightarrow> string \<Rightarrow> int \<Rightarrow> src_line" where
  "new_src_line str file line =
     (let parts = split_str str '' '' True in \<lparr>sl_line = line, sl_file = file, sl_data = parts\<rparr>)"

definition sl_size :: "src_line \<Rightarrow> nat" where
  "sl_size l = length (sl_data l)"

section \<open>Files\<close>

record src_file =
  sf_size :: nat
  sf_data :: "src_line list"

definition new_src_file :: src_file where
  "new_src_file = \<lparr>sf_size = 0, sf_data = []\<rparr>"

text \<open>
  \<^verbatim>\<open>istream::getline\<close> with a buffer of \<open>n\<close> bytes on a stream that still holds \<open>s\<close>: the line and the rest, or
  \<open>None\<close> if the stream is exhausted or if the line does not fit, in which case the stream is in the state \<^verbatim>\<open>failbit\<close>.
\<close>

definition getline :: "nat \<Rightarrow> string \<Rightarrow> (string \<times> string) option" where
  "getline n s =
     (let l = takeWhile (\<lambda>c. c \<noteq> CHR ''\<newline>'') s in
      if s = [] \<or> length l > n - 1 then None else Some (l, drop (length l + 1) s))"

text \<open>The buffer as a \<^verbatim>\<open>char*\<close>: the text ends at the first NUL.\<close>

definition c_str :: "string \<Rightarrow> string" where
  "c_str = takeWhile (\<lambda>c. c \<noteq> CHR 0x00)"

function read_loop :: "string \<Rightarrow> string \<Rightarrow> int \<Rightarrow> src_file \<Rightarrow> src_file" where
  "read_loop filename s count f =
     (case getline 256 s of
        None \<Rightarrow> f
      | Some (buf, s) \<Rightarrow>
          let count = count + 1;
            line = new_src_line (c_str buf) filename count in
          read_loop filename s count (f\<lparr>sf_data := sf_data f @ [line], sf_size := sf_size f + sl_size line\<rparr>))"
  by pat_completeness auto
termination
  by (relation "measure (\<lambda>(_, s, _, _). length s)") (auto simp: getline_def Let_def split: if_splits)

declare read_loop.simps [simp del]

definition src_read :: "string \<Rightarrow> string option \<Rightarrow> src_file \<Rightarrow> src_file" where
  "src_read filename content f = (case content of None \<Rightarrow> f | Some s \<Rightarrow> read_loop filename s 0 f)"

text \<open>The loop over the lines in \<^verbatim>\<open>operator[]\<close>: the number of the line and the index within it.\<close>

fun find_line :: "src_line list \<Rightarrow> nat \<Rightarrow> nat \<times> nat" where
  "find_line [] index = (0, index)"
| "find_line (l # ls) index =
     (if index < sl_size l then (0, index)
      else let (i, j) = find_line ls (index - sl_size l) in (Suc i, j))"

definition src_at :: "src_file \<Rightarrow> nat \<Rightarrow> string option" where
  "src_at f index =
     (let (i, j) = find_line (sf_data f) index in
      if i < length (sf_data f) \<and> j < sl_size (sf_data f ! i) then Some (sl_data (sf_data f ! i) ! j) else None)"

text \<open>An assignment through the reference that \<^verbatim>\<open>operator[]\<close> returns.\<close>

definition src_set :: "src_file \<Rightarrow> nat \<Rightarrow> string \<Rightarrow> src_file option" where
  "src_set f index v =
     (let (i, j) = find_line (sf_data f) index in
      if i < length (sf_data f) \<and> j < sl_size (sf_data f ! i)
      then Some (f\<lparr>sf_data := (sf_data f)[i := (sf_data f ! i)\<lparr>sl_data := (sl_data (sf_data f ! i))[j := v]\<rparr>]\<rparr>) else None)"

definition line_count :: "src_file \<Rightarrow> nat" where
  "line_count f = length (sf_data f)"

section \<open>Iterators\<close>

text \<open>\<open>it_data\<close> is the address of the file; the file itself is an argument of the accesses.\<close>

record src_iter =
  it_index :: nat
  it_data :: ptr

definition src_begin :: "ptr \<Rightarrow> src_iter" where
  "src_begin this = \<lparr>it_index = 0, it_data = this\<rparr>"

definition src_end :: "ptr \<Rightarrow> src_file \<Rightarrow> src_iter" where
  "src_end this f = \<lparr>it_index = sf_size f, it_data = this\<rparr>"

definition it_deref :: "src_file heap \<Rightarrow> src_iter \<Rightarrow> string option" where
  "it_deref h it = do { f \<leftarrow> rd h (it_data it); src_at f (it_index it) }"

definition it_eq :: "src_iter \<Rightarrow> src_iter \<Rightarrow> bool" where
  "it_eq a b \<longleftrightarrow> it_data a = it_data b \<and> it_index a = it_index b"

definition it_incr :: "src_iter \<Rightarrow> src_iter" where
  "it_incr it = it\<lparr>it_index := it_index it + 1\<rparr>"

definition it_post_incr :: "src_iter \<Rightarrow> src_iter \<times> src_iter" where
  "it_post_incr it = (let tmp = it in (tmp, it_incr it))"

text \<open>The program in \<^verbatim>\<open>Main.cc\<close>: it prints every word of a file with its length.\<close>

partial_function (option) main_loop :: "src_file heap \<Rightarrow> ptr \<Rightarrow> src_iter \<Rightarrow> string \<Rightarrow> string option" where
  "main_loop h sf it out = do {
     f \<leftarrow> rd h sf;
     if it_eq it (src_end sf f) then Some out
     else do {
       w \<leftarrow> it_deref h it;
       main_loop h sf (snd (it_post_incr it)) (out @ w @ '' * '' @ dec (length w) @ ''\<newline>'') }}"

definition src_main :: "ptr \<Rightarrow> string option \<Rightarrow> string option" where
  "src_main sf content = do {
     let f = src_read ''Main.cc'' content new_src_file;
     main_loop [sf \<mapsto> f] sf (src_begin sf) [] }"

end
