(* ===== verification/SrcFileSpec.thy ===== *)
theory SrcFileSpec
  imports SrcFile
begin

text \<open>
  The words of a source file: the index and the iterators against the concatenation of the lines, and the words
  that are read against the text of the file.
\<close>

section \<open>The sequence of words\<close>

definition src_words :: "src_file \<Rightarrow> string list" where
  "src_words f = concat (map sl_data (sf_data f))"

text \<open>The size is kept exact.\<close>

definition src_ok :: "src_file \<Rightarrow> bool" where
  "src_ok f \<longleftrightarrow> sf_size f = length (src_words f)"

lemma find_line_within:
  assumes "index < length (concat (map sl_data ls))" "find_line ls index = (i, j)"
  shows "i < length ls" "j < sl_size (ls ! i)" "concat (map sl_data ls) ! index = sl_data (ls ! i) ! j"
    "concat (map sl_data (ls[i := (ls ! i)\<lparr>sl_data := (sl_data (ls ! i))[j := v]\<rparr>])) = (concat (map sl_data ls))[index := v]"
proof -
  have "i < length ls \<and> j < sl_size (ls ! i) \<and> concat (map sl_data ls) ! index = sl_data (ls ! i) ! j \<and>
    concat (map sl_data (ls[i := (ls ! i)\<lparr>sl_data := (sl_data (ls ! i))[j := v]\<rparr>])) = (concat (map sl_data ls))[index := v]"
    using assms
  proof (induction ls arbitrary: index i j)
    case (Cons l ls)
    show ?case
    proof (cases "index < sl_size l")
      case True
      then show ?thesis using Cons.prems by (auto simp: sl_size_def nth_append list_update_append)
    next
      case False
      obtain i' j' where ij: "find_line ls (index - sl_size l) = (i', j')" by fastforce
      then have "i = Suc i'" "j = j'" using False Cons.prems(2) by auto
      moreover have "index - sl_size l < length (concat (map sl_data ls))" using False Cons.prems(1) by (auto simp: sl_size_def)
      ultimately show ?thesis using Cons.IH[OF _ ij] False by (simp add: sl_size_def nth_append list_update_append)
    qed
  qed simp
  then show "i < length ls" "j < sl_size (ls ! i)" "concat (map sl_data ls) ! index = sl_data (ls ! i) ! j"
    "concat (map sl_data (ls[i := (ls ! i)\<lparr>sl_data := (sl_data (ls ! i))[j := v]\<rparr>])) = (concat (map sl_data ls))[index := v]"
    by blast+
qed

lemma find_line_beyond:
  assumes "length (concat (map sl_data ls)) \<le> index"
  shows "fst (find_line ls index) = length ls"
  using assms
proof (induction ls arbitrary: index)
  case (Cons l ls)
  obtain i j where ij: "find_line ls (index - sl_size l) = (i, j)" by fastforce
  have "length (concat (map sl_data ls)) \<le> index - sl_size l" "\<not> index < sl_size l" using Cons.prems by (auto simp: sl_size_def)
  then show ?case using Cons.IH[of "index - sl_size l"] ij by simp
qed simp

lemma src_at_eq: "src_at f i = (if i < length (src_words f) then Some (src_words f ! i) else None)"
proof (cases "i < length (src_words f)")
  case True
  obtain a b where ab: "find_line (sf_data f) i = (a, b)" by fastforce
  show ?thesis using find_line_within(1-3)[OF _ ab] True by (simp add: src_at_def ab src_words_def)
next
  case False
  then have "fst (find_line (sf_data f) i) = length (sf_data f)" by (intro find_line_beyond) (simp add: src_words_def)
  then show ?thesis using False by (auto simp: src_at_def split: prod.splits)
qed

lemma src_set_eq:
  assumes "i < length (src_words f)"
  shows "runs (src_set f i v) (\<lambda>g. src_words g = (src_words f)[i := v] \<and> sf_size g = sf_size f \<and> line_count g = line_count f)"
proof -
  obtain a b where ab: "find_line (sf_data f) i = (a, b)" by fastforce
  show ?thesis using find_line_within[OF _ ab] assms by (simp add: src_set_def ab src_words_def line_count_def)
qed

section \<open>Reading\<close>

lemma read_loop_ok: "src_ok f \<Longrightarrow> src_ok (read_loop filename s count f)"
proof (induction filename s count f rule: read_loop.induct)
  case (1 filename s count f)
  show ?case
  proof (cases "getline 256 s")
    case (Some p)
    obtain buf rest where p: "p = (buf, rest)" by fastforce
    let ?line = "new_src_line (c_str buf) filename (count + 1)"
    have "src_ok (f\<lparr>sf_data := sf_data f @ [?line], sf_size := sf_size f + sl_size ?line\<rparr>)"
      using 1(2) by (simp add: src_ok_def src_words_def sl_size_def)
    then show ?thesis using 1(1)[OF Some p[symmetric] refl refl] Some p by (simp add: read_loop.simps[of filename s] Let_def)
  qed (use 1 in \<open>simp add: read_loop.simps\<close>)
qed

text \<open>The text of a file with short lines: every line ends with a newline.\<close>

definition short_lines :: "string list \<Rightarrow> bool" where
  "short_lines ls \<longleftrightarrow> (\<forall>l\<in>set ls. length l \<le> 255 \<and> CHR ''\<newline>'' \<notin> set l \<and> CHR 0x00 \<notin> set l)"

definition text_of :: "string list \<Rightarrow> string" where
  "text_of ls = concat (map (\<lambda>l. l @ ''\<newline>'') ls)"

lemma getline_line:
  assumes "length l \<le> 255" "CHR ''\<newline>'' \<notin> set l"
  shows "getline 256 (l @ ''\<newline>'' @ s) = Some (l, s)"
proof -
  have "takeWhile (\<lambda>c. c \<noteq> CHR ''\<newline>'') (l @ ''\<newline>'' @ s) = l" using assms(2) by (subst takeWhile_append2) auto
  then show ?thesis using assms(1) by (simp add: getline_def)
qed

lemma c_str_id: "CHR 0x00 \<notin> set l \<Longrightarrow> c_str l = l"
  by (simp add: c_str_def takeWhile_eq_all_conv) metis

text \<open>The lines with their numbers.\<close>

fun numbered :: "string \<Rightarrow> int \<Rightarrow> string list \<Rightarrow> src_line list" where
  "numbered filename count [] = []"
| "numbered filename count (l # ls) = new_src_line l filename (count + 1) # numbered filename (count + 1) ls"

lemma numbered_data: "map sl_data (numbered filename count ls) = map (\<lambda>l. split_str l '' '' True) ls"
  by (induction ls arbitrary: count) (simp_all add: new_src_line_def)

lemma read_loop_lines:
  assumes "short_lines ls"
  shows "read_loop filename (text_of ls) count f =
    f\<lparr>sf_data := sf_data f @ numbered filename count ls, sf_size := sf_size f + length (concat (map (\<lambda>l. split_str l '' '' True) ls))\<rparr>"
  using assms
proof (induction ls arbitrary: count f)
  case Nil
  then show ?case by (simp add: text_of_def read_loop.simps getline_def)
next
  case (Cons l ls)
  let ?line = "new_src_line l filename (count + 1)"
  have l: "getline 256 (text_of (l # ls)) = Some (l, text_of ls)" "c_str l = l"
    using Cons.prems getline_line[of l] by (auto simp: short_lines_def text_of_def c_str_id)
  have n: "sl_size ?line = length (split_str l '' '' True)" by (simp add: new_src_line_def sl_size_def)
  show ?case using Cons.IH[of "count + 1" "f\<lparr>sf_data := sf_data f @ [?line], sf_size := sf_size f + sl_size ?line\<rparr>"] Cons.prems
    by (subst read_loop.simps) (simp add: l n short_lines_def add.assoc Let_def)
qed

lemma read_words:
  assumes "short_lines ls"
  shows "src_words (src_read name (Some (text_of ls)) new_src_file) = concat (map (\<lambda>l. split_str l '' '' True) ls)"
  using read_loop_lines[OF assms] by (simp add: src_read_def new_src_file_def src_words_def numbered_data)

section \<open>Iteration\<close>

lemma main_loop_rest:
  assumes "src_ok f" "sf \<noteq> NULL" "i \<le> length (src_words f)"
  shows "main_loop [sf \<mapsto> f] sf \<lparr>it_index = i, it_data = sf\<rparr> out =
    Some (out @ concat (map (\<lambda>w. w @ '' * '' @ dec (length w) @ ''\<newline>'') (drop i (src_words f))))"
  using assms(3)
proof (induction "length (src_words f) - i" arbitrary: i out)
  case 0
  then show ?case using assms(1,2) by (subst main_loop.simps) (simp add: rd_Some it_eq_def src_end_def src_ok_def)
next
  case (Suc n)
  have lt: "i < length (src_words f)" using Suc(2) by simp
  have "n = length (src_words f) - Suc i" using Suc(2) by simp
  then show ?case using Suc(1)[of "Suc i"] lt assms(1,2)
    by (subst main_loop.simps)
      (simp add: rd_Some it_eq_def src_end_def src_ok_def it_deref_def src_at_eq it_post_incr_def it_incr_def Cons_nth_drop_Suc[symmetric])
qed

section \<open>Properties\<close>

text \<open>
  The words of a file are those of the lines that were read: after reading files into an empty object the
  size is exact, \<^verbatim>\<open>operator[]\<close> with an index below it is the word of that index in the sequence of all words and
  an assignment through it changes this word alone, and an access beyond is undefined.
\<close>

theorem src_index:
  assumes "f = fold (\<lambda>(name, content). src_read name content) files new_src_file"
  shows "sf_size f = length (src_words f) \<and>
    (\<forall>i. src_at f i = (if i < sf_size f then Some (src_words f ! i) else None)) \<and>
    (\<forall>i v. i < sf_size f \<longrightarrow> runs (src_set f i v) (\<lambda>g. src_words g = (src_words f)[i := v] \<and> sf_size g = sf_size f \<and> line_count g = line_count f))"
proof -
  have "src_ok (fold (\<lambda>(name, content). src_read name content) files g)" if "src_ok g" for g
    using that
  proof (induction files arbitrary: g)
    case (Cons p files)
    then show ?case by (cases p; cases "snd p") (auto simp: src_read_def intro: read_loop_ok)
  qed simp
  then have "src_ok f" using assms by (simp add: src_ok_def new_src_file_def src_words_def)
  then have "sf_size f = length (src_words f)" by (simp add: src_ok_def)
  then show ?thesis using src_set_eq[of _ f] by (simp add: src_at_eq)
qed

theorem src_index_witness:
  "src_at (src_read ''f'' (Some ''a bc  d\<newline>\<newline>efg\<newline>'') new_src_file) 2 = Some ''d'' \<and>
   src_at (src_read ''f'' (Some ''a bc  d\<newline>\<newline>efg\<newline>'') new_src_file) 4 = None"
proof -
  let ?f = "src_read ''f'' (Some ''a bc  d\<newline>\<newline>efg\<newline>'') new_src_file"
  have "text_of [''a bc  d'', [], ''efg''] = ''a bc  d\<newline>\<newline>efg\<newline>''" by (simp add: text_of_def)
  then have "src_words ?f = [''a'', ''bc'', ''d'', ''efg'']"
    using read_words[of "[''a bc  d'', [], ''efg'']" "''f''"] by (simp add: short_lines_def split_str_def)
  then show ?thesis using src_index[of ?f "[(''f'', Some ''a bc  d\<newline>\<newline>efg\<newline>'')]"] by simp
qed

text \<open>
  (C30) For a text of lines of at most 255 bytes, the program reads every line with its number and prints
  the words between blanks in order; iterating from \<^verbatim>\<open>begin\<close> to \<^verbatim>\<open>end\<close> ends.
\<close>

theorem src_main_prints:
  assumes "short_lines ls" "sf \<noteq> NULL"
  shows "src_main sf (Some (text_of ls)) =
    Some (concat (map (\<lambda>w. w @ '' * '' @ dec (length w) @ ''\<newline>'') (concat (map (\<lambda>l. filter (\<lambda>p. p \<noteq> []) (pieces '' '' l)) ls))))"
proof -
  let ?f = "src_read ''Main.cc'' (Some (text_of ls)) new_src_file"
  have "src_ok ?f" by (simp add: src_read_def) (rule read_loop_ok, simp add: src_ok_def new_src_file_def src_words_def)
  moreover have "src_words ?f = concat (map (\<lambda>l. split_str l '' '' True) ls)" by (rule read_words[OF assms(1)])
  moreover have "split_str l '' '' True = filter (\<lambda>p. p \<noteq> []) (pieces '' '' l)" for l
    by (simp add: split_str_eq)
  ultimately show ?thesis using main_loop_rest[of ?f sf 0 "[]"] assms(2) by (simp add: src_main_def src_begin_def)
qed

theorem src_main_prints_witness:
  "src_main 4096 (Some ''int x;\<newline>'') = Some ''int * 3\<newline>x; * 2\<newline>''"
  using src_main_prints[of "[''int x;'']" 4096] by (simp add: short_lines_def text_of_def dec.simps digit_def)

text \<open>A line of more than 255 bytes ends the reading: the rest of the file is silently dropped.\<close>

lemma long_line_drops:
  assumes "length l > 255" "CHR ''\<newline>'' \<notin> set l"
  shows "src_read name (Some (l @ ''\<newline>'' @ s)) new_src_file = new_src_file"
proof -
  have "takeWhile (\<lambda>c. c \<noteq> CHR ''\<newline>'') (l @ ''\<newline>'' @ s) = l" using assms(2) by (subst takeWhile_append2) auto
  then have "getline 256 (l @ ''\<newline>'' @ s) = None" using assms(1) by (simp add: getline_def)
  then show ?thesis by (simp add: src_read_def read_loop.simps)
qed

end
