(* ===== verification/SrcConst.thy ===== *)
theory SrcConst
  imports SrcFileSpec
begin

text \<open>
  The constant iterator of the preprocessor, \<^verbatim>\<open>preprocess/SrcCIter.cc\<close>, and the generic selections of \<^verbatim>\<open>CGeneric.cc\<close>. The two
  iterators over the words of a file keep one contract, the locale \<open>word_iterator\<close>: going from the beginning to the end
  visits the words of the file in order, once each.
\<close>

section \<open>The code\<close>

record src_citer =
  cit_index :: nat
  cit_data :: ptr

definition new_src_citer :: src_citer where
  "new_src_citer = \<lparr>cit_index = 0, cit_data = NULL\<rparr>"

definition src_citer_at :: "ptr \<Rightarrow> nat \<Rightarrow> src_citer" where
  "src_citer_at data index = \<lparr>cit_index = index, cit_data = data\<rparr>"

definition src_citer_copy :: "src_citer \<Rightarrow> src_citer" where
  "src_citer_copy it = \<lparr>cit_index = cit_index it, cit_data = cit_data it\<rparr>"

definition src_cbegin :: "ptr \<Rightarrow> src_citer" where
  "src_cbegin this = src_citer_at this 0"

definition src_cend :: "ptr \<Rightarrow> src_file \<Rightarrow> src_citer" where
  "src_cend this f = src_citer_at this (sf_size f)"

definition cit_deref :: "src_file heap \<Rightarrow> src_citer \<Rightarrow> string option" where
  "cit_deref h it = do { f \<leftarrow> rd h (cit_data it); src_at f (cit_index it) }"

definition cit_incr :: "src_citer \<Rightarrow> src_citer" where
  "cit_incr it = it\<lparr>cit_index := cit_index it + 1\<rparr>"

definition cit_post_incr :: "src_citer \<Rightarrow> src_citer \<times> src_citer" where
  "cit_post_incr it = (let tmp = src_citer_copy it; it = it\<lparr>cit_index := cit_index it + 1\<rparr> in (tmp, it))"

definition cit_eq :: "src_citer \<Rightarrow> src_citer \<Rightarrow> bool" where
  "cit_eq a b \<longleftrightarrow> cit_data a = cit_data b \<and> cit_index a = cit_index b"

definition cit_neq :: "src_citer \<Rightarrow> src_citer \<Rightarrow> bool" where
  "cit_neq a b \<longleftrightarrow> \<not> cit_eq a b"

text \<open>
  A generic selection: its associations, and the iterator to the default one as an index into them, where the end is their
  number and \<open>None\<close> an iterator without a value.
\<close>

record cgeneric =
  ctrl_exp :: string
  association_list :: "(string \<times> string) list"
  dflt :: "nat option"

definition new_cgeneric :: cgeneric where
  "new_cgeneric = \<lparr>ctrl_exp = [], association_list = [], dflt = None\<rparr>"

definition cgeneric_range :: "'pos \<Rightarrow> 'pos \<Rightarrow> cgeneric" where
  "cgeneric_range beg end = \<lparr>ctrl_exp = [], association_list = [], dflt = Some 0\<rparr>"

definition first_or_default :: "cgeneric \<Rightarrow> (string \<times> string) option" where
  "first_or_default g =
     (if association_list g = [] then Some ([], [])
      else do {
        d \<leftarrow> dflt g;
        if d \<noteq> length (association_list g)
        then (if d < length (association_list g) then Some (association_list g ! d) else None)
        else Some (hd (association_list g)) })"

section \<open>Iterators over words\<close>

text \<open>The words that \<open>n\<close> steps of an iterator visit.\<close>

primrec visit :: "('i \<Rightarrow> string option) \<Rightarrow> ('i \<Rightarrow> 'i) \<Rightarrow> nat \<Rightarrow> 'i \<Rightarrow> (string list \<times> 'i) option" where
  "visit deref step 0 it = Some ([], it)"
| "visit deref step (Suc n) it = do {
     w \<leftarrow> deref it;
     (ws, it) \<leftarrow> visit deref step n (step it);
     Some (w # ws, it) }"

locale word_iterator =
  fixes at :: "ptr \<Rightarrow> nat \<Rightarrow> 'i" and deref :: "src_file heap \<Rightarrow> 'i \<Rightarrow> string option"
    and incr :: "'i \<Rightarrow> 'i" and post_incr :: "'i \<Rightarrow> 'i \<times> 'i" and same :: "'i \<Rightarrow> 'i \<Rightarrow> bool"
  assumes deref_at: "deref h (at p i) = Option.bind (rd h p) (\<lambda>f. src_at f i)"
    and incr_at: "incr (at p i) = at p (i + 1)"
    and post_incr_at: "post_incr (at p i) = (at p i, at p (i + 1))"
    and same_at: "same (at p i) (at q j) \<longleftrightarrow> p = q \<and> i = j"
begin

lemma visit_rest:
  assumes "p \<noteq> NULL" "h p = Some f" "step = incr \<or> step = snd \<circ> post_incr" "i + n \<le> length (src_words f)"
  shows "visit (deref h) step n (at p i) = Some (take n (drop i (src_words f)), at p (i + n))"
  using assms(4)
proof (induction n arbitrary: i)
  case (Suc n)
  have "step (at p i) = at p (i + 1)" using assms(3) by (auto simp: incr_at post_incr_at)
  moreover have "i < length (src_words f)" using Suc.prems by simp
  ultimately show ?case
    using Suc.IH [of "i + 1"] Suc.prems assms(1,2)
    by (simp add: deref_at rd_Some src_at_eq Cons_nth_drop_Suc [symmetric])
qed simp

lemma visit_all:
  assumes "p \<noteq> NULL" "h p = Some f" "src_ok f" "step = incr \<or> step = snd \<circ> post_incr"
  shows "\<exists>it. visit (deref h) step (sf_size f) (at p 0) = Some (src_words f, it) \<and> same it (at p (sf_size f))
    \<and> (\<forall>k < sf_size f. \<exists>it'. map_option snd (visit (deref h) step k (at p 0)) = Some it' \<and> \<not> same it' (at p (sf_size f)))"
  using visit_rest [where p = p and h = h and f = f and step = step and i = 0, OF assms(1,2,4)] assms(3) by (simp add: src_ok_def same_at)

end

interpretation src_iter: word_iterator "\<lambda>p i. \<lparr>it_index = i, it_data = p\<rparr>" it_deref it_incr it_post_incr it_eq
  by unfold_locales (auto simp: it_deref_def it_incr_def it_post_incr_def it_eq_def)

interpretation src_citer: word_iterator src_citer_at cit_deref cit_incr cit_post_incr cit_eq
  by unfold_locales
    (auto simp: src_citer_at_def cit_deref_def cit_incr_def cit_post_incr_def src_citer_copy_def cit_eq_def)

section \<open>Properties\<close>

text \<open>
  Going with the constant iterator from \<^verbatim>\<open>begin()\<close> visits every word of the file in order, with either increment, and
  it compares equal to \<^verbatim>\<open>end()\<close> after the last word and not before.
\<close>

lemma constant_iteration:
  assumes "p \<noteq> NULL" "h p = Some f" "src_ok f" "step = cit_incr \<or> step = snd \<circ> cit_post_incr"
  shows "\<exists>it. visit (cit_deref h) step (sf_size f) (src_cbegin p) = Some (src_words f, it) \<and> cit_eq it (src_cend p f)
    \<and> (\<forall>k < sf_size f. \<exists>it'. map_option snd (visit (cit_deref h) step k (src_cbegin p)) = Some it' \<and> cit_neq it' (src_cend p f))"
  using src_citer.visit_all [where p = p and h = h and f = f and step = step, OF assms] by (simp add: src_cbegin_def src_cend_def cit_neq_def)

lemma constant_iteration_default: "cit_deref h new_src_citer = None"
  by (simp add: cit_deref_def new_src_citer_def)

text \<open>
  The default if there is one, else the first association. Both constructors leave the list empty, so that the
  result is a pair of empty strings.
\<close>

lemma first_or_default_spec:
  "association_list g \<noteq> [] \<Longrightarrow> dflt g = Some d \<Longrightarrow> d \<le> length (association_list g) \<Longrightarrow>
   first_or_default g = Some (if d < length (association_list g) then association_list g ! d else hd (association_list g))"
  by (simp add: first_or_default_def)

lemma first_or_default_new:
  "first_or_default new_cgeneric = Some ([], [])" "first_or_default (cgeneric_range b e) = Some ([], [])"
  by (simp_all add: first_or_default_def new_cgeneric_def cgeneric_range_def)

end
