(* ===== verification/HttpClient.thy ===== *)
theory HttpClient
  imports Sstring
begin

text \<open>
  The asynchronous HTTP client, \<^verbatim>\<open>my_lib/http_client/HttpClient.cpp\<close>. The client is the record of its members
  together with what it has asked of Boost.Asio: the asynchronous operations that have been started and not yet
  completed, the pending waits on the timer, and the calls of the result signal. Every member function is a
  function on this state; the completion of an operation, with its error code and the bytes that arrived,
  is chosen by the environment. A \<^verbatim>\<open>streambuf\<close> is the sequence of its readable bytes. \<open>None\<close> stands
  for the use of a variable that has not been initialised. Memory allocation is assumed to succeed.
\<close>

section \<open>Streams\<close>

text \<open>An \<^verbatim>\<open>istream\<close>: whether it is in a good state, and the bytes left.\<close>

type_synonym stream = "bool \<times> string"

text \<open>\<^verbatim>\<open>operator>>\<close> for a string: blanks are skipped; the variable keeps its value \<open>old\<close> when there is no word.\<close>

fun in_word :: "stream \<Rightarrow> string \<Rightarrow> stream \<times> string" where
  "in_word (good, s) old =
     (if \<not> good then ((good, s), old)
      else
        let s = dropWhile isspace s in
        if s = [] then ((False, []), old)
        else ((True, dropWhile (\<lambda>c. \<not> isspace c) s), takeWhile (\<lambda>c. \<not> isspace c) s))"

text \<open>
  \<^verbatim>\<open>operator>>\<close> for an unsigned type with the greatest value \<open>hi\<close>: without anything to read the variable keeps its
  value; a number that is not there is 0 and one that is too large is \<open>hi\<close>, and the stream fails.
\<close>

fun in_unsigned :: "nat \<Rightarrow> int \<Rightarrow> stream \<Rightarrow> int option \<Rightarrow> stream \<times> int option" where
  "in_unsigned base hi (good, s) old =
     (if \<not> good then ((good, s), old)
      else
        let s = dropWhile isspace s in
        if s = [] then ((False, []), old)
        else let (fail, eof, v) = num_get base (- hi) hi s in
        if fail then ((False, s), Some (if v = 0 then 0 else hi))
        else ((True, num_rest base s), Some (v mod (hi + 1))))"

fun in_line :: "stream \<Rightarrow> bool \<times> stream \<times> string" where
  "in_line (good, s) =
     (let l = takeWhile (\<lambda>c. c \<noteq> CHR ''\<newline>'') s in
      if \<not> good \<or> s = [] then (False, (False, s), [])
      else (True, (True, drop (length l + 1) s), l))"

text \<open>\<^verbatim>\<open>read\<close> with \<^verbatim>\<open>gcount\<close>: the stream fails if there are fewer than \<open>n\<close> bytes.\<close>

fun in_read :: "stream \<Rightarrow> nat \<Rightarrow> stream \<times> string" where
  "in_read (good, s) n = ((good \<and> n \<le> length s, drop n s), take n s)"

text \<open>\<^verbatim>\<open>find\<close> on strings.\<close>

fun has_sub :: "string \<Rightarrow> string \<Rightarrow> bool" where
  "has_sub p [] \<longleftrightarrow> p = []"
| "has_sub p (c # s) \<longleftrightarrow> take (length p) (c # s) = p \<or> has_sub p s"

definition CRLF :: string where
  "CRLF = [CHR 0x0D, CHR 0x0A]"

section \<open>The state\<close>

datatype error_code = Success | Error (is_eof: bool) (message: string)

type_synonym endpoint = "string \<times> nat"

record server_info =
  si_endpoint :: endpoint
  conn_timeout :: int
  transfer_timeout :: int

datatype handler =
  Handle_read_status_line
| Handle_read_headers
| Handle_read_content nat
| Handle_read_chunk_size
| Handle_read_chunk_data nat

datatype completion = Until string | Transfer_at_least nat | Transfer_exactly nat

datatype async_op = Async_connect nat | Async_write | Async_read completion handler

datatype expiry = Not_set | At int | Pos_infin

record http_result =
  r_message_id :: string
  r_endpoint :: "endpoint option"
  r_content :: "string list"
  r_length :: nat
  r_error :: string

record http_client =
  hc_socket_open :: bool
  hc_request :: string
  hc_response :: string
  hc_deadline :: expiry
  hc_stopped :: bool
  hc_endpoints :: "server_info list"
  hc_message_id :: string
  hc_remote_endpoint :: "endpoint option"
  hc_content :: "string list"
  hc_content_length :: nat
  hc_err_msg :: string
  hc_builders :: "(string \<Rightarrow> string \<Rightarrow> nat \<Rightarrow> string) list"
  hc_ops :: "async_op list"
  hc_waits :: nat
  hc_results :: "http_result list"

definition new_http_client :: "server_info list \<Rightarrow> string \<Rightarrow> http_client" where
  "new_http_client endpoint msg_id =
     \<lparr>hc_socket_open = False, hc_request = [], hc_response = [], hc_deadline = Not_set, hc_stopped = False,
      hc_endpoints = endpoint, hc_message_id = msg_id, hc_remote_endpoint = None, hc_content = [], hc_content_length = 0,
      hc_err_msg = [], hc_builders = [], hc_ops = [], hc_waits = 0, hc_results = []\<rparr>"

definition async :: "async_op \<Rightarrow> http_client \<Rightarrow> http_client" where
  "async op c = c\<lparr>hc_ops := hc_ops c @ [op]\<rparr>"

definition expires_from_now :: "int \<Rightarrow> int \<Rightarrow> http_client \<Rightarrow> http_client" where
  "expires_from_now now seconds c = c\<lparr>hc_deadline := At (now + seconds)\<rparr>"

definition async_wait :: "http_client \<Rightarrow> http_client" where
  "async_wait c = c\<lparr>hc_waits := hc_waits c + 1\<rparr>"

definition add_request_builder :: "(string \<Rightarrow> string \<Rightarrow> nat \<Rightarrow> string) \<Rightarrow> http_client \<Rightarrow> http_client" where
  "add_request_builder slot c = c\<lparr>hc_builders := hc_builders c @ [slot]\<rparr>"

section \<open>Stopping and results\<close>

definition stop :: "http_client \<Rightarrow> http_client" where
  "stop c = c\<lparr>hc_stopped := True, hc_socket_open := False\<rparr>"

definition result_sig :: "string \<Rightarrow> http_client \<Rightarrow> http_client" where
  "result_sig err c = c\<lparr>hc_results := hc_results c @
     [\<lparr>r_message_id = hc_message_id c, r_endpoint = hc_remote_endpoint c, r_content = hc_content c, r_length = hc_content_length c, r_error = err\<rparr>]\<rparr>"

definition signal_result :: "http_client \<Rightarrow> http_client" where
  "signal_result c = result_sig [] c"

definition signal_error :: "string \<Rightarrow> http_client \<Rightarrow> http_client" where
  "signal_error err_msg c = result_sig err_msg (c\<lparr>hc_err_msg := err_msg\<rparr>)"

section \<open>Parsing the response\<close>

definition http_response_status :: "http_client \<Rightarrow> http_client \<times> string \<times> int option" where
  "http_response_status c =
     (let st = (True, hc_response c);
        (st, http_version) = in_word st [];
        (st, status_code) = in_unsigned 10 (2 ^ 32 - 1) st None;
        (_, st, status_message) = in_line st in
      (c\<lparr>hc_response := snd st\<rparr>, http_version, status_code))"

function http_headers_loop :: "string \<Rightarrow> string \<Rightarrow> int \<Rightarrow> string \<times> string \<times> int" where
  "http_headers_loop s transfer_encoding len =
     (case in_line (True, s) of (ok, st, line) \<Rightarrow>
        if ok \<and> line \<noteq> [CHR 0x0D] then
          if has_sub ''Transfer-Encoding'' line then
            let (hs, dump) = in_word (True, line) [];
              (hs, transfer_encoding) = in_word hs transfer_encoding in
            http_headers_loop (snd st) transfer_encoding len
          else if has_sub ''Content-Length'' line then
            let (hs, dump) = in_word (True, line) [];
              (hs, l) = in_unsigned 10 (2 ^ 64 - 1) hs (Some len) in
            http_headers_loop (snd st) transfer_encoding (case l of Some l \<Rightarrow> l | None \<Rightarrow> len)
          else http_headers_loop (snd st) transfer_encoding len
        else (snd st, transfer_encoding, len))"
  by pat_completeness auto
termination
  by (relation "measure (\<lambda>(s, _, _). length s)") (auto simp: Let_def split: if_splits)

declare http_headers_loop.simps [simp del]

definition http_headers :: "http_client \<Rightarrow> http_client \<times> string \<times> nat" where
  "http_headers c =
     (let (s, transfer_encoding, len) = http_headers_loop (hc_response c) [] 0 in
      (c\<lparr>hc_response := s\<rparr>, transfer_encoding, nat len))"

definition http_chunk_size :: "http_client \<Rightarrow> http_client \<times> nat" where
  "http_chunk_size c =
     (let (_, st, line) = in_line (True, hc_response c);
        (_, v) = in_unsigned 16 (2 ^ 64 - 1) (True, line) (Some 0) in
      (c\<lparr>hc_response := snd st\<rparr>, case v of Some v \<Rightarrow> nat v | None \<Rightarrow> 0))"

definition http_chunk_data :: "nat \<Rightarrow> http_client \<Rightarrow> http_client \<times> string" where
  "http_chunk_data n c =
     (let (st, buffer) = in_read (True, hc_response c) n;
        (_, st, dump) = in_line st in
      (c\<lparr>hc_response := snd st\<rparr>, buffer))"

definition http_content :: "nat \<Rightarrow> http_client \<Rightarrow> http_client \<times> string" where
  "http_content n c =
     (let (st, buffer) = in_read (True, hc_response c) n in (c\<lparr>hc_response := snd st\<rparr>, buffer))"

definition push_content :: "string \<Rightarrow> http_client \<Rightarrow> http_client" where
  "push_content buffer c = c\<lparr>hc_content := hc_content c @ [buffer], hc_content_length := hc_content_length c + length buffer\<rparr>"

section \<open>The handlers\<close>

definition start_connect :: "int \<Rightarrow> nat \<Rightarrow> http_client \<Rightarrow> http_client" where
  "start_connect now iter c =
     (if iter < length (hc_endpoints c) then
        let c = expires_from_now now (conn_timeout (hc_endpoints c ! iter)) c in
        async (Async_connect iter) (c\<lparr>hc_socket_open := True\<rparr>)
      else signal_error ''fail to connect to server'' (stop c))"

definition start :: "int \<Rightarrow> http_client \<Rightarrow> http_client" where
  "start now c = async_wait (start_connect now 0 (c\<lparr>hc_stopped := False\<rparr>))"

definition handle_connect :: "int \<Rightarrow> nat \<Rightarrow> error_code \<Rightarrow> http_client \<Rightarrow> http_client" where
  "handle_connect now iter ec c =
     (if hc_stopped c then c
      else if \<not> hc_socket_open c then start_connect now (iter + 1) c
      else if ec \<noteq> Success then start_connect now (iter + 1) (c\<lparr>hc_socket_open := False\<rparr>)
      else
        let ep = si_endpoint (hc_endpoints c ! iter);
          c = c\<lparr>hc_remote_endpoint := Some ep\<rparr>;
          c = c\<lparr>hc_request := fold (\<lambda>slot r. slot r (fst ep) (snd ep)) (hc_builders c) (hc_request c)\<rparr>;
          c = expires_from_now now (transfer_timeout (hc_endpoints c ! iter)) c in
        async Async_write c)"

definition handle_write_request :: "error_code \<Rightarrow> http_client \<Rightarrow> http_client" where
  "handle_write_request ec c =
     (if hc_stopped c then c
      else if ec \<noteq> Success then signal_error (''handle_write_request: '' @ message ec) (stop c)
      else async (Async_read (Until CRLF) Handle_read_status_line) c)"

definition handle_read_status_line :: "error_code \<Rightarrow> http_client \<Rightarrow> http_client option" where
  "handle_read_status_line ec c =
     (if hc_stopped c then Some c
      else if ec \<noteq> Success then Some (signal_error (''handle_read_status_line: '' @ message ec) (stop c))
      else
        let (c, http_version, status) = http_response_status c in
        if take 5 http_version \<noteq> ''HTTP/'' then Some (signal_error ''Invalide response'' (stop c))
        else do {
          status_code \<leftarrow> status;
          if status_code \<noteq> 200 then Some (signal_error (''Response with status code '' @ dec (nat status_code)) (stop c))
          else Some (async (Async_read (Until (CRLF @ CRLF)) Handle_read_headers) c) })"

definition handle_read_headers :: "error_code \<Rightarrow> http_client \<Rightarrow> http_client" where
  "handle_read_headers ec c =
     (if hc_stopped c then c
      else if ec \<noteq> Success then signal_error (''handle_read_headers:'' @ message ec) (stop c)
      else
        let (c, transfer_encoding, content_length) = http_headers c in
        if transfer_encoding = ''chunked'' then async (Async_read (Until CRLF) Handle_read_chunk_size) c
        else if content_length > 0 then
          let c = (if length (hc_response c) > 0 then
                     let (c, buffer) = http_content (length (hc_response c)) c in push_content buffer c
                   else c) in
          async (Async_read (Transfer_at_least 1) (Handle_read_content content_length)) c
        else signal_error ''handle_read_headers: empty content'' (stop c))"

definition handle_read_content :: "nat \<Rightarrow> error_code \<Rightarrow> http_client \<Rightarrow> http_client" where
  "handle_read_content content_length ec c =
     (if hc_stopped c then c
      else if ec \<noteq> Success then
        if is_eof ec then signal_result (stop c)
        else signal_error (''handle_read_content: '' @ message ec) (stop c)
      else
        let (c, buffer) = http_content (length (hc_response c)) c;
          c = push_content buffer c in
        async (Async_read (Transfer_at_least 1) (Handle_read_content content_length)) c)"

text \<open>\<^verbatim>\<open>diff\<close> is computed in \<^verbatim>\<open>size_t\<close> and converted to a 32-bit \<^verbatim>\<open>int\<close>.\<close>

definition chunk_remaining :: "nat \<Rightarrow> nat \<Rightarrow> nat" where
  "chunk_remaining chunk_size available =
     (let diff = sint (ucast (word_of_nat chunk_size + 2 - word_of_nat available :: 64 word) :: 32 word) in
      if diff > 0 then nat diff else 0)"

definition handle_read_chunk_size :: "error_code \<Rightarrow> http_client \<Rightarrow> http_client" where
  "handle_read_chunk_size ec c =
     (if hc_stopped c then c
      else if ec \<noteq> Success then signal_error (''handle_read_chunk_size: '' @ message ec) (stop c)
      else
        let (c, chunk_size) = http_chunk_size c in
        if chunk_size > 0 then
          let remaining = chunk_remaining chunk_size (length (hc_response c)) in
          async (Async_read (Transfer_exactly remaining) (Handle_read_chunk_data chunk_size)) c
        else signal_result (stop c))"

definition handle_read_chunk_data :: "nat \<Rightarrow> error_code \<Rightarrow> http_client \<Rightarrow> http_client" where
  "handle_read_chunk_data chunk_size ec c =
     (if hc_stopped c then c
      else if ec \<noteq> Success then signal_error (''handle_read_chunk_data: '' @ message ec) (stop c)
      else
        let (c, buffer) = http_chunk_data chunk_size c in
        if length buffer \<noteq> chunk_size then signal_error ''fail to read chunk data'' (stop c)
        else async (Async_read (Until CRLF) Handle_read_chunk_size) (push_content buffer c))"

text \<open>A pending wait ends, because the timer expired or was set anew, and \<^verbatim>\<open>check_deadline\<close> is called at the time \<open>now\<close>.\<close>

definition check_deadline :: "int \<Rightarrow> http_client \<Rightarrow> http_client" where
  "check_deadline now c =
     (if hc_stopped c then c
      else
        let timedout = (case hc_deadline c of At t \<Rightarrow> t \<le> now | _ \<Rightarrow> False);
          c = (if timedout then c\<lparr>hc_deadline := Pos_infin\<rparr> else c);
          c = async_wait c in
        if timedout then c\<lparr>hc_socket_open := False\<rparr> else c)"

section \<open>Completions\<close>

definition call_handler :: "handler \<Rightarrow> error_code \<Rightarrow> http_client \<Rightarrow> http_client option" where
  "call_handler h ec c = (case h of
     Handle_read_status_line \<Rightarrow> handle_read_status_line ec c
   | Handle_read_headers \<Rightarrow> Some (handle_read_headers ec c)
   | Handle_read_content n \<Rightarrow> Some (handle_read_content n ec c)
   | Handle_read_chunk_size \<Rightarrow> Some (handle_read_chunk_size ec c)
   | Handle_read_chunk_data n \<Rightarrow> Some (handle_read_chunk_data n ec c))"

text \<open>
  The completion of a pending operation at the time \<open>now\<close> with the error code \<open>ec\<close>; for a read, the bytes \<open>d\<close> have
  arrived, and a write has sent the request.
\<close>

definition complete :: "int \<Rightarrow> async_op \<Rightarrow> error_code \<Rightarrow> string \<Rightarrow> http_client \<Rightarrow> http_client option" where
  "complete now op ec d c =
     (let c = c\<lparr>hc_ops := remove1 op (hc_ops c)\<rparr> in
      case op of
        Async_connect iter \<Rightarrow> Some (handle_connect now iter ec c)
      | Async_write \<Rightarrow> Some (handle_write_request ec (if ec = Success then c\<lparr>hc_request := []\<rparr> else c))
      | Async_read cond h \<Rightarrow> call_handler h ec (c\<lparr>hc_response := hc_response c @ d\<rparr>))"

end
