(* ===== verification/HttpSpec.thy ===== *)
theory HttpSpec
  imports HttpClient SstringSpec
begin

text \<open>
  The HTTP client as a state machine: the states that are reachable when the operations complete in any way, and the
  invariant they share.
\<close>

section \<open>Reachable states\<close>

text \<open>A read that succeeds has met its condition; nothing is assumed of the errors.\<close>

fun may_complete :: "async_op \<Rightarrow> error_code \<Rightarrow> string \<Rightarrow> http_client \<Rightarrow> bool" where
  "may_complete (Async_read (Until p) h) Success d c \<longleftrightarrow> has_sub p (hc_response c @ d)"
| "may_complete (Async_read (Transfer_at_least n) h) Success d c \<longleftrightarrow> n \<le> length d"
| "may_complete (Async_read (Transfer_exactly n) h) Success d c \<longleftrightarrow> length d = n"
| "may_complete op ec d c \<longleftrightarrow> True"

inductive http_reachable :: "http_client \<Rightarrow> bool" where
  started: "http_reachable (start now (fold add_request_builder slots (new_http_client eps msg_id)))"
| completed: "http_reachable c \<Longrightarrow> op \<in> set (hc_ops c) \<Longrightarrow> may_complete op ec d c \<Longrightarrow> complete now op ec d c = Some c' \<Longrightarrow> http_reachable c'"
| timer: "http_reachable c \<Longrightarrow> hc_waits c > 0 \<Longrightarrow> http_reachable (check_deadline now (c\<lparr>hc_waits := hc_waits c - 1\<rparr>))"
| stopped: "http_reachable c \<Longrightarrow> http_reachable (stop c)"

text \<open>
  The invariant. While the client is not stopped, exactly one operation and one wait on the timer are pending and no
  result has been reported; at most one result is ever reported; the length is that of the content.
\<close>

definition http_inv :: "http_client \<Rightarrow> bool" where
  "http_inv c \<longleftrightarrow>
     (if hc_stopped c then length (hc_ops c) \<le> 1 \<and> length (hc_results c) \<le> 1
      else length (hc_ops c) = 1 \<and> hc_waits c = 1 \<and> hc_results c = []) \<and>
     hc_content_length c = length (concat (hc_content c)) \<and>
     (\<forall>r\<in>set (hc_results c). r_length r = length (concat (r_content r)))"

lemmas http_defs = http_inv_def stop_def async_def signal_error_def signal_result_def result_sig_def
  expires_from_now_def async_wait_def push_content_def

text \<open>A client on whose only operation a handler is called.\<close>

definition in_handler :: "http_client \<Rightarrow> bool" where
  "in_handler c \<longleftrightarrow> hc_ops c = [] \<and> (hc_stopped c \<or> hc_waits c = 1 \<and> hc_results c = []) \<and> length (hc_results c) \<le> 1 \<and>
     hc_content_length c = length (concat (hc_content c)) \<and> (\<forall>r\<in>set (hc_results c). r_length r = length (concat (r_content r)))"

lemma in_handler_simps [simp]:
  "in_handler (c\<lparr>hc_response := s\<rparr>) = in_handler c" "in_handler (c\<lparr>hc_request := s\<rparr>) = in_handler c"
  "in_handler (c\<lparr>hc_socket_open := b\<rparr>) = in_handler c" "in_handler (c\<lparr>hc_remote_endpoint := e\<rparr>) = in_handler c"
  "in_handler (expires_from_now now t c) = in_handler c"
  by (simp_all add: in_handler_def expires_from_now_def)

lemma in_handler_push [simp]: "in_handler c \<Longrightarrow> in_handler (push_content b c)"
  by (simp add: in_handler_def push_content_def)

lemma inv_outcomes:
  assumes "in_handler c"
  shows "hc_stopped c \<Longrightarrow> http_inv c" "http_inv (async op c)"
    "\<not> hc_stopped c \<Longrightarrow> http_inv (signal_error e (stop c))" "\<not> hc_stopped c \<Longrightarrow> http_inv (signal_result (stop c))"
  using assms by (auto simp: in_handler_def http_defs)

lemma stopped_parsers [simp]:
  "hc_stopped (push_content b c) = hc_stopped c" "hc_stopped (expires_from_now now t c) = hc_stopped c"
  by (simp_all add: push_content_def expires_from_now_def)

lemma start_connect_inv: "in_handler c \<Longrightarrow> \<not> hc_stopped c \<Longrightarrow> http_inv (start_connect now i c)"
  unfolding start_connect_def Let_def by (auto intro!: inv_outcomes)

text \<open>The parsers only take bytes out of the response.\<close>

lemma parser_frames:
  "\<exists>s v st. http_response_status c = (c\<lparr>hc_response := s\<rparr>, v, st)"
  "\<exists>s te n. http_headers c = (c\<lparr>hc_response := s\<rparr>, te, n)"
  "\<exists>s n. http_chunk_size c = (c\<lparr>hc_response := s\<rparr>, n)"
  "\<exists>s b. http_chunk_data n c = (c\<lparr>hc_response := s\<rparr>, b)"
  "\<exists>s b. http_content n c = (c\<lparr>hc_response := s\<rparr>, b)"
  unfolding http_response_status_def http_headers_def http_chunk_size_def http_chunk_data_def http_content_def Let_def case_prod_beta
  by blast+

lemma handlers_inv:
  assumes "in_handler c" "\<not> hc_stopped c"
  shows "handle_read_status_line ec c = Some c' \<Longrightarrow> http_inv c'" "http_inv (handle_read_headers ec c)"
    "http_inv (handle_read_content n ec c)" "http_inv (handle_read_chunk_size ec c)" "http_inv (handle_read_chunk_data n ec c)"
proof -
  note simps = assms inv_outcomes[OF assms(1)] case_prod_beta Let_def
  obtain s v st where 1: "http_response_status c = (c\<lparr>hc_response := s\<rparr>, v, st)" using parser_frames(1) by blast
  show "handle_read_status_line ec c = Some c' \<Longrightarrow> http_inv c'"
    by (cases st) (auto simp: handle_read_status_line_def 1 simps split: if_splits intro!: inv_outcomes)
  obtain s te l where 2: "http_headers c = (c\<lparr>hc_response := s\<rparr>, te, l)" using parser_frames(2) by blast
  obtain s' b where 3: "http_content (length s) (c\<lparr>hc_response := s\<rparr>) = (c\<lparr>hc_response := s, hc_response := s'\<rparr>, b)" using parser_frames(5) by blast
  show "http_inv (handle_read_headers ec c)"
    using assms by (simp add: handle_read_headers_def 2 3 Let_def inv_outcomes)
  obtain s b where 4: "http_content (length (hc_response c)) c = (c\<lparr>hc_response := s\<rparr>, b)" using parser_frames(5) by blast
  show "http_inv (handle_read_content n ec c)" using assms by (simp add: handle_read_content_def 4 Let_def inv_outcomes)
  obtain s k where 5: "http_chunk_size c = (c\<lparr>hc_response := s\<rparr>, k)" using parser_frames(3) by blast
  show "http_inv (handle_read_chunk_size ec c)" using assms by (simp add: handle_read_chunk_size_def 5 Let_def inv_outcomes)
  obtain s b where 6: "http_chunk_data n c = (c\<lparr>hc_response := s\<rparr>, b)" using parser_frames(4) by blast
  show "http_inv (handle_read_chunk_data n ec c)" using assms by (simp add: handle_read_chunk_data_def 6 Let_def inv_outcomes)
qed

lemma handler_inv:
  assumes "in_handler c" "call_handler h ec c = Some c'"
  shows "http_inv c'"
proof (cases "hc_stopped c")
  case True
  then have "c' = c"
    using assms(2) by (cases h) (simp_all add: call_handler_def handle_read_status_line_def handle_read_headers_def
        handle_read_content_def handle_read_chunk_size_def handle_read_chunk_data_def)
  then show ?thesis using inv_outcomes(1)[OF assms(1) True] by simp
next
  case False
  show ?thesis using assms(2) handlers_inv[OF assms(1) False] by (cases h) (auto simp: call_handler_def)
qed

lemma inv_in_handler:
  assumes "http_inv c" "op \<in> set (hc_ops c)"
  shows "in_handler (c\<lparr>hc_ops := remove1 op (hc_ops c)\<rparr>)"
proof -
  have "length (hc_ops c) \<le> 1" using assms(1) by (auto simp: http_inv_def split: if_splits)
  then have "hc_ops c = [op]" using assms(2) by (cases "hc_ops c") auto
  then show ?thesis using assms(1) by (auto simp: http_inv_def in_handler_def split: if_splits)
qed

lemma complete_inv:
  assumes "http_inv c" "op \<in> set (hc_ops c)" "complete now op ec d c = Some c'"
  shows "http_inv c'"
proof (cases op)
  case (Async_connect i)
  then show ?thesis using inv_in_handler[OF assms(1,2)] assms(3)
    by (auto simp: complete_def handle_connect_def Let_def intro!: inv_outcomes start_connect_inv split: if_splits)
next
  case Async_write
  then show ?thesis using inv_in_handler[OF assms(1,2)] assms(3)
    by (auto simp: complete_def handle_write_request_def Let_def intro!: inv_outcomes split: if_splits)
next
  case (Async_read cond h)
  have "in_handler (c\<lparr>hc_ops := remove1 op (hc_ops c), hc_response := hc_response c @ d\<rparr>)" using inv_in_handler[OF assms(1,2)] by simp
  then show ?thesis by (rule handler_inv[where h = h and ec = ec]) (use assms(3) in \<open>simp add: complete_def Async_read\<close>)
qed

lemma add_builders: "fold add_request_builder slots c = c\<lparr>hc_builders := hc_builders c @ slots\<rparr>"
  by (induction slots arbitrary: c) (simp_all add: add_request_builder_def)

lemma reachable_http_inv: "http_reachable c \<Longrightarrow> http_inv c"
proof (induction rule: http_reachable.induct)
  case (started now slots eps msg_id)
  then show ?case
    by (simp add: add_builders start_def start_connect_def new_http_client_def http_defs)
next
  case (completed c op ec d now c')
  then show ?case using complete_inv by blast
next
  case (timer c now)
  then show ?case by (auto simp: check_deadline_def http_defs Let_def split: if_splits)
next
  case (stopped c)
  then show ?case by (auto simp: http_defs split: if_splits)
qed

section \<open>Properties\<close>



end
