(* ===== verification/HttpChunks.thy ===== *)
theory HttpChunks
  imports HttpSpec
begin

text \<open>
  Decoding of responses: a server sends a text and closes the connection, the network delivers it in pieces of any
  size that meet the conditions of the reads, and the client reports the body.
\<close>

section \<open>The network\<close>

text \<open>
  How the first pending operation completes when \<open>net\<close> is still to be delivered: the error code and the number of
  bytes. A read until a delimiter may get \<open>e\<close> bytes more than it needs, and so may a read of at least some bytes.
\<close>

fun needed :: "string \<Rightarrow> string \<Rightarrow> string \<Rightarrow> nat" where
  "needed p resp [] = 0"
| "needed p resp (c # net) = (if has_sub p resp then 0 else Suc (needed p (resp @ [c]) net))"

definition end_of_file :: error_code where
  "end_of_file = Error True ''End of file''"

fun arrival :: "async_op \<Rightarrow> nat \<Rightarrow> string \<Rightarrow> string \<Rightarrow> error_code \<times> nat" where
  "arrival (Async_read (Until p) h) e resp net =
     (if has_sub p (resp @ net) then (Success, min (length net) (needed p resp net + e)) else (end_of_file, length net))"
| "arrival (Async_read (Transfer_at_least n) h) e resp net =
     (if n \<le> length net then (Success, min (length net) (n + e)) else (end_of_file, length net))"
| "arrival (Async_read (Transfer_exactly n) h) e resp net =
     (if n \<le> length net then (Success, n) else (end_of_file, length net))"
| "arrival op e resp net = (Success, 0)"

text \<open>One completion for each entry of the schedule.\<close>

fun run_net :: "nat list \<Rightarrow> http_client \<Rightarrow> string \<Rightarrow> http_client option" where
  "run_net [] c net = Some c"
| "run_net (e # es) c net = (case hc_ops c of
     [] \<Rightarrow> Some c
   | op # _ \<Rightarrow> do {
       let (ec, k) = arrival op e (hc_response c) net;
       c \<leftarrow> complete 0 op ec (take k net) c;
       run_net es c (drop k net) })"

lemma run_net_step:
  assumes "hc_ops c = op # ops" "arrival op e (hc_response c) net = (ec, k)" "complete 0 op ec (take k net) c = Some c'"
  shows "run_net (e # es) c net = run_net es c' (drop k net)"
  using assms by simp

lemma run_net_done: "hc_ops c = [] \<Longrightarrow> run_net es c net = Some c"
  by (cases es) simp_all

declare run_net.simps(2) [simp del] arrival.simps [simp del]

section \<open>Delimiters\<close>

lemma take_length_eq: "take (length p) s = p \<longleftrightarrow> (\<exists>v. s = p @ v)"
  by (metis append_eq_conv_conj)

lemma has_sub_iff: "has_sub p s \<longleftrightarrow> (\<exists>u v. s = u @ p @ v)"
proof (induction s)
  case (Cons c s)
  have "(\<exists>u v. c # s = u @ p @ v) \<longleftrightarrow> (\<exists>v. c # s = p @ v) \<or> (\<exists>u v. s = u @ p @ v)"
    by (metis append_Cons append_Nil list.exhaust_sel list.sel(3) hd_Cons_tl append_is_Nil_conv tl_append2)
  then show ?case using Cons by (simp add: take_length_eq)
qed auto

lemma has_sub_append: "has_sub p s \<Longrightarrow> has_sub p (s @ t)"
  unfolding has_sub_iff by (metis append.assoc)

lemma has_sub_take:
  assumes "\<not> has_sub p (butlast (A @ p))" "has_sub p (take m (A @ p @ B))"
  shows "length (A @ p) \<le> m"
proof (rule ccontr)
  assume "\<not> length (A @ p) \<le> m"
  then have m: "m < length (A @ p)" by simp
  then have "take m (A @ p @ B) = take m (A @ p)" by simp
  also have "\<dots> = take m (butlast (A @ p))" using m by (rule take_butlast[symmetric])
  finally have "has_sub p (take m (butlast (A @ p)) @ drop m (butlast (A @ p)))" using assms(2) has_sub_append by metis
  then show False using assms(1) by (simp only: append_take_drop_id)
qed

lemma needed_reaches:
  assumes "has_sub p (resp @ net)"
  shows "has_sub p (resp @ take (needed p resp net) net) \<and> needed p resp net \<le> length net"
  using assms by (induction p resp net rule: needed.induct) auto

lemma arrival_until:
  assumes "resp @ net = A @ p @ B" "\<not> has_sub p (butlast (A @ p))"
  obtains k r where "arrival (Async_read (Until p) h) e resp net = (Success, k)" "resp @ take k net = A @ p @ r" "r @ drop k net = B"
proof -
  let ?n = "needed p resp net" and ?k = "min (length net) (needed p resp net + e)"
  have sub: "has_sub p (resp @ net)" unfolding assms(1) has_sub_iff by blast
  have "?n \<le> ?k" using needed_reaches[OF sub] by simp
  then have "take ?k net = take ?n net @ take (?k - ?n) (drop ?n net)" by (metis le_add_diff_inverse take_add)
  then have got: "has_sub p (resp @ take ?k net)" using needed_reaches[OF sub] has_sub_append by (metis append.assoc)
  let ?m = "length resp + ?k"
  have t: "resp @ take ?k net = take ?m (A @ p @ B)" unfolding assms(1)[symmetric] by simp
  then have len: "length (A @ p) \<le> ?m" using has_sub_take[OF assms(2)] got by metis
  let ?r = "take (?m - length (A @ p)) B"
  have r: "resp @ take ?k net = A @ p @ ?r" unfolding t using len by simp
  have "A @ p @ ?r @ drop ?k net = A @ p @ B"
    unfolding assms(1)[symmetric] using r by (metis append.assoc append_take_drop_id)
  then have "?r @ drop ?k net = B" by simp
  with r show thesis using that[of ?k ?r] sub by (simp add: arrival.simps)
qed

section \<open>Chunks\<close>

fun hex :: "nat \<Rightarrow> string" where
  "hex n = (if n < 16 then [''0123456789abcdef'' ! n] else hex (n div 16) @ [''0123456789abcdef'' ! (n mod 16)])"

declare hex.simps [simp del]

definition hexdigit :: "char \<Rightarrow> bool" where
  "hexdigit c \<longleftrightarrow> digit_val c < 16 \<and> c \<noteq> CHR ''-'' \<and> c \<noteq> CHR ''+'' \<and> c \<noteq> CHR ''x'' \<and> c \<noteq> CHR ''X'' \<and> c \<noteq> CHR ''\<newline>'' \<and> \<not> isspace c"

lemma hexdigit_nth:
  assumes "n < 16"
  shows "hexdigit (''0123456789abcdef'' ! n)" "digit_val (''0123456789abcdef'' ! n) = n"
proof -
  have "list_all (\<lambda>n. hexdigit (''0123456789abcdef'' ! n) \<and> digit_val (''0123456789abcdef'' ! n) = n) [0..<16]" by code_simp
  then show "hexdigit (''0123456789abcdef'' ! n)" "digit_val (''0123456789abcdef'' ! n) = n"
    using assms by (auto simp: list_all_iff)
qed

lemma hex_digits: "hex n \<noteq> [] \<and> (\<forall>c\<in>set (hex n). hexdigit c)"
proof (induction n rule: hex.induct)
  case (1 n)
  then show ?case using hexdigit_nth(1)[of n] hexdigit_nth(1)[of "n mod 16"] by (subst (1 2) hex.simps) auto
qed

lemma digits_val_hex: "digits_val 16 (hex n) = n"
proof (induction n rule: hex.induct)
  case (1 n)
  show ?case
  proof (cases "n < 16")
    case True
    then show ?thesis by (subst hex.simps) (simp add: digits_val_def hexdigit_nth)
  next
    case False
    then show ?thesis using 1 by (subst hex.simps) (simp add: digits_val_snoc hexdigit_nth)
  qed
qed

lemma in_unsigned_hex:
  assumes "int n < 2 ^ 64"
  shows "snd (in_unsigned 16 (2 ^ 64 - 1) (True, hex n @ [CHR 0x0D]) old) = Some (int n)"
proof -
  let ?s = "hex n @ [CHR 0x0D]"
  note h = hex_digits[of n]
  have hd: "hexdigit (hd (hex n))" using h by simp
  have "dropWhile isspace ?s = ?s" using h by (cases "hex n") (auto simp: hexdigit_def)
  moreover have p: "num_prefix 16 ?s = ?s"
  proof (cases "hex n")
    case (Cons c cs)
    then show ?thesis using h by (cases cs) (auto simp: num_prefix_def hexdigit_def Let_def)
  qed (use h in simp)
  moreover have "digit_val CHR 0x0D = 99" by (simp add: digit_val_def)
  then have "takeWhile (\<lambda>c. digit_val c < 16) ?s = hex n" using h by (subst takeWhile_append2) (auto simp: hexdigit_def)
  moreover have "?s \<noteq> []" "hd ?s \<noteq> CHR ''-''" using h hd by (auto simp: hexdigit_def)
  ultimately show ?thesis using assms h by (simp add: num_get_def digits_val_hex Let_def)
qed

definition chunk :: "string \<Rightarrow> string" where
  "chunk d = hex (length d) @ CRLF @ d @ CRLF"

lemma takeWhile_line:
  assumes "CHR ''\<newline>'' \<notin> set l"
  shows "takeWhile (\<lambda>c. c \<noteq> CHR ''\<newline>'') (l @ CRLF @ s) = l @ [CHR 0x0D]"
proof -
  have "takeWhile (\<lambda>c. c \<noteq> CHR ''\<newline>'') (l @ CRLF @ s) = l @ takeWhile (\<lambda>c. c \<noteq> CHR ''\<newline>'') (CRLF @ s)"
    using assms by (intro takeWhile_append2) auto
  then show ?thesis by (simp add: CRLF_def)
qed

lemma in_line_CRLF:
  assumes "CHR ''\<newline>'' \<notin> set l"
  shows "in_line (True, l @ CRLF @ s) = (True, (True, s), l @ [CHR 0x0D])"
  unfolding in_line.simps takeWhile_line[OF assms] by (simp add: CRLF_def)

lemma no_early_CRLF:
  assumes "CHR ''\<newline>'' \<notin> set l"
  shows "\<not> has_sub CRLF (butlast (l @ CRLF))"
proof -
  have "CHR ''\<newline>'' \<notin> set (butlast (l @ CRLF))" using assms by (simp add: CRLF_def butlast_append)
  moreover have "CHR ''\<newline>'' \<in> set CRLF" by (simp add: CRLF_def)
  ultimately show ?thesis unfolding has_sub_iff by (metis Un_iff set_append)
qed

lemma hex_no_newline: "CHR ''\<newline>'' \<notin> set (hex n)"
  using hex_digits by (auto simp: hexdigit_def)

lemma http_chunk_size_hex:
  assumes "hc_response c = hex n @ CRLF @ s" "int n < 2 ^ 64"
  shows "http_chunk_size c = (c\<lparr>hc_response := s\<rparr>, n)"
  using in_unsigned_hex[OF assms(2), of "Some 0"] by (simp add: http_chunk_size_def assms(1) in_line_CRLF[OF hex_no_newline] case_prod_beta del: in_unsigned.simps in_line.simps)

lemma chunk_remaining_eq:
  assumes "n + 2 < 2 ^ 31" "a < 2 ^ 31"
  shows "chunk_remaining n a = n + 2 - a"
proof -
  let ?d = "int n + 2 - int a"
  have "(word_of_nat n + 2 - word_of_nat a :: 64 word) = word_of_int ?d" by simp
  moreover have "(ucast (word_of_int ?d :: 64 word) :: 32 word) = word_of_int ?d" by transfer simp
  moreover have "sint (word_of_int ?d :: 32 word) = ?d" using assms by (intro sint32_id) simp_all
  ultimately have "chunk_remaining n a = (if ?d > 0 then nat ?d else 0)" by (simp add: chunk_remaining_def Let_def)
  then show ?thesis by (auto split: if_splits)
qed

section \<open>Reading chunks\<close>

definition reads_chunks :: "http_client \<Rightarrow> bool" where
  "reads_chunks c \<longleftrightarrow> hc_ops c = [Async_read (Until CRLF) Handle_read_chunk_size] \<and> \<not> hc_stopped c"

lemma chunk_size_arrives:
  assumes "reads_chunks c" "hc_response c @ net = hex n @ CRLF @ rest" "int n < 2 ^ 64"
  obtains k s where "arrival (Async_read (Until CRLF) Handle_read_chunk_size) e (hc_response c) net = (Success, k)" "s @ drop k net = rest"
    "complete 0 (Async_read (Until CRLF) Handle_read_chunk_size) Success (take k net) c =
      (let c' = c\<lparr>hc_ops := [], hc_response := s\<rparr> in
       if n > 0 then Some (c'\<lparr>hc_ops := [Async_read (Transfer_exactly (chunk_remaining n (length s))) (Handle_read_chunk_data n)]\<rparr>)
       else Some (signal_result (stop c')))"
proof -
  obtain k s where k: "arrival (Async_read (Until CRLF) Handle_read_chunk_size) e (hc_response c) net = (Success, k)"
    "hc_response c @ take k net = hex n @ CRLF @ s" "s @ drop k net = rest"
    by (rule arrival_until[OF assms(2) no_early_CRLF[OF hex_no_newline]])
  let ?c = "c\<lparr>hc_ops := [], hc_response := hex n @ CRLF @ s\<rparr>"
  have "http_chunk_size ?c = (?c\<lparr>hc_response := s\<rparr>, n)" by (rule http_chunk_size_hex[OF _ assms(3)]) simp
  then show thesis using that[of k s] k assms(1)
    by (simp add: complete_def call_handler_def handle_read_chunk_size_def reads_chunks_def async_def Let_def)
qed

lemma chunk_data_arrives:
  assumes "hc_ops c = [Async_read (Transfer_exactly (chunk_remaining (length d) (length (hc_response c)))) (Handle_read_chunk_data (length d))]"
    "\<not> hc_stopped c" "hc_response c @ net = d @ CRLF @ rest" "length (d @ CRLF @ rest) < 2 ^ 31"
  obtains k s where "arrival (hd (hc_ops c)) e (hc_response c) net = (Success, k)" "s @ drop k net = rest"
    "complete 0 (hd (hc_ops c)) Success (take k net) c =
      Some (push_content d (c\<lparr>hc_ops := [Async_read (Until CRLF) Handle_read_chunk_size], hc_response := s\<rparr>))"
proof -
  let ?a = "length (hc_response c)" and ?k = "length d + 2 - length (hc_response c)"
  have len: "?a + length net = length d + 2 + length rest" using arg_cong[OF assms(3), of length] by (simp add: CRLF_def)
  have "length d + 2 < 2 ^ 31" "?a < 2 ^ 31" using assms(4) len by (simp_all add: CRLF_def)
  then have k: "chunk_remaining (length d) ?a = ?k" by (rule chunk_remaining_eq)
  have kn: "?k \<le> length net" using len by simp
  let ?m = "?a + ?k"
  let ?s = "take (?m - (length d + 2)) rest"
  have "hc_response c @ take ?k net = take ?m (d @ CRLF @ rest)" unfolding assms(3)[symmetric] by simp
  moreover have "take ?m ((d @ CRLF) @ rest) = (d @ CRLF) @ ?s"
    unfolding take_append by (simp add: CRLF_def)
  ultimately have got: "hc_response c @ take ?k net = d @ CRLF @ ?s" by simp
  have "d @ CRLF @ ?s @ drop ?k net = d @ CRLF @ rest"
    unfolding assms(3)[symmetric] using got by (metis append.assoc append_take_drop_id)
  then have s: "?s @ drop ?k net = rest" by simp
  let ?c = "c\<lparr>hc_ops := [], hc_response := d @ CRLF @ ?s\<rparr>"
  have "http_chunk_data (length d) ?c = (?c\<lparr>hc_response := ?s\<rparr>, d)"
    using in_line_CRLF[of "[]" ?s] by (simp add: http_chunk_data_def)
  then have "complete 0 (hd (hc_ops c)) Success (take ?k net) c =
    Some (push_content d (c\<lparr>hc_ops := [Async_read (Until CRLF) Handle_read_chunk_size], hc_response := ?s\<rparr>))"
    using assms(1,2) got by (simp add: complete_def call_handler_def handle_read_chunk_data_def async_def push_content_def k Let_def)
  then show thesis using that[of ?k ?s] s kn assms(1) by (simp add: k arrival.simps)
qed

lemma read_chunk:
  assumes "reads_chunks c" "hc_response c @ net = chunk d @ rest" "d \<noteq> []" "length (chunk d @ rest) < 2 ^ 31"
  obtains s net' where "s @ net' = rest" "\<And>es. run_net (e1 # e2 # es) c net = run_net es (push_content d (c\<lparr>hc_response := s\<rparr>)) net'"
    "reads_chunks (push_content d (c\<lparr>hc_response := s\<rparr>))"
proof -
  let ?op = "Async_read (Until CRLF) Handle_read_chunk_size"
  have ops: "hc_ops c = [?op]" "\<not> hc_stopped c" using assms(1) by (simp_all add: reads_chunks_def)
  have r: "hc_response c @ net = hex (length d) @ CRLF @ d @ CRLF @ rest" using assms(2) by (simp add: chunk_def)
  have n: "int (length d) < 2 ^ 64" using assms(4) by (simp add: chunk_def)
  obtain k s where 1: "arrival ?op e1 (hc_response c) net = (Success, k)" "s @ drop k net = d @ CRLF @ rest"
    "complete 0 ?op Success (take k net) c =
      (let c' = c\<lparr>hc_ops := [], hc_response := s\<rparr> in
       if length d > 0 then Some (c'\<lparr>hc_ops := [Async_read (Transfer_exactly (chunk_remaining (length d) (length s))) (Handle_read_chunk_data (length d))]\<rparr>)
       else Some (signal_result (stop c')))"
    by (rule chunk_size_arrives[OF assms(1) r n])
  let ?c = "c\<lparr>hc_response := s, hc_ops := [Async_read (Transfer_exactly (chunk_remaining (length d) (length s))) (Handle_read_chunk_data (length d))]\<rparr>"
  have ok: "hc_ops ?c = [Async_read (Transfer_exactly (chunk_remaining (length d) (length (hc_response ?c)))) (Handle_read_chunk_data (length d))]"
    "\<not> hc_stopped ?c" "hc_response ?c @ drop k net = d @ CRLF @ rest" "length (d @ CRLF @ rest) < 2 ^ 31"
    using ops 1(2) assms(4) by (simp_all add: chunk_def)
  obtain k' s' where 2: "arrival (hd (hc_ops ?c)) e2 (hc_response ?c) (drop k net) = (Success, k')" "s' @ drop k' (drop k net) = rest"
    "complete 0 (hd (hc_ops ?c)) Success (take k' (drop k net)) ?c =
      Some (push_content d (?c\<lparr>hc_ops := [?op], hc_response := s'\<rparr>))"
    by (rule chunk_data_arrives[OF ok])
  have eq: "push_content d (?c\<lparr>hc_ops := [?op], hc_response := s'\<rparr>) = push_content d (c\<lparr>hc_response := s'\<rparr>)"
    using ops(1) by (simp add: push_content_def)
  have "complete 0 ?op Success (take k net) c = Some ?c" using 1(3) assms(3) by (simp add: Let_def)
  then have "run_net (e1 # e2 # es) c net = run_net (e2 # es) ?c (drop k net)" for es
    by (rule run_net_step[OF ops(1) 1(1)])
  moreover have "run_net (e2 # es) ?c (drop k net) = run_net es (push_content d (c\<lparr>hc_response := s'\<rparr>)) (drop k' (drop k net))" for es
    by (rule run_net_step[of _ "hd (hc_ops ?c)" "[]"]) (use 2(1,3) eq in simp_all)
  ultimately show thesis using that[OF 2(2)] assms(1) by (simp add: reads_chunks_def push_content_def)
qed

lemma read_chunks:
  assumes "reads_chunks c" "hc_response c @ net = concat (map chunk ds) @ hex 0 @ CRLF @ trailer" "[] \<notin> set ds"
    "length (concat (map chunk ds) @ hex 0 @ CRLF @ trailer) < 2 ^ 31" "2 * length ds < length es"
  shows "runs (run_net es c net) (\<lambda>c'. hc_stopped c' \<and> hc_ops c' = [] \<and> hc_results c' = hc_results c @
    [\<lparr>r_message_id = hc_message_id c, r_endpoint = hc_remote_endpoint c, r_content = hc_content c @ ds,
      r_length = hc_content_length c + length (concat ds), r_error = []\<rparr>])"
  using assms
proof (induction ds arbitrary: c net es)
  case Nil
  obtain e es' where es: "es = e # es'" using Nil(5) by (cases es) auto
  let ?op = "Async_read (Until CRLF) Handle_read_chunk_size"
  have ops: "hc_ops c = [?op]" using Nil(1) by (simp add: reads_chunks_def)
  obtain k s where 1: "arrival ?op e (hc_response c) net = (Success, k)"
    "complete 0 ?op Success (take k net) c =
      (let c' = c\<lparr>hc_ops := [], hc_response := s\<rparr> in
       if (0::nat) > 0 then Some (c'\<lparr>hc_ops := [Async_read (Transfer_exactly (chunk_remaining 0 (length s))) (Handle_read_chunk_data 0)]\<rparr>)
       else Some (signal_result (stop c')))"
    by (rule chunk_size_arrives[OF Nil(1), of net 0 trailer]) (use Nil(2) in simp_all)
  let ?c = "signal_result (stop (c\<lparr>hc_ops := [], hc_response := s\<rparr>))"
  have "run_net es c net = run_net es' ?c (drop k net)"
    unfolding es by (rule run_net_step[OF ops 1(1)]) (simp add: 1(2) Let_def)
  also have "\<dots> = Some ?c" by (rule run_net_done) (simp add: stop_def signal_result_def result_sig_def)
  finally show ?case by (simp add: stop_def signal_result_def result_sig_def)
next
  case (Cons d ds)
  obtain e1 e2 es' where es: "es = e1 # e2 # es'" using Cons(6) by (cases es; cases "tl es") auto
  let ?rest = "concat (map chunk ds) @ hex 0 @ CRLF @ trailer"
  obtain s net' where s: "s @ net' = ?rest" "\<And>es. run_net (e1 # e2 # es) c net = run_net es (push_content d (c\<lparr>hc_response := s\<rparr>)) net'"
    "reads_chunks (push_content d (c\<lparr>hc_response := s\<rparr>))"
    by (rule read_chunk[OF Cons(2), of net d ?rest e1 e2]) (use Cons(3-5) in auto)
  show ?case using Cons.IH[OF s(3), of net' es'] Cons(3-6) s(1) by (simp add: es s(2) push_content_def add.assoc)
qed

end
