(* ===== verification/HttpResponse.thy ===== *)
theory HttpResponse
  imports HttpChunks
begin

text \<open>
  Whole responses: the status line, the header lines and a body that is chunked or ends with the connection.
\<close>

section \<open>The status line\<close>

lemma status_200:
  assumes "hc_response c = ''HTTP/1.1 200 '' @ reason @ CRLF @ s" "CHR ''\<newline>'' \<notin> set reason"
  shows "http_response_status c = (c\<lparr>hc_response := s\<rparr>, ''HTTP/1.1'', Some 200)"
proof -
  have sp: "isspace CHR '' ''" by (simp add: isspace_def)
  have ns: "\<not> isspace CHR ''H'' \<and> \<not> isspace CHR ''T'' \<and> \<not> isspace CHR ''P'' \<and> \<not> isspace CHR ''/'' \<and> \<not> isspace CHR ''1'' \<and>
    \<not> isspace CHR ''.'' \<and> \<not> isspace CHR ''2'' \<and> \<not> isspace CHR ''0''" by (simp add: isspace_def)
  have w: "in_word (True, hc_response c) [] = ((True, '' 200 '' @ reason @ CRLF @ s), ''HTTP/1.1'')"
    using sp ns by (simp add: assms(1))
  have "num_get 10 (- (2 ^ 32 - 1)) (2 ^ 32 - 1) (''200 '' @ t) = (False, False, 200)" for t
    by (simp add: num_get_def num_prefix_def digits_val_def digit_val_def Let_def)
  moreover have "num_rest 10 (''200 '' @ t) = '' '' @ t" for t
    by (simp add: num_rest_def num_prefix_def digit_val_def)
  ultimately have "in_unsigned 10 (2 ^ 32 - 1) (True, '' 200 '' @ reason @ CRLF @ s) None = ((True, '' '' @ reason @ CRLF @ s), Some 200)"
    using sp ns by simp
  moreover have "in_line (True, ('' '' @ reason) @ CRLF @ s) = (True, (True, s), '' '' @ reason @ [CHR 0x0D])"
    by (subst in_line_CRLF) (use assms(2) in simp_all)
  ultimately show ?thesis by (simp add: http_response_status_def w del: in_line.simps in_unsigned.simps in_word.simps)
qed

section \<open>The headers\<close>

definition header_block :: "string list \<Rightarrow> string" where
  "header_block hs = concat (map (\<lambda>h. h @ CRLF) hs) @ CRLF"

definition line_ok :: "string \<Rightarrow> bool" where
  "line_ok h \<longleftrightarrow> h \<noteq> [] \<and> CHR 0x0D \<notin> set h \<and> CHR ''\<newline>'' \<notin> set h"

text \<open>A header that says nothing about the length of the body.\<close>

definition plain :: "string \<Rightarrow> bool" where
  "plain h \<longleftrightarrow> line_ok h \<and> \<not> has_sub ''Transfer-Encoding'' (h @ [CHR 0x0D]) \<and> \<not> has_sub ''Content-Length'' (h @ [CHR 0x0D])"

lemma headers_end: "http_headers_loop (CRLF @ s) te len = (s, te, len)"
  using in_line_CRLF[of "[]" s] by (subst http_headers_loop.simps) (simp del: in_line.simps)

lemma headers_plain:
  assumes "\<forall>h\<in>set hs. plain h"
  shows "http_headers_loop (concat (map (\<lambda>h. h @ CRLF) hs) @ s) te len = http_headers_loop s te len"
  using assms
proof (induction hs)
  case (Cons h hs)
  let ?s = "concat (map (\<lambda>h. h @ CRLF) hs) @ s"
  have h: "plain h" "h \<noteq> []" "CHR ''\<newline>'' \<notin> set h" using Cons.prems by (auto simp: plain_def line_ok_def)
  have "http_headers_loop (h @ CRLF @ ?s) te len = http_headers_loop ?s te len"
    using h by (subst http_headers_loop.simps) (simp add: in_line_CRLF plain_def del: in_line.simps)
  then show ?case using Cons by simp
qed simp

lemma headers_chunked:
  "http_headers_loop (''Transfer-Encoding: chunked'' @ CRLF @ s) te len = http_headers_loop s ''chunked'' len"
proof -
  let ?l = "''Transfer-Encoding: chunked''"
  have "in_line (True, ?l @ CRLF @ s) = (True, (True, s), ?l @ [CHR 0x0D])" by (rule in_line_CRLF) simp
  moreover have "has_sub ''Transfer-Encoding'' (?l @ [CHR 0x0D])" by simp
  moreover have "in_word (True, ?l @ [CHR 0x0D]) [] = ((True, '' chunked'' @ [CHR 0x0D]), ''Transfer-Encoding:'')" by code_simp
  moreover have "in_word (True, '' chunked'' @ [CHR 0x0D]) te = ((True, [CHR 0x0D]), ''chunked'')"
    by (simp add: isspace_def)
  ultimately show ?thesis by (subst http_headers_loop.simps) (simp del: in_line.simps in_word.simps has_sub.simps append.simps)
qed

lemma has_sub_skip:
  assumes "p = c # q" "c \<notin> set h"
  shows "has_sub p (h @ t) = has_sub p t"
  using assms(2) by (induction h) (auto simp: assms(1))

lemma no_early_header:
  assumes "\<forall>h\<in>set hs. line_ok h"
  shows "\<not> has_sub (CRLF @ CRLF) (concat (map (\<lambda>h. h @ CRLF) hs) @ [CHR 0x0D])"
  using assms
proof (induction hs)
  case (Cons h hs)
  let ?X = "concat (map (\<lambda>h. h @ CRLF) hs) @ [CHR 0x0D]"
  have "take 2 ?X \<noteq> CRLF"
  proof (cases hs)
    case (Cons g gs)
    then have "g \<noteq> []" "CHR 0x0D \<notin> set g" using Cons.prems by (auto simp: line_ok_def)
    then show ?thesis using Cons by (cases g) (auto simp: CRLF_def)
  qed (simp add: CRLF_def)
  moreover have "has_sub (CRLF @ CRLF) ((h @ CRLF) @ ?X) = has_sub (CRLF @ CRLF) (CRLF @ ?X)"
    using Cons.prems has_sub_skip[of "CRLF @ CRLF" "CHR 0x0D" "[CHR ''\<newline>''] @ CRLF" h "CRLF @ ?X"] by (simp add: line_ok_def CRLF_def)
  ultimately show ?case using Cons by (simp add: CRLF_def numeral_2_eq_2)
qed (simp add: CRLF_def)

lemma header_block_split:
  assumes "hs \<noteq> []" "\<forall>h\<in>set hs. line_ok h"
  obtains A where "header_block hs = A @ CRLF @ CRLF" "\<not> has_sub (CRLF @ CRLF) (butlast (A @ CRLF @ CRLF))"
proof -
  let ?A = "concat (map (\<lambda>h. h @ CRLF) (butlast hs)) @ last hs"
  have "concat (map (\<lambda>h. h @ CRLF) hs) = ?A @ CRLF" using assms(1) by (cases hs rule: rev_cases) simp_all
  then have e: "header_block hs = ?A @ CRLF @ CRLF" by (simp add: header_block_def)
  have "butlast (header_block hs) = concat (map (\<lambda>h. h @ CRLF) hs) @ [CHR 0x0D]" by (simp add: header_block_def CRLF_def butlast_append)
  then show thesis using that[OF e] no_early_header[OF assms(2)] e by simp
qed

section \<open>From the start to the body\<close>

definition started_client :: "(string \<Rightarrow> string \<Rightarrow> nat \<Rightarrow> string) list \<Rightarrow> server_info list \<Rightarrow> string \<Rightarrow> http_client" where
  "started_client slots eps msg_id = start 0 (fold add_request_builder slots (new_http_client eps msg_id))"

text \<open>The state in which the response is awaited, up to fields that play no role for it.\<close>

definition awaits :: "async_op \<Rightarrow> string \<Rightarrow> endpoint \<Rightarrow> http_client \<Rightarrow> bool" where
  "awaits op msg_id ep c \<longleftrightarrow> hc_ops c = [op] \<and> \<not> hc_stopped c \<and> hc_message_id c = msg_id \<and> hc_remote_endpoint c = Some ep \<and>
     hc_content c = [] \<and> hc_content_length c = 0 \<and> hc_results c = []"

lemma complete_read:
  assumes "hc_ops c = [Async_read cond h]" "hc_response c @ d = r"
  shows "complete now (Async_read cond h) ec d c = call_handler h ec (c\<lparr>hc_ops := [], hc_response := r\<rparr>)"
  using assms by (simp add: complete_def)

lemma connects:
  obtains c where "awaits (Async_read (Until CRLF) Handle_read_status_line) msg_id (si_endpoint si) c" "hc_response c = []"
    "\<And>es net. run_net (e1 # e2 # es) (started_client slots (si # sis) msg_id) net = run_net es c net"
proof -
  define c0 where "c0 = started_client slots (si # sis) msg_id"
  have c0: "hc_ops c0 = [Async_connect 0]" "\<not> hc_stopped c0" "hc_socket_open c0" "hc_message_id c0 = msg_id" "hc_endpoints c0 = si # sis"
    "hc_content c0 = []" "hc_content_length c0 = 0" "hc_results c0 = []" "hc_response c0 = []"
    by (simp_all add: c0_def started_client_def add_builders start_def start_connect_def new_http_client_def async_def async_wait_def expires_from_now_def)
  define c1 where "c1 = handle_connect 0 0 Success (c0\<lparr>hc_ops := []\<rparr>)"
  have c1: "hc_ops c1 = [Async_write]" "\<not> hc_stopped c1" "hc_message_id c1 = msg_id" "hc_remote_endpoint c1 = Some (si_endpoint si)"
    "hc_content c1 = []" "hc_content_length c1 = 0" "hc_results c1 = []" "hc_response c1 = []"
    using c0 by (simp_all add: c1_def handle_connect_def Let_def async_def expires_from_now_def)
  define c2 where "c2 = handle_write_request Success (c1\<lparr>hc_ops := [], hc_request := []\<rparr>)"
  have "run_net (e1 # e2 # es) c0 net = run_net (e2 # es) c1 (drop 0 net)" for es net
    by (rule run_net_step[OF c0(1), where ec = Success]) (simp_all add: arrival.simps complete_def c0(1) c1_def)
  moreover have "run_net (e2 # es) c1 net = run_net es c2 (drop 0 net)" for es net
    by (rule run_net_step[OF c1(1), where ec = Success]) (simp_all add: arrival.simps complete_def c1(1) c2_def)
  ultimately have "run_net (e1 # e2 # es) c0 net = run_net es c2 net" for es net by simp
  moreover have "awaits (Async_read (Until CRLF) Handle_read_status_line) msg_id (si_endpoint si) c2" "hc_response c2 = []"
    using c1 by (simp_all add: awaits_def c2_def handle_write_request_def async_def)
  ultimately show thesis using that[of c2] unfolding c0_def by blast
qed

lemma status_arrives:
  assumes "awaits (Async_read (Until CRLF) Handle_read_status_line) msg_id ep c" "hc_response c = []" "CHR ''\<newline>'' \<notin> set reason"
  obtains c' net' where "awaits (Async_read (Until (CRLF @ CRLF)) Handle_read_headers) msg_id ep c'" "hc_response c' @ net' = rest"
    "\<And>es. run_net (e # es) c (''HTTP/1.1 200 '' @ reason @ CRLF @ rest) = run_net es c' net'"
proof -
  let ?net = "''HTTP/1.1 200 '' @ reason @ CRLF @ rest" and ?op = "Async_read (Until CRLF) Handle_read_status_line"
  have ops: "hc_ops c = [?op]" using assms(1) by (simp add: awaits_def)
  have nl: "CHR ''\<newline>'' \<notin> set (''HTTP/1.1 200 '' @ reason)" using assms(3) by simp
  obtain k s where k: "arrival ?op e (hc_response c) ?net = (Success, k)" "hc_response c @ take k ?net = (''HTTP/1.1 200 '' @ reason) @ CRLF @ s" "s @ drop k ?net = rest"
    by (rule arrival_until[of "hc_response c" ?net "''HTTP/1.1 200 '' @ reason" CRLF rest, OF _ no_early_CRLF[OF nl]]) (simp_all add: assms(2))
  let ?c = "c\<lparr>hc_ops := [], hc_response := ''HTTP/1.1 200 '' @ reason @ CRLF @ s\<rparr>"
  let ?c' = "async (Async_read (Until (CRLF @ CRLF)) Handle_read_headers) (?c\<lparr>hc_response := s\<rparr>)"
  have st: "http_response_status ?c = (?c\<lparr>hc_response := s\<rparr>, ''HTTP/1.1'', Some 200)" by (rule status_200[OF _ assms(3)]) simp
  have resp: "hc_response c @ take k ?net = ''HTTP/1.1 200 '' @ reason @ CRLF @ s" using k(2) by simp
  have "complete 0 ?op Success (take k ?net) c = handle_read_status_line Success ?c"
    using complete_read[OF ops resp] by (simp only: call_handler_def handler.case)
  also have "\<dots> = Some ?c'" unfolding handle_read_status_line_def st using assms(1) by (simp add: awaits_def)
  finally have "run_net (e # es) c ?net = run_net es ?c' (drop k ?net)" for es
    by (rule run_net_step[OF ops k(1)])
  moreover have "awaits (Async_read (Until (CRLF @ CRLF)) Handle_read_headers) msg_id ep ?c'" "hc_response ?c' @ drop k ?net = rest"
    using assms(1) k(3) by (simp_all add: awaits_def async_def)
  ultimately show thesis using that by blast
qed

lemma headers_arrive:
  assumes "awaits (Async_read (Until (CRLF @ CRLF)) Handle_read_headers) msg_id ep c" "hc_response c @ net = header_block hs @ rest"
    "hs \<noteq> []" "\<forall>h\<in>set hs. line_ok h" "\<And>s. http_headers_loop (header_block hs @ s) [] 0 = (s, te, len)"
  obtains k s where "arrival (Async_read (Until (CRLF @ CRLF)) Handle_read_headers) e (hc_response c) net = (Success, k)" "s @ drop k net = rest"
    "complete 0 (Async_read (Until (CRLF @ CRLF)) Handle_read_headers) Success (take k net) c =
      Some (handle_read_headers Success (c\<lparr>hc_ops := [], hc_response := header_block hs @ s\<rparr>))"
    "http_headers (c\<lparr>hc_ops := [], hc_response := header_block hs @ s\<rparr>) = (c\<lparr>hc_ops := [], hc_response := s\<rparr>, te, nat len)"
proof -
  let ?op = "Async_read (Until (CRLF @ CRLF)) Handle_read_headers"
  obtain A where A: "header_block hs = A @ CRLF @ CRLF" "\<not> has_sub (CRLF @ CRLF) (butlast (A @ CRLF @ CRLF))"
    by (rule header_block_split[OF assms(3,4)])
  obtain k s where k: "arrival ?op e (hc_response c) net = (Success, k)" "hc_response c @ take k net = A @ (CRLF @ CRLF) @ s" "s @ drop k net = rest"
    by (rule arrival_until[of "hc_response c" net A "CRLF @ CRLF" rest]) (use assms(2) A in simp_all)
  have "hc_response c @ take k net = header_block hs @ s" using k(2) A(1) by simp
  then show thesis using that[OF k(1,3)] assms(1,5) by (simp add: complete_def call_handler_def awaits_def http_headers_def)
qed

text \<open>From the start to the end of the headers.\<close>

lemma header_phase:
  assumes "CHR ''\<newline>'' \<notin> set reason" "hs \<noteq> []" "\<forall>h\<in>set hs. line_ok h" "\<And>s. http_headers_loop (header_block hs @ s) [] 0 = (s, te, len)"
  obtains c s net where "s @ net = body" "hc_ops c = []" "\<not> hc_stopped c" "hc_message_id c = msg_id" "hc_remote_endpoint c = Some (si_endpoint si)"
    "hc_content c = []" "hc_content_length c = 0" "hc_results c = []"
    "http_headers c = (c\<lparr>hc_response := s\<rparr>, te, nat len)"
    "\<And>es. run_net (e1 # e2 # e3 # e4 # es) (started_client slots (si # sis) msg_id) (''HTTP/1.1 200 '' @ reason @ CRLF @ header_block hs @ body) =
      run_net es (handle_read_headers Success c) net"
proof -
  let ?op = "Async_read (Until (CRLF @ CRLF)) Handle_read_headers"
  obtain c where c: "awaits (Async_read (Until CRLF) Handle_read_status_line) msg_id (si_endpoint si) c" "hc_response c = []"
    "\<And>es net. run_net (e1 # e2 # es) (started_client slots (si # sis) msg_id) net = run_net es c net"
    by (rule connects[where msg_id = msg_id and si = si and ?e1.0 = e1 and ?e2.0 = e2 and slots = slots and sis = sis]) blast
  obtain c' net' where c': "awaits ?op msg_id (si_endpoint si) c'" "hc_response c' @ net' = header_block hs @ body"
    "\<And>es. run_net (e3 # es) c (''HTTP/1.1 200 '' @ reason @ CRLF @ header_block hs @ body) = run_net es c' net'"
    by (rule status_arrives[OF c(1,2) assms(1), where e = e3 and rest = "header_block hs @ body"]) blast
  obtain k s where k: "arrival ?op e4 (hc_response c') net' = (Success, k)" "s @ drop k net' = body"
    "complete 0 ?op Success (take k net') c' = Some (handle_read_headers Success (c'\<lparr>hc_ops := [], hc_response := header_block hs @ s\<rparr>))"
    "http_headers (c'\<lparr>hc_ops := [], hc_response := header_block hs @ s\<rparr>) = (c'\<lparr>hc_ops := [], hc_response := s\<rparr>, te, nat len)"
    by (rule headers_arrive[OF c'(1,2) assms(2-4), where e = e4])
  let ?c = "c'\<lparr>hc_ops := [], hc_response := header_block hs @ s\<rparr>"
  have "hc_ops c' = [?op]" using c'(1) by (simp add: awaits_def)
  then have run: "run_net (e1 # e2 # e3 # e4 # es) (started_client slots (si # sis) msg_id) (''HTTP/1.1 200 '' @ reason @ CRLF @ header_block hs @ body) =
      run_net es (handle_read_headers Success ?c) (drop k net')" for es
    unfolding c(3) c'(3) by (rule run_net_step[OF _ k(1,3)])
  show thesis by (rule that[OF k(2) _ _ _ _ _ _ _ _ run]) (use c'(1) k(4) in \<open>simp_all add: awaits_def\<close>)
qed

section \<open>A body that ends with the connection\<close>

lemma in_unsigned_dec:
  assumes "int n < 2 ^ 64"
  shows "snd (in_unsigned 10 (2 ^ 64 - 1) (True, '' '' @ dec n @ [CHR 0x0D]) old) = Some (int n)"
proof -
  let ?s = "dec n @ [CHR 0x0D]"
  note d = digits_dec[of n]
  have ne: "dec n \<noteq> []" using d by (simp add: digits_def)
  have "dropWhile isspace ('' '' @ ?s) = ?s" using digits_hd[OF d] ne by (cases "dec n") (auto simp: isspace_def)
  moreover have "num_prefix 10 ?s = ?s" using digits_hd[OF d] ne by (simp add: num_prefix_def)
  moreover have "takeWhile (\<lambda>c. digit_val c < 10) ?s = dec n"
  proof -
    have "\<forall>c\<in>set (dec n). digit_val c < 10" using d digit_props(1) by (auto simp: digits_def)
    then have "takeWhile (\<lambda>c. digit_val c < 10) ?s = dec n @ takeWhile (\<lambda>c. digit_val c < 10) [CHR 0x0D]" by (intro takeWhile_append2) blast
    then show ?thesis by (simp add: digit_val_def)
  qed
  ultimately show ?thesis using assms ne digits_hd[OF d] by (simp add: num_get_def digits_val_dec Let_def)
qed

lemma dec_chars: "c \<in> set (dec n) \<Longrightarrow> c \<noteq> CHR ''\<newline>'' \<and> c \<noteq> CHR 0x0D \<and> c \<noteq> CHR ''T''"
proof -
  assume "c \<in> set (dec n)"
  then obtain k where "k < 10" "c = digit k" using digits_dec[of n] by (auto simp: digits_def)
  then show ?thesis using digit_cases[of k] by (auto simp: digit_def)
qed

lemma has_sub_set: "has_sub p s \<Longrightarrow> set p \<subseteq> set s"
  by (auto simp: has_sub_iff)

lemma headers_length:
  assumes "int n < 2 ^ 64"
  shows "http_headers_loop ((''Content-Length: '' @ dec n) @ CRLF @ s) te len = http_headers_loop s te (int n)"
proof -
  let ?d = "dec n @ [CHR 0x0D]" and ?l = "''Content-Length:''"
  have d: "CHR ''\<newline>'' \<notin> set (dec n)" "CHR ''T'' \<notin> set (dec n)" using dec_chars by auto
  then have "in_line (True, (''Content-Length: '' @ dec n) @ CRLF @ s) = (True, (True, s), (''Content-Length: '' @ dec n) @ [CHR 0x0D])"
    by (intro in_line_CRLF) simp
  moreover have "\<not> has_sub ''Transfer-Encoding'' ((''Content-Length: '' @ dec n) @ [CHR 0x0D])"
    using d(2) has_sub_set[of "''Transfer-Encoding''"] by fastforce
  moreover have "has_sub ''Content-Length'' ((''Content-Length: '' @ dec n) @ [CHR 0x0D])" by simp
  moreover have "in_word (True, (''Content-Length: '' @ dec n) @ [CHR 0x0D]) [] = ((True, '' '' @ ?d), ?l)"
    by (simp add: isspace_def)
  ultimately show ?thesis using in_unsigned_dec[OF assms, of "Some len"]
    by (subst http_headers_loop.simps) (simp add: case_prod_beta del: in_line.simps in_word.simps in_unsigned.simps has_sub.simps append.simps append_assoc)
qed

lemma read_content:
  assumes "hc_ops c = [Async_read (Transfer_at_least 1) (Handle_read_content n)]" "\<not> hc_stopped c" "hc_response c = []" "length net < length es"
  shows "runs (run_net es c net) (\<lambda>c'. hc_stopped c' \<and> (\<exists>ps. concat ps = net \<and> hc_results c' = hc_results c @
    [\<lparr>r_message_id = hc_message_id c, r_endpoint = hc_remote_endpoint c, r_content = hc_content c @ ps,
      r_length = hc_content_length c + length net, r_error = []\<rparr>]))"
  using assms
proof (induction es arbitrary: c net)
  case (Cons e es)
  let ?op = "Async_read (Transfer_at_least 1) (Handle_read_content n)"
  show ?case
  proof (cases "net = []")
    case True
    let ?c = "signal_result (stop (c\<lparr>hc_ops := []\<rparr>))"
    have "complete 0 ?op end_of_file [] c = Some ?c"
      using Cons.prems(1-3) by (simp add: complete_def call_handler_def handle_read_content_def end_of_file_def)
    then have "run_net (e # es) c net = run_net es ?c (drop 0 net)"
      by (intro run_net_step[OF Cons.prems(1), where ec = end_of_file]) (simp_all add: arrival.simps True)
    also have "\<dots> = Some ?c" by (rule run_net_done) (simp add: stop_def signal_result_def result_sig_def)
    finally show ?thesis using True by (simp add: stop_def signal_result_def result_sig_def)
  next
    case False
    define k where "k = min (length net) (1 + e)"
    have k: "0 < k" "k \<le> length net" using False by (simp_all add: k_def)
    let ?c = "push_content (take k net) (c\<lparr>hc_response := [], hc_ops := [?op]\<rparr>)"
    have "complete 0 ?op Success (take k net) c = Some ?c"
      using Cons.prems(1-3) by (simp add: complete_def call_handler_def handle_read_content_def http_content_def async_def push_content_def min_absorb2[OF k(2)])
    moreover have "arrival ?op e (hc_response c) net = (Success, k)" using False by (cases net) (simp_all add: arrival.simps k_def)
    ultimately have run: "run_net (e # es) c net = run_net es ?c (drop k net)" by (intro run_net_step[OF Cons.prems(1)])
    have "runs (run_net es ?c (drop k net)) (\<lambda>c'. hc_stopped c' \<and> (\<exists>ps. concat ps = drop k net \<and> hc_results c' = hc_results ?c @
      [\<lparr>r_message_id = hc_message_id ?c, r_endpoint = hc_remote_endpoint ?c, r_content = hc_content ?c @ ps,
        r_length = hc_content_length ?c + length (drop k net), r_error = []\<rparr>]))"
      by (rule Cons.IH) (use Cons.prems k in \<open>auto simp: push_content_def\<close>)
    then show ?thesis unfolding run
    proof (rule runs_mono, elim conjE exE, intro conjI)
      fix c' ps
      assume ps: "concat ps = drop k net" "hc_results c' = hc_results ?c @
        [\<lparr>r_message_id = hc_message_id ?c, r_endpoint = hc_remote_endpoint ?c, r_content = hc_content ?c @ ps,
          r_length = hc_content_length ?c + length (drop k net), r_error = []\<rparr>]"
      show "\<exists>ps. concat ps = net \<and> hc_results c' = hc_results c @
        [\<lparr>r_message_id = hc_message_id c, r_endpoint = hc_remote_endpoint c, r_content = hc_content c @ ps,
          r_length = hc_content_length c + length net, r_error = []\<rparr>]"
        using ps k by (intro exI[of _ "take k net # ps"]) (simp add: push_content_def)
    qed
  qed
qed simp

section \<open>Properties\<close>

text \<open>
  (C32) A client that is answered with status 200 and a chunked body, whatever the other headers, the sizes of the
  chunks and the pieces in which the network delivers the text, reports exactly the chunks, as a success; the whole
  response is shorter than 2 to the 31 bytes.
\<close>

theorem http_chunked_response:
  assumes "CHR ''\<newline>'' \<notin> set reason" "\<forall>h\<in>set (hs1 @ hs2). plain h" "[] \<notin> set ds"
    "length (concat (map chunk ds) @ hex 0 @ CRLF @ trailer) < 2 ^ 31" "2 * length ds + 5 \<le> length es"
  shows "runs (run_net es (started_client slots (si # sis) msg_id)
      (''HTTP/1.1 200 '' @ reason @ CRLF @ header_block (hs1 @ [''Transfer-Encoding: chunked''] @ hs2) @ concat (map chunk ds) @ hex 0 @ CRLF @ trailer))
    (\<lambda>c. hc_stopped c \<and> hc_results c = [\<lparr>r_message_id = msg_id, r_endpoint = Some (si_endpoint si), r_content = ds, r_length = length (concat ds), r_error = []\<rparr>])"
proof -
  let ?te = "''Transfer-Encoding: chunked''"
  let ?hs = "hs1 @ [?te] @ hs2" and ?body = "concat (map chunk ds) @ hex 0 @ CRLF @ trailer"
  have "4 \<le> length es" using assms(5) by simp
  then obtain e1 e2 e3 e4 es' where es: "es = e1 # e2 # e3 # e4 # es'" by (auto simp: numeral_eq_Suc Suc_le_length_iff)
  have loop: "http_headers_loop (header_block ?hs @ s) [] 0 = (s, ''chunked'', 0)" for s
    using headers_plain[of hs1 "?te @ CRLF @ concat (map (\<lambda>h. h @ CRLF) hs2) @ CRLF @ s"] headers_plain[of hs2 "CRLF @ s"] assms(2)
    by (simp add: header_block_def headers_chunked headers_end del: append_Cons)
  have "line_ok ?te" by (simp add: line_ok_def)
  then have lines: "\<forall>h\<in>set ?hs. line_ok h" using assms(2) by (auto simp: plain_def)
  obtain c s net where c: "s @ net = ?body" "hc_ops c = []" "\<not> hc_stopped c" "hc_message_id c = msg_id" "hc_remote_endpoint c = Some (si_endpoint si)"
    "hc_content c = []" "hc_content_length c = 0" "hc_results c = []" "http_headers c = (c\<lparr>hc_response := s\<rparr>, ''chunked'', nat 0)"
    "\<And>es. run_net (e1 # e2 # e3 # e4 # es) (started_client slots (si # sis) msg_id) (''HTTP/1.1 200 '' @ reason @ CRLF @ header_block ?hs @ ?body) =
      run_net es (handle_read_headers Success c) net"
    by (rule header_phase[OF assms(1) _ lines loop, where body = ?body and si = si and msg_id = msg_id and ?e1.0 = e1 and ?e2.0 = e2 and ?e3.0 = e3 and ?e4.0 = e4
          and slots = slots and sis = sis]) (simp, blast)
  let ?c = "async (Async_read (Until CRLF) Handle_read_chunk_size) (c\<lparr>hc_response := s\<rparr>)"
  have h: "handle_read_headers Success c = ?c" unfolding handle_read_headers_def c(9) using c(3) by simp
  have "reads_chunks ?c" using c(2,3) by (simp add: reads_chunks_def async_def)
  then have "runs (run_net es' ?c net) (\<lambda>c'. hc_stopped c' \<and> hc_ops c' = [] \<and> hc_results c' = hc_results ?c @
    [\<lparr>r_message_id = hc_message_id ?c, r_endpoint = hc_remote_endpoint ?c, r_content = hc_content ?c @ ds,
      r_length = hc_content_length ?c + length (concat ds), r_error = []\<rparr>])"
    using assms(3-5) c(1) by (intro read_chunks) (simp_all add: async_def es)
  then show ?thesis unfolding es c(10) h by (rule runs_mono) (simp add: async_def c(4-8))
qed

theorem http_chunked_response_witness:
  "runs (run_net [0, 0, 40, 2, 100, 0, 3, 1, 0] (started_client [] [\<lparr>si_endpoint = (''10.0.0.1'', 80), conn_timeout = 3, transfer_timeout = 10\<rparr>] ''001'')
      (''HTTP/1.1 200 '' @ ''OK'' @ CRLF @ header_block ([''Server: x''] @ [''Transfer-Encoding: chunked''] @ []) @ concat (map chunk [''hello, '', ''world'']) @ hex 0 @ CRLF @ CRLF))
    (\<lambda>c. map r_content (hc_results c) = [[''hello, '', ''world'']])"
proof -
  have p: "plain ''Server: x''" by (simp add: plain_def line_ok_def)
  have l: "length (concat (map chunk [''hello, '', ''world'']) @ hex 0 @ CRLF @ CRLF) < 2 ^ 31"
    by (simp add: chunk_def hex.simps CRLF_def)
  show ?thesis by (rule runs_mono[OF http_chunked_response[OF _ _ _ l]]) (simp_all add: p)
qed

text \<open>
  A client that is answered with status 200 and a positive \<^verbatim>\<open>Content-Length\<close> reads until the connection ends and
  reports all bytes that came, as a success; the announced length plays no role, so a body that was cut off is
  reported like a complete one.
\<close>

theorem http_content_until_eof:
  assumes "CHR ''\<newline>'' \<notin> set reason" "\<forall>h\<in>set (hs1 @ hs2). plain h" "0 < n" "int n < 2 ^ 64" "length body + 5 \<le> length es"
  shows "runs (run_net es (started_client slots (si # sis) msg_id)
      (''HTTP/1.1 200 '' @ reason @ CRLF @ header_block (hs1 @ [''Content-Length: '' @ dec n] @ hs2) @ body))
    (\<lambda>c. \<exists>ps. concat ps = body \<and> hc_results c = [\<lparr>r_message_id = msg_id, r_endpoint = Some (si_endpoint si), r_content = ps, r_length = length body, r_error = []\<rparr>])"
proof -
  let ?cl = "''Content-Length: '' @ dec n"
  let ?hs = "hs1 @ [?cl] @ hs2"
  have "4 \<le> length es" using assms(5) by simp
  then obtain e1 e2 e3 e4 es' where es: "es = e1 # e2 # e3 # e4 # es'" by (auto simp: numeral_eq_Suc Suc_le_length_iff)
  have loop: "http_headers_loop (header_block ?hs @ s) [] 0 = (s, [], int n)" for s
    using headers_plain[of hs1 "?cl @ CRLF @ concat (map (\<lambda>h. h @ CRLF) hs2) @ CRLF @ s"] headers_plain[of hs2 "CRLF @ s"] assms(2)
      headers_length[OF assms(4)] by (simp add: header_block_def headers_end del: append_Cons)
  have "line_ok ?cl" using dec_chars by (auto simp: line_ok_def)
  then have lines: "\<forall>h\<in>set ?hs. line_ok h" using assms(2) by (auto simp: plain_def)
  obtain c s net where c: "s @ net = body" "hc_ops c = []" "\<not> hc_stopped c" "hc_message_id c = msg_id" "hc_remote_endpoint c = Some (si_endpoint si)"
    "hc_content c = []" "hc_content_length c = 0" "hc_results c = []" "http_headers c = (c\<lparr>hc_response := s\<rparr>, [], nat (int n))"
    "\<And>es. run_net (e1 # e2 # e3 # e4 # es) (started_client slots (si # sis) msg_id) (''HTTP/1.1 200 '' @ reason @ CRLF @ header_block ?hs @ body) =
      run_net es (handle_read_headers Success c) net"
    by (rule header_phase[OF assms(1) _ lines loop, where body = body and si = si and msg_id = msg_id and ?e1.0 = e1 and ?e2.0 = e2 and ?e3.0 = e3 and ?e4.0 = e4
          and slots = slots and sis = sis]) (simp, blast)
  define c' where "c' = handle_read_headers Success c"
  have c': "hc_ops c' = [Async_read (Transfer_at_least 1) (Handle_read_content n)]" "\<not> hc_stopped c'" "hc_response c' = []"
    "hc_message_id c' = msg_id" "hc_remote_endpoint c' = Some (si_endpoint si)" "hc_content c' = (if s = [] then [] else [s])"
    "hc_content_length c' = length s" "hc_results c' = []"
    using c(2-8) assms(3) by (simp_all add: c'_def handle_read_headers_def c(9) http_content_def async_def push_content_def)
  have "length net < length es'" using assms(5) c(1) by (auto simp: es)
  then show ?thesis unfolding es c(10) c'_def[symmetric]
  proof (rule runs_mono[OF read_content[OF c'(1-3)]], elim conjE exE)
    fix d ps
    assume "concat ps = net" "hc_results d = hc_results c' @ [\<lparr>r_message_id = hc_message_id c', r_endpoint = hc_remote_endpoint c',
      r_content = hc_content c' @ ps, r_length = hc_content_length c' + length net, r_error = []\<rparr>]"
    then show "\<exists>ps. concat ps = body \<and> hc_results d = [\<lparr>r_message_id = msg_id, r_endpoint = Some (si_endpoint si), r_content = ps, r_length = length body, r_error = []\<rparr>]"
      using c(1) c'(4-8) by (intro exI[of _ "hc_content c' @ ps"]) auto
  qed
qed

theorem http_content_until_eof_witness:
  "runs (run_net [0, 0, 0, 3, 0, 1, 0, 0] (started_client [] [\<lparr>si_endpoint = (''10.0.0.1'', 80), conn_timeout = 3, transfer_timeout = 10\<rparr>] ''001'')
      (''HTTP/1.1 200 '' @ ''OK'' @ CRLF @ header_block ([] @ [''Content-Length: '' @ dec 500] @ [''Server: x'']) @ ''cut''))
    (\<lambda>c. map r_error (hc_results c) = [[]] \<and> map r_length (hc_results c) = [3])"
proof -
  have p: "plain ''Server: x''" by (simp add: plain_def line_ok_def)
  show ?thesis by (rule runs_mono[OF http_content_until_eof]) (auto simp: p)
qed

section \<open>Malformed responses\<close>

text \<open>A line that is no chunk size counts as the size 0, the end of the body, and the result is a success.\<close>

lemma bad_chunk_size_succeeds:
  assumes "reads_chunks c" "hc_response c = ''xyz'' @ CRLF"
  shows "handle_read_chunk_size Success c = signal_result (stop (c\<lparr>hc_response := []\<rparr>))"
proof -
  have "in_line (True, ''xyz'' @ CRLF @ []) = (True, (True, []), ''xyz'' @ [CHR 0x0D])" by (rule in_line_CRLF) simp
  moreover have "snd (in_unsigned 16 (2 ^ 64 - 1) (True, ''xyz'' @ [CHR 0x0D]) (Some 0)) = Some 0" by code_simp
  ultimately have "http_chunk_size c = (c\<lparr>hc_response := []\<rparr>, 0)"
    using assms(2) by (simp add: http_chunk_size_def case_prod_beta del: in_line.simps in_unsigned.simps)
  then show ?thesis using assms(1) by (simp add: handle_read_chunk_size_def reads_chunks_def)
qed

text \<open>After a status line without a code the uninitialised \<^verbatim>\<open>status_code\<close> is compared with 200.\<close>

lemma status_code_uninitialised:
  assumes "\<not> hc_stopped c" "hc_response c = ''HTTP/1.1'' @ CRLF"
  shows "handle_read_status_line Success c = None"
proof -
  have "in_word (True, ''HTTP/1.1'' @ CRLF) [] = ((True, CRLF), ''HTTP/1.1'')" by code_simp
  moreover have "in_unsigned 10 (2 ^ 32 - 1) (True, CRLF) None = ((False, []), None)" by code_simp
  ultimately show ?thesis using assms by (simp add: handle_read_status_line_def http_response_status_def del: in_word.simps in_unsigned.simps)
qed

end
