(* ===== verification/HttpExample.thy ===== *)
theory HttpExample
  imports HttpResponse
begin

text \<open>
  The example program of the HTTP client, \<^verbatim>\<open>my_lib/http_client/Source.cpp\<close>: the request that its builder writes and the
  handler that prints errors. The headers of the request are read back with the parser of the client itself.
\<close>

section \<open>The code\<close>

definition build_request :: "string \<Rightarrow> string \<Rightarrow> nat \<Rightarrow> string \<Rightarrow> string \<Rightarrow> string" where
  "build_request request ip port path content =
     request @ ''POST '' @ path @ '' HTTP/1.1'' @ CRLF
     @ ''Host: '' @ ip @ CRLF
     @ ''Connection: close'' @ CRLF
     @ ''Content-Length: '' @ dec (length content) @ CRLF
     @ CRLF
     @ content"

text \<open>What it prints for a result.\<close>

definition handle_result :: "http_result \<Rightarrow> string" where
  "handle_result r = (if r_error r \<noteq> [] then r_error r @ [CHR 0x0A] else [])"

definition example_client :: http_client where
  "example_client =
     (let ser = \<lparr>si_endpoint = (''192.168.1.129'', 8080), conn_timeout = 3, transfer_timeout = 10\<rparr>;
        conn = new_http_client [ser] ''001'';
        conn = add_request_builder (\<lambda>req ip port. build_request req ip port [] []) conn in
      start 0 conn)"

section \<open>The request\<close>

definition request_line :: "string \<Rightarrow> string" where
  "request_line path = ''POST '' @ path @ '' HTTP/1.1''"

lemma plain_connection: "plain ''Connection: close''"
  by (simp add: plain_def line_ok_def)

text \<open>
  The request starts with its line, and its headers say the length of the content, which follows them.
\<close>

lemma build_request_reads_back:
  assumes "CHR ''\<newline>'' \<notin> set path" "plain (''Host: '' @ ip)" "int (length content) < 2 ^ 64"
  shows "\<exists>rest. in_line (True, build_request [] ip port path content) = (True, (True, rest), request_line path @ [CHR 0x0D])
    \<and> http_headers_loop rest [] 0 = (content, [], int (length content))"
proof -
  let ?len = "(''Content-Length: '' @ dec (length content)) @ CRLF @ CRLF @ content"
  let ?rest = "concat (map (\<lambda>h. h @ CRLF) [''Host: '' @ ip, ''Connection: close'']) @ ?len"
  have "build_request [] ip port path content = request_line path @ CRLF @ ?rest"
    by (simp add: build_request_def request_line_def)
  moreover have "CHR ''\<newline>'' \<notin> set (request_line path)"
    using assms(1) by (simp add: request_line_def)
  ultimately have "in_line (True, build_request [] ip port path content) = (True, (True, ?rest), request_line path @ [CHR 0x0D])"
    using in_line_CRLF [of "request_line path" ?rest] by simp
  moreover have "http_headers_loop ?rest [] 0 = http_headers_loop ?len [] 0"
    using assms(2) plain_connection by (intro headers_plain) simp
  moreover have "http_headers_loop ?len [] 0 = (content, [], int (length content))"
    using headers_length [OF assms(3)] headers_end by simp
  ultimately show ?thesis by metis
qed

text \<open>The program has no path: its request line has two blanks and names no resource.\<close>

lemma example_request:
  "hc_request (handle_connect now 0 Success example_client) =
     ''POST  HTTP/1.1'' @ CRLF @ ''Host: 192.168.1.129'' @ CRLF @ ''Connection: close'' @ CRLF @ ''Content-Length: 0'' @ CRLF @ CRLF"
  by (simp add: example_client_def start_def start_connect_def add_request_builder_def new_http_client_def async_def async_wait_def
      expires_from_now_def handle_connect_def build_request_def dec.simps digit_def Let_def)

end
