(* ===== verification/ResetEvent.thy ===== *)
theory ResetEvent
  imports Prelude
begin

text \<open>
  The event for threads, \<^verbatim>\<open>my_lib/ManualResetEvent/ManualResetEvent.cpp\<close>: a flag, a mutex and a condition
  variable. Each thread is at a point of one of the member functions; a step of a thread takes a lock that is free,
  accesses the flag, releases the lock, or goes to sleep. \<^verbatim>\<open>cond_.wait\<close> releases the mutex and sleeps in one step and
  takes the mutex again when it is woken by a notification, spuriously, or by its time limit.
\<close>

section \<open>The state\<close>

text \<open>The flag of the points of \<^verbatim>\<open>wait\<close> says whether it is the one with a time limit; \<open>Wait_in\<close> and \<open>Wait_woken\<close> also have
  whether the limit has passed.\<close>

datatype mre_pc =
  Idle
| Set_enter | Set_in | Set_out | Set_notify
| Reset_enter | Reset_in | Reset_out
| Wait_enter bool | Wait_in bool bool | Wait_asleep bool | Wait_woken bool bool | Wait_out bool bool
| Returned bool bool

record mre =
  signaled :: bool
  mtx :: "nat option"
  pcs :: "nat \<Rightarrow> mre_pc"

definition new_mre :: "bool \<Rightarrow> mre" where
  "new_mre b = \<lparr>signaled = b, mtx = None, pcs = (\<lambda>t. Idle)\<rparr>"

definition goto :: "nat \<Rightarrow> mre_pc \<Rightarrow> mre \<Rightarrow> mre" where
  "goto t pc s = s\<lparr>pcs := (pcs s)(t := pc)\<rparr>"

definition lock :: "nat \<Rightarrow> mre \<Rightarrow> mre option" where
  "lock t s = (if mtx s = None then Some (s\<lparr>mtx := Some t\<rparr>) else None)"

definition unlock :: "mre \<Rightarrow> mre" where
  "unlock s = s\<lparr>mtx := None\<rparr>"

definition is_signaled :: "mre \<Rightarrow> bool" where
  "is_signaled s = signaled s"

definition free_pc :: "mre_pc \<Rightarrow> bool" where
  "free_pc pc \<longleftrightarrow> (case pc of Idle \<Rightarrow> True | Returned _ _ \<Rightarrow> True | _ \<Rightarrow> False)"

definition asleep :: "mre_pc \<Rightarrow> bool" where
  "asleep pc \<longleftrightarrow> (case pc of Wait_asleep _ \<Rightarrow> True | _ \<Rightarrow> False)"

section \<open>The member functions\<close>

text \<open>A step within \<^verbatim>\<open>set\<close>; \<^verbatim>\<open>notify_one\<close> wakes the sleeping thread \<open>w\<close>, and nobody if nobody sleeps.\<close>

definition wake :: "nat \<Rightarrow> bool \<Rightarrow> mre \<Rightarrow> mre option" where
  "wake w to s = (case pcs s w of Wait_asleep timed \<Rightarrow> Some (goto w (Wait_woken timed to) s) | _ \<Rightarrow> None)"

definition notify_one :: "nat option \<Rightarrow> mre \<Rightarrow> mre option" where
  "notify_one w s = (case w of None \<Rightarrow> Some s | Some w \<Rightarrow> wake w False s)"

fun set_step :: "nat \<Rightarrow> mre_pc \<Rightarrow> mre \<Rightarrow> mre option" where
  "set_step t Set_enter s = do { s \<leftarrow> lock t s; Some (goto t Set_in s) }"
| "set_step t Set_in s = Some (goto t Set_out (s\<lparr>signaled := True\<rparr>))"
| "set_step t Set_out s = Some (goto t Set_notify (unlock s))"
| "set_step t pc s = None"

fun reset_step :: "nat \<Rightarrow> mre_pc \<Rightarrow> mre \<Rightarrow> mre option" where
  "reset_step t Reset_enter s = do { s \<leftarrow> lock t s; Some (goto t Reset_in s) }"
| "reset_step t Reset_in s = Some (goto t Reset_out (s\<lparr>signaled := False\<rparr>))"
| "reset_step t Reset_out s = Some (goto t Idle (unlock s))"
| "reset_step t pc s = None"

text \<open>
  Both forms of \<^verbatim>\<open>wait\<close>. The one without a limit tests the flag in a loop. The one with a limit calls
  \<^verbatim>\<open>timed_wait\<close> with the predicate: it returns true when the predicate holds, and the value of the
  predicate when the limit has passed.
\<close>

fun wait_step :: "nat \<Rightarrow> mre_pc \<Rightarrow> mre \<Rightarrow> mre option" where
  "wait_step t (Wait_enter timed) s = do { s \<leftarrow> lock t s; Some (goto t (Wait_in timed False) s) }"
| "wait_step t (Wait_in timed timedout) s =
     (if is_signaled s then Some (goto t (Wait_out timed True) s)
      else if timed \<and> timedout then Some (goto t (Wait_out timed False) s)
      else Some (goto t (Wait_asleep timed) (unlock s)))"
| "wait_step t (Wait_woken timed timedout) s = do { s \<leftarrow> lock t s; Some (goto t (Wait_in timed timedout) s) }"
| "wait_step t (Wait_out timed r) s = Some (goto t (Returned timed r) (unlock s))"
| "wait_step t pc s = None"

section \<open>Interleavings\<close>

datatype mre_event =
  Call_set nat | Call_reset nat | Call_wait nat bool
| Step nat
| Notify nat "nat option"
| Spurious nat
| Timeout nat

definition no_sleeper :: "nat \<Rightarrow> mre \<Rightarrow> bool" where
  "no_sleeper n s \<longleftrightarrow> (\<forall>t<n. \<not> asleep (pcs s t))"

text \<open>What one event does in a program with \<open>n\<close> threads; \<open>None\<close> if it is not possible.\<close>

definition mre_step :: "nat \<Rightarrow> mre_event \<Rightarrow> mre \<Rightarrow> mre option" where
  "mre_step n ev s = (case ev of
     Call_set t \<Rightarrow> if t < n \<and> free_pc (pcs s t) then Some (goto t Set_enter s) else None
   | Call_reset t \<Rightarrow> if t < n \<and> free_pc (pcs s t) then Some (goto t Reset_enter s) else None
   | Call_wait t timed \<Rightarrow> if t < n \<and> free_pc (pcs s t) then Some (goto t (Wait_enter timed) s) else None
   | Step t \<Rightarrow>
       (case set_step t (pcs s t) s of
          Some s \<Rightarrow> Some s
        | None \<Rightarrow> (case reset_step t (pcs s t) s of Some s \<Rightarrow> Some s | None \<Rightarrow> wait_step t (pcs s t) s))
   | Notify t w \<Rightarrow>
       if pcs s t = Set_notify \<and> (w = None \<longrightarrow> no_sleeper n s) then do { s \<leftarrow> notify_one w s; Some (goto t Idle s) } else None
   | Spurious t \<Rightarrow> wake t False s
   | Timeout t \<Rightarrow> if pcs s t = Wait_asleep True then wake t True s else None)"

fun mre_run :: "nat \<Rightarrow> mre_event list \<Rightarrow> mre \<Rightarrow> mre option" where
  "mre_run n [] s = Some s"
| "mre_run n (ev # evs) s = do { s \<leftarrow> mre_step n ev s; mre_run n evs s }"

section \<open>Mutual exclusion and the meaning of a return\<close>

fun holds_lock :: "mre_pc \<Rightarrow> bool" where
  "holds_lock Set_in = True" | "holds_lock Set_out = True" | "holds_lock Reset_in = True" | "holds_lock Reset_out = True"
| "holds_lock (Wait_in a b) = True" | "holds_lock (Wait_out a b) = True" | "holds_lock pc = False"

text \<open>At the end of \<^verbatim>\<open>wait\<close>, still under the lock, the result is the flag; only the form with a limit returns false.\<close>

fun pc_ok :: "mre_pc \<Rightarrow> bool \<Rightarrow> bool" where
  "pc_ok Set_out b \<longleftrightarrow> b"
| "pc_ok Reset_out b \<longleftrightarrow> \<not> b"
| "pc_ok (Wait_out timed r) b \<longleftrightarrow> r = b \<and> (r \<or> timed)"
| "pc_ok (Returned timed r) b \<longleftrightarrow> r \<or> timed"
| "pc_ok pc b \<longleftrightarrow> True"

definition mre_inv :: "mre \<Rightarrow> bool" where
  "mre_inv s \<longleftrightarrow> (\<forall>t. (holds_lock (pcs s t) \<longleftrightarrow> mtx s = Some t) \<and> pc_ok (pcs s t) (signaled s))"

lemmas mre_defs = goto_def lock_def unlock_def is_signaled_def wake_def notify_one_def

lemma pc_ok_unlocked: "\<not> holds_lock pc \<Longrightarrow> pc_ok pc b \<Longrightarrow> pc_ok pc b'"
  by (cases "(pc, b)" rule: pc_ok.cases) simp_all

text \<open>A step of a thread that has the lock or takes it, and one of a thread without it.\<close>

lemma locked_step:
  assumes "mre_inv s" "mtx s = None \<or> mtx s = Some t" "pcs s' = (pcs s)(t := pc)" "mtx s' = (if holds_lock pc then Some t else None)" "pc_ok pc (signaled s')"
  shows "mre_inv s'"
proof -
  have "(holds_lock (pcs s' u) \<longleftrightarrow> mtx s' = Some u) \<and> pc_ok (pcs s' u) (signaled s')" for u
  proof (cases "u = t")
    case False
    then have "\<not> holds_lock (pcs s u)" "pc_ok (pcs s u) (signaled s)" using assms(1,2) by (auto simp: mre_inv_def)
    then show ?thesis using False assms(3,4) pc_ok_unlocked by simp
  qed (use assms(3-5) in simp)
  then show ?thesis by (simp add: mre_inv_def)
qed

lemma unlocked_step:
  assumes "mre_inv s" "\<not> holds_lock (pcs s t)" "\<not> holds_lock pc" "pc_ok pc (signaled s)"
  shows "mre_inv (goto t pc s)"
  using assms by (auto simp: mre_inv_def goto_def)

lemma inv_mtx: "mre_inv s \<Longrightarrow> holds_lock (pcs s t) \<Longrightarrow> mtx s = Some t"
  by (simp add: mre_inv_def)

lemma set_step_inv:
  assumes "mre_inv s" "set_step t (pcs s t) s = Some s'"
  shows "mre_inv s'"
proof (cases "pcs s t")
  case Set_enter
  then show ?thesis using assms(2) by (intro locked_step[OF assms(1), of t _ Set_in]) (auto simp: mre_defs split: if_splits)
next
  case Set_in
  then show ?thesis using assms inv_mtx[OF assms(1), of t] by (intro locked_step[OF assms(1), of t _ Set_out]) (auto simp: mre_defs)
next
  case Set_out
  then show ?thesis using assms inv_mtx[OF assms(1), of t] by (intro locked_step[OF assms(1), of t _ Set_notify]) (auto simp: mre_defs)
qed (use assms(2) in simp_all)

lemma reset_step_inv:
  assumes "mre_inv s" "reset_step t (pcs s t) s = Some s'"
  shows "mre_inv s'"
proof (cases "pcs s t")
  case Reset_enter
  then show ?thesis using assms(2) by (intro locked_step[OF assms(1), of t _ Reset_in]) (auto simp: mre_defs split: if_splits)
next
  case Reset_in
  then show ?thesis using assms inv_mtx[OF assms(1), of t] by (intro locked_step[OF assms(1), of t _ Reset_out]) (auto simp: mre_defs)
next
  case Reset_out
  then show ?thesis using assms inv_mtx[OF assms(1), of t] by (intro locked_step[OF assms(1), of t _ Idle]) (auto simp: mre_defs)
qed (use assms(2) in simp_all)

lemma wait_step_inv:
  assumes "mre_inv s" "wait_step t (pcs s t) s = Some s'"
  shows "mre_inv s'"
proof (cases "pcs s t")
  case (Wait_enter timed)
  then show ?thesis using assms(2) by (intro locked_step[OF assms(1), of t _ "Wait_in timed False"]) (auto simp: mre_defs split: if_splits)
next
  case (Wait_in timed to)
  let ?pc = "if signaled s then Wait_out timed True else if timed \<and> to then Wait_out timed False else Wait_asleep timed"
  show ?thesis using Wait_in assms inv_mtx[OF assms(1), of t]
    by (intro locked_step[OF assms(1), of t _ ?pc]) (auto simp: mre_defs split: if_splits)
next
  case (Wait_woken timed to)
  then show ?thesis using assms(2) by (intro locked_step[OF assms(1), of t _ "Wait_in timed to"]) (auto simp: mre_defs split: if_splits)
next
  case (Wait_out timed r)
  moreover from this have "r \<or> timed" using assms(1) by (force simp: mre_inv_def dest: spec[of _ t])
  ultimately show ?thesis using assms(2) inv_mtx[OF assms(1), of t]
    by (intro locked_step[OF assms(1), of t _ "Returned timed r"]) (auto simp: mre_defs)
qed (use assms(2) in simp_all)

lemma wake_inv: "mre_inv s \<Longrightarrow> wake w to s = Some s' \<Longrightarrow> mre_inv s'"
  by (auto simp: wake_def split: mre_pc.splits intro!: unlocked_step)

lemma wake_other: "wake w to s = Some s' \<Longrightarrow> pcs s t = Set_notify \<Longrightarrow> pcs s' t = Set_notify"
  by (auto simp: wake_def goto_def split: mre_pc.splits)

lemma free_unlocked: "free_pc pc \<Longrightarrow> \<not> holds_lock pc"
  by (cases pc) (simp_all add: free_pc_def)

lemma step_cases:
  assumes "mre_step n ev s = Some s'" "ev = Step t"
  obtains "set_step t (pcs s t) s = Some s'" | "reset_step t (pcs s t) s = Some s'" | "wait_step t (pcs s t) s = Some s'"
  using assms by (cases "set_step t (pcs s t) s"; cases "reset_step t (pcs s t) s") (simp_all add: mre_step_def)

lemma mre_step_inv:
  assumes "mre_inv s" "mre_step n ev s = Some s'"
  shows "mre_inv s'"
proof (cases ev)
  case (Step t)
  consider "set_step t (pcs s t) s = Some s'" | "reset_step t (pcs s t) s = Some s'" | "wait_step t (pcs s t) s = Some s'"
    using assms(2) Step by (rule step_cases)
  then show ?thesis using set_step_inv[OF assms(1)] reset_step_inv[OF assms(1)] wait_step_inv[OF assms(1)] by cases
next
  case (Notify t w)
  then obtain s1 where s1: "pcs s t = Set_notify" "notify_one w s = Some s1" "s' = goto t Idle s1"
    using assms(2) by (auto simp: mre_step_def bind_Some_conv split: if_splits)
  have "mre_inv s1 \<and> pcs s1 t = Set_notify" using s1(1,2) assms(1) wake_inv wake_other by (cases w) (auto simp: notify_one_def)
  then show ?thesis unfolding s1(3) by (intro unlocked_step) simp_all
qed (use assms in \<open>auto simp: mre_step_def free_unlocked intro!: unlocked_step intro: wake_inv split: if_splits\<close>)

lemma mre_run_inv: "mre_inv s \<Longrightarrow> mre_run n evs s = Some s' \<Longrightarrow> mre_inv s'"
  by (induction evs arbitrary: s) (auto simp: bind_Some_conv intro: mre_step_inv)

lemma new_mre_inv: "mre_inv (new_mre b)"
  by (simp add: mre_inv_def new_mre_def)

section \<open>Waking a single waiter\<close>

text \<open>Only the thread \<open>w\<close> waits.\<close>

definition waits_at :: "mre_pc \<Rightarrow> bool" where
  "waits_at pc \<longleftrightarrow> (case pc of Wait_enter _ \<Rightarrow> True | Wait_in _ _ \<Rightarrow> True | Wait_asleep _ \<Rightarrow> True | Wait_woken _ _ \<Rightarrow> True | _ \<Rightarrow> False)"

definition only_waiter :: "nat \<Rightarrow> mre_event \<Rightarrow> bool" where
  "only_waiter w ev \<longleftrightarrow> (case ev of Call_wait t _ \<Rightarrow> t = w | _ \<Rightarrow> True)"

text \<open>A waiter that sleeps although the flag is set has a notification coming.\<close>

definition wake_inv_single :: "nat \<Rightarrow> mre \<Rightarrow> bool" where
  "wake_inv_single w s \<longleftrightarrow> (\<forall>t. waits_at (pcs s t) \<longrightarrow> t = w) \<and>
     (asleep (pcs s w) \<and> signaled s \<longrightarrow> (\<exists>t. pcs s t = Set_out \<or> pcs s t = Set_notify))"

lemma single_goto:
  assumes "wake_inv_single w s" "pcs s' = (pcs s)(t := pc)" "waits_at pc \<longrightarrow> t = w"
    and "\<not> signaled s' \<or> (t = w \<and> \<not> asleep pc) \<or> pc = Set_out \<or> pc = Set_notify \<or>
      (signaled s' = signaled s \<and> pcs s t \<noteq> Set_out \<and> pcs s t \<noteq> Set_notify \<and> \<not> asleep pc)"
  shows "wake_inv_single w s'"
proof -
  have "\<forall>u. waits_at (pcs s' u) \<longrightarrow> u = w" using assms(1-3) by (auto simp: wake_inv_single_def)
  moreover have "\<exists>u. pcs s' u = Set_out \<or> pcs s' u = Set_notify" if a: "asleep (pcs s' w)" "signaled s'"
  proof (cases "pc = Set_out \<or> pc = Set_notify")
    case True
    then show ?thesis using assms(2) by (metis fun_upd_same)
  next
    case False
    then have t: "t \<noteq> w" "signaled s" "pcs s t \<noteq> Set_out" "pcs s t \<noteq> Set_notify" using assms(2,4) a by auto
    then obtain u where "pcs s u = Set_out \<or> pcs s u = Set_notify" using assms(1,2) a by (auto simp: wake_inv_single_def)
    then show ?thesis using t assms(2) by (metis fun_upd_other)
  qed
  ultimately show ?thesis by (simp add: wake_inv_single_def)
qed

lemma single_steps:
  assumes "wake_inv_single w s"
  shows "set_step t (pcs s t) s = Some s' \<Longrightarrow> wake_inv_single w s'"
    "reset_step t (pcs s t) s = Some s' \<Longrightarrow> wake_inv_single w s'"
    "wait_step t (pcs s t) s = Some s' \<Longrightarrow> wake_inv_single w s'"
proof -
  have only: "waits_at (pcs s t) \<Longrightarrow> t = w" using assms by (simp add: wake_inv_single_def)
  note d = mre_defs waits_at_def asleep_def
  show "set_step t (pcs s t) s = Some s' \<Longrightarrow> wake_inv_single w s'"
    by (rule single_goto[OF assms, of _ t "pcs s' t"]; cases "pcs s t") (auto simp: d split: if_splits)
  show "reset_step t (pcs s t) s = Some s' \<Longrightarrow> wake_inv_single w s'"
    by (rule single_goto[OF assms, of _ t "pcs s' t"]; cases "pcs s t") (auto simp: d split: if_splits)
  show "wait_step t (pcs s t) s = Some s' \<Longrightarrow> wake_inv_single w s'"
    using only by (intro single_goto[OF assms, of _ t "pcs s' t"]; cases "pcs s t") (auto simp: d split: if_splits)
qed

lemma single_wake:
  assumes "wake_inv_single w s" "wake v to s = Some s'"
  shows "wake_inv_single w s' \<and> \<not> asleep (pcs s' w)"
proof -
  obtain timed where v: "pcs s v = Wait_asleep timed" "s' = goto v (Wait_woken timed to) s"
    using assms(2) by (cases "pcs s v") (simp_all add: wake_def)
  then have "v = w" using assms(1) by (auto simp: wake_inv_single_def waits_at_def)
  moreover from this have "wake_inv_single w s'"
    by (intro single_goto[OF assms(1), of _ v "Wait_woken timed to"]) (simp_all add: v(2) goto_def asleep_def)
  ultimately show ?thesis by (simp add: v(2) goto_def asleep_def)
qed

lemma single_notify:
  assumes "wake_inv_single w s" "w < n" "v = None \<longrightarrow> no_sleeper n s" "notify_one v s = Some s'"
  shows "wake_inv_single w s' \<and> \<not> asleep (pcs s' w)"
  using assms single_wake by (cases v) (auto simp: notify_one_def no_sleeper_def)

lemma single_step:
  assumes "wake_inv_single w s" "mre_step n ev s = Some s'" "only_waiter w ev" "w < n"
  shows "wake_inv_single w s'"
proof (cases ev)
  case (Step t)
  show ?thesis using assms(2) Step single_steps[OF assms(1)] by (auto elim: step_cases)
next
  case (Notify t v)
  then obtain s1 where s1: "v = None \<longrightarrow> no_sleeper n s" "notify_one v s = Some s1" "s' = goto t Idle s1"
    using assms(2) by (auto simp: mre_step_def bind_Some_conv split: if_splits)
  have s: "wake_inv_single w s1 \<and> \<not> asleep (pcs s1 w)" by (rule single_notify[OF assms(1,4) s1(1,2)])
  then show ?thesis unfolding s1(3) by (auto simp: wake_inv_single_def goto_def waits_at_def asleep_def)
next
  case (Spurious t)
  then show ?thesis using assms(1,2) single_wake by (auto simp: mre_step_def)
next
  case (Timeout t)
  then show ?thesis using assms(1,2) single_wake by (auto simp: mre_step_def split: if_splits)
next
  case (Call_set t)
  then show ?thesis using assms(1,2)
    by (intro single_goto[OF assms(1), of _ t Set_enter]) (auto simp: mre_step_def goto_def waits_at_def asleep_def free_pc_def split: if_splits)
next
  case (Call_reset t)
  then show ?thesis using assms(1,2)
    by (intro single_goto[OF assms(1), of _ t Reset_enter]) (auto simp: mre_step_def goto_def waits_at_def asleep_def free_pc_def split: if_splits)
next
  case (Call_wait t timed)
  then show ?thesis using assms(1,2,3)
    by (intro single_goto[OF assms(1), of _ t "Wait_enter timed"]) (auto simp: mre_step_def goto_def waits_at_def asleep_def free_pc_def only_waiter_def split: if_splits)
qed

lemma single_run:
  "wake_inv_single w s \<Longrightarrow> mre_run n evs s = Some s' \<Longrightarrow> \<forall>ev\<in>set evs. only_waiter w ev \<Longrightarrow> w < n \<Longrightarrow> wake_inv_single w s'"
  by (induction evs arbitrary: s) (auto simp: bind_Some_conv intro: single_step)

section \<open>Properties\<close>

text \<open>
  (C33) In every interleaving at most one thread is inside a critical section, the flag is set when \<^verbatim>\<open>wait\<close> is about
  to return with success, the form without a limit never returns otherwise, and the form with a limit
  returns exactly the flag.
\<close>

theorem mre_wait_signaled:
  assumes "mre_run n evs (new_mre b) = Some s"
  shows "(\<forall>t u. holds_lock (pcs s t) \<and> holds_lock (pcs s u) \<longrightarrow> t = u) \<and>
    (\<forall>t timed r. pcs s t = Wait_out timed r \<longrightarrow> r = signaled s \<and> (r \<or> timed)) \<and>
    (\<forall>t r. pcs s t = Returned False r \<longrightarrow> r)"
proof -
  have i: "holds_lock (pcs s t) \<longleftrightarrow> mtx s = Some t" "pc_ok (pcs s t) (signaled s)" for t
    using mre_run_inv[OF new_mre_inv assms] by (simp_all add: mre_inv_def)
  have "r = signaled s \<and> (r \<or> timed)" if "pcs s t = Wait_out timed r" for t timed r using i(2)[of t] that by auto
  moreover have "r" if "pcs s t = Returned False r" for t r using i(2)[of t] that by simp
  ultimately show ?thesis using i(1) by auto
qed

theorem mre_wait_signaled_witness:
  "runs (mre_run 2 [Call_wait 0 False, Step 0, Step 0, Call_set 1, Step 1, Step 1, Step 1, Notify 1 (Some 0), Step 0, Step 0] (new_mre False))
    (\<lambda>s. pcs s 0 = Wait_out False True \<and> signaled s)"
proof -
  let ?evs = "[Call_wait 0 False, Step 0, Step 0, Call_set 1, Step 1, Step 1, Step 1, Notify 1 (Some 0), Step 0, Step 0]"
  obtain s where s: "mre_run 2 ?evs (new_mre False) = Some s" "pcs s 0 = Wait_out False True"
    by (simp add: mre_step_def mre_defs new_mre_def free_pc_def)
  then show ?thesis using mre_wait_signaled[OF s(1)] by (auto simp: runs_def)
qed

text \<open>
  (C34) If only one thread waits, no wake-up is lost: when it sleeps although the flag is set, a call of \<^verbatim>\<open>set\<close> is
  about to notify it.
\<close>

theorem mre_single_waiter:
  assumes "mre_run n evs (new_mre b) = Some s" "\<forall>ev\<in>set evs. only_waiter w ev" "w < n" "pcs s w = Wait_asleep timed" "signaled s"
  shows "\<exists>t. pcs s t = Set_out \<or> pcs s t = Set_notify"
proof -
  have "wake_inv_single w (new_mre b)" by (simp add: wake_inv_single_def new_mre_def waits_at_def asleep_def)
  then have "wake_inv_single w s" using single_run assms(1-3) by blast
  then show ?thesis using assms(4,5) by (simp add: wake_inv_single_def asleep_def)
qed

theorem mre_single_waiter_witness:
  "runs (mre_run 2 [Call_wait 0 False, Step 0, Step 0, Call_set 1, Step 1, Step 1] (new_mre False))
    (\<lambda>s. pcs s 0 = Wait_asleep False \<and> signaled s \<and> (\<exists>t. pcs s t = Set_out \<or> pcs s t = Set_notify))"
proof -
  let ?evs = "[Call_wait 0 False, Step 0, Step 0, Call_set 1, Step 1, Step 1]"
  obtain s where s: "mre_run 2 ?evs (new_mre False) = Some s" "pcs s 0 = Wait_asleep False" "signaled s"
    by (simp add: mre_step_def mre_defs new_mre_def free_pc_def)
  then show ?thesis using mre_single_waiter[OF s(1) _ _ s(2,3)] by (simp add: only_waiter_def)
qed

text \<open>
  With two waiting threads, \<^verbatim>\<open>set\<close> wakes one of them and the other sleeps on, although the flag stays set and nobody
  will notify it any more.
\<close>

lemma second_waiter_sleeps:
  "runs (mre_run 3 [Call_wait 0 False, Step 0, Step 0, Call_wait 1 False, Step 1, Step 1,
      Call_set 2, Step 2, Step 2, Step 2, Notify 2 (Some 0), Step 0, Step 0, Step 0] (new_mre False))
    (\<lambda>s. signaled s \<and> mtx s = None \<and> pcs s 0 = Returned False True \<and> pcs s 1 = Wait_asleep False \<and> pcs s 2 = Idle)"
  by (simp add: mre_step_def mre_defs new_mre_def free_pc_def)

end
