(* ===== verification/FdAge.thy ===== *)
theory FdAge
  imports Prelude "HOL-Library.Signed_Division"
begin

text \<open>
  The test server \<^verbatim>\<open>network/tcp/inet_server.c\<close>: a loop accepts connections and notes the time of each, a timer
  closes those that are too old, and threads read from the last one. The table \<^verbatim>\<open>fds\<close> is a list of times; the
  results of the system calls are arguments, and the calls of \<^verbatim>\<open>close\<close> are recorded. The mutex makes an
  entry into the table and a run of the timer one step each. An access outside the table is \<open>None\<close>.
\<close>

section \<open>The code\<close>

definition BUF_SIZE :: int where "BUF_SIZE = 1024"

definition FD_AGE :: int where "FD_AGE = 20"

definition MAX_FD :: nat where "MAX_FD = 1024"

record fd_server =
  con_fd :: int
  fds :: "int list"
  closed :: "int list"

definition fd_server_init :: fd_server where
  "fd_server_init = \<lparr>con_fd = 0, fds = replicate (MAX_FD + 1) 0, closed = []\<rparr>"

text \<open>One round of the loop in \<^verbatim>\<open>main\<close>: \<open>fd\<close> is what \<^verbatim>\<open>accept\<close> returns, \<open>now\<close> the time.\<close>

definition accept_step :: "int \<Rightarrow> int \<Rightarrow> fd_server \<Rightarrow> fd_server option" where
  "accept_step fd now s =
     (let s = s\<lparr>con_fd := fd\<rparr> in
      if con_fd s = -1 then Some s
      else if con_fd s > int MAX_FD then Some (s\<lparr>closed := closed s @ [con_fd s]\<rparr>)
      else if con_fd s < 0 then None
      else Some (s\<lparr>fds := (fds s)[nat (con_fd s) := now]\<rparr>))"

text \<open>The loop of \<^verbatim>\<open>timer_handler\<close>; \<open>cl fd\<close> says whether \<^verbatim>\<open>close\<close> succeeds.\<close>

function timer_loop :: "(int \<Rightarrow> bool) \<Rightarrow> int \<Rightarrow> nat \<Rightarrow> fd_server \<Rightarrow> fd_server" where
  "timer_loop cl now i s =
     (if i > MAX_FD then s
      else
        let s = (if fds s ! i > 0 \<and> fds s ! i + FD_AGE < now then
                   let s = s\<lparr>closed := closed s @ [int i]\<rparr> in
                   if \<not> cl (int i) then s else s\<lparr>fds := (fds s)[i := 0]\<rparr>
                 else s) in
        timer_loop cl now (i + 1) s)"
  by pat_completeness auto
termination by (relation "measure (\<lambda>(_, _, i, _). MAX_FD + 1 - i)") auto

declare timer_loop.simps [simp del]

definition timer_handler :: "(int \<Rightarrow> bool) \<Rightarrow> int \<Rightarrow> fd_server \<Rightarrow> fd_server" where
  "timer_handler cl now s = timer_loop cl now 0 s"

text \<open>\<^verbatim>\<open>timer_set\<close>: the first expiry and the interval, in seconds and nanoseconds.\<close>

definition timer_set :: "int \<Rightarrow> (int \<times> int) \<times> (int \<times> int)" where
  "timer_set ms = ((1, 0), (ms sdiv 1000, ms smod 1000 * 1000000))"

text \<open>
  One round of \<^verbatim>\<open>read_task\<close> with what \<^verbatim>\<open>read\<close> returns: nothing without a connection or on an error, otherwise the
  text up to the first NUL; \<open>None\<close> if the terminator is written behind the buffer.
\<close>

definition read_task_step :: "int \<Rightarrow> string \<Rightarrow> fd_server \<Rightarrow> string option option" where
  "read_task_step n dat s =
     (if con_fd s \<le> 0 then Some None
      else if n < 0 then Some None
      else if n < BUF_SIZE then Some (Some (takeWhile (\<lambda>c. c \<noteq> CHR 0x00) (take (nat n) dat)))
      else None)"

text \<open>\<^verbatim>\<open>timer_init\<close> with the result of \<^verbatim>\<open>timer_create\<close>.\<close>

definition timer_init :: "int \<Rightarrow> int" where
  "timer_init create = (if create = -1 then 0 else 1)"

text \<open>
  \<^verbatim>\<open>main\<close> up to the loop, with the results of \<^verbatim>\<open>socket\<close>, the two calls of \<^verbatim>\<open>setsockopt\<close>, \<^verbatim>\<open>bind\<close> and \<^verbatim>\<open>listen\<close>: what it reports, the
  descriptors it closes, and the exit code, or the interval of the timer if it goes on.
\<close>

datatype setup_end = Setup_exit int | Setup_done "(int \<times> int) \<times> (int \<times> int)"

definition server_setup :: "int \<Rightarrow> int \<Rightarrow> int \<Rightarrow> int \<Rightarrow> int \<Rightarrow> string list \<times> int list \<times> setup_end" where
  "server_setup listen_fd defer_accept reuse_addr bnd lst =
     (if listen_fd = -1 then ([''fail to create socket''], [], Setup_exit 1)
      else
        let out = (if defer_accept = -1 then [''fail to setsockopt TCP_DEFER_ACCEPT''] else []);
          out = (if reuse_addr = -1 then out @ [''fail to setsockopt SO_REUSEADDR''] else out) in
        if bnd = -1 then (out @ [''fail to bind''], [listen_fd], Setup_exit 1)
        else if lst = -1 then (out @ [''fail to listen''], [listen_fd], Setup_exit 1)
        else (out, [], Setup_done (timer_set (1000 * FD_AGE))))"

text \<open>The rounds of the accept loop and of the timer, in the order in which they happen.\<close>

datatype server_event = Accepted int int | Timer "int \<Rightarrow> bool" int

fun server_rounds :: "server_event list \<Rightarrow> fd_server \<Rightarrow> fd_server option" where
  "server_rounds [] s = Some s"
| "server_rounds (Accepted fd now # evs) s = do { s \<leftarrow> accept_step fd now s; server_rounds evs s }"
| "server_rounds (Timer cl now # evs) s = server_rounds evs (timer_handler cl now s)"

section \<open>The table\<close>

definition fd_ok :: "fd_server \<Rightarrow> bool" where
  "fd_ok s \<longleftrightarrow> length (fds s) = MAX_FD + 1"

definition old :: "int \<Rightarrow> int \<Rightarrow> bool" where
  "old now tm \<longleftrightarrow> tm > 0 \<and> tm + FD_AGE < now"

lemma timer_loop_eq:
  assumes "length (fds s) = MAX_FD + 1" "i \<le> MAX_FD + 1"
  shows "timer_loop cl now i s = s\<lparr>
    fds := take i (fds s) @ map (\<lambda>j. if old now (fds s ! j) \<and> cl (int j) then 0 else fds s ! j) [i..<MAX_FD + 1],
    closed := closed s @ map int (filter (\<lambda>j. old now (fds s ! j)) [i..<MAX_FD + 1])\<rparr>"
  using assms
proof (induction "MAX_FD + 1 - i" arbitrary: i s)
  case 0
  then show ?case by (subst timer_loop.simps) simp
next
  case (Suc n)
  have i: "i \<le> MAX_FD" "n = MAX_FD + 1 - (i + 1)" using Suc(2) by simp_all
  define v where "v = (if old now (fds s ! i) \<and> cl (int i) then 0 else fds s ! i)"
  define s' where "s' = s\<lparr>closed := closed s @ (if old now (fds s ! i) then [int i] else []), fds := (fds s)[i := v]\<rparr>"
  let ?js = "[i + 1..<MAX_FD + 1]"
  have js: "[i..<MAX_FD + 1] = i # ?js" using i(1) by (simp add: upt_conv_Cons del: upt_Suc)
  have same: "fds s' ! j = fds s ! j" if "j \<in> set ?js" for j using that by (auto simp: s'_def)
  have tail: "map (\<lambda>j. if old now (fds s' ! j) \<and> cl (int j) then 0 else fds s' ! j) ?js = map (\<lambda>j. if old now (fds s ! j) \<and> cl (int j) then 0 else fds s ! j) ?js"
    "filter (\<lambda>j. old now (fds s' ! j)) ?js = filter (\<lambda>j. old now (fds s ! j)) ?js"
    using same by (auto intro!: map_cong filter_cong simp del: upt_Suc)
  have front: "take (i + 1) (fds s') = take i (fds s) @ [v]" using i(1) Suc(3) by (simp add: s'_def take_Suc_conv_app_nth)
  have "timer_loop cl now i s = timer_loop cl now (i + 1) s'"
    using i(1) by (subst timer_loop.simps) (simp add: s'_def v_def old_def Let_def)
  also have "\<dots> = s'\<lparr>fds := take (i + 1) (fds s') @ map (\<lambda>j. if old now (fds s' ! j) \<and> cl (int j) then 0 else fds s' ! j) ?js,
    closed := closed s' @ map int (filter (\<lambda>j. old now (fds s' ! j)) ?js)\<rparr>"
    by (rule Suc(1)[OF i(2)]) (use Suc(3) i(1) in \<open>simp_all add: s'_def\<close>)
  finally show ?case unfolding js tail front by (simp add: s'_def v_def del: upt_Suc)
qed

section \<open>Properties\<close>

text \<open>
  (C35) A run of the timer calls \<^verbatim>\<open>close\<close> exactly on the connections that are older than the limit, in ascending order and
  each once, clears the time of those that could be closed, and leaves all others as they are.
\<close>

theorem timer_closes_old:
  assumes "length (fds s) = MAX_FD + 1"
  shows "timer_handler cl now s = s\<lparr>
    fds := map (\<lambda>j. if fds s ! j > 0 \<and> fds s ! j + FD_AGE < now \<and> cl (int j) then 0 else fds s ! j) [0..<MAX_FD + 1],
    closed := closed s @ map int (filter (\<lambda>j. fds s ! j > 0 \<and> fds s ! j + FD_AGE < now) [0..<MAX_FD + 1])\<rparr>"
  using timer_loop_eq[OF assms, of 0] by (simp add: timer_handler_def old_def)

theorem timer_closes_old_witness:
  "runs (accept_step 5 100 fd_server_init) (\<lambda>s. fds (timer_handler (\<lambda>_. True) 121 s) ! 5 = 0 \<and> fds (timer_handler (\<lambda>_. True) 120 s) ! 5 = 100)"
proof -
  let ?s = "fd_server_init\<lparr>con_fd := 5, fds := (replicate (MAX_FD + 1) 0)[5 := 100]\<rparr>"
  have "accept_step 5 100 fd_server_init = Some ?s" by (simp add: accept_step_def fd_server_init_def MAX_FD_def Let_def)
  moreover have l: "length (fds ?s) = MAX_FD + 1" by simp
  moreover have m: "(5 :: nat) < MAX_FD + 1" by (simp add: MAX_FD_def)
  have "fds (timer_handler (\<lambda>_. True) now ?s) ! 5 = (if 100 + FD_AGE < now then 0 else 100)" for now
    unfolding timer_closes_old[OF l] using m by (simp del: replicate.simps upt_Suc)
  ultimately show ?thesis by (simp add: FD_AGE_def)
qed

text \<open>A descriptor that is too large is closed, but \<^verbatim>\<open>con_fd\<close> keeps it: the readers go on with a closed descriptor.\<close>

lemma con_fd_stays_closed:
  "accept_step 2000 now s = Some (s\<lparr>con_fd := 2000, closed := closed s @ [2000]\<rparr>)"
  by (simp add: accept_step_def MAX_FD_def Let_def)

text \<open>A read of at most 1023 bytes keeps the terminator inside the buffer.\<close>

lemma read_task_in_bounds: "n \<le> BUF_SIZE - 1 \<Longrightarrow> \<exists>r. read_task_step n dat s = Some r"
  by (simp add: read_task_step_def)

lemma timer_interval: "0 \<le> ms \<Longrightarrow> (case timer_set ms of (_, sec, nsec) \<Rightarrow> sec * 1000000000 + nsec = ms * 1000000 \<and> 0 \<le> nsec \<and> nsec < 1000000000)"
proof -
  assume "0 \<le> ms"
  then have "ms sdiv 1000 = ms div 1000" "ms smod 1000 = ms mod 1000" by (simp_all add: signed_divide_int_def signed_modulo_int_def zsgn_def)
  moreover have "ms div 1000 * 1000 + ms mod 1000 = ms" "ms mod 1000 < 1000" "0 \<le> ms mod 1000" by simp_all
  ultimately show ?thesis unfolding timer_set_def prod.case by (intro conjI; linarith)
qed

text \<open>
  The set-up ends the program exactly if the socket cannot be created, bound or listened on, and then leaves no socket open;
  otherwise the timer runs every 20 seconds.
\<close>

lemma server_setup_outcome:
  "server_setup listen_fd da ra bnd lst =
     (let opts = (if da = -1 then [''fail to setsockopt TCP_DEFER_ACCEPT''] else [])
        @ (if ra = -1 then [''fail to setsockopt SO_REUSEADDR''] else []) in
      if listen_fd = -1 then ([''fail to create socket''], [], Setup_exit 1)
      else if bnd = -1 \<or> lst = -1 then (opts @ [if bnd = -1 then ''fail to bind'' else ''fail to listen''], [listen_fd], Setup_exit 1)
      else (opts, [], Setup_done ((1, 0), (20, 0))))"
  by (simp add: server_setup_def timer_set_def FD_AGE_def Let_def signed_divide_int_def signed_modulo_int_def)

text \<open>
  However connections arrive and the timer fires, the rounds never leave the table, as long as \<^verbatim>\<open>accept\<close> returns \<open>-1\<close> or a
  descriptor.
\<close>

fun accepted_ok :: "server_event \<Rightarrow> bool" where
  "accepted_ok (Accepted fd now) = (fd \<ge> -1)"
| "accepted_ok (Timer cl now) = True"

lemma accept_step_table:
  "fd_ok s \<Longrightarrow> fd \<ge> -1 \<Longrightarrow> runs (accept_step fd now s) fd_ok"
  by (auto simp: accept_step_def fd_ok_def Let_def)

lemma timer_handler_table: "fd_ok s \<Longrightarrow> fd_ok (timer_handler cl now s)"
  using timer_loop_eq [of s 0] by (simp add: fd_ok_def timer_handler_def)

lemma server_rounds_safe:
  "fd_ok s \<Longrightarrow> list_all accepted_ok evs \<Longrightarrow> runs (server_rounds evs s) fd_ok"
proof (induction evs s rule: server_rounds.induct)
  case (2 fd now evs s)
  then show ?case using accept_step_table [of s fd now] by (auto simp: runs_def)
qed (simp_all add: timer_handler_table)

end
