(* ===== verification/Echo.thy ===== *)
theory Echo
  imports SstringSpec
begin

text \<open>
  The demos with sockets, \<^verbatim>\<open>network/unixsock\<close>, \<^verbatim>\<open>network/udp\<close> and \<^verbatim>\<open>network/tcp/inet_client.c\<close>. An array of
  characters is the list of its contents, and what it holds at the start is an argument; reading a
  string beyond its end or storing behind it is \<open>None\<close>, and so is a call that never returns. The results
  of the system calls are arguments. The client of \<^verbatim>\<open>unixsock\<close> runs against a peer that is the record of what
  \<^verbatim>\<open>send\<close> and \<^verbatim>\<open>recv\<close> do; the locale \<open>echo_peer\<close> is what it relies on, and the server of the same directory
  provides it.
\<close>

section \<open>Arrays of characters\<close>

abbreviation newline :: char where
  "newline \<equiv> CHR 0x0A"

definition put_char :: "nat \<Rightarrow> char \<Rightarrow> string \<Rightarrow> string option" where
  "put_char i c buf = (if i < length buf then Some (buf[i := c]) else None)"

text \<open>An array into which \<open>s\<close> is received.\<close>

definition buf_fill :: "string \<Rightarrow> string \<Rightarrow> string" where
  "buf_fill s buf = s @ drop (length s) buf"

text \<open>What \<^verbatim>\<open>recv\<close> returns: an error, or the data received (none when the peer has closed the connection).\<close>

datatype recv_result = Recv_err | Recv string

section \<open>The server of unixsock\<close>

text \<open>\<^verbatim>\<open>str\<close>, what has been sent and printed, and \<^verbatim>\<open>done\<close> of the child that serves one connection.\<close>

record child =
  str :: string
  sent :: string
  printed :: string
  child_done :: bool

text \<open>
  One round of its loop; \<open>sd\<close> is what \<^verbatim>\<open>send\<close> returns: the number of bytes that it has taken, or \<open>None\<close> on an error.
\<close>

definition child_round :: "string \<Rightarrow> recv_result \<Rightarrow> nat option \<Rightarrow> child \<Rightarrow> child option" where
  "child_round pid rcv sd c = do {
     let c = (case rcv of
        Recv_err \<Rightarrow> c\<lparr>child_done := True\<rparr>
      | Recv s \<Rightarrow> if s = [] then c\<lparr>child_done := True\<rparr> else c\<lparr>str := buf_fill s (str c)\<rparr>);
     t \<leftarrow> buf_string (str c);
     let c = c\<lparr>printed := printed c @ ''['' @ pid @ ''][''  @ t @ '']'' @ [newline]\<rparr>;
     if \<not> child_done c then
       (case (rcv, sd) of
          (Recv s, Some n) \<Rightarrow> Some (c\<lparr>sent := sent c @ take n (take (length s) (str c))\<rparr>)
        | _ \<Rightarrow> Some (c\<lparr>child_done := True\<rparr>))
     else Some c }"

text \<open>The loop over the results of a run: it ends with \<^verbatim>\<open>done\<close>, or is still running when there are no more.\<close>

fun child_loop :: "string \<Rightarrow> (recv_result \<times> nat option) list \<Rightarrow> child \<Rightarrow> child option" where
  "child_loop pid [] c = Some c"
| "child_loop pid ((rcv, sd) # rs) c = do {
     c \<leftarrow> child_round pid rcv sd c;
     if child_done c then Some c else child_loop pid rs c }"

text \<open>
  The loop over the results of \<^verbatim>\<open>accept\<close> and \<^verbatim>\<open>fork\<close>. The process that is the child serves the connection \<open>s2\<close> with \<open>child_loop\<close>
  and exits; the parent goes on, with \<open>n\<close> connections that it has not closed, and leaves the loop only on an error.
\<close>

datatype server_outcome = Server_exit int string | Server_child int | Server_waiting nat

fun accept_loop :: "(int \<times> int) list \<Rightarrow> nat \<Rightarrow> server_outcome" where
  "accept_loop [] n = Server_waiting n"
| "accept_loop ((s2, pid) # rs) n =
     (if s2 = -1 then Server_exit 1 ''accept''
      else if pid < 0 then Server_exit 1 ''fork''
      else if pid = 0 then Server_child s2
      else accept_loop rs (n + 1))"

definition unix_server_main :: "int \<Rightarrow> int \<Rightarrow> int \<Rightarrow> (int \<times> int) list \<Rightarrow> server_outcome" where
  "unix_server_main s bnd lst conns =
     (if s = -1 then Server_exit 1 ''socket''
      else if bnd = -1 then Server_exit 1 ''bind''
      else if lst = -1 then Server_exit 1 ''listen''
      else accept_loop conns 0)"

section \<open>The client of unixsock\<close>

text \<open>
  \<^verbatim>\<open>fgets\<close> reads up to a newline, up to the size, or to the end of the input: the characters read,
  the rest of the input, and whether the end has been met. If it meets the end at once the array is unchanged.
\<close>

fun fgets_read :: "nat \<Rightarrow> string \<Rightarrow> string \<times> string \<times> bool" where
  "fgets_read 0 inp = ([], inp, False)"
| "fgets_read (Suc k) [] = ([], [], True)"
| "fgets_read (Suc k) (c # inp) =
     (if c = newline then ([c], inp, False)
      else let (l, inp, eof) = fgets_read k inp in (c # l, inp, eof))"

definition fgets :: "nat \<Rightarrow> string \<Rightarrow> string \<Rightarrow> string \<times> string \<times> bool" where
  "fgets k buf inp =
     (let (l, inp, eof) = fgets_read (k - 1) inp
      in (if l = [] then buf else buf_fill (l @ [CHR 0x00]) buf, inp, eof))"

definition strcspn_newline :: "string \<Rightarrow> nat option" where
  "strcspn_newline buf = do { s \<leftarrow> buf_string buf; Some (length (takeWhile (\<lambda>c. c \<noteq> newline) s)) }"

record 'n peer =
  peer_send :: "string \<Rightarrow> 'n \<Rightarrow> (int \<times> 'n) option"
  peer_recv :: "nat \<Rightarrow> 'n \<Rightarrow> (recv_result \<times> 'n) option"

lemma fgets_read_shorter: "fgets_read k inp = (l, inp', eof) \<Longrightarrow> length inp = length l + length inp'"
  by (induction k inp arbitrary: l inp' eof rule: fgets_read.induct) (auto split: if_splits prod.splits)

lemma fgets_read_progress:
  assumes "fgets_read (Suc k) inp = (l, inp', eof)" "\<not> eof"
  shows "length inp' < length inp"
proof -
  have "l \<noteq> []" using assms by (cases inp) (auto split: if_splits prod.splits)
  then show ?thesis using fgets_read_shorter [OF assms(1)] by (cases l) auto
qed

text \<open>
  The loop of the client: what it prints, its exit code and the state of the peer. Storing the terminator
  behind what was received may miss the array.
\<close>

function unix_client_loop ::
  "'n peer \<Rightarrow> string \<Rightarrow> string \<Rightarrow> string \<Rightarrow> 'n \<Rightarrow> (string \<times> int \<times> 'n) option" where
  "unix_client_loop p inp buf out st =
     (let out = out @ ''> '';
        (buf, inp, eof) = fgets 100 buf inp in
      if eof then Some (out, 0, st)
      else do {
        i \<leftarrow> strcspn_newline buf;
        buf \<leftarrow> put_char i (CHR 0x00) buf;
        msg \<leftarrow> buf_string buf;
        (n, st) \<leftarrow> peer_send p msg st;
        if n = -1 then Some (out, 1, st)
        else do {
          (t, st) \<leftarrow> peer_recv p 100 st;
          case t of
            Recv_err \<Rightarrow> Some (out, 1, st)
          | Recv s \<Rightarrow>
              if s = [] then Some (out @ ''Server closed connection'' @ [newline], 1, st)
              else do {
                buf \<leftarrow> put_char (length s) (CHR 0x00) (buf_fill s buf);
                e \<leftarrow> buf_string buf;
                unix_client_loop p inp buf (out @ ''echo> '' @ e @ [newline]) st }}})"
  by pat_completeness auto
termination
  by (relation "measure (\<lambda>(p, inp, buf, out, st). length inp)")
    (auto simp: fgets_def numeral_eq_Suc split: prod.splits dest: fgets_read_progress)

declare unix_client_loop.simps [simp del]

definition unix_client_main :: "'n peer \<Rightarrow> int \<Rightarrow> int \<Rightarrow> string \<Rightarrow> string \<Rightarrow> 'n \<Rightarrow> (string \<times> int \<times> 'n) option" where
  "unix_client_main p s conn inp buf st =
     (if s = -1 then Some ([], 1, st)
      else
        let out = ''Trying to connect...'' @ [newline] in
        if conn = -1 then Some (out, 1, st)
        else unix_client_loop p inp buf (out @ ''Connected.'' @ [newline]) st)"

section \<open>The client and the server of udp\<close>

definition BUFLEN :: nat where "BUFLEN = 512"

definition NPACK :: nat where "NPACK = 10"

text \<open>What \<^verbatim>\<open>sprintf\<close> stores for packet \<open>i\<close>.\<close>

definition packet_text :: "nat \<Rightarrow> string" where
  "packet_text i = ''This is packet '' @ fmt_int 0 (int i) @ [newline]"

definition sprintf_buf :: "string \<Rightarrow> string \<Rightarrow> string option" where
  "sprintf_buf s buf = (if length s < length buf then Some (buf_fill (s @ [CHR 0x00]) buf) else None)"

text \<open>The loop of the client: the packets sent, the exit code; \<open>ok i\<close> says whether \<^verbatim>\<open>sendto\<close> succeeds.\<close>

function udp_send_loop :: "(nat \<Rightarrow> bool) \<Rightarrow> nat \<Rightarrow> string \<Rightarrow> string list \<Rightarrow> (string list \<times> int) option" where
  "udp_send_loop ok i buf pks =
     (if i < NPACK then do {
        buf \<leftarrow> sprintf_buf (packet_text i) buf;
        if \<not> ok i then Some (pks, 1)
        else udp_send_loop ok (i + 1) buf (pks @ [take BUFLEN buf]) }
      else Some (pks, 0))"
  by pat_completeness auto
termination by (relation "measure (\<lambda>(ok, i, buf, pks). NPACK - i)") auto

declare udp_send_loop.simps [simp del]

definition udp_client_main :: "int \<Rightarrow> (nat \<Rightarrow> bool) \<Rightarrow> string \<Rightarrow> (string list \<times> int) option" where
  "udp_client_main s ok buf = (if s = -1 then Some ([], 1) else udp_send_loop ok 0 buf [])"

text \<open>
  The loop of the server on the datagrams that arrive, each with the address of its sender: what it
  prints, and the exit code unless it waits for more.
\<close>

fun udp_recv_loop :: "nat \<Rightarrow> (string \<times> recv_result) list \<Rightarrow> string \<Rightarrow> string \<Rightarrow> (string \<times> int option) option" where
  "udp_recv_loop i [] buf out = Some (out, if i < NPACK then None else Some 0)"
| "udp_recv_loop i ((from, r) # rs) buf out =
     (if i < NPACK then
        case r of
          Recv_err \<Rightarrow> Some (out, Some 1)
        | Recv s \<Rightarrow> do {
            let buf = buf_fill (take BUFLEN s) buf;
            t \<leftarrow> buf_string buf;
            udp_recv_loop (i + 1) rs buf
              (out @ ''Received packet from '' @ from @ [newline] @ ''Data: '' @ t @ [newline, newline]) }
      else Some (out, Some 0))"

definition udp_server_main ::
  "int \<Rightarrow> int \<Rightarrow> (string \<times> recv_result) list \<Rightarrow> string \<Rightarrow> (string \<times> int option) option" where
  "udp_server_main s bnd rs buf =
     (if s = -1 then Some ([], Some 1)
      else if bnd = -1 then Some ([], Some 1)
      else udp_recv_loop 0 rs buf [])"

section \<open>The tcp client\<close>

definition MSG_TO_SVR :: string where
  "MSG_TO_SVR = ''hey! wifidog''"

text \<open>The array \<^verbatim>\<open>buf\<close> of 32 characters with the message, from the argument of the program if there is one.\<close>

definition inet_client_buf :: "string option \<Rightarrow> string" where
  "inet_client_buf arg =
     (let buf = replicate 32 (CHR 0x00) in
      case arg of
        Some a \<Rightarrow> buf_fill (take 31 (MSG_TO_SVR @ '' ('' @ a @ '')'') @ [CHR 0x00]) buf
      | None \<Rightarrow> buf_fill (MSG_TO_SVR @ [CHR 0x00]) buf)"

record inet_client =
  open_socks :: "int list"
  written :: "string list"
  slept :: int

text \<open>
  From \<^verbatim>\<open>restart\<close> to the next jump there: the results of \<^verbatim>\<open>socket\<close>, \<^verbatim>\<open>connect\<close>, \<^verbatim>\<open>write\<close> and of the two calls of \<^verbatim>\<open>rand\<close>.
\<close>

definition inet_client_round :: "string \<Rightarrow> int \<Rightarrow> int \<Rightarrow> int \<Rightarrow> int \<Rightarrow> int \<Rightarrow> inet_client \<Rightarrow> inet_client option" where
  "inet_client_round buf fd conn wrt rand1 rand2 c = do {
     let c = c\<lparr>open_socks := fd # open_socks c\<rparr>;
     if conn < 0 then Some (c\<lparr>slept := slept c + 1\<rparr>)
     else do {
       let c = c\<lparr>slept := slept c + (rand1 mod 10 + 5)\<rparr>;
       s \<leftarrow> buf_string buf;
       let c = (if wrt < 0 then c else c\<lparr>written := written c @ [s]\<rparr>);
       let c = c\<lparr>slept := slept c + (rand2 mod 2 + 1)\<rparr>;
       Some (c\<lparr>open_socks := remove1 fd (open_socks c)\<rparr>) }}"

section \<open>Filled arrays\<close>

lemma buf_fill_length [simp]: "length s \<le> length buf \<Longrightarrow> length (buf_fill s buf) = length buf"
  by (simp add: buf_fill_def)

lemma put_terminator:
  "length s < length buf \<Longrightarrow>
   put_char (length s) c (buf_fill s buf) = Some (s @ c # drop (Suc (length s)) buf)"
  by (simp add: put_char_def buf_fill_def list_update_append Cons_nth_drop_Suc [symmetric])

lemma put_newline:
  "CHR 0x00 \<notin> set l \<Longrightarrow> newline \<notin> set l \<Longrightarrow> length l + 1 < length buf \<Longrightarrow>
   strcspn_newline (buf_fill (l @ [newline, CHR 0x00]) buf) = Some (length l)
   \<and> put_char (length l) (CHR 0x00) (buf_fill (l @ [newline, CHR 0x00]) buf) = Some (l @ CHR 0x00 # CHR 0x00 # drop (length l + 2) buf)"
  using buf_string_terminated [of "l @ [newline]"]
  by (auto simp: strcspn_newline_def buf_fill_def put_char_def list_update_append takeWhile_stop)

lemma fgets_line:
  "newline \<notin> set l \<Longrightarrow> length l < k \<Longrightarrow> fgets_read k (l @ newline # rest) = (l @ [newline], rest, False)"
proof (induction l arbitrary: k)
  case Nil
  then show ?case by (cases k) auto
next
  case (Cons c l)
  then show ?case by (cases k) auto
qed

section \<open>What the client of unixsock relies on\<close>

definition echo_line :: "string \<Rightarrow> bool" where
  "echo_line l \<longleftrightarrow> l \<noteq> [] \<and> length l < 99 \<and> CHR 0x00 \<notin> set l \<and> newline \<notin> set l"

locale echo_peer =
  fixes p :: "'n peer" and inv :: "'n \<Rightarrow> bool"
  assumes exchange: "inv st \<Longrightarrow> msg \<noteq> [] \<Longrightarrow> length msg < 100 \<Longrightarrow> CHR 0x00 \<notin> set msg \<Longrightarrow>
    \<exists>st1 st2. peer_send p msg st = Some (int (length msg), st1) \<and> peer_recv p 100 st1 = Some (Recv msg, st2) \<and> inv st2"
begin

lemma client_line:
  assumes "inv st" "length buf = 100" "echo_line l"
  shows "\<exists>buf' st'. length buf' = 100 \<and> inv st'
    \<and> (\<forall>rest. unix_client_loop p (l @ newline # rest) buf out st =
        unix_client_loop p rest buf' (out @ ''> echo> '' @ l @ [newline]) st')"
proof -
  have l: "l \<noteq> []" "length l < 99" "CHR 0x00 \<notin> set l" "newline \<notin> set l"
    using assms(3) by (auto simp: echo_line_def)
  obtain st1 st2 where x: "peer_send p l st = Some (int (length l), st1)" "peer_recv p 100 st1 = Some (Recv l, st2)" "inv st2"
    using exchange [of st l] assms(1) l by auto
  define buf1 where "buf1 = l @ CHR 0x00 # CHR 0x00 # drop (length l + 2) buf"
  define buf2 where "buf2 = l @ CHR 0x00 # drop (Suc (length l)) buf1"
  have "length buf1 = 100" "length buf2 = 100"
    using l(2) assms(2) by (simp_all add: buf1_def buf2_def)
  moreover have "fgets 100 buf (l @ newline # rest) = (buf_fill (l @ [newline, CHR 0x00]) buf, rest, False)" for rest
    using fgets_line [of l 99 rest] l by (simp add: fgets_def)
  moreover have "strcspn_newline (buf_fill (l @ [newline, CHR 0x00]) buf) = Some (length l)"
    "put_char (length l) (CHR 0x00) (buf_fill (l @ [newline, CHR 0x00]) buf) = Some buf1"
    using put_newline [OF l(3,4), of buf] l(2) assms(2) by (simp_all add: buf1_def)
  moreover have "buf_string buf1 = Some l" "buf_string buf2 = Some l"
    using l(3) by (simp_all add: buf1_def buf2_def buf_string_terminated)
  moreover have "put_char (length l) (CHR 0x00) (buf_fill l buf1) = Some buf2"
    using put_terminator [of l buf1] l(2) \<open>length buf1 = 100\<close> by (simp add: buf2_def)
  ultimately have "unix_client_loop p (l @ newline # rest) buf out st =
      unix_client_loop p rest buf2 (out @ ''> echo> '' @ l @ [newline]) st2" for rest
    using l(1) x by (subst unix_client_loop.simps) (simp add: Let_def)
  then show ?thesis using x(3) \<open>length buf2 = 100\<close> by blast
qed

lemma client_lines:
  assumes "inv st" "length buf = 100" "list_all echo_line ls"
  shows "runs (unix_client_loop p (concat (map (\<lambda>l. l @ [newline]) ls)) buf out st) (\<lambda>(out', code, st').
    code = 0 \<and> inv st' \<and> out' = out @ concat (map (\<lambda>l. ''> echo> '' @ l @ [newline]) ls) @ ''> '')"
  using assms
proof (induction ls arbitrary: buf out st)
  case Nil
  have "fgets 100 buf [] = (buf, [], True)" by (simp add: fgets_def numeral_eq_Suc)
  then show ?case using Nil by (subst unix_client_loop.simps) simp
next
  case (Cons l ls)
  obtain buf' st' where b: "length buf' = 100" "inv st'"
    and "\<And>rest. unix_client_loop p (l @ newline # rest) buf out st = unix_client_loop p rest buf' (out @ ''> echo> '' @ l @ [newline]) st'"
    using client_line [of st buf l out] Cons.prems by auto
  then show ?case
    using Cons.IH [OF b(2,1), of "out @ ''> echo> '' @ l @ [newline]"] Cons.prems(3) by simp
qed

end

section \<open>The server as the peer\<close>

text \<open>
  A connection that delivers each message as a whole: a message that is sent is a round of the server's child,
  and the client receives what the child has sent and it has not received yet. Sending nothing wakes nobody,
  and receiving waits for data.
\<close>

record link =
  serving :: child
  consumed :: nat

definition link_send :: "string \<Rightarrow> string \<Rightarrow> link \<Rightarrow> (int \<times> link) option" where
  "link_send pid msg k =
     (if child_done (serving k) then Some (-1, k)
      else if msg = [] then Some (0, k)
      else do {
        c \<leftarrow> child_round pid (Recv msg) (Some (length msg)) (serving k);
        Some (int (length msg), k\<lparr>serving := c\<rparr>) })"

definition link_recv :: "nat \<Rightarrow> link \<Rightarrow> (recv_result \<times> link) option" where
  "link_recv n k =
     (let ready = take n (drop (consumed k) (sent (serving k))) in
      if ready \<noteq> [] then Some (Recv ready, k\<lparr>consumed := consumed k + length ready\<rparr>)
      else if child_done (serving k) then Some (Recv [], k)
      else None)"

definition link_peer :: "string \<Rightarrow> link peer" where
  "link_peer pid = \<lparr>peer_send = link_send pid, peer_recv = link_recv\<rparr>"

definition link_ok :: "link \<Rightarrow> bool" where
  "link_ok k \<longleftrightarrow> \<not> child_done (serving k) \<and> consumed k = length (sent (serving k))
     \<and> length (str (serving k)) = 100 \<and> str (serving k) ! 99 = CHR 0x00"

lemma last_NUL: "length buf = 100 \<Longrightarrow> buf ! 99 = CHR 0x00 \<Longrightarrow> CHR 0x00 \<in> set buf"
  using nth_mem [of 99 buf] by simp

text \<open>A round of the child with a message that leaves the end of the array alone.\<close>

lemma child_round_echo:
  assumes "\<not> child_done c" "length (str c) = 100" "str c ! 99 = CHR 0x00" "msg \<noteq> []" "length msg < 100"
  shows "\<exists>c'. child_round pid (Recv msg) (Some (length msg)) c = Some c' \<and> sent c' = sent c @ msg \<and> \<not> child_done c'
    \<and> str c' = buf_fill msg (str c) \<and> length (str c') = 100 \<and> str c' ! 99 = CHR 0x00"
proof -
  have n: "length (buf_fill msg (str c)) = 100" "buf_fill msg (str c) ! 99 = CHR 0x00"
    using assms by (simp_all add: buf_fill_def nth_append)
  then show ?thesis
    using assms last_NUL [OF n] by (simp add: child_round_def buf_string_def) (simp add: buf_fill_def)
qed

interpretation unix_server: echo_peer "link_peer pid" link_ok for pid
proof
  fix k :: link and msg :: string
  assume k: "link_ok k" and m: "msg \<noteq> []" "length msg < 100"
  obtain c' where c: "child_round pid (Recv msg) (Some (length msg)) (serving k) = Some c'" "sent c' = sent (serving k) @ msg"
    "\<not> child_done c'" "length (str c') = 100" "str c' ! 99 = CHR 0x00"
    using child_round_echo [of "serving k" msg pid] k m by (auto simp: link_ok_def)
  then show "\<exists>st1 st2. peer_send (link_peer pid) msg k = Some (int (length msg), st1)
      \<and> peer_recv (link_peer pid) 100 st1 = Some (Recv msg, st2) \<and> link_ok st2"
    using k m by (auto simp: link_peer_def link_send_def link_recv_def link_ok_def)
qed

section \<open>Properties of unixsock\<close>



text \<open>An empty line sends nothing, so the client waits for an echo that does not come.\<close>

lemma empty_line_blocks:
  assumes "link_ok k" "length buf = 100"
  shows "unix_client_loop (link_peer pid) (newline # rest) buf out k = None"
proof -
  have "fgets 100 buf (newline # rest) = (buf_fill [newline, CHR 0x00] buf, rest, False)"
    using fgets_line [of "[]" 99 rest] by (simp add: fgets_def)
  moreover have "strcspn_newline (buf_fill [newline, CHR 0x00] buf) = Some 0"
    "put_char 0 (CHR 0x00) (buf_fill [newline, CHR 0x00] buf) = Some (CHR 0x00 # CHR 0x00 # drop 2 buf)"
    using put_newline [of "[]" buf] assms(2) by (simp_all add: numeral_2_eq_2)
  moreover have "buf_string (CHR 0x00 # CHR 0x00 # drop 2 buf) = Some []"
    using buf_string_terminated [of "[]"] by simp
  ultimately show ?thesis
    using assms(1) by (subst unix_client_loop.simps) (simp add: link_peer_def link_send_def link_recv_def link_ok_def Let_def)
qed

text \<open>A last line without a newline meets the end of the input and is not sent.\<close>

lemma fgets_read_end: "newline \<notin> set l \<Longrightarrow> length l < k \<Longrightarrow> fgets_read k l = (l, [], True)"
proof (induction l arbitrary: k)
  case Nil
  then show ?case by (cases k) auto
next
  case (Cons c l)
  then show ?case by (cases k) auto
qed

lemma unfinished_line_dropped:
  "newline \<notin> set l \<Longrightarrow> length l < 99 \<Longrightarrow> unix_client_loop p l buf out st = Some (out @ ''> '', 0, st)"
  using fgets_read_end [of l 99] by (subst unix_client_loop.simps) (simp add: fgets_def)

text \<open>A peer that sends 100 bytes makes the client store behind its array.\<close>

lemma client_overrun: "length s = 100 \<Longrightarrow> length buf = 100 \<Longrightarrow> put_char (length s) (CHR 0x00) (buf_fill s buf) = None"
  by (simp add: put_char_def buf_fill_def)

text \<open>A message of 100 bytes without a NUL makes the server read behind its array.\<close>

lemma server_overread:
  assumes "length msg = 100" "CHR 0x00 \<notin> set msg" "length (str c) = 100"
  shows "child_round pid (Recv msg) sd c = None"
proof -
  have "buf_fill msg (str c) = msg" "msg \<noteq> []" using assms by (auto simp: buf_fill_def)
  then show ?thesis using assms(2) by (simp add: child_round_def buf_string_def)
qed

text \<open>A message shorter than the one before is printed with the rest of the older one.\<close>

lemma stale_print:
  "child_round ''7'' (Recv ''ab'') (Some 2) \<lparr>str = ''hello'' @ replicate 95 (CHR 0x00), sent = [], printed = [], child_done = False\<rparr> =
   Some \<lparr>str = ''abllo'' @ replicate 95 (CHR 0x00), sent = ''ab'', printed = ''[7][abllo]'' @ [newline], child_done = False\<rparr>"
  by (simp add: child_round_def buf_fill_def buf_string_def numeral_eq_Suc)

text \<open>
  What the child sends until the peer closes the connection is what it received, in order, and it ends.
\<close>

lemma child_loop_echo:
  assumes "\<not> child_done c" "length (str c) = 100" "str c ! 99 = CHR 0x00" "list_all (\<lambda>m. m \<noteq> [] \<and> length m < 100) ms"
  shows "runs (child_loop pid (map (\<lambda>m. (Recv m, Some (length m))) ms @ (Recv [], sd) # rs) c)
    (\<lambda>c'. child_done c' \<and> sent c' = sent c @ concat ms)"
  using assms
proof (induction ms arbitrary: c)
  case Nil
  then show ?case using last_NUL [of "str c"] by (simp add: child_round_def buf_string_def)
next
  case (Cons m ms)
  obtain c' where c: "child_round pid (Recv m) (Some (length m)) c = Some c'" "sent c' = sent c @ m" "\<not> child_done c'"
    "length (str c') = 100" "str c' ! 99 = CHR 0x00"
    using child_round_echo [of c m pid] Cons.prems by auto
  then show ?case using Cons.IH [OF c(3,4,5)] Cons.prems(4) by simp
qed

text \<open>The parent keeps every connection open that it has accepted.\<close>

lemma server_keeps_connections:
  "list_all (\<lambda>(s2, pid). s2 \<noteq> -1 \<and> pid > 0) rs \<Longrightarrow> accept_loop rs n = Server_waiting (n + length rs)"
  by (induction rs n rule: accept_loop.induct) auto

section \<open>Properties of udp\<close>

lemma dec_no_NUL: "CHR 0x00 \<notin> set (dec n)"
  using digits_dec [of n] by (auto simp: digits_def digit_def dest!: digit_cases)

lemma packet_text_facts: "i < 10 \<Longrightarrow> CHR 0x00 \<notin> set (packet_text i) \<and> length (packet_text i) = 17"
  using dec_no_NUL [of i] by (simp add: packet_text_def fmt_int_def) (simp add: dec.simps)

lemma udp_send_all:
  assumes "length buf = BUFLEN" "\<forall>i. ok i" "i \<le> NPACK" "i = NPACK - k"
  shows "\<exists>pks. udp_send_loop ok i buf ps = Some (ps @ pks, 0) \<and> length pks = NPACK - i
    \<and> (\<forall>j < NPACK - i. length (pks ! j) = BUFLEN \<and> (\<exists>r. pks ! j = packet_text (i + j) @ CHR 0x00 # r))"
  using assms
proof (induction "NPACK - i" arbitrary: i buf ps k)
  case 0
  then show ?case by (subst udp_send_loop.simps) simp
next
  case (Suc m)
  have i: "i < 10" "m = NPACK - (i + 1)" using Suc(2) by (simp_all add: NPACK_def)
  define buf' where "buf' = buf_fill (packet_text i @ [CHR 0x00]) buf"
  have b: "length buf' = BUFLEN" "sprintf_buf (packet_text i) buf = Some buf'"
    using packet_text_facts [OF i(1)] Suc(3) by (simp_all add: buf'_def sprintf_buf_def BUFLEN_def)
  obtain pks where p: "udp_send_loop ok (i + 1) buf' (ps @ [buf']) = Some ((ps @ [buf']) @ pks, 0)" "length pks = NPACK - (i + 1)"
    "\<forall>j < NPACK - (i + 1). length (pks ! j) = BUFLEN \<and> (\<exists>r. pks ! j = packet_text (i + 1 + j) @ CHR 0x00 # r)"
    using Suc(1) [OF i(2) b(1) Suc(4), of "NPACK - (i + 1)" "ps @ [buf']"] i by (auto simp: NPACK_def)
  have "udp_send_loop ok i buf ps = Some (ps @ (buf' # pks), 0)"
    using p(1) b i(1) Suc(4) by (subst udp_send_loop.simps) (simp add: NPACK_def)
  moreover have "length ((buf' # pks) ! j) = BUFLEN \<and> (\<exists>r. (buf' # pks) ! j = packet_text (i + j) @ CHR 0x00 # r)"
    if "j < NPACK - i" for j
    using p(3) that b(1) by (cases j) (auto simp: buf'_def buf_fill_def)
  ultimately show ?case using p(2) i by (intro exI [of _ "buf' # pks"]) (auto simp: NPACK_def)
qed

lemma udp_recv_packets:
  assumes "\<forall>j < 10. length (pks ! j) = BUFLEN \<and> (\<exists>r. pks ! j = packet_text j @ CHR 0x00 # r)"
    "list_all (\<lambda>j. j < 10) js" "length buf = BUFLEN" "i + length js \<le> NPACK"
  shows "udp_recv_loop i (map (\<lambda>j. (from, Recv (pks ! j))) js) buf out =
    Some (out @ concat (map (\<lambda>j. ''Received packet from '' @ from @ [newline] @ ''Data: '' @ packet_text j @ [newline, newline]) js),
      if i + length js < NPACK then None else Some 0)"
  using assms(2-)
proof (induction js arbitrary: i buf out)
  case (Cons j js)
  obtain r where r: "length (pks ! j) = BUFLEN" "pks ! j = packet_text j @ CHR 0x00 # r"
    using assms(1) Cons.prems(1) by auto
  then have "buf_fill (take BUFLEN (pks ! j)) buf = pks ! j" "buf_string (pks ! j) = Some (packet_text j)"
    using Cons.prems packet_text_facts [of j] buf_string_terminated by (auto simp: buf_fill_def)
  then show ?case using Cons.IH [of "pks ! j" "i + 1"] Cons.prems r(1) by simp
qed simp

text \<open>
  The client of \<^verbatim>\<open>udp\<close> sends ten packets of 512 bytes, and if the server gets any ten of them, in any order and some
  perhaps several times, it prints the text of each and ends: the terminator is within the packet,
  whatever the arrays held before.
\<close>

theorem udp_packets_printed:
  assumes "length cbuf = BUFLEN" "length sbuf = BUFLEN" "s \<noteq> -1" "s' \<noteq> -1" "bnd \<noteq> -1" "length js = 10" "list_all (\<lambda>j. j < 10) js"
  shows "\<exists>pks. udp_client_main s (\<lambda>i. True) cbuf = Some (pks, 0) \<and> length pks = 10 \<and> list_all (\<lambda>pk. length pk = 512) pks
    \<and> udp_server_main s' bnd (map (\<lambda>j. (from, Recv (pks ! j))) js) sbuf =
      Some (concat (map (\<lambda>j. ''Received packet from '' @ from @ [newline] @ ''Data: '' @ packet_text j @ [newline, newline]) js), Some 0)"
proof -
  obtain pks where p: "udp_send_loop (\<lambda>i. True) 0 cbuf [] = Some (pks, 0)" "length pks = 10"
    "\<forall>j < 10. length (pks ! j) = BUFLEN \<and> (\<exists>r. pks ! j = packet_text j @ CHR 0x00 # r)"
    using udp_send_all [OF assms(1), of "\<lambda>i. True" 0 10 "[]"] by (auto simp: NPACK_def)
  then show ?thesis
    using udp_recv_packets [OF p(3) assms(7,2), of 0] assms
    by (auto simp: udp_client_main_def udp_server_main_def NPACK_def BUFLEN_def list_all_length)
qed

theorem udp_packets_printed_witness:
  "\<exists>pks. udp_client_main 3 (\<lambda>i. True) (replicate BUFLEN CHR ''x'') = Some (pks, 0) \<and> length pks = 10 \<and> list_all (\<lambda>pk. length pk = 512) pks
    \<and> udp_server_main 4 0 (map (\<lambda>j. (''a:1'', Recv (pks ! j))) [3, 1, 4, 1, 5, 9, 2, 6, 5, 3]) (replicate BUFLEN CHR ''y'') =
      Some (concat (map (\<lambda>j. ''Received packet from '' @ ''a:1'' @ [newline] @ ''Data: '' @ packet_text j @ [newline, newline])
        [3, 1, 4, 1, 5, 9, 2, 6, 5, 3]), Some 0)"
  by (rule udp_packets_printed) simp_all

section \<open>Properties of the tcp client\<close>

text \<open>The message is cut so that it fits the array with its terminator.\<close>

lemma inet_client_message:
  assumes "CHR 0x00 \<notin> set a"
  shows "buf_string (inet_client_buf (Some a)) = Some (take 31 (''hey! wifidog ('' @ a @ '')''))"
    and "buf_string (inet_client_buf None) = Some ''hey! wifidog''"
    and "length (inet_client_buf arg) = 32"
proof -
  let ?m = "take 31 (MSG_TO_SVR @ '' ('' @ a @ '')'')"
  have "CHR 0x00 \<notin> set ?m"
    using assms by (auto simp: MSG_TO_SVR_def dest!: in_set_takeD)
  then show "buf_string (inet_client_buf (Some a)) = Some (take 31 (''hey! wifidog ('' @ a @ '')''))"
    using buf_string_terminated [of ?m] by (simp add: inet_client_buf_def buf_fill_def MSG_TO_SVR_def)
  show "buf_string (inet_client_buf None) = Some ''hey! wifidog''"
    using buf_string_terminated [of MSG_TO_SVR] by (simp add: inet_client_buf_def buf_fill_def MSG_TO_SVR_def)
  show "length (inet_client_buf arg) = 32"
    by (cases arg) (simp_all add: inet_client_buf_def buf_fill_def MSG_TO_SVR_def)
qed

text \<open>A round with a connection leaves no socket open; each failed attempt leaves one open.\<close>

lemma inet_client_connected:
  "buf_string buf = Some m \<Longrightarrow> conn \<ge> 0 \<Longrightarrow> wrt \<ge> 0 \<Longrightarrow>
   inet_client_round buf fd conn wrt r1 r2 c =
     Some (c\<lparr>written := written c @ [m], slept := slept c + (r1 mod 10 + 5) + (r2 mod 2 + 1)\<rparr>)"
  by (simp add: inet_client_round_def)

lemma inet_client_leak:
  "conn < 0 \<Longrightarrow> inet_client_round buf fd conn wrt r1 r2 c = Some (c\<lparr>open_socks := fd # open_socks c, slept := slept c + 1\<rparr>)"
  by (simp add: inet_client_round_def)

end
