(* ===== verification/BevEcho.thy ===== *)
theory BevEcho
  imports Echo
begin

text \<open>
  The echo server on libevent, \<^verbatim>\<open>network/libevent/echo_server.c\<close>: its three callbacks on the connections that are
  open. The library is not here: what its functions do is the record \<open>bev_ops\<close>, and the locale
  \<open>bufferevents\<close> states what is documented about reading from and writing to the buffers of a connection.
\<close>

section \<open>The code\<close>

text \<open>
  \<^verbatim>\<open>bufferevent_read\<close> returns the bytes it has moved out of the input buffer, \<^verbatim>\<open>bufferevent_socket_new\<close> may fail. The
  three masks are the constants of the library that \<^verbatim>\<open>error_cb\<close> tests.
\<close>

record 'b bev_ops =
  bufferevent_read :: "nat \<Rightarrow> 'b \<Rightarrow> string \<times> 'b"
  bufferevent_write :: "string \<Rightarrow> 'b \<Rightarrow> 'b"
  bufferevent_socket_new :: "int \<Rightarrow> 'b option"
  BEV_EVENT_TIMEOUT :: "16 word"
  BEV_EVENT_EOF :: "16 word"
  BEV_EVENT_ERROR :: "16 word"

definition MAX_LINE :: nat where "MAX_LINE = 256"

definition FD_SETSIZE :: int where "FD_SETSIZE = 1024"

record 'b echo_server =
  bevs :: "int \<rightharpoonup> 'b"
  open_fds :: "int list"
  echo_out :: string

text \<open>The loop of \<^verbatim>\<open>read_cb\<close>; \<open>line\<close> is its array of \<open>MAX_LINE + 1\<close> characters.\<close>

partial_function (option) read_cb_loop ::
  "'b bev_ops \<Rightarrow> int \<Rightarrow> string \<Rightarrow> 'b \<Rightarrow> string \<Rightarrow> ('b \<times> string) option" where
  "read_cb_loop lib fd line bev out =
     (case bufferevent_read lib MAX_LINE bev of (s, bev) \<Rightarrow>
        let n = length s in
        if n > 0 then do {
          line \<leftarrow> put_char n (CHR 0x00) (buf_fill s line);
          t \<leftarrow> buf_string line;
          let out = out @ ''fd='' @ fmt_int 0 fd @ '', read line: '' @ t @ [newline];
          read_cb_loop lib fd line (bufferevent_write lib (take n line) bev) out }
        else Some (bev, out))"

definition read_cb :: "'b bev_ops \<Rightarrow> string \<Rightarrow> int \<Rightarrow> 'b echo_server \<Rightarrow> 'b echo_server option" where
  "read_cb lib line fd s = do {
     bev \<leftarrow> bevs s fd;
     (bev, out) \<leftarrow> read_cb_loop lib fd line bev (echo_out s);
     Some (s\<lparr>bevs := (bevs s)(fd \<mapsto> bev), echo_out := out\<rparr>) }"

text \<open>\<open>fd\<close> is what \<^verbatim>\<open>accept\<close> returns.\<close>

definition do_accept :: "'b bev_ops \<Rightarrow> int \<Rightarrow> 'b echo_server \<Rightarrow> 'b echo_server option" where
  "do_accept lib fd s =
     (if fd < 0 then Some s
      else
        let s = s\<lparr>open_fds := fd # open_fds s\<rparr> in
        if fd > FD_SETSIZE then Some s
        else do {
          let s = s\<lparr>echo_out := echo_out s @ ''ACCEPT: fd = '' @ fmt_int 0 fd @ [newline]\<rparr>;
          bev \<leftarrow> bufferevent_socket_new lib fd;
          Some (s\<lparr>bevs := (bevs s)(fd \<mapsto> bev)\<rparr>) })"

definition error_cb :: "'b bev_ops \<Rightarrow> 16 word \<Rightarrow> int \<Rightarrow> 'b echo_server \<Rightarrow> 'b echo_server option" where
  "error_cb lib event fd s = do {
     bev \<leftarrow> bevs s fd;
     let out = echo_out s @ ''fd = '' @ fmt_int 0 fd @ '', '';
     let out =
       (if event AND BEV_EVENT_TIMEOUT lib \<noteq> 0 then out @ ''Timed out'' @ [newline]
        else if event AND BEV_EVENT_EOF lib \<noteq> 0 then out @ ''connection closed'' @ [newline]
        else if event AND BEV_EVENT_ERROR lib \<noteq> 0 then out @ ''some other error'' @ [newline]
        else out);
     Some (s\<lparr>echo_out := out, bevs := (bevs s)(fd := None), open_fds := remove1 fd (open_fds s)\<rparr>) }"

text \<open>
  \<^verbatim>\<open>main\<close> returns 1 if it cannot bind or listen; otherwise it prints and dispatches events, each by one of the callbacks,
  until \<^verbatim>\<open>event_base_dispatch\<close> returns. The bytes that arrive (\<open>Arrive\<close>) are put into the buffer by \<open>feed\<close>.
\<close>

datatype echo_event = Accept int | Arrive int string | Fail int "16 word"

definition echo_dispatch ::
  "'b bev_ops \<Rightarrow> (string \<Rightarrow> 'b \<Rightarrow> 'b) \<Rightarrow> string \<Rightarrow> echo_event \<Rightarrow> 'b echo_server \<Rightarrow> 'b echo_server option" where
  "echo_dispatch lib feed line ev s =
     (case ev of
        Accept fd \<Rightarrow> do_accept lib fd s
      | Arrive fd x \<Rightarrow> do {
          bev \<leftarrow> bevs s fd;
          read_cb lib line fd (s\<lparr>bevs := (bevs s)(fd \<mapsto> feed x bev)\<rparr>) }
      | Fail fd event \<Rightarrow> error_cb lib event fd s)"

fun echo_run ::
  "'b bev_ops \<Rightarrow> (string \<Rightarrow> 'b \<Rightarrow> 'b) \<Rightarrow> string \<Rightarrow> echo_event list \<Rightarrow> 'b echo_server \<Rightarrow> 'b echo_server option" where
  "echo_run lib feed line [] s = Some s"
| "echo_run lib feed line (ev # evs) s = do {
     s \<leftarrow> echo_dispatch lib feed line ev s;
     echo_run lib feed line evs s }"

definition echo_main ::
  "'b bev_ops \<Rightarrow> (string \<Rightarrow> 'b \<Rightarrow> 'b) \<Rightarrow> string \<Rightarrow> int \<Rightarrow> int \<Rightarrow> echo_event list \<Rightarrow> (int \<times> 'b echo_server) option" where
  "echo_main lib feed line bnd lst evs =
     (let s = \<lparr>bevs = Map.empty, open_fds = [], echo_out = []\<rparr> in
      if bnd < 0 then Some (1, s)
      else if lst < 0 then Some (1, s)
      else do {
        let s = s\<lparr>echo_out := echo_out s @ ''Listening...'' @ [newline]\<rparr>;
        s \<leftarrow> echo_run lib feed line evs s;
        Some (0, s\<lparr>echo_out := echo_out s @ ''The End.''\<rparr>) })"

section \<open>The connections it serves\<close>

text \<open>The abstract server: for each connection, the bytes that have arrived on it.\<close>

fun spec_step :: "(int \<rightharpoonup> string) \<Rightarrow> echo_event \<Rightarrow> (int \<rightharpoonup> string)" where
  "spec_step m (Accept fd) = (if 0 \<le> fd \<and> fd \<le> FD_SETSIZE then m(fd \<mapsto> []) else m)"
| "spec_step m (Arrive fd x) = m(fd := map_option (\<lambda>y. y @ x) (m fd))"
| "spec_step m (Fail fd e) = m(fd := None)"

fun ok_event :: "(int \<rightharpoonup> string) \<Rightarrow> echo_event \<Rightarrow> bool" where
  "ok_event m (Accept fd) = True"
| "ok_event m (Arrive fd x) = (m fd \<noteq> None)"
| "ok_event m (Fail fd e) = (m fd \<noteq> None)"

fun ok_events :: "(int \<rightharpoonup> string) \<Rightarrow> echo_event list \<Rightarrow> bool" where
  "ok_events m [] = True"
| "ok_events m (ev # evs) = (ok_event m ev \<and> ok_events (spec_step m ev) evs)"

section \<open>What the library promises\<close>

locale bufferevents =
  fixes lib :: "'b bev_ops" and feed :: "string \<Rightarrow> 'b \<Rightarrow> 'b" and inp outp :: "'b \<Rightarrow> string"
  assumes read: "bufferevent_read lib n b = (s, b') \<Longrightarrow> s = take n (inp b) \<and> inp b' = drop n (inp b) \<and> outp b' = outp b"
    and write_inp: "inp (bufferevent_write lib s b) = inp b"
    and write_outp: "outp (bufferevent_write lib s b) = outp b @ s"
    and feed_inp: "inp (feed s b) = inp b @ s"
    and feed_outp: "outp (feed s b) = outp b"
    and new: "\<exists>b. bufferevent_socket_new lib fd = Some b \<and> inp b = [] \<and> outp b = []"
begin

lemma read_cb_loop_echo:
  assumes "length line = MAX_LINE + 1"
  shows "runs (read_cb_loop lib fd line b out) (\<lambda>(b', out'). inp b' = [] \<and> outp b' = outp b @ inp b)"
  using assms
proof (induction "length (inp b)" arbitrary: b line out rule: less_induct)
  case less
  obtain s b1 where r: "bufferevent_read lib MAX_LINE b = (s, b1)" by (cases "bufferevent_read lib MAX_LINE b")
  note s = read [OF r]
  show ?case
  proof (cases "s = []")
    case True
    then show ?thesis using r s by (subst read_cb_loop.simps) (auto simp: MAX_LINE_def)
  next
    case False
    define line' where "line' = s @ CHR 0x00 # drop (Suc (length s)) line"
    have n: "length s \<le> MAX_LINE" using s by simp
    then have l: "length line' = MAX_LINE + 1" "put_char (length s) (CHR 0x00) (buf_fill s line) = Some line'"
      "take (length s) line' = s"
      using put_terminator [of s line] less.prems by (simp_all add: line'_def buf_fill_def)
    obtain t where t: "buf_string line' = Some t" by (simp add: buf_string_def line'_def)
    let ?b = "bufferevent_write lib s b1"
    let ?out = "out @ ''fd='' @ fmt_int 0 fd @ '', read line: '' @ t @ [newline]"
    have i: "inp ?b = drop MAX_LINE (inp b)" "outp ?b = outp b @ take MAX_LINE (inp b)"
      using s write_inp write_outp by simp_all
    then have "length (inp ?b) < length (inp b)"
      using False s by (cases "inp b") (simp_all add: MAX_LINE_def)
    from less.hyps [OF this l(1), of ?out]
    have "runs (read_cb_loop lib fd line' ?b ?out) (\<lambda>(b', out'). inp b' = [] \<and> outp b' = outp b @ inp b)"
      unfolding i by (auto elim!: runs_mono)
    then show ?thesis using r False l t by (subst read_cb_loop.simps) simp
  qed
qed

text \<open>The connections as a map from descriptors to what has been sent back on them.\<close>

definition echoed :: "'b echo_server \<Rightarrow> int \<rightharpoonup> string" where
  "echoed s fd = map_option outp (bevs s fd)"

definition echo_inv :: "'b echo_server \<Rightarrow> bool" where
  "echo_inv s \<longleftrightarrow> (\<forall>fd b. bevs s fd = Some b \<longrightarrow> inp b = [])"

lemma dispatch_refines:
  assumes "length line = MAX_LINE + 1" "echo_inv s" "ok_event (echoed s) ev"
  shows "runs (echo_dispatch lib feed line ev s) (\<lambda>s'. echo_inv s' \<and> echoed s' = spec_step (echoed s) ev)"
proof (cases ev)
  case (Accept fd)
  obtain b where "bufferevent_socket_new lib fd = Some b" "inp b = []" "outp b = []" using new by blast
  then show ?thesis
    using assms(2) by (auto simp: Accept echo_dispatch_def do_accept_def echo_inv_def echoed_def fun_eq_iff)
next
  case (Arrive fd x)
  then obtain b where b: "bevs s fd = Some b" using assms(3) by (auto simp: echoed_def)
  have "inp (feed x b) = x" "outp (feed x b) = outp b"
    using assms(2) b feed_inp feed_outp by (auto simp: echo_inv_def)
  then have "runs (read_cb_loop lib fd line (feed x b) (echo_out s)) (\<lambda>(b', out'). inp b' = [] \<and> outp b' = outp b @ x)"
    using read_cb_loop_echo [OF assms(1), of fd "feed x b" "echo_out s"] by simp
  then show ?thesis
    using assms(2) b
    by (auto simp: Arrive echo_dispatch_def read_cb_def runs_bind echo_inv_def echoed_def fun_eq_iff elim!: runs_mono)
next
  case (Fail fd e)
  then obtain b where b: "bevs s fd = Some b" using assms(3) by (auto simp: echoed_def)
  then show ?thesis
    using assms(2) by (auto simp: Fail echo_dispatch_def error_cb_def echo_inv_def echoed_def fun_eq_iff Let_def)
qed

lemma run_refines:
  assumes "length line = MAX_LINE + 1" "echo_inv s" "ok_events (echoed s) evs"
  shows "runs (echo_run lib feed line evs s) (\<lambda>s'. echo_inv s' \<and> echoed s' = foldl spec_step (echoed s) evs)"
  using assms(2,3)
proof (induction evs arbitrary: s)
  case (Cons ev evs)
  then show ?case
    using dispatch_refines [OF assms(1), of s ev] by (auto simp: runs_bind elim!: runs_mono) metis
qed simp

end

section \<open>Properties\<close>


text \<open>Buffers as pairs of the bytes to read and the bytes written keep the promises of the library.\<close>

definition list_bev :: "(string \<times> string) bev_ops" where
  "list_bev = \<lparr>bufferevent_read = (\<lambda>n (i, out). (take n i, drop n i, out)), bufferevent_write = (\<lambda>x (i, out). (i, out @ x)),
     bufferevent_socket_new = (\<lambda>fd. Some ([], [])), BEV_EVENT_TIMEOUT = 0x40, BEV_EVENT_EOF = 0x10, BEV_EVENT_ERROR = 0x20\<rparr>"

definition list_feed :: "string \<Rightarrow> string \<times> string \<Rightarrow> string \<times> string" where
  "list_feed x b = (fst b @ x, snd b)"

interpretation list_bev: bufferevents list_bev list_feed fst snd
  by unfold_locales (auto simp: list_bev_def list_feed_def)


text \<open>A connection with a descriptor above the limit stays open, and no callback ever closes it.\<close>

lemma accept_above_limit:
  "fd > FD_SETSIZE \<Longrightarrow> do_accept lib fd s = Some (s\<lparr>open_fds := fd # open_fds s\<rparr>)"
  "bevs s fd = None \<Longrightarrow> error_cb lib event fd s = None"
  by (simp_all add: do_accept_def error_cb_def FD_SETSIZE_def)

text \<open>What \<^verbatim>\<open>error_cb\<close> prints for an event with several reasons is the first of them; the connection is always closed.\<close>

lemma error_cb_closes:
  assumes "bevs s fd = Some b" "distinct (open_fds s)"
  shows "runs (error_cb lib event fd s) (\<lambda>s'. bevs s' = (bevs s)(fd := None) \<and> fd \<notin> set (open_fds s')
    \<and> (event AND BEV_EVENT_EOF lib \<noteq> 0 \<and> event AND BEV_EVENT_TIMEOUT lib = 0 \<longrightarrow>
        echo_out s' = echo_out s @ ''fd = '' @ fmt_int 0 fd @ '', connection closed'' @ [newline]))"
  using assms by (simp add: error_cb_def Let_def)

end
