(* ===== verification/LogFormat.thy ===== *)
theory LogFormat
  imports SstringSpec
begin

text \<open>
  Logging: the messages of \<^verbatim>\<open>my_lib/boost_log/Logger.h\<close>, whose \<^verbatim>\<open>format\<close> puts its arguments at the percent
  signs of a format string, the sinks of \<^verbatim>\<open>LogHelper.cpp\<close> with their filters and the layout of a line, and the
  printer of \<^verbatim>\<open>cpp_console/log_printer.h\<close>. Boost.Log is modelled as documented as far as it is used: a
  record goes to every sink whose filter lets it pass. Arguments are the strings that \<^verbatim>\<open>lexical_cast\<close> makes of them.
\<close>

section \<open>Formatting\<close>

datatype fmt_error = runtime_error string | logic_error string

abbreviation missing_arguments :: fmt_error where
  "missing_arguments \<equiv> runtime_error ''invalid format string: missing arguments''"

abbreviation extra_arguments :: fmt_error where
  "extra_arguments \<equiv> logic_error ''extra arguments provided''"

text \<open>The two overloads of \<^verbatim>\<open>format\<close>: without arguments, and with a first argument.\<close>

fun format_none :: "string \<Rightarrow> string \<Rightarrow> fmt_error + string" where
  "format_none str [] = Inr str"
| "format_none str (c # rest) =
     (if c = CHR ''%'' then
        case rest of
          d # rest' \<Rightarrow> if d = CHR ''%'' then format_none (str @ [d]) rest' else Inl missing_arguments
        | [] \<Rightarrow> Inl missing_arguments
      else format_none (str @ [c]) rest)"

fun format :: "string list \<Rightarrow> string \<Rightarrow> string \<Rightarrow> fmt_error + string" where
  "format [] str rest = format_none str rest"
| "format (val # args) str [] = Inl extra_arguments"
| "format (val # args) str (c # rest) =
     (if c = CHR ''%'' then
        if rest \<noteq> [] \<and> hd rest = CHR ''%'' then format (val # args) (str @ [CHR ''%'']) (tl rest)
        else
          let str = str @ val in
          case format args [] rest of Inl e \<Rightarrow> Inl e | Inr t \<Rightarrow> Inr (str @ t)
      else format (val # args) (str @ [c]) rest)"

section \<open>Loggers and sinks\<close>

text \<open>The levels are an enumeration, whose values are integers.\<close>

definition severity_trace :: int where "severity_trace = 0"
definition severity_debug :: int where "severity_debug = 1"
definition severity_notification :: int where "severity_notification = 2"
definition severity_warning :: int where "severity_warning = 3"
definition severity_error :: int where "severity_error = 4"

definition severity_text :: "int \<Rightarrow> string" where
  "severity_text level =
     (let strings = [''TRACE'', ''DEBUG'', ''INFOM'', ''WARNN'', ''ERROR''] in
      if (word_of_int level :: 64 word) < 5 then strings ! unat (word_of_int level :: 64 word)
      else fmt_int 0 level)"

text \<open>A sink passes everything or, with a filter, what has at least a level; it keeps the lines it has written.\<close>

record sink =
  low :: "int option"
  lines :: "string list"

record log_helper =
  console_sink :: "sink option"
  file_sink :: "sink option"

definition new_log_helper :: log_helper where
  "new_log_helper = \<lparr>console_sink = None, file_sink = None\<rparr>"

definition add_console_log :: "log_helper \<Rightarrow> log_helper" where
  "add_console_log h = h\<lparr>console_sink := Some \<lparr>low = None, lines = []\<rparr>\<rparr>"

definition add_file_log :: "log_helper \<Rightarrow> log_helper" where
  "add_file_log h = h\<lparr>file_sink := Some \<lparr>low = None, lines = []\<rparr>\<rparr>"

definition set_console_sink_filter :: "int \<Rightarrow> log_helper \<Rightarrow> log_helper" where
  "set_console_sink_filter low_level h =
     (case console_sink h of None \<Rightarrow> h | Some s \<Rightarrow> h\<lparr>console_sink := Some (s\<lparr>low := Some low_level\<rparr>)\<rparr>)"

definition set_file_sink_filter :: "int \<Rightarrow> log_helper \<Rightarrow> log_helper" where
  "set_file_sink_filter low_level h =
     (case file_sink h of None \<Rightarrow> h | Some s \<Rightarrow> h\<lparr>file_sink := Some (s\<lparr>low := Some low_level\<rparr>)\<rparr>)"

text \<open>The attributes of a record as they are printed, and the layout that both sinks have.\<close>

record log_attrs =
  line_id :: string
  ts :: string
  pid :: string
  tid :: string
  clsname :: string

definition log_layout :: "log_attrs \<Rightarrow> int \<Rightarrow> string \<Rightarrow> string" where
  "log_layout a lvl msg =
     ''['' @ line_id a @ ''] '' @ ''['' @ ts a @ ''] '' @ ''<'' @ severity_text lvl @ ''> '' @ ''['' @ pid a @ ''] ''
     @ ''['' @ tid a @ ''] '' @ ''['' @ clsname a @ ''] '' @ msg"

definition sink_passes :: "sink \<Rightarrow> int \<Rightarrow> bool" where
  "sink_passes s lvl = (case low s of None \<Rightarrow> True | Some l \<Rightarrow> l \<le> lvl)"

definition sink_consume :: "log_attrs \<Rightarrow> int \<Rightarrow> string \<Rightarrow> sink \<Rightarrow> sink" where
  "sink_consume a lvl msg s = (if sink_passes s lvl then s\<lparr>lines := lines s @ [log_layout a lvl msg]\<rparr> else s)"

definition log_write :: "log_attrs \<Rightarrow> int \<Rightarrow> string \<Rightarrow> log_helper \<Rightarrow> log_helper" where
  "log_write a lvl msg h = h\<lparr>console_sink := map_option (sink_consume a lvl msg) (console_sink h),
     file_sink := map_option (sink_consume a lvl msg) (file_sink h)\<rparr>"

definition log_debug :: "log_attrs \<Rightarrow> string \<Rightarrow> log_helper \<Rightarrow> log_helper" where
  "log_debug a msg = log_write a severity_debug msg"

definition log_info :: "log_attrs \<Rightarrow> string \<Rightarrow> log_helper \<Rightarrow> log_helper" where
  "log_info a msg = log_write a severity_notification msg"

definition log_error :: "log_attrs \<Rightarrow> string \<Rightarrow> log_helper \<Rightarrow> log_helper" where
  "log_error a msg = log_write a severity_error msg"

definition debug_fmt :: "log_attrs \<Rightarrow> string \<Rightarrow> string list \<Rightarrow> log_helper \<Rightarrow> fmt_error + log_helper" where
  "debug_fmt a fmt args h = (case format args [] fmt of Inl e \<Rightarrow> Inl e | Inr msg \<Rightarrow> Inr (log_debug a msg h))"

definition info_fmt :: "log_attrs \<Rightarrow> string \<Rightarrow> string list \<Rightarrow> log_helper \<Rightarrow> fmt_error + log_helper" where
  "info_fmt a fmt args h = (case format args [] fmt of Inl e \<Rightarrow> Inl e | Inr msg \<Rightarrow> Inr (log_info a msg h))"

definition error_fmt :: "log_attrs \<Rightarrow> string \<Rightarrow> string list \<Rightarrow> log_helper \<Rightarrow> fmt_error + log_helper" where
  "error_fmt a fmt args h = (case format args [] fmt of Inl e \<Rightarrow> Inl e | Inr msg \<Rightarrow> Inr (log_error a msg h))"

text \<open>The example program; each record has attributes of its own.\<close>

definition boost_log_main :: "log_attrs \<Rightarrow> log_attrs \<Rightarrow> fmt_error + log_helper" where
  "boost_log_main a1 a2 =
     (let h = set_console_sink_filter 1 (add_console_log new_log_helper);
        h = log_info (a1\<lparr>clsname := ''main''\<rparr>) ''this is log'' h in
      info_fmt (a2\<lparr>clsname := ''main''\<rparr>) ''this is %'' [''log''] h)"

section \<open>The printer\<close>

text \<open>The lines that the destructor of \<^verbatim>\<open>auto_printer\<close> prints, and \<^verbatim>\<open>log_printer::add\<close>.\<close>

fun auto_printer_lines :: "nat \<Rightarrow> string list \<Rightarrow> string" where
  "auto_printer_lines i [] = []"
| "auto_printer_lines i (s # dat) = ''['' @ fmt_int 0 (int i + 1) @ '']'' @ s @ [CHR 0x0A] @ auto_printer_lines (i + 1) dat"

definition printer_append :: "string \<Rightarrow> string list \<Rightarrow> string list" where
  "printer_append s dat = dat @ [s]"

definition log_printer_add :: "string \<Rightarrow> 64 word \<Rightarrow> string list \<Rightarrow> string list option" where
  "log_printer_add key val dat = do {
     t \<leftarrow> to_string_num T_long (Integral (sint val));
     Some (printer_append (key @ '': '' @ t) dat) }"

section \<open>Tokens of a format string\<close>

text \<open>The reference: a format string as characters and holes, where two percent signs are the character.\<close>

datatype token = Lit char | Hole

fun tokens :: "string \<Rightarrow> token list" where
  "tokens [] = []"
| "tokens (c # rest) =
     (if c = CHR ''%'' then
        if rest \<noteq> [] \<and> hd rest = CHR ''%'' then Lit (CHR ''%'') # tokens (tl rest) else Hole # tokens rest
      else Lit c # tokens rest)"

definition holes :: "token list \<Rightarrow> nat" where
  "holes tks = length (filter (\<lambda>t. t = Hole) tks)"

fun fill :: "token list \<Rightarrow> string list \<Rightarrow> string" where
  "fill [] args = []"
| "fill (Lit c # tks) args = c # fill tks args"
| "fill (Hole # tks) args = (case args of [] \<Rightarrow> [] | a # args \<Rightarrow> a @ fill tks args)"

lemma holes_simps [simp]: "holes [] = 0" "holes (Lit c # tks) = holes tks" "holes (Hole # tks) = Suc (holes tks)"
  by (simp_all add: holes_def)

lemma format_none_tokens:
  "format_none str s = (if holes (tokens s) = 0 then Inr (str @ fill (tokens s) args) else Inl missing_arguments)"
  by (induction str s rule: format_none.induct) (auto split: list.splits)

lemma format_tokens:
  "format args str s =
     (if length args > holes (tokens s) then Inl extra_arguments
      else if length args < holes (tokens s) then Inl missing_arguments
      else Inr (str @ fill (tokens s) args))"
proof (induction args str s rule: format.induct)
  case (1 str rest)
  then show ?case using format_none_tokens [of str rest "[]"] by simp
next
  case (3 val args str c rest)
  then show ?case by (auto simp: Let_def)
qed simp

text \<open>A percent sign cannot follow an argument directly: three in a row are the character and then a hole.\<close>

lemma no_percent_after_hole: "tokens s = tks1 @ Hole # Lit c # tks2 \<Longrightarrow> c \<noteq> CHR ''%''"
proof (induction s arbitrary: tks1 rule: tokens.induct)
  case (2 a rest)
  show ?case
  proof (cases tks1)
    case Nil
    then show ?thesis using 2(4) by (cases rest) (auto split: if_splits)
  next
    case (Cons t tks1')
    then show ?thesis using 2 by (auto split: if_splits)
  qed
qed simp

definition escape :: "string \<Rightarrow> string" where
  "escape s = concat (map (\<lambda>c. if c = CHR ''%'' then ''%%'' else [c]) s)"

lemma tokens_escape: "tokens (escape s) = map Lit s"
  by (induction s) (auto simp: escape_def)

lemma fill_literals: "fill (map Lit s) args = s"
  by (induction s) auto

lemma holes_literals: "holes (map Lit s) = 0"
  by (induction s) auto

lemma escape_back: "format [] [] (escape s) = Inr s"
  using format_tokens [of "[]" "[]" "escape s"] by (simp add: tokens_escape fill_literals holes_literals)

section \<open>Properties\<close>

text \<open>
  (C39) \<^verbatim>\<open>format\<close> agrees with its reference on every string and all arguments: with as many arguments as there are holes it
  puts them there in order, with more it throws the error of extra arguments, with fewer that of missing ones. So the
  functions that log with a format write exactly one record, with this text, or throw and write nothing.
\<close>

theorem log_format_spec:
  "info_fmt a fmt args h =
     (if length args > holes (tokens fmt) then Inl extra_arguments
      else if length args < holes (tokens fmt) then Inl missing_arguments
      else Inr (log_write a severity_notification (fill (tokens fmt) args) h))"
  by (simp add: info_fmt_def log_info_def format_tokens)

lemma log_format_levels:
  "length args = holes (tokens fmt) \<Longrightarrow>
   debug_fmt a fmt args h = Inr (log_write a severity_debug (fill (tokens fmt) args) h)
   \<and> error_fmt a fmt args h = Inr (log_write a severity_error (fill (tokens fmt) args) h)"
  by (simp add: debug_fmt_def error_fmt_def log_debug_def log_error_def format_tokens)

text \<open>A filter that is set lets a record pass exactly from its level on, and setting one on a missing sink does nothing.\<close>

lemma console_filter:
  "console_sink h = Some s \<Longrightarrow>
   console_sink (log_write a lvl msg (set_console_sink_filter l h)) =
     Some (s\<lparr>low := Some l, lines := lines s @ (if l \<le> lvl then [log_layout a lvl msg] else [])\<rparr>)
   \<and> file_sink (set_console_sink_filter l h) = file_sink h"
  by (simp add: set_console_sink_filter_def log_write_def sink_consume_def sink_passes_def)

lemma file_filter:
  "file_sink h = Some s \<Longrightarrow>
   file_sink (log_write a lvl msg (set_file_sink_filter l h)) =
     Some (s\<lparr>low := Some l, lines := lines s @ (if l \<le> lvl then [log_layout a lvl msg] else [])\<rparr>)
   \<and> console_sink (set_file_sink_filter l h) = console_sink h"
  by (simp add: set_file_sink_filter_def log_write_def sink_consume_def sink_passes_def)

lemma filter_no_sink:
  "console_sink h = None \<Longrightarrow> set_console_sink_filter l h = h" "file_sink h = None \<Longrightarrow> set_file_sink_filter l h = h"
  by (simp_all add: set_console_sink_filter_def set_file_sink_filter_def)

lemma severity_text_levels:
  "severity_text severity_trace = ''TRACE''" "severity_text severity_debug = ''DEBUG''"
  "severity_text severity_notification = ''INFOM''" "severity_text severity_warning = ''WARNN''"
  "severity_text severity_error = ''ERROR''" "severity_text (-1) = ''-1''" "severity_text 5 = ''5''"
  by (simp_all add: severity_text_def severity_trace_def severity_debug_def severity_notification_def severity_warning_def
      severity_error_def fmt_int_def dec.simps digit_def)

lemma boost_log_main_lines:
  "\<exists>h. boost_log_main a1 a2 = Inr h \<and> file_sink h = None \<and> map_option lines (console_sink h) =
     Some [log_layout (a1\<lparr>clsname := ''main''\<rparr>) 2 ''this is log'', log_layout (a2\<lparr>clsname := ''main''\<rparr>) 2 ''this is log'']"
  by (simp add: boost_log_main_def new_log_helper_def add_console_log_def set_console_sink_filter_def
      log_info_def info_fmt_def log_write_def sink_consume_def sink_passes_def severity_notification_def)

text \<open>Adding to the printer always succeeds, and the lines are numbered from 1.\<close>

lemma log_printer_add_ok: "log_printer_add key val dat = Some (dat @ [key @ '': '' @ fmt_int 0 (sint val)])"
proof -
  have "in_range T_long (Integral (sint val))"
    using sint_lt [of val] sint_ge [of val] by simp
  then obtain s where s: "to_string_num T_long (Integral (sint val)) = Some s"
    using to_string_num_fits [of T_long] by blast
  then have "s = fmt_int 0 (sint val)"
    by (auto simp: to_string_num_def sprintf1_def to_buf_def split: if_splits)
  then show ?thesis using s by (simp add: log_printer_add_def printer_append_def)
qed

lemma auto_printer_numbered:
  "auto_printer_lines i dat = concat (map (\<lambda>(k, s). ''['' @ fmt_int 0 (int k) @ '']'' @ s @ [CHR 0x0A]) (enumerate (i + 1) dat))"
  by (induction dat arbitrary: i) (simp_all add: algebra_simps)

end
