(* ===== verification/Encoding.thy ===== *)
theory Encoding
  imports Prelude
begin

text \<open>
  The conversion of character encodings, \<^verbatim>\<open>my_lib/icu_encoding\<close>: \<^verbatim>\<open>Encoding::convert\<close> goes through UTF-16 with the virtual
  functions of two encodings, which call the converters of ICU. ICU is not here: it is the record \<open>icu\<close>, and the
  locale \<open>icu_converter\<close> states what is documented about a converter. The two functions that convert start from the
  initial state of the converter, as documented, so that \<^verbatim>\<open>reset\<close> has no effect that could be seen; an error is the
  number in \<^verbatim>\<open>EncodingError\<close>, and an exception is \<open>None\<close>, as undefined behaviour is.
\<close>

section \<open>The code\<close>

type_synonym wchar = "16 word"

text \<open>
  The functions of ICU. Those that convert have the capacity of the destination, the source and its size as arguments, and
  return what is in the destination, the length of the result and the error code.
\<close>

record 'c icu =
  ucnv_open :: "string \<Rightarrow> 'c option"
  ucnv_getName :: "'c \<Rightarrow> string"
  ucnv_getMaxCharSize :: "'c \<Rightarrow> int"
  ucnv_getMinCharSize :: "'c \<Rightarrow> int"
  ucnv_fromUChars :: "'c \<Rightarrow> int \<Rightarrow> wchar list \<Rightarrow> int \<Rightarrow> string \<times> int \<times> int"
  ucnv_toUChars :: "'c \<Rightarrow> int \<Rightarrow> string \<Rightarrow> int \<Rightarrow> wchar list \<times> int \<times> int"

definition U_ZERO_ERROR :: int where "U_ZERO_ERROR = 0"
definition U_ILLEGAL_ARGUMENT_ERROR :: int where "U_ILLEGAL_ARGUMENT_ERROR = 1"
definition U_MEMORY_ALLOCATION_ERROR :: int where "U_MEMORY_ALLOCATION_ERROR = 7"

text \<open>\<^verbatim>\<open>EncodingError\<close> in a condition, and its negation.\<close>

definition err_bool :: "int \<Rightarrow> bool" where
  "err_bool err_val \<longleftrightarrow> err_val > 0"

definition err_not :: "int \<Rightarrow> bool" where
  "err_not err_val \<longleftrightarrow> err_val \<le> 0"

text \<open>The virtual functions of an encoding.\<close>

record encoding =
  get_name :: string
  get_max_char_size :: int
  get_min_char_size :: int
  get_max_byte_count :: "int \<Rightarrow> int option"
  from_unicode :: "wchar list \<Rightarrow> int \<Rightarrow> int \<Rightarrow> string \<times> int \<times> int"
  to_unicode :: "string \<Rightarrow> int \<Rightarrow> int \<Rightarrow> wchar list \<times> int \<times> int"

definition int_range :: "int \<Rightarrow> int option" where
  "int_range x = (if - (2 ^ 31) \<le> x \<and> x < 2 ^ 31 then Some x else None)"

definition UCNV_GET_MAX_BYTES_FOR_STRING :: "int \<Rightarrow> int \<Rightarrow> int option" where
  "UCNV_GET_MAX_BYTES_FOR_STRING len maxCharSize = do { n \<leftarrow> int_range (len + 10); int_range (n * maxCharSize) }"

definition GBKEncoding :: "'c icu \<Rightarrow> 'c \<Rightarrow> encoding" where
  "GBKEncoding lib cnv = \<lparr>
     get_name = ucnv_getName lib cnv,
     get_max_char_size = ucnv_getMaxCharSize lib cnv,
     get_min_char_size = ucnv_getMinCharSize lib cnv,
     get_max_byte_count = (\<lambda>wchar_count. UCNV_GET_MAX_BYTES_FOR_STRING wchar_count (ucnv_getMaxCharSize lib cnv)),
     from_unicode = (\<lambda>src src_size dst_size. ucnv_fromUChars lib cnv dst_size src src_size),
     to_unicode = (\<lambda>src src_size dst_size. ucnv_toUChars lib cnv dst_size src src_size)\<rparr>"

definition UTF8Encoding :: "'c icu \<Rightarrow> 'c \<Rightarrow> encoding" where
  "UTF8Encoding lib cnv = \<lparr>
     get_name = ucnv_getName lib cnv,
     get_max_char_size = ucnv_getMaxCharSize lib cnv,
     get_min_char_size = ucnv_getMinCharSize lib cnv,
     get_max_byte_count = (\<lambda>wchar_count. UCNV_GET_MAX_BYTES_FOR_STRING wchar_count (ucnv_getMaxCharSize lib cnv)),
     from_unicode = (\<lambda>src src_size dst_size. ucnv_fromUChars lib cnv dst_size src src_size),
     to_unicode = (\<lambda>src src_size dst_size. ucnv_toUChars lib cnv dst_size src src_size)\<rparr>"

text \<open>The constructors open a converter or throw.\<close>

definition new_GBKEncoding :: "'c icu \<Rightarrow> encoding option" where
  "new_GBKEncoding lib = do { cnv \<leftarrow> ucnv_open lib ''gbk''; Some (GBKEncoding lib cnv) }"

definition new_UTF8Encoding :: "'c icu \<Rightarrow> encoding option" where
  "new_UTF8Encoding lib = do { cnv \<leftarrow> ucnv_open lib ''utf-8''; Some (UTF8Encoding lib cnv) }"

definition to_int :: "int \<Rightarrow> int" where
  "to_int x = sint (word_of_int x :: 32 word)"

text \<open>\<^verbatim>\<open>Encoding::convert\<close>: the new values of \<^verbatim>\<open>dst\<close> and \<^verbatim>\<open>err\<close>; \<open>ok n\<close> says whether an array of \<open>n\<close> elements can be allocated.\<close>

definition convert ::
  "(int \<Rightarrow> bool) \<Rightarrow> encoding option \<Rightarrow> encoding option \<Rightarrow> string \<Rightarrow> string \<Rightarrow> (string \<times> int) option" where
  "convert ok p_src p_dst src dst =
     (case (p_src, p_dst) of
        (Some e_src, Some e_dst) \<Rightarrow>
          if src = [] then Some ([], U_ZERO_ERROR)
          else if get_min_char_size e_src = 0 then None
          else
            let max_src_char_count = to_int (int (length src) div get_min_char_size e_src);
              wbuf_size = to_int (max_src_char_count * 2) in
            if \<not> ok wbuf_size then Some (dst, U_MEMORY_ALLOCATION_ERROR)
            else
              let (wbuf, wchar_count, err) = to_unicode e_src src (to_int (int (length src))) wbuf_size in
              if err_bool err then Some (dst, err)
              else do {
                buf_size \<leftarrow> get_max_byte_count e_dst wchar_count;
                if \<not> ok buf_size then Some (dst, U_MEMORY_ALLOCATION_ERROR)
                else
                  let (buf, n, err) = from_unicode e_dst (take (nat wchar_count) wbuf) wchar_count buf_size in
                  if err_bool err then Some (dst, err)
                  else do {
                    s \<leftarrow> buf_string buf;
                    Some (s, err) }}
      | _ \<Rightarrow> Some (dst, U_ILLEGAL_ARGUMENT_ERROR))"

text \<open>The example program: there and back; what it prints, without the texts around the strings.\<close>

definition icu_main :: "'c icu \<Rightarrow> (int \<Rightarrow> bool) \<Rightarrow> string \<Rightarrow> string list option" where
  "icu_main lib ok gbk_str = do {
     gbk \<leftarrow> new_GBKEncoding lib;
     utf8 \<leftarrow> new_UTF8Encoding lib;
     let out = [''gbk string: '' @ gbk_str];
     (utf8_str, err) \<leftarrow> convert ok (Some gbk) (Some utf8) gbk_str [];
     if err_bool err then Some (out @ [''fail to convert''])
     else do {
       let out = out @ [''utf-8 string: '' @ utf8_str];
       (gbk_str, err) \<leftarrow> convert ok (Some utf8) (Some gbk) utf8_str gbk_str;
       if err_bool err then Some (out @ [''fail to convert''])
       else Some (out @ [''gbk string: '' @ gbk_str]) }}"

section \<open>What ICU promises\<close>

text \<open>
  A converter of an encoding whose characters have at least one byte, with the functions \<open>decode\<close> and \<open>encode\<close> that it computes:
  a byte gives at most two code units, a code unit at most \<^verbatim>\<open>getMaxCharSize\<close> bytes, and a result that fits is stored
  with a terminator if there is room for it.
\<close>

locale icu_converter =
  fixes lib :: "'c icu" and cnv :: 'c and decode :: "string \<Rightarrow> wchar list" and encode :: "wchar list \<Rightarrow> string"
  assumes min: "ucnv_getMinCharSize lib cnv = 1"
    and max: "1 \<le> ucnv_getMaxCharSize lib cnv \<and> ucnv_getMaxCharSize lib cnv \<le> 8"
    and decode_length: "length (decode s) \<le> 2 * length s"
    and encode_length: "int (length (encode w)) \<le> ucnv_getMaxCharSize lib cnv * int (length w)"
    and toUChars: "int (length (decode s)) \<le> cap \<Longrightarrow> \<exists>b e. e \<le> 0 \<and>
      ucnv_toUChars lib cnv cap s (int (length s)) = (decode s @ b, int (length (decode s)), e)"
    and fromUChars: "int (length (encode w)) < cap \<Longrightarrow> \<exists>b e. e \<le> 0 \<and>
      ucnv_fromUChars lib cnv cap w (int (length w)) = (encode w @ CHR 0x00 # b, int (length (encode w)), e)"
begin

lemma max_bytes:
  assumes "n < 2 ^ 27"
  shows "UCNV_GET_MAX_BYTES_FOR_STRING (int n) (ucnv_getMaxCharSize lib cnv) = Some ((int n + 10) * ucnv_getMaxCharSize lib cnv)"
proof -
  have "0 \<le> (int n + 10) * ucnv_getMaxCharSize lib cnv" "(int n + 10) * ucnv_getMaxCharSize lib cnv \<le> (2 ^ 27 + 10) * 8"
    using assms max mult_mono [of "int n + 10" "2 ^ 27 + 10" "ucnv_getMaxCharSize lib cnv" 8] by auto
  then show ?thesis
    using assms by (simp add: UCNV_GET_MAX_BYTES_FOR_STRING_def int_range_def)
qed

lemma encode_fits: "int (length (encode w)) < (int (length w) + 10) * ucnv_getMaxCharSize lib cnv"
proof -
  have "ucnv_getMaxCharSize lib cnv * int (length w) < (int (length w) + 10) * ucnv_getMaxCharSize lib cnv"
    using max by (simp add: algebra_simps)
  then show ?thesis using encode_length [of w] by simp
qed

end

lemma to_int_id: "- (2 ^ 31) \<le> x \<Longrightarrow> x < 2 ^ 31 \<Longrightarrow> to_int x = x"
  unfolding to_int_def by (rule sint32_id)

text \<open>The two classes differ only in the converter that they open.\<close>

lemma same_functions: "UTF8Encoding lib cnv = GBKEncoding lib cnv"
  by (simp add: UTF8Encoding_def GBKEncoding_def)

lemma buf_string_cut: "buf_string (w @ CHR 0x00 # b) = Some (takeWhile (\<lambda>c. c \<noteq> CHR 0x00) w)"
  by (induction w) (auto simp: buf_string_def)

lemma convert_decodes:
  assumes src: "icu_converter lib c1 d1 e1" and dst: "icu_converter lib c2 d2 e2"
    and s: "s \<noteq> []" "length s < 2 ^ 26" and ok: "\<And>n. ok n"
  shows "\<exists>e. e \<le> 0 \<and> convert ok (Some (GBKEncoding lib c1)) (Some (GBKEncoding lib c2)) s dst0 =
    Some (takeWhile (\<lambda>c. c \<noteq> CHR 0x00) (e2 (d1 s)), e)"
proof -
  note n = icu_converter.decode_length [OF src, of s]
  let ?max = "(int (length (d1 s)) + 10) * ucnv_getMaxCharSize lib c2"
  obtain b1 x1 where t: "x1 \<le> 0"
    "ucnv_toUChars lib c1 (int (length s) * 2) s (int (length s)) = (d1 s @ b1, int (length (d1 s)), x1)"
    using icu_converter.toUChars [OF src, of s "int (length s) * 2"] n by auto
  obtain b2 x2 where f: "x2 \<le> 0"
    "ucnv_fromUChars lib c2 ?max (d1 s) (int (length (d1 s))) = (e2 (d1 s) @ CHR 0x00 # b2, int (length (e2 (d1 s))), x2)"
    using icu_converter.fromUChars [OF dst icu_converter.encode_fits [OF dst]] by blast
  have "UCNV_GET_MAX_BYTES_FOR_STRING (int (length (d1 s))) (ucnv_getMaxCharSize lib c2) = Some ?max"
    using n s(2) by (intro icu_converter.max_bytes [OF dst]) simp
  moreover have "to_int (int (length s)) = int (length s)" "to_int (int (length s) * 2) = int (length s) * 2"
    using s(2) by (simp_all add: to_int_id)
  ultimately show ?thesis
    using t f s(1) ok icu_converter.min [OF src]
    by (simp add: convert_def GBKEncoding_def err_bool_def buf_string_cut)
qed

section \<open>Properties\<close>


text \<open>A library with one converter, for the first 256 characters with a byte each.\<close>

definition byte_icu :: "unit icu" where
  "byte_icu = \<lparr>ucnv_open = (\<lambda>name. Some ()), ucnv_getName = (\<lambda>c. ''latin-1''), ucnv_getMaxCharSize = (\<lambda>c. 1),
     ucnv_getMinCharSize = (\<lambda>c. 1),
     ucnv_fromUChars = (\<lambda>c cap w n. (map (\<lambda>x. char_of (unat x)) w @ [CHR 0x00], int (length w), 0)),
     ucnv_toUChars = (\<lambda>c cap s n. (map (\<lambda>x. of_nat (of_char x)) s, int (length s), 0))\<rparr>"

interpretation byte_icu: icu_converter byte_icu "()" "map (\<lambda>x. of_nat (of_char x))" "map (\<lambda>x. char_of (unat x))"
  by unfold_locales (auto simp: byte_icu_def)

lemma byte_back: "map (\<lambda>x. char_of (unat x)) (map (\<lambda>x. of_nat (of_char x) :: wchar) s) = s"
proof (induction s)
  case (Cons c s)
  have "of_char c < (65536 :: nat)" by (rule less_trans [OF nat_of_char_less_256]) simp
  then show ?case using Cons by (simp add: unat_of_nat)
qed simp


text \<open>The errors that \<^verbatim>\<open>convert\<close> reports itself leave the destination as it was; an empty string is no error.\<close>

lemma convert_errors:
  "p_src = None \<or> p_dst = None \<Longrightarrow> convert ok p_src p_dst src dst = Some (dst, U_ILLEGAL_ARGUMENT_ERROR)"
  "get_min_char_size e1 \<noteq> 0 \<Longrightarrow> src \<noteq> [] \<Longrightarrow> (\<And>n. \<not> ok n) \<Longrightarrow>
   convert ok (Some e1) (Some e2) src dst = Some (dst, U_MEMORY_ALLOCATION_ERROR)"
  "convert ok (Some e1) (Some e2) [] dst = Some ([], U_ZERO_ERROR)"
  by (auto simp: convert_def Let_def split: option.splits)

text \<open>A NUL in the converted string cuts it short, and nothing tells the caller.\<close>

lemma convert_cut:
  "map_option fst (convert (\<lambda>n. True) (Some (GBKEncoding byte_icu ())) (Some (GBKEncoding byte_icu ())) (''a'' @ [CHR 0x00] @ ''b'') dst) =
    Some ''a''"
  using convert_decodes [OF byte_icu.icu_converter_axioms byte_icu.icu_converter_axioms,
      of "''a'' @ [CHR 0x00] @ ''b''" "\<lambda>n. True" dst, unfolded byte_back]
  by auto

end
