(* ===== verification/ProgOptions.thy ===== *)
theory ProgOptions
  imports Sstring
begin

text \<open>
  The options of a program, \<^verbatim>\<open>my_lib/ProgramOptions\<close>: the table of options, reading a configuration file into a map of values, and
  typed access to it. Boost.Program_options is not here: its functions are the record \<open>po_lib\<close>, where \<open>Inl\<close> is
  the message of an exception, and the locale \<open>options_library\<close> states what is documented about them.
\<close>

section \<open>The code\<close>

datatype po_type = Int_option | String_option

datatype po_value = PInt int | PString string

datatype po_rule = Default po_value | Required

record po_desc =
  opt_name :: string
  opt_type :: po_type
  opt_rule :: po_rule
  opt_help :: string

type_synonym variables_map = "string \<rightharpoonup> po_value"

record 'p po_lib =
  parse_config_file :: "string \<Rightarrow> po_desc list \<Rightarrow> string + 'p"
  po_store :: "'p \<Rightarrow> po_desc list \<Rightarrow> variables_map \<Rightarrow> string + variables_map"
  po_notify :: "po_desc list \<Rightarrow> variables_map \<Rightarrow> string option"

record program_options =
  desc :: "po_desc list"
  vmap :: variables_map
  messages :: "string list"

definition new_ProgramOptions :: program_options where
  "new_ProgramOptions = \<lparr>desc = [], vmap = Map.empty, messages = []\<rparr>"

definition add_options :: "program_options \<Rightarrow> program_options" where
  "add_options po = po\<lparr>desc := desc po @ [
     \<lparr>opt_name = ''num_threads'', opt_type = Int_option, opt_rule = Default (PInt 4), opt_help = ''number of work threads''\<rparr>,
     \<lparr>opt_name = ''max_interval'', opt_type = Int_option, opt_rule = Default (PInt 10), opt_help = ''use to filter records''\<rparr>,
     \<lparr>opt_name = ''datasource.database'', opt_type = String_option, opt_rule = Required, opt_help = ''oracle database name''\<rparr>,
     \<lparr>opt_name = ''datasource.username'', opt_type = String_option, opt_rule = Required, opt_help = ''username''\<rparr>,
     \<lparr>opt_name = ''datasource.password'', opt_type = String_option, opt_rule = Required, opt_help = ''password''\<rparr>,
     \<lparr>opt_name = ''http_server.ip'', opt_type = String_option, opt_rule = Required, opt_help = ''http server ip address''\<rparr>,
     \<lparr>opt_name = ''http_server.port'', opt_type = Int_option, opt_rule = Required, opt_help = ''http server port''\<rparr>,
     \<lparr>opt_name = ''http_server.path'', opt_type = String_option, opt_rule = Required, opt_help = ''http url path''\<rparr>,
     \<lparr>opt_name = ''http_server.connection_timeout'', opt_type = Int_option, opt_rule = Default (PInt 5), opt_help = ''connection timeout''\<rparr>,
     \<lparr>opt_name = ''http_server.transfer_timeout'', opt_type = Int_option, opt_rule = Default (PInt 10), opt_help = ''transfer timeout''\<rparr>,
     \<lparr>opt_name = ''http_server.max_connections'', opt_type = Int_option, opt_rule = Default (PInt 20), opt_help = ''max connections with server''\<rparr>,
     \<lparr>opt_name = ''log.console.low_level'', opt_type = Int_option, opt_rule = Default (PInt 0), opt_help = ''console logger filter''\<rparr>,
     \<lparr>opt_name = ''log.file.low_level'', opt_type = Int_option, opt_rule = Default (PInt 0), opt_help = ''file logger filter''\<rparr>]\<rparr>"

text \<open>An exception is caught and its message printed. What was stored before \<^verbatim>\<open>notify\<close> throws stays in the map.\<close>

definition ProgramOptions_store :: "'p po_lib \<Rightarrow> string \<Rightarrow> program_options \<Rightarrow> bool \<times> program_options" where
  "ProgramOptions_store lib cfg po =
     (case parse_config_file lib cfg (desc po) of
        Inl e \<Rightarrow> (False, po\<lparr>messages := messages po @ [e]\<rparr>)
      | Inr p \<Rightarrow>
          (case po_store lib p (desc po) (vmap po) of
             Inl e \<Rightarrow> (False, po\<lparr>messages := messages po @ [e]\<rparr>)
           | Inr mp \<Rightarrow>
               let po = po\<lparr>vmap := mp\<rparr> in
               (case po_notify lib (desc po) mp of
                  Some e \<Rightarrow> (False, po\<lparr>messages := messages po @ [e]\<rparr>)
                | None \<Rightarrow> (True, po))))"

text \<open>A value of the other type throws \<^verbatim>\<open>bad_any_cast\<close>, which is caught; \<open>bad\<close> is its message.\<close>

definition get_int :: "string \<Rightarrow> string \<Rightarrow> program_options \<Rightarrow> int option \<times> program_options" where
  "get_int bad key po =
     (case vmap po key of
        None \<Rightarrow> (None, po)
      | Some (PInt val) \<Rightarrow> (Some val, po)
      | Some (PString _) \<Rightarrow> (None, po\<lparr>messages := messages po @ [bad]\<rparr>))"

definition get_string :: "string \<Rightarrow> string \<Rightarrow> program_options \<Rightarrow> string option \<times> program_options" where
  "get_string bad key po =
     (case vmap po key of
        None \<Rightarrow> (None, po)
      | Some (PString val) \<Rightarrow> (Some val, po)
      | Some (PInt _) \<Rightarrow> (None, po\<lparr>messages := messages po @ [bad]\<rparr>))"

text \<open>The example program: the lines that it prints.\<close>

definition options_main :: "'p po_lib \<Rightarrow> string \<Rightarrow> string list" where
  "options_main lib bad =
     (let po = add_options new_ProgramOptions;
        (ok, po) = ProgramOptions_store lib ''config.txt'' po;
        (num_threads, po) = get_int bad ''num_threads'' po;
        po = (case num_threads of Some n \<Rightarrow> po\<lparr>messages := messages po @ [''num threads: '' @ fmt_int 0 n]\<rparr> | None \<Rightarrow> po);
        (db, po) = get_string bad ''datasource.database'' po;
        po = (case db of Some d \<Rightarrow> po\<lparr>messages := messages po @ [''database: '' @ d]\<rparr> | None \<Rightarrow> po) in
      messages po)"

section \<open>What the library promises\<close>

definition has_type :: "po_value \<Rightarrow> po_type \<Rightarrow> bool" where
  "has_type v t \<longleftrightarrow> (case v of PInt _ \<Rightarrow> t = Int_option | PString _ \<Rightarrow> t = String_option)"

text \<open>
  Storing into an empty map gives values of the declared types, for declared options only, and the default of every option that has one and
  is not given; \<^verbatim>\<open>notify\<close> throws exactly if a required option has no value.
\<close>

locale options_library =
  fixes lib :: "'p po_lib" and given :: "'p \<Rightarrow> string set"
  assumes store_declared: "po_store lib p ds Map.empty = Inr mp \<Longrightarrow> mp k = Some v \<Longrightarrow>
      \<exists>d\<in>set ds. opt_name d = k \<and> has_type v (opt_type d)"
    and store_default: "po_store lib p ds Map.empty = Inr mp \<Longrightarrow> d \<in> set ds \<Longrightarrow> opt_rule d = Default v \<Longrightarrow>
      (opt_name d \<notin> given p \<longrightarrow> mp (opt_name d) = Some v) \<and> mp (opt_name d) \<noteq> None"
    and notify: "po_notify lib ds mp = None \<longleftrightarrow> (\<forall>d\<in>set ds. opt_rule d = Required \<longrightarrow> mp (opt_name d) \<noteq> None)"
begin

lemma stored_all:
  assumes "ProgramOptions_store lib cfg po = (True, po')" "vmap po = Map.empty" "distinct (map opt_name (desc po))" "d \<in> set (desc po)"
  shows "\<exists>v. vmap po' (opt_name d) = Some v \<and> has_type v (opt_type d) \<and> messages po' = messages po"
proof -
  obtain p mp where p: "po_store lib p (desc po) Map.empty = Inr mp" "po_notify lib (desc po) mp = None" "po' = po\<lparr>vmap := mp\<rparr>"
    using assms(1,2) by (auto simp: ProgramOptions_store_def Let_def split: sum.splits option.splits)
  then obtain v where v: "mp (opt_name d) = Some v"
    using notify [of "desc po" mp] store_default [OF p(1) assms(4)] assms(4) by (cases "opt_rule d") auto
  then obtain d' where "d' \<in> set (desc po)" "opt_name d' = opt_name d" "has_type v (opt_type d')"
    using store_declared [OF p(1)] by blast
  then have "d' = d" using assms(3,4) by (auto simp: distinct_map inj_on_def)
  then show ?thesis using v p(3) \<open>has_type v (opt_type d')\<close> by simp
qed

end

section \<open>Properties\<close>

text \<open>
  If \<^verbatim>\<open>store\<close> succeeds on the table of options, every option can be read with the function of its type, and reading it
  with the function of the other type gives nothing; an option that is not in the table has no value.
\<close>

theorem options_complete:
  assumes "options_library lib given" "ProgramOptions_store lib cfg (add_options new_ProgramOptions) = (True, po)"
  shows "list_all (\<lambda>d. if opt_type d = Int_option
      then fst (get_int bad (opt_name d) po) \<noteq> None \<and> fst (get_string bad (opt_name d) po) = None
      else fst (get_string bad (opt_name d) po) \<noteq> None \<and> fst (get_int bad (opt_name d) po) = None) (desc po)
    \<and> desc po = desc (add_options new_ProgramOptions) \<and> length (desc po) = 13"
proof -
  let ?po = "add_options new_ProgramOptions"
  have e: "vmap ?po = Map.empty" and d: "distinct (map opt_name (desc ?po))" and n: "length (desc ?po) = 13"
    by (simp_all add: add_options_def new_ProgramOptions_def)
  have "desc po = desc ?po"
    using assms(2) by (auto simp: ProgramOptions_store_def Let_def split: sum.splits option.splits)
  moreover have "if opt_type x = Int_option
      then fst (get_int bad (opt_name x) po) \<noteq> None \<and> fst (get_string bad (opt_name x) po) = None
      else fst (get_string bad (opt_name x) po) \<noteq> None \<and> fst (get_int bad (opt_name x) po) = None" if "x \<in> set (desc ?po)" for x
  proof -
    obtain v where "vmap po (opt_name x) = Some v" "has_type v (opt_type x)"
      using options_library.stored_all [OF assms e d \<open>x \<in> set (desc ?po)\<close>] by blast
    then show ?thesis by (cases v) (auto simp: get_int_def get_string_def has_type_def)
  qed
  ultimately show ?thesis using n by (simp add: list_all_iff)
qed

text \<open>A library that keeps the promises: the file gives a list of values, which are checked against the table.\<close>

definition po_defaults :: "po_desc list \<Rightarrow> (string \<times> po_value) list" where
  "po_defaults ds = concat (map (\<lambda>d. case opt_rule d of Default v \<Rightarrow> [(opt_name d, v)] | Required \<Rightarrow> []) ds)"

definition po_declared :: "po_desc list \<Rightarrow> string \<times> po_value \<Rightarrow> bool" where
  "po_declared ds kv \<longleftrightarrow> list_ex (\<lambda>d. opt_name d = fst kv \<and> has_type (snd kv) (opt_type d)) ds"

definition list_po :: "(string \<times> po_value) list \<Rightarrow> (string \<times> po_value) list po_lib" where
  "list_po contents = \<lparr>
     parse_config_file = (\<lambda>cfg ds. Inr contents),
     po_store = (\<lambda>p ds mp. if distinct (map opt_name ds) \<and> list_all (po_declared ds) (p @ po_defaults ds)
        then Inr (map_of (p @ po_defaults ds)) else Inl ''invalid value''),
     po_notify = (\<lambda>ds mp. if list_all (\<lambda>d. opt_rule d = Required \<longrightarrow> mp (opt_name d) \<noteq> None) ds then None
        else Some ''missing required option'')\<rparr>"

lemma po_default_found:
  "distinct (map opt_name ds) \<Longrightarrow> d \<in> set ds \<Longrightarrow> opt_rule d = Default v \<Longrightarrow> map_of (po_defaults ds) (opt_name d) = Some v"
proof (induction ds)
  case (Cons x ds)
  have "opt_name d \<noteq> opt_name x" if "d \<in> set ds" using Cons.prems(1) that by (metis distinct.simps(2) image_eqI list.set_map list.simps(9))
  then show ?case using Cons by (auto simp: po_defaults_def split: po_rule.splits)
qed simp

interpretation list_po: options_library "list_po contents" "\<lambda>p. fst ` set p" for contents
proof
  fix p ds mp k v
  assume "po_store (list_po contents) p ds Map.empty = Inr mp" "mp k = Some v"
  then have "list_all (po_declared ds) (p @ po_defaults ds)" "(k, v) \<in> set (p @ po_defaults ds)"
    by (auto simp: list_po_def split: if_splits dest: map_of_SomeD)
  then have "po_declared ds (k, v)"
    unfolding list_all_iff by blast
  then show "\<exists>d\<in>set ds. opt_name d = k \<and> has_type v (opt_type d)"
    by (simp add: po_declared_def list_ex_iff)
next
  fix p ds mp d v
  assume "po_store (list_po contents) p ds Map.empty = Inr mp" "d \<in> set ds" "opt_rule d = Default v"
  then show "(opt_name d \<notin> fst ` set p \<longrightarrow> mp (opt_name d) = Some v) \<and> mp (opt_name d) \<noteq> None"
    using po_default_found [of ds d v]
    by (auto simp: list_po_def map_add_def map_of_eq_None_iff split: if_splits option.splits)
      (metis dom_map_of_conv_image_fst domI)
qed (auto simp: list_po_def list_all_iff)

definition sample_config :: "(string \<times> po_value) list" where
  "sample_config = [(''datasource.database'', PString ''orcl''), (''datasource.username'', PString ''u''), (''datasource.password'', PString ''p''),
     (''http_server.ip'', PString ''127.0.0.1''), (''http_server.port'', PInt 80), (''http_server.path'', PString ''/'')]"

lemma sample_store:
  "ProgramOptions_store (list_po sample_config) ''config.txt'' (add_options new_ProgramOptions) =
    (True, (add_options new_ProgramOptions)\<lparr>vmap := map_of (sample_config @ po_defaults (desc (add_options new_ProgramOptions)))\<rparr>)"
  by (simp add: ProgramOptions_store_def list_po_def add_options_def new_ProgramOptions_def sample_config_def po_defaults_def po_declared_def has_type_def)

theorem options_complete_witness:
  "length (desc ((add_options new_ProgramOptions)\<lparr>vmap := map_of (sample_config @ po_defaults (desc (add_options new_ProgramOptions)))\<rparr>)) = 13"
  using options_complete [OF list_po.options_library_axioms sample_store] by blast

text \<open>A required option that is missing makes \<^verbatim>\<open>store\<close> fail, but the values that were read can be got all the same.\<close>

lemma failed_store_keeps_values:
  "fst (ProgramOptions_store (list_po []) ''config.txt'' (add_options new_ProgramOptions)) = False
   \<and> fst (get_int bad ''num_threads'' (snd (ProgramOptions_store (list_po []) ''config.txt'' (add_options new_ProgramOptions)))) = Some 4"
  by (simp add: ProgramOptions_store_def list_po_def add_options_def new_ProgramOptions_def po_defaults_def po_declared_def has_type_def get_int_def)


text \<open>With a complete file the program prints both values, with an empty one the error and the default.\<close>

lemma options_main_prints:
  "options_main (list_po sample_config) bad = [''num threads: 4'', ''database: orcl'']"
  "options_main (list_po []) bad = [''missing required option'', ''num threads: 4'']"
  by (simp_all add: options_main_def ProgramOptions_store_def list_po_def add_options_def new_ProgramOptions_def sample_config_def
      po_defaults_def po_declared_def has_type_def get_int_def get_string_def fmt_int_def dec.simps digit_def)

end
