(* ===== verification/Maze.thy ===== *)
theory Maze
  imports Prelude
begin

text \<open>
  The mazes of \<^verbatim>\<open>design_patterns/creational\<close>: the classes of \<^verbatim>\<open>common/Maze.h\<close> as objects in a store, and the four
  ways of the directories \<^verbatim>\<open>abstract_factory\<close>, \<^verbatim>\<open>factory_method\<close>, \<^verbatim>\<open>singleton\<close> and \<^verbatim>\<open>builder\<close> to create them.
  Addresses are natural numbers and 0 is the null pointer; \<^verbatim>\<open>new\<close> takes the next free address. A class with
  virtual functions is the record of its functions, and a derived class updates the functions that it overrides.
  \<open>None\<close> is undefined behaviour, as in the other theories. The contract of a factory is the locale
  \<open>maze_parts\<close>; what \<^verbatim>\<open>CreateMaze\<close> builds is proved once in it and holds for every factory class.
\<close>

section \<open>Objects\<close>

type_synonym addr = nat

datatype direction = North | South | East | West

datatype room_class = Room | RoomWithABomb | EnchantedRoom addr
datatype wall_class = Wall | CommonWall addr addr | BombedWall
datatype door_class = Door | DoorNeedingSpell

text \<open>The constructor leaves the four sides without a value.\<close>

record room =
  sides :: "direction \<rightharpoonup> addr"
  roomNumber :: int

record door =
  room1 :: addr
  room2 :: addr
  isOpen :: bool

datatype obj =
  RoomObj room_class room
| WallObj wall_class
| DoorObj door_class door
| SpellObj
| MazeObj "int \<rightharpoonup> addr"

record store =
  objs :: "addr \<rightharpoonup> obj"
  free :: addr

definition new_obj :: "obj \<Rightarrow> store \<Rightarrow> addr \<times> store" where
  "new_obj x h = (free h, h\<lparr>objs := (objs h)(free h \<mapsto> x), free := free h + 1\<rparr>)"

definition new_room :: "int \<Rightarrow> room" where
  "new_room roomNo = \<lparr>sides = Map.empty, roomNumber = roomNo\<rparr>"

definition new_door :: "addr \<Rightarrow> addr \<Rightarrow> door" where
  "new_door r1 r2 = \<lparr>room1 = r1, room2 = r2, isOpen = False\<rparr>"

definition room_at :: "addr \<Rightarrow> store \<Rightarrow> (room_class \<times> room) option" where
  "room_at a h = (case objs h a of Some (RoomObj c r) \<Rightarrow> Some (c, r) | _ \<Rightarrow> None)"

definition maze_at :: "addr \<Rightarrow> store \<Rightarrow> (int \<rightharpoonup> addr) option" where
  "maze_at a h = (case objs h a of Some (MazeObj rs) \<Rightarrow> Some rs | _ \<Rightarrow> None)"

definition GetRoomNo :: "addr \<Rightarrow> store \<Rightarrow> int option" where
  "GetRoomNo a h = do { (c, r) \<leftarrow> room_at a h; Some (roomNumber r) }"

definition GetSide :: "addr \<Rightarrow> direction \<Rightarrow> store \<Rightarrow> addr option" where
  "GetSide a d h = do { (c, r) \<leftarrow> room_at a h; sides r d }"

definition SetSide :: "addr \<Rightarrow> direction \<Rightarrow> addr \<Rightarrow> store \<Rightarrow> store option" where
  "SetSide a d s h = do {
     (c, r) \<leftarrow> room_at a h;
     Some (h\<lparr>objs := (objs h)(a \<mapsto> RoomObj c (r\<lparr>sides := (sides r)(d \<mapsto> s)\<rparr>))\<rparr>) }"

text \<open>\<^verbatim>\<open>OtherSideFrom\<close> has no return statement.\<close>

definition OtherSideFrom :: "addr \<Rightarrow> addr \<Rightarrow> store \<Rightarrow> addr option" where
  "OtherSideFrom d r h = None"

text \<open>\<open>Enter\<close> is the text that the overriding function of the object's class prints.\<close>

definition Enter :: "addr \<Rightarrow> store \<Rightarrow> string option" where
  "Enter a h = (case objs h a of
     Some (RoomObj Room _) \<Rightarrow> Some (''Enter Room'' @ [CHR 0x0A])
   | Some (RoomObj RoomWithABomb _) \<Rightarrow> Some (''Enter Room With A Bomb'' @ [CHR 0x0A])
   | Some (RoomObj (EnchantedRoom _) _) \<Rightarrow> Some (''Enter Enchanted Room'' @ [CHR 0x0A])
   | Some (WallObj _) \<Rightarrow> Some ''''
   | Some (DoorObj Door _) \<Rightarrow> Some (''Enter Door'' @ [CHR 0x0A])
   | Some (DoorObj DoorNeedingSpell _) \<Rightarrow> Some (''Enter Enchanted Door'' @ [CHR 0x0A])
   | _ \<Rightarrow> None)"

definition AddRoom :: "addr \<Rightarrow> addr \<Rightarrow> store \<Rightarrow> store option" where
  "AddRoom m r h = do {
     rs \<leftarrow> maze_at m h;
     n \<leftarrow> GetRoomNo r h;
     Some (h\<lparr>objs := (objs h)(m \<mapsto> MazeObj (rs(n \<mapsto> r)))\<rparr>) }"

text \<open>For a number without a room, \<^verbatim>\<open>RoomNo\<close> dereferences the end of the map.\<close>

definition RoomNo :: "addr \<Rightarrow> int \<Rightarrow> store \<Rightarrow> addr option" where
  "RoomNo m n h = do { rs \<leftarrow> maze_at m h; rs n }"

section \<open>Factories\<close>

record maze_factory =
  MakeMaze :: "store \<Rightarrow> addr \<times> store"
  MakeWall :: "store \<Rightarrow> addr \<times> store"
  MakeRoom :: "int \<Rightarrow> store \<Rightarrow> addr \<times> store"
  MakeDoor :: "addr \<Rightarrow> addr \<Rightarrow> store \<Rightarrow> addr \<times> store"

definition MazeFactory :: maze_factory where
  "MazeFactory = \<lparr>
     MakeMaze = new_obj (MazeObj Map.empty),
     MakeWall = new_obj (WallObj Wall),
     MakeRoom = (\<lambda>n. new_obj (RoomObj Room (new_room n))),
     MakeDoor = (\<lambda>r1 r2. new_obj (DoorObj Door (new_door r1 r2)))\<rparr>"

definition BombedMazeFactory :: maze_factory where
  "BombedMazeFactory = MazeFactory\<lparr>
     MakeWall := new_obj (WallObj BombedWall),
     MakeRoom := (\<lambda>n. new_obj (RoomObj RoomWithABomb (new_room n)))\<rparr>"

definition CastSpell :: "store \<Rightarrow> addr \<times> store" where
  "CastSpell = new_obj SpellObj"

definition EnchantedMazeFactory :: maze_factory where
  "EnchantedMazeFactory = MazeFactory\<lparr>
     MakeRoom := (\<lambda>n h. let (s, h) = CastSpell h in new_obj (RoomObj (EnchantedRoom s) (new_room n)) h),
     MakeDoor := (\<lambda>r1 r2. new_obj (DoorObj DoorNeedingSpell (new_door r1 r2)))\<rparr>"

text \<open>\<^verbatim>\<open>MazeGame::CreateMaze\<close> of \<^verbatim>\<open>abstract_factory\<close>.\<close>

definition CreateMaze :: "maze_factory \<Rightarrow> store \<Rightarrow> (addr \<times> store) option" where
  "CreateMaze factory h = do {
     let (m, h) = MakeMaze factory h;
     let (r1, h) = MakeRoom factory 1 h;
     let (r2, h) = MakeRoom factory 2 h;
     let (d, h) = MakeDoor factory r1 r2 h;
     h \<leftarrow> AddRoom m r1 h;
     h \<leftarrow> AddRoom m r2 h;
     let (w, h) = MakeWall factory h;
     h \<leftarrow> SetSide r1 North w h;
     h \<leftarrow> SetSide r1 East d h;
     let (w, h) = MakeWall factory h;
     h \<leftarrow> SetSide r1 South w h;
     let (w, h) = MakeWall factory h;
     h \<leftarrow> SetSide r1 West w h;
     let (w, h) = MakeWall factory h;
     h \<leftarrow> SetSide r2 North w h;
     let (w, h) = MakeWall factory h;
     h \<leftarrow> SetSide r2 East w h;
     let (w, h) = MakeWall factory h;
     h \<leftarrow> SetSide r2 South w h;
     h \<leftarrow> SetSide r2 West d h;
     Some (m, h) }"

text \<open>In \<^verbatim>\<open>factory_method\<close> the game itself has the virtual functions, with its own subclasses.\<close>

record maze_game =
  game_MakeMaze :: "store \<Rightarrow> addr \<times> store"
  game_MakeRoom :: "int \<Rightarrow> store \<Rightarrow> addr \<times> store"
  game_MakeWall :: "store \<Rightarrow> addr \<times> store"
  game_MakeDoor :: "addr \<Rightarrow> addr \<Rightarrow> store \<Rightarrow> addr \<times> store"

definition MazeGame :: maze_game where
  "MazeGame = \<lparr>
     game_MakeMaze = new_obj (MazeObj Map.empty),
     game_MakeRoom = (\<lambda>n. new_obj (RoomObj Room (new_room n))),
     game_MakeWall = new_obj (WallObj Wall),
     game_MakeDoor = (\<lambda>r1 r2. new_obj (DoorObj Door (new_door r1 r2)))\<rparr>"

definition BombedMazeGame :: maze_game where
  "BombedMazeGame = MazeGame\<lparr>
     game_MakeRoom := (\<lambda>n. new_obj (RoomObj RoomWithABomb (new_room n))),
     game_MakeWall := new_obj (WallObj BombedWall)\<rparr>"

definition game_CreateMaze :: "maze_game \<Rightarrow> store \<Rightarrow> (addr \<times> store) option" where
  "game_CreateMaze this h = do {
     let (m, h) = game_MakeMaze this h;
     let (r1, h) = game_MakeRoom this 1 h;
     let (r2, h) = game_MakeRoom this 2 h;
     let (theDoor, h) = game_MakeDoor this r1 r2 h;
     h \<leftarrow> AddRoom m r1 h;
     h \<leftarrow> AddRoom m r2 h;
     let (w, h) = game_MakeWall this h;
     h \<leftarrow> SetSide r1 North w h;
     h \<leftarrow> SetSide r1 East theDoor h;
     let (w, h) = game_MakeWall this h;
     h \<leftarrow> SetSide r1 South w h;
     let (w, h) = game_MakeWall this h;
     h \<leftarrow> SetSide r1 West w h;
     let (w, h) = game_MakeWall this h;
     h \<leftarrow> SetSide r2 North w h;
     let (w, h) = game_MakeWall this h;
     h \<leftarrow> SetSide r2 East w h;
     let (w, h) = game_MakeWall this h;
     h \<leftarrow> SetSide r2 South w h;
     h \<leftarrow> SetSide r2 West theDoor h;
     Some (m, h) }"

section \<open>The single factory\<close>

text \<open>
  In \<^verbatim>\<open>singleton\<close> a pointer to a factory points to one of the two static objects, which have no members: it is
  the class of the object, or \<open>None\<close> for the null pointer.
\<close>

datatype factory_class = Plain | Bombed | Enchanted

primrec methods :: "factory_class \<Rightarrow> maze_factory" where
  "methods Plain = MazeFactory"
| "methods Bombed = BombedMazeFactory"
| "methods Enchanted = EnchantedMazeFactory"

record factories =
  inst :: "factory_class option"
  registry :: "string \<rightharpoonup> factory_class option"

definition Register :: "string \<Rightarrow> factory_class option \<Rightarrow> factories \<Rightarrow> factories" where
  "Register name factory s = s\<lparr>registry := (registry s)(name \<mapsto> factory)\<rparr>"

definition Lookup :: "string \<Rightarrow> factories \<Rightarrow> factory_class option" where
  "Lookup name s = (case registry s name of Some f \<Rightarrow> f | None \<Rightarrow> None)"

definition Instance :: "factories \<Rightarrow> factory_class option \<times> factories" where
  "Instance s = (
     let s = (if inst s = None then s\<lparr>inst := Lookup ''EnchantedMazeFactory'' s\<rparr> else s)
     in (inst s, s))"

text \<open>The constructors of the static objects register them, in the order of the file.\<close>

definition static_init :: factories where
  "static_init =
     Register ''EnchantedMazeFactory'' (Some Enchanted)
       (Register ''BombedMazeFactory'' (Some Bombed) \<lparr>inst = None, registry = Map.empty\<rparr>)"

definition single_CreateMaze :: "factories \<Rightarrow> store \<Rightarrow> (addr \<times> store \<times> factories) option" where
  "single_CreateMaze s h = (
     let (factory, s) = Instance s
     in do { f \<leftarrow> factory;
       let factory = methods f;
       let (m, h) = MakeMaze factory h;
       let (r1, h) = MakeRoom factory 1 h;
       let (r2, h) = MakeRoom factory 2 h;
       let (d, h) = MakeDoor factory r1 r2 h;
       h \<leftarrow> AddRoom m r1 h;
       h \<leftarrow> AddRoom m r2 h;
       let (w, h) = MakeWall factory h;
       h \<leftarrow> SetSide r1 North w h;
       h \<leftarrow> SetSide r1 East d h;
       let (w, h) = MakeWall factory h;
       h \<leftarrow> SetSide r1 South w h;
       let (w, h) = MakeWall factory h;
       h \<leftarrow> SetSide r1 West w h;
       let (w, h) = MakeWall factory h;
       h \<leftarrow> SetSide r2 North w h;
       let (w, h) = MakeWall factory h;
       h \<leftarrow> SetSide r2 East w h;
       let (w, h) = MakeWall factory h;
       h \<leftarrow> SetSide r2 South w h;
       h \<leftarrow> SetSide r2 West d h;
       Some (m, h, s) })"

section \<open>The builder\<close>

text \<open>The functions of a builder, on its member \<^verbatim>\<open>_currentMaze\<close> and the store.\<close>

type_synonym building = "addr \<times> store"

record maze_builder =
  BuildMaze :: "building \<Rightarrow> building option"
  BuildRoom :: "int \<Rightarrow> building \<Rightarrow> building option"
  BuildDoor :: "int \<Rightarrow> int \<Rightarrow> building \<Rightarrow> building option"
  GetMaze :: "building \<Rightarrow> addr"

definition MazeBuilder :: maze_builder where
  "MazeBuilder = \<lparr>BuildMaze = Some, BuildRoom = (\<lambda>n. Some), BuildDoor = (\<lambda>n1 n2. Some), GetMaze = (\<lambda>b. 0)\<rparr>"

definition new_StandardMazeBuilder :: "store \<Rightarrow> building" where
  "new_StandardMazeBuilder h = (0, h)"

definition CommonWall_dir :: "addr \<Rightarrow> addr \<Rightarrow> direction" where
  "CommonWall_dir r1 r2 = North"

definition standard_BuildMaze :: "building \<Rightarrow> building option" where
  "standard_BuildMaze b = Some (new_obj (MazeObj Map.empty) (snd b))"

definition standard_BuildRoom :: "int \<Rightarrow> building \<Rightarrow> building option" where
  "standard_BuildRoom n b = (let (cur, h) = b in do {
     r \<leftarrow> RoomNo cur n h;
     if r = 0 then do {
       let (room, h) = new_obj (RoomObj Room (new_room n)) h;
       h \<leftarrow> AddRoom cur room h;
       let (w, h) = new_obj (WallObj Wall) h;
       h \<leftarrow> SetSide room North w h;
       let (w, h) = new_obj (WallObj Wall) h;
       h \<leftarrow> SetSide room South w h;
       let (w, h) = new_obj (WallObj Wall) h;
       h \<leftarrow> SetSide room East w h;
       let (w, h) = new_obj (WallObj Wall) h;
       h \<leftarrow> SetSide room West w h;
       Some (cur, h) }
     else Some (cur, h) })"

definition standard_BuildDoor :: "int \<Rightarrow> int \<Rightarrow> building \<Rightarrow> building option" where
  "standard_BuildDoor n1 n2 b = (let (cur, h) = b in do {
     r1 \<leftarrow> RoomNo cur n1 h;
     r2 \<leftarrow> RoomNo cur n2 h;
     let (d, h) = new_obj (DoorObj Door (new_door r1 r2)) h;
     h \<leftarrow> SetSide r1 (CommonWall_dir r1 r2) d h;
     h \<leftarrow> SetSide r2 (CommonWall_dir r2 r1) d h;
     Some (cur, h) })"

definition StandardMazeBuilder :: maze_builder where
  "StandardMazeBuilder = MazeBuilder\<lparr>BuildMaze := standard_BuildMaze, BuildRoom := standard_BuildRoom,
     BuildDoor := standard_BuildDoor, GetMaze := fst\<rparr>"

definition builder_CreateMaze :: "maze_builder \<Rightarrow> building \<Rightarrow> (addr \<times> building) option" where
  "builder_CreateMaze builder b = do {
     b \<leftarrow> BuildMaze builder b;
     b \<leftarrow> BuildRoom builder 1 b;
     b \<leftarrow> BuildRoom builder 2 b;
     b \<leftarrow> BuildDoor builder 1 2 b;
     Some (GetMaze builder b, b) }"

section \<open>The programs\<close>

text \<open>What the four programs print, from an empty store.\<close>

definition empty_store :: store where
  "empty_store = \<lparr>objs = Map.empty, free = 1\<rparr>"

definition enter_first :: "addr \<Rightarrow> store \<Rightarrow> string option" where
  "enter_first m h = do { r \<leftarrow> RoomNo m 1 h; Enter r h }"

definition abstract_factory_main :: "string option" where
  "abstract_factory_main = do { (m, h) \<leftarrow> CreateMaze BombedMazeFactory empty_store; enter_first m h }"

definition factory_method_main :: "string option" where
  "factory_method_main = do { (m, h) \<leftarrow> game_CreateMaze BombedMazeGame empty_store; enter_first m h }"

definition singleton_main :: "string option" where
  "singleton_main = do { (m, h, s) \<leftarrow> single_CreateMaze static_init empty_store; enter_first m h }"

definition builder_main :: "string option" where
  "builder_main = do {
     (m, b) \<leftarrow> builder_CreateMaze StandardMazeBuilder (new_StandardMazeBuilder empty_store);
     enter_first (GetMaze StandardMazeBuilder b) (snd b) }"

section \<open>What a factory promises\<close>

definition wf_store :: "store \<Rightarrow> bool" where
  "wf_store h \<longleftrightarrow> 0 < free h \<and> (\<forall>a x. objs h a = Some x \<longrightarrow> 0 < a \<and> a < free h)"

text \<open>The object \<open>x\<close> has been created at the new address \<open>a\<close>, and older objects are untouched.\<close>

definition allocates :: "store \<Rightarrow> addr \<Rightarrow> obj \<Rightarrow> store \<Rightarrow> bool" where
  "allocates h a x h' \<longleftrightarrow>
     wf_store h' \<and> a \<noteq> 0 \<and> a \<notin> dom (objs h) \<and> objs h' a = Some x \<and> objs h \<subseteq>\<^sub>m objs h'"

lemma new_obj_allocates:
  "wf_store h \<Longrightarrow> new_obj x h = (a, h') \<Longrightarrow> allocates h a x h'"
  by (fastforce simp: new_obj_def wf_store_def allocates_def map_le_def split: if_splits)

lemma allocates_keeps: "allocates h a x h' \<Longrightarrow> objs h b = Some y \<Longrightarrow> objs h' b = Some y \<and> a \<noteq> b"
  by (auto simp: allocates_def map_le_def dom_def)

lemma map_le_lookup: "m \<subseteq>\<^sub>m m' \<Longrightarrow> m a = Some x \<Longrightarrow> m' a = Some x"
  by (auto simp: map_le_def dom_def)

lemma allocates_trans:
  "allocates h a x h1 \<Longrightarrow> allocates h1 b y h2 \<Longrightarrow> allocates h b y h2"
  by (auto simp: allocates_def map_le_def dom_def)

text \<open>Two rooms with numbers 1 and 2 that share the door between them, and six walls.\<close>

definition two_room_maze ::
  "(room_class \<Rightarrow> bool) \<Rightarrow> wall_class \<Rightarrow> door_class \<Rightarrow> addr \<Rightarrow> store \<Rightarrow> bool" where
  "two_room_maze rk wk dk m h \<longleftrightarrow> (\<exists>r1 r2 d c1 c2 w1 w2 w3 w4 w5 w6.
     objs h m = Some (MazeObj [1 \<mapsto> r1, 2 \<mapsto> r2]) \<and> r1 \<noteq> r2 \<and> rk c1 \<and> rk c2
   \<and> objs h r1 = Some (RoomObj c1 \<lparr>sides = [North \<mapsto> w1, East \<mapsto> d, South \<mapsto> w2, West \<mapsto> w3], roomNumber = 1\<rparr>)
   \<and> objs h r2 = Some (RoomObj c2 \<lparr>sides = [North \<mapsto> w4, East \<mapsto> w5, South \<mapsto> w6, West \<mapsto> d], roomNumber = 2\<rparr>)
   \<and> objs h d = Some (DoorObj dk \<lparr>room1 = r1, room2 = r2, isOpen = False\<rparr>)
   \<and> distinct [w1, w2, w3, w4, w5, w6] \<and> (\<forall>w\<in>{w1, w2, w3, w4, w5, w6}. objs h w = Some (WallObj wk)))"

locale maze_parts =
  fixes F :: maze_factory and rk :: "room_class \<Rightarrow> bool" and wk :: wall_class and dk :: door_class
  assumes MakeMaze: "wf_store h \<Longrightarrow> MakeMaze F h = (a, h') \<Longrightarrow> allocates h a (MazeObj Map.empty) h'"
    and MakeRoom: "wf_store h \<Longrightarrow> MakeRoom F n h = (a, h') \<Longrightarrow>
      \<exists>c. rk c \<and> allocates h a (RoomObj c \<lparr>sides = Map.empty, roomNumber = n\<rparr>) h'"
    and MakeWall: "wf_store h \<Longrightarrow> MakeWall F h = (a, h') \<Longrightarrow> allocates h a (WallObj wk) h'"
    and MakeDoor: "wf_store h \<Longrightarrow> MakeDoor F r1 r2 h = (a, h') \<Longrightarrow>
      allocates h a (DoorObj dk \<lparr>room1 = r1, room2 = r2, isOpen = False\<rparr>) h'"

begin

text \<open>
  The state of the construction after the rooms, the door and the maze have been created: \<open>s1\<close> and \<open>s2\<close> are
  the sides that have been set and \<open>ws\<close> the walls so far.
\<close>

definition shape ::
  "store \<Rightarrow> addr \<Rightarrow> addr \<Rightarrow> addr \<Rightarrow> addr \<Rightarrow> room_class \<Rightarrow> room_class \<Rightarrow> (direction \<rightharpoonup> addr) \<Rightarrow> (direction \<rightharpoonup> addr) \<Rightarrow>
    addr list \<Rightarrow> store \<Rightarrow> bool" where
  "shape h0 m r1 r2 d c1 c2 s1 s2 ws h \<longleftrightarrow>
     wf_store h \<and> objs h0 \<subseteq>\<^sub>m objs h \<and> {m, r1, r2, d} \<inter> dom (objs h0) = {} \<and> r1 \<noteq> r2 \<and> rk c1 \<and> rk c2
   \<and> objs h m = Some (MazeObj [1 \<mapsto> r1, 2 \<mapsto> r2])
   \<and> objs h r1 = Some (RoomObj c1 \<lparr>sides = s1, roomNumber = 1\<rparr>)
   \<and> objs h r2 = Some (RoomObj c2 \<lparr>sides = s2, roomNumber = 2\<rparr>)
   \<and> objs h d = Some (DoorObj dk \<lparr>room1 = r1, room2 = r2, isOpen = False\<rparr>)
   \<and> distinct ws \<and> (\<forall>w\<in>set ws. objs h w = Some (WallObj wk))"

lemma shape_set1:
  "shape h0 m r1 r2 d c1 c2 s1 s2 ws h \<Longrightarrow>
    \<exists>h'. SetSide r1 dir w h = Some h' \<and> shape h0 m r1 r2 d c1 c2 (s1(dir \<mapsto> w)) s2 ws h'"
  by (auto simp: shape_def SetSide_def room_at_def wf_store_def map_le_def)

lemma shape_set2:
  "shape h0 m r1 r2 d c1 c2 s1 s2 ws h \<Longrightarrow>
    \<exists>h'. SetSide r2 dir w h = Some h' \<and> shape h0 m r1 r2 d c1 c2 s1 (s2(dir \<mapsto> w)) ws h'"
  by (auto simp: shape_def SetSide_def room_at_def wf_store_def map_le_def)

lemma shape_wall:
  assumes "shape h0 m r1 r2 d c1 c2 s1 s2 ws h" "MakeWall F h = (w, h')"
  shows "shape h0 m r1 r2 d c1 c2 s1 s2 (ws @ [w]) h'"
proof -
  have "allocates h w (WallObj wk) h'"
    using assms MakeWall by (simp add: shape_def)
  then show ?thesis
    using assms(1) by (auto simp: shape_def allocates_def map_le_def dom_def)
qed

lemma shape_start:
  assumes "wf_store h"
    and m: "MakeMaze F h = (m, h1)" and r1: "MakeRoom F 1 h1 = (r1, h2)" and r2: "MakeRoom F 2 h2 = (r2, h3)"
    and d: "MakeDoor F r1 r2 h3 = (d, h4)"
  shows "\<exists>h5 h6 c1 c2. AddRoom m r1 h4 = Some h5 \<and> AddRoom m r2 h5 = Some h6
    \<and> shape h m r1 r2 d c1 c2 Map.empty Map.empty [] h6"
proof -
  have 1: "allocates h m (MazeObj Map.empty) h1"
    using MakeMaze assms(1) m by blast
  then obtain c1 where 2: "rk c1" "allocates h1 r1 (RoomObj c1 \<lparr>sides = Map.empty, roomNumber = 1\<rparr>) h2"
    using MakeRoom r1 by (meson allocates_def)
  then obtain c2 where 3: "rk c2" "allocates h2 r2 (RoomObj c2 \<lparr>sides = Map.empty, roomNumber = 2\<rparr>) h3"
    using MakeRoom r2 by (meson allocates_def)
  then have 4: "allocates h3 d (DoorObj dk \<lparr>room1 = r1, room2 = r2, isOpen = False\<rparr>) h4"
    using MakeDoor d by (meson allocates_def)
  have new: "objs h m = None" "objs h r1 = None" "objs h r2 = None" "objs h d = None"
    using 1 allocates_trans [OF 1 2(2)] allocates_trans [OF allocates_trans [OF 1 2(2)] 3(2)]
      allocates_trans [OF allocates_trans [OF allocates_trans [OF 1 2(2)] 3(2)] 4]
    by (auto simp: allocates_def)
  have le: "objs h \<subseteq>\<^sub>m objs h4" "objs h1 \<subseteq>\<^sub>m objs h4" "objs h2 \<subseteq>\<^sub>m objs h4" "objs h3 \<subseteq>\<^sub>m objs h4" and wf: "wf_store h4"
    using 1 2(2) 3(2) 4 by (auto simp: allocates_def intro: map_le_trans)
  have o: "objs h4 m = Some (MazeObj Map.empty)"
    "objs h4 r1 = Some (RoomObj c1 \<lparr>sides = Map.empty, roomNumber = 1\<rparr>)"
    "objs h4 r2 = Some (RoomObj c2 \<lparr>sides = Map.empty, roomNumber = 2\<rparr>)"
    "objs h4 d = Some (DoorObj dk \<lparr>room1 = r1, room2 = r2, isOpen = False\<rparr>)"
    using map_le_lookup [OF le(2)] map_le_lookup [OF le(3)] map_le_lookup [OF le(4)] 1 2(2) 3(2) 4
    by (simp_all add: allocates_def)
  have ne: "r1 \<noteq> r2" "m \<noteq> r1" "m \<noteq> r2" "m \<noteq> d" "r1 \<noteq> d" "r2 \<noteq> d"
    using o by auto
  show ?thesis
    using o new le(1) wf ne 2(1) 3(1)
    by (auto simp: AddRoom_def GetRoomNo_def maze_at_def room_at_def shape_def wf_store_def map_le_def)
qed

lemma step_wall1:
  assumes "shape h0 m r1 r2 d c1 c2 s1 s2 ws h"
    and "\<And>w h'. shape h0 m r1 r2 d c1 c2 (s1(dir \<mapsto> w)) s2 (ws @ [w]) h' \<Longrightarrow> runs (k h') Q"
  shows "runs (let (w, h) = MakeWall F h in SetSide r1 dir w h \<bind> k) Q"
proof -
  obtain w h' where w: "MakeWall F h = (w, h')" by (cases "MakeWall F h")
  then show ?thesis
    using shape_set1 [OF shape_wall [OF assms(1) w], of dir w] assms(2) by (auto simp: runs_bind)
qed

lemma step_wall2:
  assumes "shape h0 m r1 r2 d c1 c2 s1 s2 ws h"
    and "\<And>w h'. shape h0 m r1 r2 d c1 c2 s1 (s2(dir \<mapsto> w)) (ws @ [w]) h' \<Longrightarrow> runs (k h') Q"
  shows "runs (let (w, h) = MakeWall F h in SetSide r2 dir w h \<bind> k) Q"
proof -
  obtain w h' where w: "MakeWall F h = (w, h')" by (cases "MakeWall F h")
  then show ?thesis
    using shape_set2 [OF shape_wall [OF assms(1) w], of dir w] assms(2) by (auto simp: runs_bind)
qed

lemma step_door1:
  "shape h0 m r1 r2 d c1 c2 s1 s2 ws h \<Longrightarrow>
   (\<And>h'. shape h0 m r1 r2 d c1 c2 (s1(dir \<mapsto> d)) s2 ws h' \<Longrightarrow> runs (k h') Q) \<Longrightarrow>
   runs (SetSide r1 dir d h \<bind> k) Q"
  using shape_set1 [of h0 m r1 r2 d c1 c2 s1 s2 ws h dir d] by (auto simp: runs_bind)

lemma step_door2:
  "shape h0 m r1 r2 d c1 c2 s1 s2 ws h \<Longrightarrow>
   (\<And>h'. shape h0 m r1 r2 d c1 c2 s1 (s2(dir \<mapsto> d)) ws h' \<Longrightarrow> runs (k h') Q) \<Longrightarrow>
   runs (SetSide r2 dir d h \<bind> k) Q"
  using shape_set2 [of h0 m r1 r2 d c1 c2 s1 s2 ws h dir d] by (auto simp: runs_bind)

lemma shape_complete:
  "shape h0 m r1 r2 d c1 c2 [North \<mapsto> w1, East \<mapsto> d, South \<mapsto> w2, West \<mapsto> w3]
     [North \<mapsto> w4, East \<mapsto> w5, South \<mapsto> w6, West \<mapsto> d] [w1, w2, w3, w4, w5, w6] h \<Longrightarrow>
   two_room_maze rk wk dk m h \<and> objs h0 \<subseteq>\<^sub>m objs h"
  unfolding two_room_maze_def shape_def
  by (rule conjI, rule exI [of _ r1], rule exI [of _ r2], rule exI [of _ d], rule exI [of _ c1], rule exI [of _ c2],
      rule exI [of _ w1], rule exI [of _ w2], rule exI [of _ w3], rule exI [of _ w4], rule exI [of _ w5],
      rule exI [of _ w6]) simp_all

text \<open>What \<^verbatim>\<open>CreateMaze\<close> builds with any factory that keeps the contract.\<close>

lemma CreateMaze_layout:
  assumes "wf_store h"
  shows "runs (CreateMaze F h) (\<lambda>(m, h'). two_room_maze rk wk dk m h' \<and> objs h \<subseteq>\<^sub>m objs h')"
proof -
  obtain m h1 where m: "MakeMaze F h = (m, h1)" by (cases "MakeMaze F h")
  obtain r1 h2 where r1: "MakeRoom F 1 h1 = (r1, h2)" by (cases "MakeRoom F 1 h1")
  obtain r2 h3 where r2: "MakeRoom F 2 h2 = (r2, h3)" by (cases "MakeRoom F 2 h2")
  obtain d h4 where d: "MakeDoor F r1 r2 h3 = (d, h4)" by (cases "MakeDoor F r1 r2 h3")
  obtain h5 h6 c1 c2 where a: "AddRoom m r1 h4 = Some h5" "AddRoom m r2 h5 = Some h6"
    and "shape h m r1 r2 d c1 c2 Map.empty Map.empty [] h6"
    using shape_start [OF assms m r1 r2 d] by blast
  then show ?thesis
    unfolding CreateMaze_def m r1 r2 d Let_def [of "(_, _)"] prod.case a Option.bind.bind_lunit
    apply -
    apply (rule step_wall1, assumption)
    apply (rule step_door1, assumption)
    apply (rule step_wall1, assumption)+
    apply (rule step_wall2, assumption)+
    apply (rule step_door2, assumption)
    apply (simp only: runs_Some prod.case append_Nil append_Cons)
    apply (erule shape_complete)
    done
qed

end

interpretation plain_parts: maze_parts MazeFactory "\<lambda>c. c = Room" Wall Door
  by unfold_locales (auto simp: MazeFactory_def new_room_def new_door_def intro: new_obj_allocates)

interpretation bombed_parts: maze_parts BombedMazeFactory "\<lambda>c. c = RoomWithABomb" BombedWall Door
  by unfold_locales
    (auto simp: BombedMazeFactory_def MazeFactory_def new_room_def new_door_def intro: new_obj_allocates)

lemma EnchantedMazeFactory_MakeRoom:
  assumes "wf_store h" "MakeRoom EnchantedMazeFactory n h = (a, h')"
  shows "\<exists>s. allocates h a (RoomObj (EnchantedRoom s) (new_room n)) h'"
proof -
  obtain s h1 where s: "new_obj SpellObj h = (s, h1)" by (cases "new_obj SpellObj h")
  then have 1: "allocates h s SpellObj h1" using assms(1) new_obj_allocates by blast
  moreover have "new_obj (RoomObj (EnchantedRoom s) (new_room n)) h1 = (a, h')"
    using assms(2) s by (simp add: EnchantedMazeFactory_def CastSpell_def)
  ultimately show ?thesis
    using new_obj_allocates allocates_trans by (meson allocates_def)
qed

interpretation enchanted_parts: maze_parts EnchantedMazeFactory "\<lambda>c. \<exists>s. c = EnchantedRoom s" Wall DoorNeedingSpell
proof unfold_locales
  fix h n a h'
  assume "wf_store h" "MakeRoom EnchantedMazeFactory n h = (a, h')"
  then show "\<exists>c. (\<exists>s. c = EnchantedRoom s) \<and> allocates h a (RoomObj c \<lparr>sides = Map.empty, roomNumber = n\<rparr>) h'"
    using EnchantedMazeFactory_MakeRoom unfolding new_room_def by blast
qed (auto simp: EnchantedMazeFactory_def MazeFactory_def new_door_def intro: new_obj_allocates)

section \<open>What the games build\<close>

primrec room_kind :: "factory_class \<Rightarrow> room_class \<Rightarrow> bool" where
  "room_kind Plain = (\<lambda>c. c = Room)"
| "room_kind Bombed = (\<lambda>c. c = RoomWithABomb)"
| "room_kind Enchanted = (\<lambda>c. \<exists>s. c = EnchantedRoom s)"

primrec wall_kind :: "factory_class \<Rightarrow> wall_class" where
  "wall_kind Plain = Wall"
| "wall_kind Bombed = BombedWall"
| "wall_kind Enchanted = Wall"

primrec door_kind :: "factory_class \<Rightarrow> door_class" where
  "door_kind Plain = Door"
| "door_kind Bombed = Door"
| "door_kind Enchanted = DoorNeedingSpell"

lemma methods_layout:
  "wf_store h \<Longrightarrow> runs (CreateMaze (methods c) h) (\<lambda>(m, h').
     two_room_maze (room_kind c) (wall_kind c) (door_kind c) m h' \<and> objs h \<subseteq>\<^sub>m objs h')"
  using plain_parts.CreateMaze_layout bombed_parts.CreateMaze_layout enchanted_parts.CreateMaze_layout
  by (cases c) simp_all

lemma game_is_factory:
  "game_CreateMaze g = CreateMaze \<lparr>MakeMaze = game_MakeMaze g, MakeWall = game_MakeWall g,
     MakeRoom = game_MakeRoom g, MakeDoor = game_MakeDoor g\<rparr>"
  by (simp add: fun_eq_iff game_CreateMaze_def CreateMaze_def)

lemma game_classes:
  "game_CreateMaze MazeGame = CreateMaze (methods Plain)"
  "game_CreateMaze BombedMazeGame = CreateMaze (methods Bombed)"
  by (simp_all add: game_is_factory MazeGame_def BombedMazeGame_def MazeFactory_def BombedMazeFactory_def)

text \<open>Once the factory is chosen, what is registered later does not matter.\<close>

lemma Instance_chosen: "inst s = Some f \<Longrightarrow> Instance s = (Some f, s)"
  by (simp add: Instance_def)

lemma Instance_static: "Instance static_init = (Some Enchanted, static_init\<lparr>inst := Some Enchanted\<rparr>)"
  by (simp add: Instance_def static_init_def Register_def Lookup_def)

lemma single_is_factory:
  "single_CreateMaze s h = (case Instance s of
     (None, s') \<Rightarrow> None
   | (Some f, s') \<Rightarrow> map_option (\<lambda>(m, h'). (m, h', s')) (CreateMaze (methods f) h))"
  by (cases "Instance s"; cases "fst (Instance s)")
    (simp_all add: single_CreateMaze_def CreateMaze_def case_prod_beta Let_def map_conv_bind_option)

inductive registered :: "factories \<Rightarrow> factories \<Rightarrow> bool" where
  registered_refl: "registered s s"
| registered_step: "registered s s' \<Longrightarrow> registered s (Register name f s')"

lemma registered_inst: "registered s s' \<Longrightarrow> inst s' = inst s"
  by (induction rule: registered.induct) (simp_all add: Register_def)

text \<open>
  (C36) Whatever was in memory, \<^verbatim>\<open>CreateMaze\<close> with a plain, bombed or enchanted factory returns a maze of two rooms,
  numbered 1 and 2, that share one closed door on the east side of the first and the west side of the second and
  have six different walls on the other sides; rooms, walls and the door have the classes of the factory, and no
  older object is changed. The game with factory methods builds the same, and so does the singleton
  from the start of the program and however often factories are registered after its first use: it stays with
  the enchanted factory.
\<close>

theorem maze_of_two_rooms:
  assumes "wf_store h" and "registered (static_init\<lparr>inst := Some Enchanted\<rparr>) s"
  shows "runs (CreateMaze (methods c) h) (\<lambda>(m, h').
      two_room_maze (room_kind c) (wall_kind c) (door_kind c) m h' \<and> objs h \<subseteq>\<^sub>m objs h')
    \<and> game_CreateMaze MazeGame h = CreateMaze MazeFactory h
    \<and> game_CreateMaze BombedMazeGame h = CreateMaze BombedMazeFactory h
    \<and> single_CreateMaze static_init h =
      map_option (\<lambda>(m, h'). (m, h', static_init\<lparr>inst := Some Enchanted\<rparr>)) (CreateMaze EnchantedMazeFactory h)
    \<and> single_CreateMaze s h = map_option (\<lambda>(m, h'). (m, h', s)) (CreateMaze EnchantedMazeFactory h)"
  using methods_layout [OF assms(1), of c] registered_inst [OF assms(2)]
  by (simp add: game_classes single_is_factory Instance_static Instance_chosen)

theorem maze_of_two_rooms_witness:
  "runs (CreateMaze (methods Enchanted) empty_store) (\<lambda>(m, h').
      two_room_maze (room_kind Enchanted) (wall_kind Enchanted) (door_kind Enchanted) m h' \<and> objs empty_store \<subseteq>\<^sub>m objs h')"
  using maze_of_two_rooms [OF _ registered_refl, of empty_store Enchanted] by (simp add: wf_store_def empty_store_def)

text \<open>What the programs print. The one with the builder has undefined behaviour before it prints anything.\<close>

lemmas store_simps = new_obj_def AddRoom_def SetSide_def RoomNo_def GetRoomNo_def maze_at_def room_at_def new_room_def new_door_def
  empty_store_def enter_first_def Enter_def

lemma programs_print:
  "abstract_factory_main = Some (''Enter Room With A Bomb'' @ [CHR 0x0A])"
  "factory_method_main = Some (''Enter Room With A Bomb'' @ [CHR 0x0A])"
  "singleton_main = Some (''Enter Enchanted Room'' @ [CHR 0x0A])"
proof -
  show 1: "abstract_factory_main = Some (''Enter Room With A Bomb'' @ [CHR 0x0A])"
    by (simp add: abstract_factory_main_def CreateMaze_def BombedMazeFactory_def MazeFactory_def store_simps)
  then show "factory_method_main = Some (''Enter Room With A Bomb'' @ [CHR 0x0A])"
    by (simp only: factory_method_main_def game_classes methods.simps abstract_factory_main_def)
  show "singleton_main = Some (''Enter Enchanted Room'' @ [CHR 0x0A])"
    by (simp add: singleton_main_def single_is_factory Instance_static CreateMaze_def EnchantedMazeFactory_def
        MazeFactory_def CastSpell_def store_simps)
qed

lemma missing_room_undefined: "maze_at m h = Some rs \<Longrightarrow> rs n = None \<Longrightarrow> RoomNo m n h = None"
  by (simp add: RoomNo_def)

lemma standard_BuildRoom_existing:
  "RoomNo m n h = Some r \<Longrightarrow> r \<noteq> 0 \<Longrightarrow> standard_BuildRoom n (m, h) = Some (m, h)"
  by (simp add: standard_BuildRoom_def)

text \<open>\<^verbatim>\<open>BuildDoor\<close> puts the same new door on the north side of both rooms, next to each other or not.\<close>

lemma standard_BuildDoor_north:
  assumes "wf_store h" "RoomNo m n1 h = Some r1" "RoomNo m n2 h = Some r2"
    "objs h r1 = Some (RoomObj c1 x1)" "objs h r2 = Some (RoomObj c2 x2)"
  shows "runs (standard_BuildDoor n1 n2 (m, h)) (\<lambda>(m', h'). m' = m \<and> (\<exists>d.
    GetSide r1 North h' = Some d \<and> GetSide r2 North h' = Some d \<and> objs h' d = Some (DoorObj Door (new_door r1 r2))))"
proof -
  have "r1 \<noteq> free h" "r2 \<noteq> free h"
    using assms(1,4,5) by (auto simp: wf_store_def)
  then show ?thesis
    using assms(2-5)
    by (auto simp: standard_BuildDoor_def CommonWall_dir_def new_obj_def SetSide_def GetSide_def room_at_def)
qed

text \<open>
  The builder never builds a maze: \<^verbatim>\<open>BuildRoom\<close> asks the maze for the room before it creates it, and
  \<^verbatim>\<open>RoomNo\<close> is undefined for a room that is not there. So \<^verbatim>\<open>CreateMaze\<close> with a \<^verbatim>\<open>StandardMazeBuilder\<close> in any state
  has undefined behaviour, and so has the example program.
\<close>

theorem builder_undefined:
  "builder_CreateMaze StandardMazeBuilder b = None \<and> builder_main = None"
proof -
  have 1: "builder_CreateMaze StandardMazeBuilder b = None" for b
    by (simp add: builder_CreateMaze_def StandardMazeBuilder_def MazeBuilder_def standard_BuildMaze_def
        standard_BuildRoom_def RoomNo_def maze_at_def new_obj_def)
  then show ?thesis
    by (simp add: builder_main_def)
qed

section \<open>Visitors\<close>

text \<open>
  \<^verbatim>\<open>design_patterns/visitors\<close>: a visitor is the record of its two \<^verbatim>\<open>visit\<close> functions (what they print), and
  \<^verbatim>\<open>accept\<close> of a node chooses between them by the class of the node.
\<close>

datatype node = expr | stmt

record visitor =
  visit_expr :: string
  visit_stmt :: string

definition visitor1 :: visitor where
  "visitor1 = \<lparr>visit_expr = ''1-visit expr'' @ [CHR 0x0A], visit_stmt = ''1-visit stmt'' @ [CHR 0x0A]\<rparr>"

definition visitor2 :: visitor where
  "visitor2 = \<lparr>visit_expr = ''2-visit expr'' @ [CHR 0x0A], visit_stmt = ''2-visit stmt'' @ [CHR 0x0A]\<rparr>"

primrec accept :: "node \<Rightarrow> visitor \<Rightarrow> string" where
  "accept expr v = visit_expr v"
| "accept stmt v = visit_stmt v"

lemma accept_dispatch:
  assumes "v \<in> {visitor1, visitor2}" "v' \<in> {visitor1, visitor2}"
  shows "accept n v = accept n' v' \<longleftrightarrow> n = n' \<and> v = v'"
  using assms by (cases n; cases n') (auto simp: visitor1_def visitor2_def)

end
