(* ===== verification/Spec2Isabelle.thy ===== *)
theory Spec2Isabelle
  imports ListHead RbSpec EvSpec WbaStrSpec SkListSpec SkRSpec Slist ConsoleMain TimeAccSpec StopWatch SrcConst
    HttpExample ResetEvent FdAge BevEcho LogFormat Encoding ProgOptions Maze
begin

text \<open>
  A verification of the libraries of this repository: an epoll event loop with its intrusive lists and red-black
  trees, growable strings, two skip lists, a tree container, string and time functions, the source reader of a
  preprocessor, an HTTP client, an event for threads, servers and clients on sockets, logging, program options, character
  encodings and the examples of design patterns. The paths below are relative to \<^verbatim>\<open>src/\<close>.

  \<^bold>\<open>How programs are modelled.\<close> Every function of the code is one definition (a loop is a recursive function of
  its own), written statement by statement on an explicit state that is returned updated. Pointers are 64-bit words
  and memory is a partial map from pointers to structures (\<open>Prelude\<close>); parents and colours of the red-black tree
  share a word as in the code, and counters, flags, sizes and times keep their width where it matters. The
  value \<open>None\<close> stands for undefined behaviour (a bad access, a signed overflow, an index outside an array, a
  variable without a value) and for a loop that does not end: loops are total functions with a measure or
  \<open>partial_function (option)\<close>, never bounded by fuel. A theorem of the form \<open>runs m Q\<close> says that \<open>m\<close> returns and its
  result satisfies \<open>Q\<close>, so it includes memory safety and termination. Whatever the code gets from outside is a
  parameter or an argument: the results of \<^verbatim>\<open>malloc\<close>, \<^verbatim>\<open>rand\<close> and the clock, the system calls of the event loop
  (the record \<open>os\<close>), callbacks, the contents of files, and the completions of the asynchronous operations of
  Boost.Asio; the mutex and the condition variable of Boost are modelled as documented. Libraries that are not here
  (libevent, ICU, Boost.Program_options) are records of functions, and what is documented about them is a locale, which the
  theorems have as a hypothesis and a concrete instance satisfies.

  \<^bold>\<open>Event loop\<close>, \<^verbatim>\<open>network/wba_event\<close>.
  \<^item> \<open>ListHead\<close>: \<^verbatim>\<open>list.h\<close>. Every operation of the circular lists is the list operation that it is meant to be, on lists
    that share memory; iteration ends, also when the current entry is removed. The locale \<open>intrusive_lists\<close> is what
    the event loop relies on.
  \<^item> \<open>RbTree\<close> (the code of \<^verbatim>\<open>rbtree.h\<close> and \<^verbatim>\<open>rbtree.c\<close>), \<open>RbRep\<close> (trees in memory, zippers, rotations), \<open>RbInsert\<close> and
    \<open>RbErase\<close> (the two repair loops simulate functional repairs on zippers), \<open>RbWalk\<close>, \<open>RbSpec\<close>: insertion and removal
    keep the red-black invariant and the order, walking visits the nodes in order, augmentation callbacks see the
    path to the root. The locale \<open>ordered_index\<close> is the contract.
  \<^item> \<open>EvTime\<close>, \<open>EvLoop\<close> (the code of \<^verbatim>\<open>wba_evloop.c\<close>), \<open>EvTimer\<close> (the timer tree; the locale \<open>timer_index\<close> extends
    \<open>ordered_index\<close>), \<open>EvInv\<close> (the invariant that ties flags, lists, tree and counters together), \<open>EvOps\<close>, \<open>EvRun\<close>,
    \<open>EvLife\<close>, \<open>EvSpec\<close>: every state that the interface reaches satisfies the invariant, every operation on it returns,
    and events are scheduled, activated, run and rescheduled exactly as promised.

  \<^bold>\<open>Data structures in C\<close>, \<^verbatim>\<open>c_data_structure\<close>.
  \<^item> \<open>WbaStr\<close>, \<open>WbaStrSpec\<close>: \<^verbatim>\<open>wba_str/wba_str.c\<close>. Contents, capacity and leaks under every behaviour of the allocator;
    appending refines concatenation (locale \<open>appendable\<close>), and the tokens are those of a reference definition.
  \<^item> \<open>SkList\<close>, \<open>SkListRep\<close>, \<open>SkListDel\<close>, \<open>SkListSpec\<close>: \<^verbatim>\<open>skiplist/skiplist.c\<close>, and \<open>SkR\<close>, \<open>SkRSpec\<close>: \<^verbatim>\<open>skiplist/skiplist.r.c\<close>.
    Both implement lists ordered by key for all random heights; \<open>SkChain\<close> has the shared contract, the locale
    \<open>ordered_bag\<close>, interpreted on both; below, both give the same answers to every script of operations.
  \<^item> \<open>Slist\<close>: \<^verbatim>\<open>slist.c\<close>.

  \<^bold>\<open>Containers, strings and times in C++\<close>, \<^verbatim>\<open>cpp_console\<close>.
  \<^item> \<open>StdMap\<close>: \<^verbatim>\<open>std::map\<close> as far as it is used, with the locale \<open>finite_map\<close>.
  \<^item> \<open>Stree\<close>, \<open>StreeSpec\<close>: \<^verbatim>\<open>stree.h\<close>. Building gives the tree whose edges were recorded, in any order; the two
    traversals are preorder and level order. \<open>ConsoleMain\<close>: the program \<^verbatim>\<open>main.cpp\<close> and what printing a tree writes.
  \<^item> \<open>Sstring\<close>, \<open>SstringSpec\<close>: \<^verbatim>\<open>sstring.h\<close> and \<^verbatim>\<open>numeric_traits.h\<close>, with \<^verbatim>\<open>sprintf\<close> and stream extraction for integers in
    the C locale. Splitting, trimming, reading back what is printed, and which values of which types fit the buffers.
  \<^item> \<open>Stime\<close>, \<open>StimeSpec\<close>: \<^verbatim>\<open>stime.h\<close>; \<open>TimeAcc\<close>, \<open>TimeAccSpec\<close>: \<^verbatim>\<open>time_accumulator.h\<close>; \<open>StopWatch\<close>: \<^verbatim>\<open>stop_watch.h\<close> and
    \<^verbatim>\<open>slog.h\<close>. Times of day are parsed back, sums of durations are exact.

  \<^bold>\<open>Preprocessor\<close>, \<^verbatim>\<open>preprocess\<close>. \<open>SrcFile\<close>, \<open>SrcFileSpec\<close>: reading a file into lines of words (with the splitting of
  \<open>Sstring\<close>) and access by index and iterator. \<open>SrcConst\<close>: \<^verbatim>\<open>SrcCIter.cc\<close>, with the contract of both iterators (locale
  \<open>word_iterator\<close>), and \<^verbatim>\<open>CGeneric.cc\<close>.

  \<^bold>\<open>HTTP client\<close>, \<^verbatim>\<open>my_lib/http_client\<close>. \<open>HttpClient\<close> (the code: members, pending operations, one definition per
  handler), \<open>HttpSpec\<close> (the reachable states, when operations complete in any way: one result at most, and never
  without a pending operation before it), \<open>HttpChunks\<close> and \<open>HttpResponse\<close> (complete responses, cut into pieces in any
  way by the network, are decoded correctly). A run there has one completion per entry of a schedule, and the
  theorems hold for every schedule with at least the stated number of entries; the bound of 2 to the 31 bytes
  comes from the \<^verbatim>\<open>int\<close> in \<^verbatim>\<open>handle_read_chunk_size\<close>. \<open>HttpExample\<close>: the request of \<^verbatim>\<open>Source.cpp\<close>, read back by the parser of the
  client.

  \<^bold>\<open>Threads and connections.\<close> \<open>ResetEvent\<close>: \<^verbatim>\<open>my_lib/ManualResetEvent\<close>, all interleavings of threads that set, reset and
  wait. \<open>FdAge\<close>: the set-up and the table of connection times of \<^verbatim>\<open>network/tcp/inet_server.c\<close>. \<open>Echo\<close>: \<^verbatim>\<open>network/unixsock\<close>,
  \<^verbatim>\<open>network/udp\<close> and \<^verbatim>\<open>network/tcp/inet_client.c\<close>, clients and servers together (locale \<open>echo_peer\<close>, which the model of the server
  provides). \<open>BevEcho\<close>: \<^verbatim>\<open>network/libevent/echo_server.c\<close> refines a map of connections, on any library that keeps the contract
  \<open>bufferevents\<close>. The runs there are lists of events, of any length.

  \<^bold>\<open>Small libraries\<close>, \<^verbatim>\<open>my_lib\<close>. \<open>LogFormat\<close>: \<^verbatim>\<open>boost_log\<close> (the format strings against a reference, levels, filters) and
  \<^verbatim>\<open>cpp_console/log_printer.h\<close>. \<open>Encoding\<close>: \<^verbatim>\<open>icu_encoding\<close>, sizes and errors of a conversion; the bound of 64 MB keeps the sizes
  within \<^verbatim>\<open>int\<close>. \<open>ProgOptions\<close>: \<^verbatim>\<open>ProgramOptions\<close>.

  \<^bold>\<open>Design patterns\<close>, \<^verbatim>\<open>design_patterns\<close>. \<open>Maze\<close>: the mazes that the abstract factory, the factory method, the singleton and
  the builder create (locale \<open>maze_parts\<close>, interpreted on each factory), and the visitors.

  \<^bold>\<open>Behaviour that is not what the code means to do\<close> is stated by lemmas next to the properties, for example: events
  of another descriptor in the same slot are activated, waiting times of 25 days wrap, a second waiter of an event is
  never woken, a body that was cut off or has a damaged chunk size counts as complete, a line of more than 255
  bytes ends the reading of a file, a tree of a single node has no root, the builder of mazes asks for a room that
  cannot be there, an empty line blocks the client of a Unix socket, a converted string ends at its first NUL.

  \<^bold>\<open>Not modelled.\<close> Debug output of the event loop; the test programs of the C libraries; error texts of the system
  and the addresses of sockets; the rotation of log files and the attributes that Boost.Log computes; floating-point
  values that are not finite; the scanner specification and the empty classes of the preprocessor; the examples of the standard
  library under \<^verbatim>\<open>cppstdlib_2nd\<close>. They have no state or no algorithm of their own, or consist of calls into
  libraries that are not here.
\<close>

section \<open>Properties that span components\<close>



end
